(* ===== verification/Coring_Prelude.thy ===== *)
theory Coring_Prelude
  imports Main "HOL-Library.Word"
begin

text \<open>
  The prelude of the development: the machine types of the C++ sources, the ways a C++ call
  can end other than by returning, sequencing of such calls, and the generic facts on words,
  lists and masks that the component theories share.

  An assertion is modelled as it behaves in a build with assertions: \<open>assert (e)\<close> with a
  false \<open>e\<close> ends in \<open>Assert_failed\<close>. A read or a write outside the object it belongs to is
  undefined behaviour in C++ and ends in \<open>Out_of_bounds\<close>; a null dereference in \<open>Null_deref\<close>,
  and the use of an object whose lifetime has not begun or has ended in \<open>Undefined_object\<close>.
  Arithmetic on a signed type beyond its range is undefined too and ends in \<open>Signed_overflow\<close>.
\<close>

section \<open>Types\<close>

type_synonym u8 = "8 word"
type_synonym u16 = "16 word"
type_synonym u32 = "32 word"
type_synonym u64 = "64 word"
type_synonym size_t = "64 word"

text \<open>Handles of suspended coroutines (\<open>std::coroutine_handle<>\<close>); only their identity matters.\<close>

type_synonym handle = nat

datatype fault =
    Assert_failed
  | Out_of_bounds
  | Null_deref
  | Undefined_object
  | Signed_overflow
  | Runtime_error string
  | System_error int
  | Eof_error
  | Broken_promise

type_synonym 'a res = "fault + 'a"

text \<open>The values of \<open>long\<close> (64 bits on the platforms the sources support) and arithmetic on them.\<close>

definition LONG_MIN :: int where
  "LONG_MIN = - 9223372036854775808"

definition LONG_MAX :: int where
  "LONG_MAX = 9223372036854775807"

definition in_long :: "int \<Rightarrow> bool" where
  "in_long x \<longleftrightarrow> LONG_MIN \<le> x \<and> x \<le> LONG_MAX"

definition long_res :: "int \<Rightarrow> int res" where
  "long_res x = (if in_long x then Inr x else Inl Signed_overflow)"

text \<open>
  The same for \<open>int\<close>, 32 bits, and the conversion of a wider integer to \<open>int\<close>, which keeps the low
  32 bits.
\<close>

definition int32_res :: "int \<Rightarrow> int res" where
  "int32_res x = (if - 2147483648 \<le> x \<and> x \<le> 2147483647 then Inr x else Inl Signed_overflow)"

definition to_int32 :: "int \<Rightarrow> int" where
  "to_int32 x = sint (word_of_int x :: 32 word)"

lemma to_int32_id: "- 2147483648 \<le> x \<Longrightarrow> x \<le> 2147483647 \<Longrightarrow> to_int32 x = x"
  by (simp add: to_int32_def signed_of_int signed_take_bit_int_eq_self)

section \<open>Sequencing\<close>

definition res_bind :: "'a res \<Rightarrow> ('a \<Rightarrow> 'b res) \<Rightarrow> 'b res" where
  "res_bind m k = (case m of Inl e \<Rightarrow> Inl e | Inr a \<Rightarrow> k a)"

lemma res_bind_simps [simp]:
  "res_bind (Inl e) k = Inl e"
  "res_bind (Inr a) k = k a"
  by (simp_all add: res_bind_def)

lemma res_bind_Inr_iff:
  "res_bind m k = Inr b \<longleftrightarrow> (\<exists>a. m = Inr a \<and> k a = Inr b)"
  by (cases m) auto

text \<open>The same for calls that may also never return, which is \<open>None\<close>.\<close>

definition ores_bind :: "'a res option \<Rightarrow> ('a \<Rightarrow> 'b res option) \<Rightarrow> 'b res option" where
  "ores_bind m k = (case m of None \<Rightarrow> None | Some (Inl e) \<Rightarrow> Some (Inl e) | Some (Inr a) \<Rightarrow> k a)"

lemma ores_bind_simps [simp]:
  "ores_bind None k = None"
  "ores_bind (Some (Inl e)) k = Some (Inl e)"
  "ores_bind (Some (Inr a)) k = k a"
  by (simp_all add: ores_bind_def)

text \<open>Loops that use it in their body are monotone, as \<open>partial_function\<close> requires.\<close>

lemma ores_bind_mono [partial_function_mono]:
  fixes B :: "('x \<Rightarrow> 'y option) \<Rightarrow> 'a res option"
  assumes "mono_option B" and "\<And>y. mono_option (\<lambda>f. C y f)"
  shows "mono_option (\<lambda>f. ores_bind (B f) (\<lambda>y. C y f))"
proof (rule monotoneI)
  fix f g :: "'x \<Rightarrow> 'y option"
  assume fg: "fun_ord option_ord f g"
  have B: "B f = None \<or> B f = B g" and C: "\<And>y. C y f = None \<or> C y f = C y g"
    using monotoneD [OF assms(1), of f g] monotoneD [OF assms(2), of f g] fg
    by (simp_all add: flat_ord_def)
  show "option_ord (ores_bind (B f) (\<lambda>y. C y f)) (ores_bind (B g) (\<lambda>y. C y g))"
  proof (cases "B f")
    case (Some r)
    then have "B g = Some r" using B by simp
    then show ?thesis using Some C by (cases r) (simp_all add: flat_ord_def)
  qed (simp add: flat_ord_def)
qed

lemma ores_bind_Inr_iff:
  "ores_bind m k = Some (Inr b) \<longleftrightarrow> (\<exists>a. m = Some (Inr a) \<and> k a = Some (Inr b))"
  by (auto simp: ores_bind_def split: option.splits sum.splits)

section \<open>Rule collections\<close>

named_theorems buf_simps \<open>index arithmetic and accessors of the byte buffers\<close>
named_theorems heap_simps \<open>reads after writes in the skip list's heap\<close>

section \<open>Words\<close>

lemma unat_lt64 [simp]: "unat (x :: u64) < 18446744073709551616"
  using unsigned_less [of x, where 'a = nat] by simp

lemma of_nat_less_u64:
  "n < 18446744073709551616 \<Longrightarrow> unat (of_nat n :: u64) = n"
  by (simp add: unat_of_nat take_bit_eq_mod)

lemma unat_add_u64:
  "unat (a + b :: u64) = (unat a + unat b) mod 18446744073709551616"
  by (simp add: unat_word_ariths)

lemma unat_add_le_u64:
  "unat a + n < 18446744073709551616 \<Longrightarrow> unat (a + of_nat n :: u64) = unat a + n"
  by (simp add: unat_add_u64 of_nat_less_u64)

lemma unat_add_within:
  assumes "unat a + unat b \<le> unat (c :: u64)"
  shows "unat (a + b :: u64) = unat a + unat b"
  using assms unat_lt64 [of c] unat_add_le_u64 [of a "unat b"] by (simp del: unat_lt64)

lemma unat_sub_u64:
  "(b :: u64) \<le> a \<Longrightarrow> unat (a - b) = unat a - unat b"
  by (simp add: unat_sub)

lemma unat_eq_iff_u64: "(a :: u64) = b \<longleftrightarrow> unat a = unat b"
  by (simp add: word_unat_eq_iff)

text \<open>A mask of \<open>k\<close> low bits reads a word modulo \<open>2 ^ k\<close>.\<close>

lemma unat_and_mask:
  fixes x :: "'a::len word"
  shows "unat (and x (2 ^ k - 1)) = unat x mod 2 ^ k"
proof -
  have "and x (2 ^ k - 1) = take_bit k x"
    by (simp add: take_bit_eq_mask mask_eq_exp_minus_1)
  then have "unat (and x (2 ^ k - 1)) = take_bit k (unat x)"
    by (simp only: unsigned_take_bit_eq)
  then show ?thesis
    by (simp only: take_bit_eq_mod)
qed

lemma mod_pow2_of_mod_pow64:
  "k \<le> 64 \<Longrightarrow> (n mod 18446744073709551616) mod 2 ^ k = n mod (2 ^ k :: nat)"
  using mod_mod_cancel [of "2 ^ k :: nat" "2 ^ 64" n] le_imp_power_dvd [of k 64 "2 :: nat"]
  by simp

section \<open>Step relations\<close>

lemma rtranclp_invariant:
  assumes "step\<^sup>*\<^sup>* s s'" and "I s" and "\<And>s s'. step s s' \<Longrightarrow> I s \<Longrightarrow> I s'"
  shows "I s'"
  using assms by (induction rule: rtranclp_induct) auto

text \<open>In a deterministic system every run is a part of the run that ends.\<close>

lemma rtranclp_deterministic_end:
  assumes "step\<^sup>*\<^sup>* s d" and "step\<^sup>*\<^sup>* s c" and "\<And>c c1 c2. step c c1 \<Longrightarrow> step c c2 \<Longrightarrow> c1 = c2"
    and "\<And>x. \<not> step d x"
  shows "step\<^sup>*\<^sup>* c d"
  using assms(2,1)
proof (induction rule: rtranclp_induct)
  case (step y z)
  from step.IH [OF step.prems] show ?case
    by (cases rule: converse_rtranclpE) (use step.hyps assms(3,4) in blast)+
qed

section \<open>Lists\<close>

lemma drop_min_length: "drop (min n (length xs)) xs = drop n xs"
  by (simp add: min_def)

lemma nth_map_upt0: "i < n \<Longrightarrow> map f [0..<n] ! i = f i"
  by simp

lemma last_Cons_append: "last (a # xs @ y # ys) = last (y # ys)"
  by simp

lemma list_update_take_beyond: "n \<le> i \<Longrightarrow> take n (xs[i := v]) = take n xs"
  by simp

lemma map_upt_shift: "map f [m..<m + n] = map (\<lambda>i. f (m + i)) [0..<n]"
  by (induction n) simp_all

lemma map_upt_snoc: "map f [0..<Suc n] = map f [0..<n] @ [f n]"
  by simp

lemma map_upt_Cons: "map f [0..<Suc n] = f 0 # map (\<lambda>i. f (Suc i)) [0..<n]"
  by (simp add: upt_conv_Cons map_Suc_upt [symmetric] del: upt_Suc)

end
