(* ===== verification/Contracts.thy ===== *)
theory Contracts
  imports Coring_Prelude "HOL-Library.Multiset"
begin

text \<open>
  The interfaces between components, as locales: what a client relies on, stated over an
  abstraction of the provider's state, and what follows for the client. Each locale is
  interpreted on the model's own operations in the theory of the component that provides them.
\<close>

section \<open>A bounded first-in first-out queue\<close>

datatype 'a queue_op = Enq 'a | Deq | Drain

text \<open>
  A client that runs a list of operations, collects what the queue accepted and what the
  queue delivered, and stops at the first fault.
\<close>

fun queue_run ::
  "('a \<Rightarrow> 'q \<Rightarrow> (bool \<times> 'q) res) \<Rightarrow> ('q \<Rightarrow> ('a option \<times> 'q) res) \<Rightarrow>
   ('a list \<Rightarrow> 'q \<Rightarrow> (bool \<times> 'a list \<times> 'q) res) \<Rightarrow>
   'a queue_op list \<Rightarrow> 'a list \<Rightarrow> 'a list \<Rightarrow> 'q \<Rightarrow> ('a list \<times> 'a list \<times> 'q) res" where
  "queue_run enq deq drain [] acc del q = Inr (acc, del, q)"
| "queue_run enq deq drain (Enq x # ops) acc del q =
     (case enq x q of
        Inl e \<Rightarrow> Inl e
      | Inr (b, q') \<Rightarrow> queue_run enq deq drain ops (if b then acc @ [x] else acc) del q')"
| "queue_run enq deq drain (Deq # ops) acc del q =
     (case deq q of
        Inl e \<Rightarrow> Inl e
      | Inr (None, q') \<Rightarrow> queue_run enq deq drain ops acc del q'
      | Inr (Some x, q') \<Rightarrow> queue_run enq deq drain ops acc (del @ [x]) q')"
| "queue_run enq deq drain (Drain # ops) acc del q =
     (case drain del q of
        Inl e \<Rightarrow> Inl e
      | Inr (b, del', q') \<Rightarrow> queue_run enq deq drain ops acc del' q')"

locale bounded_queue =
  fixes inv :: "'q \<Rightarrow> bool"
    and elems :: "'q \<Rightarrow> 'a list"
    and room :: "'q \<Rightarrow> nat"
    and enq :: "'a \<Rightarrow> 'q \<Rightarrow> (bool \<times> 'q) res"
    and deq :: "'q \<Rightarrow> ('a option \<times> 'q) res"
    and drain :: "'a list \<Rightarrow> 'q \<Rightarrow> (bool \<times> 'a list \<times> 'q) res"
  assumes bounded: "inv q \<Longrightarrow> length (elems q) \<le> room q"
    and enq_accepts: "inv q \<Longrightarrow> length (elems q) < room q \<Longrightarrow>
      \<exists>q'. enq x q = Inr (True, q') \<and> inv q' \<and> elems q' = elems q @ [x]"
    and enq_refuses: "inv q \<Longrightarrow> length (elems q) = room q \<Longrightarrow> enq x q = Inr (False, q)"
    and deq_empty: "inv q \<Longrightarrow> elems q = [] \<Longrightarrow> deq q = Inr (None, q)"
    and deq_first: "inv q \<Longrightarrow> elems q = x # xs \<Longrightarrow>
      \<exists>q'. deq q = Inr (Some x, q') \<and> inv q' \<and> elems q' = xs"
    and drain_all: "inv q \<Longrightarrow>
      \<exists>q'. drain v q = Inr (elems q \<noteq> [], v @ elems q, q') \<and> inv q' \<and> elems q' = []"
    and enq_room: "enq x q = Inr (b, q') \<Longrightarrow> room q' = room q"
    and deq_room: "deq q = Inr (y, q') \<Longrightarrow> room q' = room q"
    and drain_room: "drain v q = Inr (b, v', q') \<Longrightarrow> room q' = room q"
begin

lemma run_room:
  "queue_run enq deq drain ops acc del q = Inr (acc', del', q') \<Longrightarrow> room q' = room q"
proof (induction ops arbitrary: acc del q)
  case (Cons op ops)
  then show ?case
    by (cases op) (auto split: sum.splits option.splits dest!: enq_room deq_room drain_room)
qed simp

lemma enq_cases:
  assumes "inv q"
  shows "\<exists>b q'. enq x q = Inr (b, q') \<and> inv q' \<and>
    elems q' = elems q @ (if b then [x] else []) \<and> (b \<longleftrightarrow> length (elems q) < room q)"
  using assms enq_accepts [of q x] enq_refuses [of q x] bounded [of q]
  by (cases "length (elems q) < room q") auto

text \<open>
  However the operations are mixed, nothing faults and no accepted element is lost,
  duplicated or reordered: what was accepted is what was delivered followed by what is
  still in the queue.
\<close>

lemma run_fifo:
  assumes "inv q" and "acc = del @ elems q"
  shows "\<exists>del' q'. queue_run enq deq drain ops acc del q = Inr (del' @ elems q', del', q') \<and> inv q'"
  using assms
proof (induction ops arbitrary: acc del q)
  case Nil
  then show ?case by auto
next
  case (Cons op ops)
  note inv = Cons.prems(1) and acc = Cons.prems(2)
  show ?case
  proof (cases op)
    case (Enq x)
    obtain b q' where "enq x q = Inr (b, q')" and q': "inv q'"
      and el: "elems q' = elems q @ (if b then [x] else [])"
      using enq_cases [OF inv, of x] by blast
    then show ?thesis
      using Cons.IH [OF q', of "if b then acc @ [x] else acc" del] Enq acc by (cases b) simp_all
  next
    case Deq
    show ?thesis
    proof (cases "elems q")
      case Nil
      then show ?thesis
        using Cons.IH [OF inv acc] Deq deq_empty [OF inv] by simp
    next
      case (Cons y ys)
      then obtain q' where "deq q = Inr (Some y, q')" and q': "inv q'" and "elems q' = ys"
        using deq_first [OF inv] by blast
      then show ?thesis
        using Cons.IH [OF q', of acc "del @ [y]"] Deq acc Cons by simp
    qed
  next
    case Drain
    obtain q' where "drain del q = Inr (elems q \<noteq> [], del @ elems q, q')" and q': "inv q'"
      and "elems q' = []"
      using drain_all [OF inv, of del] by blast
    then show ?thesis
      using Cons.IH [OF q', of acc "del @ elems q"] Drain acc by simp
  qed
qed

end

section \<open>A byte buffer that is filled in chunks\<close>

fun push_chunks :: "(char list \<Rightarrow> 'b \<Rightarrow> 'b res) \<Rightarrow> char list list \<Rightarrow> 'b \<Rightarrow> 'b res" where
  "push_chunks push [] b = Inr b"
| "push_chunks push (c # cs) b = res_bind (push c b) (push_chunks push cs)"

text \<open>
  \<open>compact\<close> says that the readable bytes start at the front of the buffer, and \<open>fits n\<close> that \<open>n\<close>
  more bytes can be accepted.
\<close>

locale byte_buffer =
  fixes inv :: "'b \<Rightarrow> bool"
    and bytes :: "'b \<Rightarrow> char list"
    and compact :: "'b \<Rightarrow> bool"
    and fits :: "nat \<Rightarrow> 'b \<Rightarrow> bool"
    and push :: "char list \<Rightarrow> 'b \<Rightarrow> 'b res"
    and take_all :: "'b \<Rightarrow> (char list \<times> 'b) res"
  assumes fits_less: "fits n b \<Longrightarrow> m \<le> n \<Longrightarrow> fits m b"
    and push_appends: "inv b \<Longrightarrow> compact b \<Longrightarrow> fits (length bs) b \<Longrightarrow>
      \<exists>b'. push bs b = Inr b' \<and> inv b' \<and> compact b' \<and> bytes b' = bytes b @ bs \<and>
        (\<forall>n. fits (length bs + n) b \<longrightarrow> fits n b')"
    and take_all_empties: "inv b \<Longrightarrow>
      \<exists>b'. take_all b = Inr (bytes b, b') \<and> inv b' \<and> compact b' \<and> bytes b' = []"
begin

lemma push_chunks_appends:
  assumes "inv b" and "compact b" and "fits (length (concat cs)) b"
  shows "\<exists>b'. push_chunks push cs b = Inr b' \<and> inv b' \<and> compact b' \<and>
    bytes b' = bytes b @ concat cs"
  using assms
proof (induction cs arbitrary: b)
  case Nil
  then show ?case by simp
next
  case (Cons c cs)
  have fit: "fits (length c + length (concat cs)) b" using Cons.prems(3) by simp
  then have "fits (length c) b" using fits_less by simp
  with Cons.prems obtain b1 where b1: "push c b = Inr b1" "inv b1" "compact b1"
    "bytes b1 = bytes b @ c" "fits (length (concat cs)) b1"
    using push_appends [of b c] fit by blast
  then show ?case using Cons.IH [OF b1(2,3,5)] by auto
qed

text \<open>Bytes pushed in any chunks come out once, whole and in order.\<close>

lemma chunks_roundtrip:
  assumes "inv b" and "compact b" and "bytes b = []" and "fits (length (concat cs)) b"
  shows "\<exists>b'. res_bind (push_chunks push cs b) take_all = Inr (concat cs, b') \<and>
    inv b' \<and> bytes b' = []"
  using push_chunks_appends [OF assms(1,2,4)] take_all_empties assms(3) by fastforce

end

section \<open>A queue of deadlines\<close>

text \<open>
  A multimap ordered by key. A new entry goes before the entries with the same key, and
  \<open>expired k\<close> are the entries with a key of at most \<open>k\<close>.
\<close>

definition ins_entry :: "'k::linorder \<Rightarrow> 'v \<Rightarrow> ('k \<times> 'v) list \<Rightarrow> ('k \<times> 'v) list" where
  "ins_entry k v es = takeWhile (\<lambda>e. fst e < k) es @ (k, v) # dropWhile (\<lambda>e. fst e < k) es"

lemma sorted_split_filter:
  fixes es :: "('k::linorder \<times> 'v) list"
  assumes "sorted (map fst es)"
  shows "takeWhile (\<lambda>e. fst e \<le> k) es = filter (\<lambda>e. fst e \<le> k) es \<and>
    dropWhile (\<lambda>e. fst e \<le> k) es = filter (\<lambda>e. k < fst e) es"
  using assms
proof (induction es)
  case (Cons e es)
  have "filter (\<lambda>e. fst e \<le> k) es = []" "filter (\<lambda>e. k < fst e) es = es" if "\<not> fst e \<le> k"
    using that Cons.prems by (fastforce simp: filter_empty_conv filter_id_conv)+
  then show ?case using Cons by auto
qed simp

lemmas sorted_takeWhile_filter = sorted_split_filter [THEN conjunct1] sorted_split_filter [THEN conjunct2]

lemma length_ins_entry: "length (ins_entry k v es) = Suc (length es)"
proof -
  have "length (takeWhile (\<lambda>e. fst e < k) es) + length (dropWhile (\<lambda>e. fst e < k) es) = length es"
    by (simp flip: length_append)
  then show ?thesis by (simp add: ins_entry_def)
qed

lemma mset_ins_entry: "mset (ins_entry k v es) = add_mset (k, v) (mset es)"
  unfolding ins_entry_def using takeWhile_dropWhile_id [of "\<lambda>e. fst e < k" es]
  by (metis mset.simps(2) mset_append union_mset_add_mset_right)

locale deadline_queue =
  fixes rep :: "'s \<Rightarrow> ('k::linorder \<times> 'v) list \<Rightarrow> bool"
    and top :: 'k
    and fresh :: "'r \<Rightarrow> 's \<Rightarrow> bool"
    and insert :: "'r \<Rightarrow> 'k \<Rightarrow> 'v \<Rightarrow> 's \<Rightarrow> 's res option"
    and pop :: "'k \<Rightarrow> 's \<Rightarrow> ('v list \<times> 's) res option"
  assumes rep_sorted: "rep s es \<Longrightarrow> sorted (map fst es)"
    and insert_rep: "rep s es \<Longrightarrow> fresh r s \<Longrightarrow> k \<le> top \<Longrightarrow>
      \<exists>s'. insert r k v s = Some (Inr s') \<and> rep s' (ins_entry k v es)"
    and pop_rep: "rep s es \<Longrightarrow> k < top \<Longrightarrow>
      \<exists>s'. pop k s = Some (Inr (map snd (takeWhile (\<lambda>e. fst e \<le> k) es), s')) \<and>
        rep s' (dropWhile (\<lambda>e. fst e \<le> k) es)"
begin

text \<open>A pop delivers every entry that is due and no other, and leaves the rest.\<close>

lemma pop_exactly_due:
  assumes "rep s es" and "k < top"
  shows "\<exists>s'. pop k s = Some (Inr (map snd (filter (\<lambda>e. fst e \<le> k) es), s')) \<and>
    rep s' (filter (\<lambda>e. k < fst e) es)"
  using pop_rep [OF assms] sorted_takeWhile_filter [OF rep_sorted [OF assms(1)], of k] by simp

text \<open>An entry inserted with a deadline of at most \<open>j\<close> is delivered by the next pop up to \<open>j\<close>.\<close>

lemma insert_then_pop:
  assumes "rep s es" and "fresh r s" and "k \<le> j" and "j < top"
  shows "\<exists>s' vs s''. insert r k v s = Some (Inr s') \<and> pop j s' = Some (Inr (vs, s'')) \<and>
    mset vs = add_mset v (mset (map snd (filter (\<lambda>e. fst e \<le> j) es))) \<and>
    (\<exists>es'. rep s'' es' \<and> mset es' = filter_mset (\<lambda>e. j < fst e) (mset es))"
proof -
  have "k \<le> top" using assms(3,4) by simp
  then obtain s' where s': "insert r k v s = Some (Inr s')" "rep s' (ins_entry k v es)"
    using insert_rep [OF assms(1,2)] by blast
  obtain s'' where "pop j s' = Some (Inr (map snd (filter (\<lambda>e. fst e \<le> j) (ins_entry k v es)), s''))"
    "rep s'' (filter (\<lambda>e. j < fst e) (ins_entry k v es))"
    using pop_exactly_due [OF s'(2) assms(4)] by blast
  moreover have "mset (map snd (filter (\<lambda>e. fst e \<le> j) (ins_entry k v es))) =
      add_mset v (mset (map snd (filter (\<lambda>e. fst e \<le> j) es)))"
    "mset (filter (\<lambda>e. j < fst e) (ins_entry k v es)) = filter_mset (\<lambda>e. j < fst e) (mset es)"
    using assms(3) by (simp_all add: mset_ins_entry)
  ultimately show ?thesis using s'(1) by blast
qed

end

section \<open>Waiting for a number of completions\<close>

text \<open>
  A counter that starts at the number of operations plus one for the coroutine that waits. The
  waiting coroutine registers once; it stays suspended when the answer is true.
\<close>

datatype join_op = Finish | Register handle

fun join_run ::
  "(handle \<Rightarrow> 's \<Rightarrow> bool \<times> 's) \<Rightarrow> ('s \<Rightarrow> (handle option \<times> 's) res) \<Rightarrow>
   join_op list \<Rightarrow> 's \<Rightarrow> (handle list \<times> 's) res" where
  "join_run register finish [] s = Inr ([], s)"
| "join_run register finish (Finish # ops) s =
     res_bind (finish s) (\<lambda>(r, s).
     res_bind (join_run register finish ops s) (\<lambda>(rs, s).
       Inr ((case r of None \<Rightarrow> rs | Some h \<Rightarrow> h # rs), s)))"
| "join_run register finish (Register h # ops) s =
     (let (suspended, s) = register h s
      in res_bind (join_run register finish ops s) (\<lambda>(rs, s).
           Inr (if suspended then rs else h # rs, s)))"

locale join_counter =
  fixes pending :: "'s \<Rightarrow> nat"
    and cont :: "'s \<Rightarrow> handle option"
    and register :: "handle \<Rightarrow> 's \<Rightarrow> bool \<times> 's"
    and finish :: "'s \<Rightarrow> (handle option \<times> 's) res"
  assumes register_counts: "0 < pending s \<Longrightarrow>
      \<exists>s'. register h s = (1 < pending s, s') \<and> pending s' = pending s - 1 \<and> cont s' = Some h"
    and finish_more: "1 < pending s \<Longrightarrow>
      \<exists>s'. finish s = Inr (None, s') \<and> pending s' = pending s - 1 \<and> cont s' = cont s"
    and finish_last: "pending s = 1 \<Longrightarrow> cont s = Some h \<Longrightarrow>
      \<exists>s'. finish s = Inr (Some h, s') \<and> pending s' = 0 \<and> cont s' = Some h"
begin

lemma join_run_append:
  "join_run register finish (xs @ ys) s =
    res_bind (join_run register finish xs s) (\<lambda>(rs, s).
    res_bind (join_run register finish ys s) (\<lambda>(rs', s). Inr (rs @ rs', s)))"
proof (induction xs arbitrary: s)
  case Nil
  then show ?case by (simp add: res_bind_def split: sum.splits)
next
  case (Cons x xs)
  then show ?case
    by (cases x) (auto simp: res_bind_def Let_def split: sum.splits prod.splits option.splits)
qed

lemma finishes_quiet:
  "n < pending s \<Longrightarrow> \<exists>s'. join_run register finish (replicate n Finish) s = Inr ([], s') \<and>
    pending s' = pending s - n \<and> cont s' = cont s"
proof (induction n arbitrary: s)
  case (Suc n)
  then obtain s1 where s1: "finish s = Inr (None, s1)" "pending s1 = pending s - 1" "cont s1 = cont s"
    using finish_more [of s] by auto
  then have "n < pending s1" using Suc.prems by simp
  from Suc.IH [OF this] show ?case using s1 by auto
qed simp

lemma finishes_wake:
  assumes "0 < pending s" and "cont s = Some h"
  shows "\<exists>s'. join_run register finish (replicate (pending s) Finish) s = Inr ([h], s') \<and> pending s' = 0"
proof -
  obtain n where n: "pending s = Suc n" using assms(1) by (cases "pending s") auto
  then obtain s1 where s1: "join_run register finish (replicate n Finish) s = Inr ([], s1)"
    "pending s1 = 1" "cont s1 = Some h"
    using finishes_quiet [of n s] assms(2) by auto
  then obtain s' where "finish s1 = Inr (Some h, s')" "pending s' = 0" using finish_last by blast
  then have "join_run register finish (replicate n Finish @ [Finish]) s = Inr ([h], s')"
    using s1(1) by (simp add: join_run_append)
  then show ?thesis using n \<open>pending s' = 0\<close> by (metis replicate_append_same replicate_Suc)
qed

text \<open>
  Whatever the moment of the registration among the completions, the waiting coroutine goes on
  exactly once, and not before everything has completed.
\<close>

lemma join_once:
  assumes "pending s = Suc (i + j)"
  shows "\<exists>s'. join_run register finish (replicate i Finish @ Register h # replicate j Finish) s =
    Inr ([h], s') \<and> pending s' = 0"
proof -
  obtain s1 where s1: "join_run register finish (replicate i Finish) s = Inr ([], s1)" "pending s1 = Suc j"
    using finishes_quiet [of i s] assms by auto
  obtain s2 where s2: "register h s1 = (0 < j, s2)" "pending s2 = j" "cont s2 = Some h"
    using register_counts [of s1 h] s1(2) by auto
  show ?thesis
  proof (cases "j = 0")
    case True
    then show ?thesis using s1 s2 by (simp add: join_run_append)
  next
    case False
    then obtain s3 where "join_run register finish (replicate j Finish) s2 = Inr ([h], s3)" "pending s3 = 0"
      using finishes_wake [of s2 h] s2 by auto
    then show ?thesis using s1 s2 False by (simp add: join_run_append)
  qed
qed

lemma join_not_before:
  assumes "Suc (i + j) < pending s"
  shows "\<exists>s'. join_run register finish (replicate i Finish @ Register h # replicate j Finish) s = Inr ([], s')"
proof -
  obtain s1 where s1: "join_run register finish (replicate i Finish) s = Inr ([], s1)" "pending s1 = pending s - i"
    using finishes_quiet [of i s] assms by auto
  obtain s2 where s2: "register h s1 = (True, s2)" "pending s2 = pending s - i - 1"
    using register_counts [of s1 h] s1(2) assms by auto
  have "j < pending s2" using s2(2) assms by simp
  then obtain s3 where "join_run register finish (replicate j Finish) s2 = Inr ([], s3)"
    using finishes_quiet [of j s2] by blast
  then show ?thesis using s1 s2 by (simp add: join_run_append)
qed

end

text \<open>With operations that can also be added while others are running.\<close>

datatype scope_op = Spawn | Finished | Join handle

fun scope_run ::
  "('s \<Rightarrow> 's res) \<Rightarrow> (handle \<Rightarrow> 's \<Rightarrow> bool \<times> 's) \<Rightarrow> ('s \<Rightarrow> (handle option \<times> 's) res) \<Rightarrow>
   scope_op list \<Rightarrow> 's \<Rightarrow> (handle list \<times> 's) res" where
  "scope_run start register finish [] s = Inr ([], s)"
| "scope_run start register finish (Spawn # ops) s =
     res_bind (start s) (scope_run start register finish ops)"
| "scope_run start register finish (Finished # ops) s =
     res_bind (finish s) (\<lambda>(r, s).
     res_bind (scope_run start register finish ops s) (\<lambda>(rs, s).
       Inr ((case r of None \<Rightarrow> rs | Some h \<Rightarrow> h # rs), s)))"
| "scope_run start register finish (Join h # ops) s =
     (let (suspended, s) = register h s
      in res_bind (scope_run start register finish ops s) (\<lambda>(rs, s).
           Inr (if suspended then rs else h # rs, s)))"

text \<open>
  A use of the scope that keeps its rules: what finishes was started, there is one join, and
  nothing is started once the scope is joined and all has finished. \<open>n\<close> operations are running;
  \<open>j\<close> says that the scope was joined.
\<close>

fun scope_ok :: "nat \<Rightarrow> bool \<Rightarrow> scope_op list \<Rightarrow> bool" where
  "scope_ok n j [] = True"
| "scope_ok n j (Spawn # ops) = ((j \<longrightarrow> 0 < n) \<and> scope_ok (Suc n) j ops)"
| "scope_ok n j (Finished # ops) = (0 < n \<and> scope_ok (n - 1) j ops)"
| "scope_ok n j (Join h # ops) = (\<not> j \<and> scope_ok n True ops)"

fun scope_end :: "nat \<Rightarrow> handle option \<Rightarrow> scope_op list \<Rightarrow> nat \<times> handle option" where
  "scope_end n j [] = (n, j)"
| "scope_end n j (Spawn # ops) = scope_end (Suc n) j ops"
| "scope_end n j (Finished # ops) = scope_end (n - 1) j ops"
| "scope_end n j (Join h # ops) = scope_end n (Some h) ops"

definition woken :: "nat \<times> handle option \<Rightarrow> handle list" where
  "woken e = (case e of (n, j) \<Rightarrow> if n = 0 then (case j of None \<Rightarrow> [] | Some h \<Rightarrow> [h]) else [])"

locale join_scope = join_counter +
  fixes start :: "'a \<Rightarrow> 'a res" and limit :: nat
  assumes start_counts: "0 < pending s \<Longrightarrow> pending s < limit \<Longrightarrow>
      \<exists>s'. start s = Inr s' \<and> pending s' = Suc (pending s) \<and> cont s' = cont s"
begin

text \<open>A scope that is joined and at rest has nothing left to do.\<close>

lemma scope_ok_rest: "scope_ok 0 True ops \<Longrightarrow> ops = []"
  by (induction ops rule: list.induct) (auto elim: scope_ok.elims)

lemma scope_wakes:
  "pending s = n + (if j = None then 1 else 0) \<Longrightarrow> (j \<noteq> None \<longrightarrow> cont s = j \<and> 0 < n) \<Longrightarrow>
    scope_ok n (j \<noteq> None) ops \<Longrightarrow> n + length ops < limit \<Longrightarrow>
    \<exists>s'. scope_run start register finish ops s = Inr (woken (scope_end n j ops), s')"
proof (induction ops arbitrary: s n j)
  case Nil
  then show ?case by (cases j) (auto simp: woken_def)
next
  case (Cons op ops)
  show ?case
  proof (cases op)
    case Spawn
    then obtain s1 where "start s = Inr s1" "pending s1 = Suc (pending s)" "cont s1 = cont s"
      using start_counts [of s] Cons.prems by (cases j) auto
    then show ?thesis using Cons.IH [of s1 "Suc n" j] Cons.prems Spawn by auto
  next
    case Finished
    show ?thesis
    proof (cases "j \<noteq> None \<and> n = 1")
      case True
      then obtain h where h: "j = Some h" by auto
      then have "ops = []" using Cons.prems True Finished scope_ok_rest by auto
      then show ?thesis using finish_last [of s h] Cons.prems h True Finished by (auto simp: woken_def)
    next
      case False
      then obtain s1 where "finish s = Inr (None, s1)" "pending s1 = pending s - 1" "cont s1 = cont s"
        using finish_more [of s] Cons.prems Finished by (cases j) auto
      moreover have "pending s1 = n - 1 + (if j = None then 1 else 0)" "n - 1 + length ops < limit"
        "j \<noteq> None \<longrightarrow> cont s1 = j \<and> 0 < n - 1" "scope_ok (n - 1) (j \<noteq> None) ops"
        using calculation Cons.prems Finished False by auto
      from Cons.IH [OF this(1,3,4,2)] obtain s' where
        "scope_run start register finish ops s1 = Inr (woken (scope_end (n - 1) j ops), s')" by blast
      ultimately show ?thesis using Finished by simp
    qed
  next
    case (Join h)
    then have j: "j = None" using Cons.prems by auto
    then obtain s1 where s1: "register h s = (0 < n, s1)" "pending s1 = n" "cont s1 = Some h"
      using register_counts [of s h] Cons.prems by auto
    show ?thesis
    proof (cases "n = 0")
      case True
      then have "ops = []" using Cons.prems Join scope_ok_rest by auto
      then show ?thesis using s1 True Join by (auto simp: woken_def)
    next
      case False
      then show ?thesis using Cons.IH [of s1 n "Some h"] Cons.prems Join s1 by auto
    qed
  qed
qed

end

end
