(* ===== verification/Spsc_Ring.thy ===== *)
theory Spsc_Ring
  imports Contracts
begin

text \<open>
  The bounded single-producer single-consumer ring of the logging module
  (\<^verbatim>\<open>include/coring/detail/logging/spsc_ring.hpp\<close>).

  A member \<^verbatim>\<open>x_\<close> of the class is the field \<open>r_x\<close> here.
  The indices \<open>r_index_write\<close> and \<open>r_index_read\<close> are free-running 64-bit counters, so all index
  arithmetic is arithmetic of words; the storage is a list of slots in which \<open>None\<close> is raw
  memory and \<open>Some v\<close> a constructed object. The theory holds the operations run by one thread
  at a time, the invariant and the abstraction of a ring to the list of its elements, the
  contract of a bounded queue as a locale with its interpretation on the ring, and the
  two-thread machine in which the single steps of the producer and of the consumer interleave.
\<close>

section \<open>State\<close>

definition k_cache_line_size :: nat where
  "k_cache_line_size = 64"

definition k_padding :: "nat \<Rightarrow> nat" where
  "k_padding sizeof_T = (k_cache_line_size - 1) div sizeof_T + 1"

definition SIZE_MAX :: size_t where
  "SIZE_MAX = 18446744073709551615"

record 'a spsc_ring =
  r_sizeof :: nat
  r_capacity :: size_t
  r_mask :: size_t
  r_data :: "'a option list"
  r_index_write :: size_t
  r_index_read :: size_t

text \<open>The constructor; \<open>malloc\<close> is taken to succeed, and yields raw slots.\<close>

definition spsc_ring_new :: "nat \<Rightarrow> size_t \<Rightarrow> 'a spsc_ring res" where
  "spsc_ring_new sizeof_T capacity =
     (if and capacity 1 = 1 then Inl Assert_failed
      else
        let pad = of_nat (k_padding sizeof_T);
            cap = (if capacity > SIZE_MAX - 2 * pad then SIZE_MAX - 2 * pad else capacity);
            bytes = of_nat sizeof_T * (cap + 2 * pad)
        in Inr \<lparr>r_sizeof = sizeof_T, r_capacity = cap, r_mask = cap - 1,
                r_data = replicate (unat bytes div sizeof_T) None,
                r_index_write = 0, r_index_read = 0\<rparr>)"

section \<open>Slots\<close>

text \<open>The slot of a free-running index: \<open>r_data + (index & r_mask) + k_padding\<close>.\<close>

definition slot :: "'a spsc_ring \<Rightarrow> size_t \<Rightarrow> nat" where
  "slot r i = unat (and i (r_mask r)) + k_padding (r_sizeof r)"

definition construct_at :: "'a spsc_ring \<Rightarrow> size_t \<Rightarrow> 'a \<Rightarrow> 'a spsc_ring res" where
  "construct_at r i v =
     (if slot r i < length (r_data r) then Inr (r\<lparr>r_data := (r_data r)[slot r i := Some v]\<rparr>)
      else Inl Out_of_bounds)"

definition destroy_at :: "'a spsc_ring \<Rightarrow> size_t \<Rightarrow> 'a spsc_ring res" where
  "destroy_at r i =
     (if slot r i < length (r_data r) then
        (case r_data r ! slot r i of
           None \<Rightarrow> Inl Undefined_object
         | Some v \<Rightarrow> Inr (r\<lparr>r_data := (r_data r)[slot r i := None]\<rparr>))
      else Inl Out_of_bounds)"

definition free_entries :: "'a spsc_ring \<Rightarrow> size_t \<Rightarrow> size_t \<Rightarrow> size_t" where
  "free_entries r read_index write_index = r_mask r + read_index - write_index"

section \<open>Operations\<close>

definition try_emplace :: "'a \<Rightarrow> 'a spsc_ring \<Rightarrow> (bool \<times> 'a spsc_ring) res" where
  "try_emplace v r =
     (let write_index = r_index_write r; read_index = r_index_read r in
      if free_entries r read_index write_index = 0 then Inr (False, r)
      else res_bind (construct_at r write_index v) (\<lambda>r'.
             Inr (True, r'\<lparr>r_index_write := write_index + 1\<rparr>)))"

text \<open>
  \<open>emplace\<close> spins: it reads the volatile \<open>r_index_read\<close> until the ring is not full. The values
  the consumer lets it read are the argument \<open>views\<close>; \<open>None\<close> means that it still spins when
  they are used up.
\<close>

fun emplace_wait :: "'a spsc_ring \<Rightarrow> size_t \<Rightarrow> size_t list \<Rightarrow> size_t option" where
  "emplace_wait r write_index [] = None"
| "emplace_wait r write_index (read_index # views) =
     (if free_entries r read_index write_index = 0 then emplace_wait r write_index views
      else Some (free_entries r read_index write_index))"

definition emplace :: "size_t list \<Rightarrow> 'a \<Rightarrow> 'a spsc_ring \<Rightarrow> 'a spsc_ring res option" where
  "emplace views v r =
     (let write_index = r_index_write r in
      case emplace_wait r write_index views of
        None \<Rightarrow> None
      | Some free \<Rightarrow>
          Some (if free = 0 \<or> and free (if r_mask r = 0 then 1 else 0) \<noteq> 0 then Inl Assert_failed
                else res_bind (construct_at r write_index v) (\<lambda>r'.
                       Inr (r'\<lparr>r_index_write := write_index + 1\<rparr>))))"

definition emplace_back :: "size_t list \<Rightarrow> 'a \<Rightarrow> 'a spsc_ring \<Rightarrow> 'a spsc_ring res option" where
  "emplace_back views v r = emplace views v r"

definition push :: "size_t list \<Rightarrow> 'a \<Rightarrow> 'a spsc_ring \<Rightarrow> 'a spsc_ring res option" where
  "push views v r = emplace views v r"

definition try_push :: "'a \<Rightarrow> 'a spsc_ring \<Rightarrow> (bool \<times> 'a spsc_ring) res" where
  "try_push v r = try_emplace v r"

text \<open>\<open>front\<close> returns a pointer into the storage, \<open>None\<close> for \<open>nullptr\<close>.\<close>

definition front :: "'a spsc_ring \<Rightarrow> nat option" where
  "front r =
     (let read_index = r_index_read r; write_index = r_index_write r in
      if write_index - read_index = 0 then None else Some (slot r read_index))"

definition pop :: "'a spsc_ring \<Rightarrow> 'a spsc_ring res" where
  "pop r =
     (let read_index = r_index_read r in
      res_bind (destroy_at r read_index) (\<lambda>r'. Inr (r'\<lparr>r_index_read := read_index + 1\<rparr>)))"

text \<open>A consumer takes one element by \<open>front\<close> and, when there is one, \<open>pop\<close>.\<close>

definition take_front :: "'a spsc_ring \<Rightarrow> ('a option \<times> 'a spsc_ring) res" where
  "take_front r =
     (case front r of
        None \<Rightarrow> Inr (None, r)
      | Some p \<Rightarrow>
          (case r_data r ! p of
             None \<Rightarrow> Inl Undefined_object
           | Some x \<Rightarrow> res_bind (pop r) (\<lambda>r'. Inr (Some x, r'))))"

definition ring_size :: "'a spsc_ring \<Rightarrow> size_t res" where
  "ring_size r =
     (let entries = r_index_write r - r_index_read r in
      if and entries (not (r_mask r)) = 0 then Inr entries else Inl Assert_failed)"

text \<open>
  \<open>memcpy\<close> of \<open>n\<close> slots from \<open>r_data + k_padding + from\<close> into the vector at \<open>pos\<close>: all the slots
  must lie in the storage and hold objects, and the vector must be long enough.
\<close>

definition copy_slots :: "'a spsc_ring \<Rightarrow> nat \<Rightarrow> nat \<Rightarrow> nat \<Rightarrow> 'a list \<Rightarrow> 'a list res" where
  "copy_slots r from n pos v =
     (let start = k_padding (r_sizeof r) + from;
          src = take n (drop start (r_data r))
      in if start + n \<le> length (r_data r) \<and> pos + n \<le> length v then
           (if list_all (\<lambda>s. s \<noteq> None) src
            then Inr (take pos v @ map the src @ drop (pos + n) v)
            else Inl Undefined_object)
         else Inl Out_of_bounds)"

text \<open>
  The copies of \<open>batch_out\<close>. When the second part is empty the source still forms the address one past
  the last element, by \<open>operator[]\<close>, and copies no bytes to it; and it copies elements as bytes, which the
  language allows for trivially copyable types only. Neither is a fault here: an empty copy copies
  nothing and a copied element is the same value.
\<close>

definition batch_copy ::
  "'a spsc_ring \<Rightarrow> size_t \<Rightarrow> size_t \<Rightarrow> 'a list \<Rightarrow> 'a list res" where
  "batch_copy r read_index write_index v1 =
     (let entries = write_index - read_index;
          from = and read_index (r_mask r)
      in if and write_index (r_mask r) > and read_index (r_mask r)
         then copy_slots r (unat from) (unat entries) (length v1 - unat entries) v1
         else
           let part1len = r_capacity r - from;
               part2len = entries - part1len
           in res_bind (copy_slots r (unat from) (unat part1len) (length v1 - unat entries) v1)
                (copy_slots r 0 (unat part2len) (length v1 - unat part2len)))"

text \<open>\<open>dflt\<close> is the value of a default-constructed element, which \<open>v.resize\<close> appends.\<close>

definition batch_out :: "'a \<Rightarrow> 'a list \<Rightarrow> 'a spsc_ring \<Rightarrow> (bool \<times> 'a list \<times> 'a spsc_ring) res" where
  "batch_out dflt v r =
     (let read_index = r_index_read r; write_index = r_index_write r;
          entries = write_index - read_index
      in if entries = 0 then Inr (False, v, r)
         else
           let v1 = v @ replicate (unat entries) dflt;
               next_read = read_index + entries
           in res_bind (batch_copy r read_index write_index v1) (\<lambda>v2.
                Inr (True, v2, r\<lparr>r_index_read := next_read\<rparr>)))"

definition ring_empty :: "'a spsc_ring \<Rightarrow> bool res" where
  "ring_empty r = res_bind (ring_size r) (\<lambda>n. Inr (n = 0))"

definition full :: "'a spsc_ring \<Rightarrow> bool" where
  "full r = (if free_entries r (r_index_read r) (r_index_write r) = 0 then False else True)"

definition ring_capacity :: "'a spsc_ring \<Rightarrow> size_t" where
  "ring_capacity r = r_mask r"

text \<open>The destructor: every remaining element is destroyed, oldest first.\<close>

function spsc_ring_delete :: "'a spsc_ring \<Rightarrow> 'a spsc_ring res" where
  "spsc_ring_delete r =
     (case front r of
        None \<Rightarrow> Inr (r\<lparr>r_data := []\<rparr>)
      | Some _ \<Rightarrow>
          (case pop r of Inl e \<Rightarrow> Inl e | Inr r' \<Rightarrow> spsc_ring_delete r'))"
  by pat_completeness auto
termination
proof (relation "measure (\<lambda>r. unat (r_index_write r - r_index_read r))", goal_cases)
  case (2 r p r')
  then have w: "r_index_write r - r_index_read r \<noteq> 0"
    by (auto simp: front_def Let_def split: if_splits)
  from 2 have "r_index_write r' = r_index_write r" and "r_index_read r' = r_index_read r + 1"
    by (auto simp: pop_def destroy_at_def Let_def res_bind_Inr_iff split: if_splits option.splits)
  moreover have "unat (r_index_write r - r_index_read r - 1) < unat (r_index_write r - r_index_read r)"
    using w by (simp add: measure_unat)
  ultimately show ?case by (simp add: algebra_simps)
qed simp

declare spsc_ring_delete.simps [simp del]

section \<open>Invariant and abstraction\<close>

text \<open>The number of elements, and the elements from the oldest to the newest.\<close>

definition entries :: "'a spsc_ring \<Rightarrow> nat" where
  "entries r = unat (r_index_write r - r_index_read r)"

definition slot_at :: "'a spsc_ring \<Rightarrow> nat \<Rightarrow> nat" where
  "slot_at r i = slot r (r_index_read r + of_nat i)"

definition items :: "'a spsc_ring \<Rightarrow> 'a list" where
  "items r = map (\<lambda>i. the (r_data r ! slot_at r i)) [0..<entries r]"

text \<open>
  The shape of the storage: a capacity that is a power of two, as the comment at the
  constructor asks for, the mask that belongs to it, and room for the two paddings.
\<close>

definition ring_shape :: "'a spsc_ring \<Rightarrow> bool" where
  "ring_shape r \<longleftrightarrow>
     (\<exists>k \<in> {1..63}. r_capacity r = 2 ^ k) \<and> r_mask r = r_capacity r - 1 \<and>
     length (r_data r) = unat (r_capacity r) + 2 * k_padding (r_sizeof r)"

definition ring_inv :: "'a spsc_ring \<Rightarrow> bool" where
  "ring_inv r \<longleftrightarrow>
     ring_shape r \<and> entries r \<le> unat (r_mask r) \<and>
     (\<forall>i < entries r. r_data r ! slot_at r i \<noteq> None)"

lemma unat_pow2_u64: "k \<le> 63 \<Longrightarrow> unat (2 ^ k :: u64) = 2 ^ k"
proof -
  assume "k \<le> 63"
  then have "(2 :: nat) ^ k < 2 ^ 64" by (intro power_strict_increasing) auto
  then show ?thesis using of_nat_less_u64 [of "2 ^ k"] by simp
qed

lemma ring_shape_facts:
  assumes "ring_shape r"
  shows ring_cap_ge2: "2 \<le> unat (r_capacity r)"
    and ring_mask_nat: "unat (r_mask r) = unat (r_capacity r) - 1"
    and ring_and_mask: "unat (and x (r_mask r)) = unat x mod unat (r_capacity r)"
    and ring_cap_dvd: "unat (r_capacity r) dvd 18446744073709551616"
    and ring_data_len: "length (r_data r) = unat (r_capacity r) + 2 * k_padding (r_sizeof r)"
proof -
  from assms obtain k where k: "1 \<le> k" "k \<le> 63" and c: "r_capacity r = 2 ^ k"
    and m: "r_mask r = r_capacity r - 1"
    and l: "length (r_data r) = unat (r_capacity r) + 2 * k_padding (r_sizeof r)"
    by (auto simp: ring_shape_def)
  have uc: "unat (r_capacity r) = 2 ^ k"
    using k c by (simp add: unat_pow2_u64)
  show "2 \<le> unat (r_capacity r)"
    using k uc power_increasing [of 1 k "2 :: nat"] by simp
  show "unat (r_mask r) = unat (r_capacity r) - 1"
    using uc m by (simp add: unat_sub word_le_nat_alt)
  show "unat (and x (r_mask r)) = unat x mod unat (r_capacity r)"
    unfolding uc m unfolding c by (rule unat_and_mask)
  show "unat (r_capacity r) dvd 18446744073709551616"
    using k uc le_imp_power_dvd [of k 64 "2 :: nat"] by simp
  show "length (r_data r) = unat (r_capacity r) + 2 * k_padding (r_sizeof r)"
    by (rule l)
qed

lemma slot_mod:
  assumes "ring_shape r"
  shows "slot r x = unat x mod unat (r_capacity r) + k_padding (r_sizeof r)"
  using assms by (simp add: slot_def ring_and_mask)

lemma unat_add_of_nat_mod:
  assumes "c dvd 18446744073709551616"
  shows "unat (x + of_nat i :: u64) mod c = (unat x + i) mod c"
proof -
  have "unat (x + of_nat i :: u64) mod c = (unat x + i) mod 18446744073709551616 mod c"
    by (simp add: unat_add_u64 unat_of_nat take_bit_eq_mod mod_add_right_eq)
  also have "\<dots> = (unat x + i) mod c"
    using assms by (rule mod_mod_cancel)
  finally show ?thesis .
qed

lemma slot_at_mod:
  assumes "ring_shape r"
  shows "slot_at r i =
    (unat (r_index_read r) + i) mod unat (r_capacity r) + k_padding (r_sizeof r)"
  using assms by (simp add: slot_at_def slot_mod unat_add_of_nat_mod ring_cap_dvd)

lemma slot_in_storage: "ring_shape r \<Longrightarrow> slot r x < length (r_data r)"
  using ring_cap_ge2 [of r] mod_less_divisor [of "unat (r_capacity r)" "unat x"]
  by (simp add: slot_mod ring_data_len trans_less_add2)

lemma slot_at_in_storage: "ring_shape r \<Longrightarrow> slot_at r i < length (r_data r)"
  by (simp add: slot_at_def slot_in_storage)

text \<open>Two elements less than a capacity apart never share a slot.\<close>

lemma mod_add_inj:
  fixes a :: nat
  assumes "(a + i) mod c = (a + j) mod c" and "i < c" and "j < c"
  shows "i = j"
proof -
  have *: "i = j" if "(a + i) mod c = (a + j) mod c" "i \<le> j" "j < c" for i j :: nat
  proof -
    from that have "c dvd (a + j) - (a + i)"
      by (metis add_le_mono1 add.commute mod_eq_dvd_iff_nat)
    with that show "i = j"
      using dvd_imp_le [of c "j - i"] by (cases "i = j") auto
  qed
  show ?thesis
    using *[of i j] *[of j i] assms by linarith
qed

lemma slot_at_inj:
  assumes "ring_shape r" and "slot_at r i = slot_at r j"
    and "i < unat (r_capacity r)" and "j < unat (r_capacity r)"
  shows "i = j"
  using assms mod_add_inj [of "unat (r_index_read r)" i "unat (r_capacity r)" j]
  by (simp add: slot_at_mod)

lemma slot_at_write:
  "slot_at r (entries r) = slot r (r_index_write r)"
  by (simp add: slot_at_def entries_def)

lemma length_items [simp]: "length (items r) = entries r"
  by (simp add: items_def)

lemma items_nth: "i < entries r \<Longrightarrow> items r ! i = the (r_data r ! slot_at r i)"
  by (simp add: items_def)

lemma items_eqI:
  assumes "entries r = length xs"
    and "\<And>i. i < length xs \<Longrightarrow> r_data r ! slot_at r i = Some (xs ! i)"
  shows "items r = xs"
  using assms by (intro nth_equalityI) (simp_all add: items_nth)

lemma ring_inv_shape: "ring_inv r \<Longrightarrow> ring_shape r"
  by (simp add: ring_inv_def)

lemma entries_less_cap:
  assumes "ring_inv r"
  shows "entries r < unat (r_capacity r)"
proof -
  have "entries r \<le> unat (r_capacity r) - 1"
    using assms ring_mask_nat [OF ring_inv_shape [OF assms]] by (simp add: ring_inv_def)
  with ring_cap_ge2 [OF ring_inv_shape [OF assms]] show ?thesis by linarith
qed

lemma ring_inv_slot:
  "ring_inv r \<Longrightarrow> i < entries r \<Longrightarrow> r_data r ! slot_at r i = Some (items r ! i)"
  by (auto simp: ring_inv_def items_nth)

section \<open>The operations on the abstract queue\<close>

lemma entries_zero_iff: "entries r = 0 \<longleftrightarrow> r_index_write r = r_index_read r"
  by (simp add: entries_def unat_eq_zero)

lemma free_entries_zero_iff:
  assumes "ring_inv r"
  shows "free_entries r (r_index_read r) (r_index_write r) = 0 \<longleftrightarrow> entries r = unat (r_mask r)"
proof -
  have "free_entries r (r_index_read r) (r_index_write r) = 0 \<longleftrightarrow>
      r_index_write r - r_index_read r = r_mask r"
    by (auto simp: free_entries_def algebra_simps)
  then show ?thesis by (simp add: entries_def word_unat_eq_iff)
qed

text \<open>
  \<open>holds r k q\<close>: the live region of the ring stores the list \<open>q\<close>, of which the first \<open>k\<close>
  slots may already be destroyed (\<open>k\<close> is 1 between the two steps of \<open>pop\<close>).
\<close>

definition holds :: "'a spsc_ring \<Rightarrow> nat \<Rightarrow> 'a list \<Rightarrow> bool" where
  "holds r k q \<longleftrightarrow> ring_shape r \<and> length q = entries r \<and> entries r \<le> unat (r_mask r) \<and>
     (\<forall>i < entries r. k \<le> i \<longrightarrow> r_data r ! slot_at r i = Some (q ! i))"

lemma ring_inv_holds: "ring_inv r \<Longrightarrow> holds r 0 (items r)"
  by (simp add: holds_def ring_inv_slot) (simp add: ring_inv_def)

lemma holds_ring_inv:
  assumes "holds r 0 q"
  shows "ring_inv r \<and> items r = q"
proof
  show "ring_inv r" using assms by (auto simp: holds_def ring_inv_def)
  show "items r = q" by (rule items_eqI) (use assms in \<open>auto simp: holds_def\<close>)
qed

lemma holds_entries_less_cap:
  assumes "holds r k q"
  shows "entries r < unat (r_capacity r)"
  using assms ring_mask_nat [of r] ring_cap_ge2 [of r] by (auto simp: holds_def)

lemma holds_construct:
  assumes "holds r k q"
  shows "holds (r\<lparr>r_data := (r_data r)[slot r (r_index_write r) := Some v]\<rparr>) k q"
proof -
  let ?r = "r\<lparr>r_data := (r_data r)[slot r (r_index_write r) := Some v]\<rparr>"
  have sh: "ring_shape r" using assms by (simp add: holds_def)
  have "slot r (r_index_write r) \<noteq> slot_at r i" if "i < entries r" for i
    using that holds_entries_less_cap [OF assms] slot_at_inj [OF sh, of i "entries r"]
    by (auto simp: slot_at_write)
  moreover have "ring_shape ?r" "entries ?r = entries r" "slot_at ?r i = slot_at r i" for i
    using sh by (simp_all add: ring_shape_def entries_def slot_at_def slot_def)
  ultimately show ?thesis using assms by (simp add: holds_def)
qed

lemma holds_publish:
  assumes h: "holds r k q" and room: "entries r < unat (r_mask r)"
    and v: "r_data r ! slot r (r_index_write r) = Some v"
  shows "holds (r\<lparr>r_index_write := r_index_write r + 1\<rparr>) k (q @ [v])"
proof -
  let ?r = "r\<lparr>r_index_write := r_index_write r + 1\<rparr>"
  have "entries r + 1 < 18446744073709551616"
    using room unat_lt64 [of "r_mask r"] by linarith
  then have "entries ?r = Suc (entries r)"
    using unat_add_le_u64 [of "r_index_write r - r_index_read r" 1]
    by (simp add: entries_def algebra_simps)
  moreover have "ring_shape ?r" "slot_at ?r i = slot_at r i" for i
    using h by (simp_all add: holds_def ring_shape_def slot_at_def slot_def)
  ultimately show ?thesis
    using h room v by (auto simp: holds_def nth_append less_Suc_eq slot_at_write)
qed

lemma holds_destroy:
  assumes "holds r 0 q" and "0 < entries r"
  shows "holds (r\<lparr>r_data := (r_data r)[slot r (r_index_read r) := None]\<rparr>) 1 q"
proof -
  let ?r = "r\<lparr>r_data := (r_data r)[slot r (r_index_read r) := None]\<rparr>"
  have sh: "ring_shape r" using assms by (simp add: holds_def)
  have "slot r (r_index_read r) \<noteq> slot_at r i" if "i < entries r" "1 \<le> i" for i
    using that holds_entries_less_cap [OF assms(1)] slot_at_inj [OF sh, of i 0]
    by (auto simp: slot_at_def [of r 0])
  moreover have "ring_shape ?r" "entries ?r = entries r" "slot_at ?r i = slot_at r i" for i
    using sh by (simp_all add: ring_shape_def entries_def slot_at_def slot_def)
  ultimately show ?thesis using assms by (simp add: holds_def)
qed

lemma holds_advance:
  assumes h: "holds r k q" and n: "k \<le> n" "n \<le> entries r"
  shows "holds (r\<lparr>r_index_read := r_index_read r + of_nat n\<rparr>) 0 (drop n q)"
proof -
  let ?r = "r\<lparr>r_index_read := r_index_read r + of_nat n\<rparr>"
  have "n < 18446744073709551616"
    using n unat_lt64 [of "r_index_write r - r_index_read r"] unfolding entries_def by linarith
  then have un: "unat (of_nat n :: u64) = n" by (rule of_nat_less_u64)
  then have "(of_nat n :: u64) \<le> r_index_write r - r_index_read r"
    using n by (simp add: entries_def word_le_nat_alt)
  then have "entries ?r = entries r - n"
    using un by (simp add: entries_def unat_sub_u64 diff_diff_eq [symmetric])
  moreover have "slot_at ?r i = slot_at r (n + i)" for i
    by (simp add: slot_at_def slot_def add.assoc)
  moreover have "ring_shape ?r" using h by (simp add: holds_def ring_shape_def)
  ultimately show ?thesis using h n by (auto simp: holds_def)
qed

lemma construct_at_write:
  "ring_shape r \<Longrightarrow> construct_at r i v = Inr (r\<lparr>r_data := (r_data r)[slot r i := Some v]\<rparr>)"
  by (simp add: construct_at_def slot_in_storage)

lemma try_emplace_room:
  assumes inv: "ring_inv r" and room: "entries r < unat (r_mask r)"
  shows "\<exists>r'. try_emplace v r = Inr (True, r') \<and> ring_inv r' \<and> items r' = items r @ [v]"
proof -
  let ?r = "r\<lparr>r_data := (r_data r)[slot r (r_index_write r) := Some v]\<rparr>"
  have sh: "ring_shape r" using inv by (rule ring_inv_shape)
  have "holds ?r 0 (items r)" using inv by (simp add: holds_construct ring_inv_holds)
  then have "holds (?r\<lparr>r_index_write := r_index_write ?r + 1\<rparr>) 0 (items r @ [v])"
    using room slot_in_storage [OF sh] by (intro holds_publish) (simp_all add: entries_def slot_def)
  moreover have "try_emplace v r = Inr (True, ?r\<lparr>r_index_write := r_index_write ?r + 1\<rparr>)"
    using inv room sh
    by (simp add: try_emplace_def Let_def free_entries_zero_iff construct_at_write)
  ultimately show ?thesis using holds_ring_inv by metis
qed

lemma try_emplace_full:
  assumes "ring_inv r" and "entries r = unat (r_mask r)"
  shows "try_emplace v r = Inr (False, r)"
  using assms by (simp add: try_emplace_def Let_def free_entries_zero_iff)

lemma front_empty: "items r = [] \<Longrightarrow> front r = None"
  by (simp add: front_def Let_def flip: length_0_conv) (simp add: entries_zero_iff)

lemma front_nonempty:
  assumes "ring_inv r" and "items r = x # xs"
  shows "\<exists>p. front r = Some p \<and> p < length (r_data r) \<and> r_data r ! p = Some x"
proof -
  have e: "0 < entries r" using assms(2) by (simp flip: length_items)
  have "r_data r ! slot r (r_index_read r) = Some x"
    using ring_inv_slot [OF assms(1) e] assms(2) by (simp add: slot_at_def)
  moreover have "r_index_write r \<noteq> r_index_read r"
    using e by (auto simp: entries_def)
  ultimately show ?thesis
    using assms(1) by (simp add: front_def Let_def slot_in_storage ring_inv_def)
qed

lemma pop_nonempty:
  assumes inv: "ring_inv r" and ne: "items r = x # xs"
  shows "\<exists>r'. pop r = Inr r' \<and> ring_inv r' \<and> items r' = xs"
proof -
  let ?r = "r\<lparr>r_data := (r_data r)[slot r (r_index_read r) := None]\<rparr>"
  have sh: "ring_shape r" using inv by (rule ring_inv_shape)
  have e: "0 < entries r" using ne by (simp flip: length_items)
  have "r_data r ! slot r (r_index_read r) = Some x"
    using ring_inv_slot [OF inv e] ne by (simp add: slot_at_def)
  then have "pop r = Inr (?r\<lparr>r_index_read := r_index_read ?r + of_nat 1\<rparr>)"
    using sh by (simp add: pop_def destroy_at_def slot_in_storage Let_def)
  moreover have "holds (?r\<lparr>r_index_read := r_index_read ?r + of_nat 1\<rparr>) 0 (drop 1 (items r))"
    using e holds_destroy [OF ring_inv_holds [OF inv] e]
    by (intro holds_advance [where k = 1]) (simp_all add: entries_def)
  ultimately show ?thesis using holds_ring_inv ne by (metis drop0 drop_Suc_Cons One_nat_def)
qed

text \<open>Draining the whole ring: one copy when the live region does not wrap, two when it does.\<close>

lemma copy_items:
  assumes inv: "ring_inv r" and n: "j + n \<le> entries r"
    and src: "k_padding (r_sizeof r) + from + n \<le> length (r_data r)"
    and dst: "pos + n \<le> length v"
    and at: "\<And>i. i < n \<Longrightarrow> slot_at r (j + i) = k_padding (r_sizeof r) + from + i"
  shows "copy_slots r from n pos v =
    Inr (take pos v @ take n (drop j (items r)) @ drop (pos + n) v)"
proof -
  have eq: "take n (drop (k_padding (r_sizeof r) + from) (r_data r)) =
      map Some (take n (drop j (items r)))"
  proof (rule nth_equalityI)
    fix i assume "i < length (take n (drop (k_padding (r_sizeof r) + from) (r_data r)))"
    then have i: "i < n" by simp
    then show "take n (drop (k_padding (r_sizeof r) + from) (r_data r)) ! i =
        map Some (take n (drop j (items r))) ! i"
      using ring_inv_slot [OF inv, of "j + i"] n src at [OF i] by simp
  qed (use n src in simp)
  show ?thesis
    using src dst by (simp add: copy_slots_def Let_def eq list_all_iff comp_def)
qed

lemma slot_at_cases:
  assumes "ring_shape r" and "i < unat (r_capacity r)"
    and "from = unat (r_index_read r) mod unat (r_capacity r)"
  shows "slot_at r i =
     (if from + i < unat (r_capacity r) then from + i else from + i - unat (r_capacity r))
      + k_padding (r_sizeof r)"
proof -
  let ?c = "unat (r_capacity r)"
  have "from < ?c" using ring_cap_ge2 [OF assms(1)] by (simp add: assms(3))
  then have "(from + i) mod ?c = (if from + i < ?c then from + i else from + i - ?c)"
    using assms(2) by (simp add: le_mod_geq)
  moreover have "(unat (r_index_read r) + i) mod ?c = (from + i) mod ?c"
    by (simp add: mod_add_left_eq assms(3))
  ultimately show ?thesis
    using assms by (simp add: slot_at_mod)
qed

lemma write_mod:
  assumes "ring_inv r" and "from = unat (r_index_read r) mod unat (r_capacity r)"
  shows "unat (and (r_index_write r) (r_mask r)) =
     (if from + entries r < unat (r_capacity r) then from + entries r
      else from + entries r - unat (r_capacity r))"
proof -
  have sh: "ring_shape r" using assms by (simp add: ring_inv_shape)
  have "slot_at r (entries r) = unat (and (r_index_write r) (r_mask r)) + k_padding (r_sizeof r)"
    by (simp add: slot_at_write slot_def)
  then show ?thesis
    using slot_at_cases [OF sh entries_less_cap assms(2)] assms(1) by simp
qed

text \<open>The copying part of \<open>batch_out\<close>, in either layout.\<close>

lemma batch_copy_flat:
  assumes inv: "ring_inv r" and e: "0 < entries r"
    and flat: "unat (r_index_read r) mod unat (r_capacity r) + entries r < unat (r_capacity r)"
  shows "batch_copy r (r_index_read r) (r_index_write r) (v @ replicate (entries r) dflt) =
    Inr (v @ items r)"
proof -
  have sh: "ring_shape r" using inv by (rule ring_inv_shape)
  have "and (r_index_write r) (r_mask r) > and (r_index_read r) (r_mask r)"
    using write_mod [OF inv refl] flat e ring_and_mask [OF sh] by (simp add: word_less_nat_alt)
  moreover have "copy_slots r (unat (r_index_read r) mod unat (r_capacity r)) (entries r)
      (length v) (v @ replicate (entries r) dflt) = Inr (v @ items r)"
    using flat entries_less_cap [OF inv]
    by (subst copy_items [OF inv, where j = 0]) (simp_all add: ring_data_len [OF sh] slot_at_cases [OF sh _ refl])
  ultimately show ?thesis
    by (simp add: batch_copy_def Let_def ring_and_mask [OF sh] flip: entries_def)
qed

lemma batch_copy_wrapped:
  assumes inv: "ring_inv r"
    and wrap: "unat (r_capacity r) \<le> unat (r_index_read r) mod unat (r_capacity r) + entries r"
  shows "batch_copy r (r_index_read r) (r_index_write r) (v @ replicate (entries r) dflt) =
    Inr (v @ items r)"
proof -
  let ?c = "unat (r_capacity r)" and ?f = "unat (r_index_read r) mod unat (r_capacity r)"
  have sh: "ring_shape r" using inv by (rule ring_inv_shape)
  have ec: "entries r < ?c" using inv by (rule entries_less_cap)
  have fc: "?f < ?c" using ring_cap_ge2 [OF sh] by simp
  define n where "n = ?c - ?f"
  have n: "n \<le> entries r" "?f + n = ?c" using wrap fc by (simp_all add: n_def)
  have p1: "unat (r_capacity r - and (r_index_read r) (r_mask r)) = n"
    using fc ring_and_mask [OF sh] by (simp add: unat_sub_u64 word_le_nat_alt n_def)
  then have p2: "unat (r_index_write r - r_index_read r -
      (r_capacity r - and (r_index_read r) (r_mask r))) = entries r - n"
    using n by (subst unat_sub_u64) (simp_all add: word_le_nat_alt entries_def)
  have "\<not> and (r_index_write r) (r_mask r) > and (r_index_read r) (r_mask r)"
    using write_mod [OF inv refl] wrap ec ring_and_mask [OF sh] by (simp add: word_less_nat_alt)
  moreover have "copy_slots r ?f n (length v) (v @ replicate (entries r) dflt) =
      Inr (v @ take n (items r) @ replicate (entries r - n) dflt)"
    using n ec
    by (subst copy_items [OF inv, where j = 0]) (simp_all add: ring_data_len [OF sh] slot_at_cases [OF sh _ refl])
  moreover have "copy_slots r 0 (entries r - n) (length v + n)
      (v @ take n (items r) @ replicate (entries r - n) dflt) = Inr (v @ items r)"
    using n ec fc
    by (subst copy_items [OF inv, where j = n])
      (auto simp: ring_data_len [OF sh] slot_at_cases [OF sh _ refl] min_def)
  ultimately show ?thesis
    using n by (simp add: batch_copy_def Let_def ring_and_mask [OF sh] p1 p2 flip: entries_def)
qed

lemma batch_copy_items:
  assumes inv: "ring_inv r" and e: "entries r \<noteq> 0"
  shows "batch_copy r (r_index_read r) (r_index_write r) (v @ replicate (entries r) dflt) =
    Inr (v @ items r)"
  using batch_copy_flat [OF inv] batch_copy_wrapped [OF inv] e
  by (meson not_less bot_nat_0.not_eq_extremum)

lemma batch_out_empty:
  "items r = [] \<Longrightarrow> batch_out dflt v r = Inr (False, v, r)"
  by (simp add: batch_out_def Let_def flip: length_0_conv) (simp add: entries_zero_iff)

lemma batch_out_nonempty:
  assumes inv: "ring_inv r" and ne: "items r \<noteq> []"
  shows "\<exists>r'. batch_out dflt v r = Inr (True, v @ items r, r') \<and> ring_inv r' \<and> items r' = []"
proof -
  have e: "entries r \<noteq> 0" using ne by (metis length_0_conv length_items)
  then have "batch_out dflt v r =
      Inr (True, v @ items r, r\<lparr>r_index_read := r_index_read r + of_nat (entries r)\<rparr>)"
    using batch_copy_items [OF inv e, of v dflt]
    by (simp add: batch_out_def Let_def entries_zero_iff flip: entries_def) (simp add: entries_def)
  then show ?thesis
    using holds_ring_inv [OF holds_advance [OF ring_inv_holds [OF inv] _ order_refl]] by simp
qed

section \<open>Construction, queries and destruction\<close>

lemma spsc_ring_new_odd:
  "and capacity 1 = 1 \<Longrightarrow> spsc_ring_new sizeof_T capacity = Inl Assert_failed"
  by (simp add: spsc_ring_new_def)

lemma spsc_ring_new_pow2:
  assumes k: "1 \<le> k" and sz: "0 < sizeof_T"
    and fits: "sizeof_T * (2 ^ k + 2 * k_padding sizeof_T) < 18446744073709551616"
  shows "\<exists>r. spsc_ring_new sizeof_T (2 ^ k) = Inr r \<and> ring_inv r \<and> items r = [] \<and>
    unat (ring_capacity r) = 2 ^ k - 1"
proof -
  let ?p = "k_padding sizeof_T"
  have le: "2 ^ k + 2 * ?p \<le> sizeof_T * (2 ^ k + 2 * ?p)"
    using sz by simp
  then have room: "2 ^ k + 2 * ?p < 18446744073709551616" using fits by linarith
  have k64: "k \<le> 63"
  proof (rule ccontr)
    assume "\<not> k \<le> 63"
    then have "(2 :: nat) ^ 64 \<le> 2 ^ k" by (intro power_increasing) auto
    with room show False by simp
  qed
  note pow = unat_pow2_u64 [OF k64]
  have "unat (2 * of_nat ?p :: u64) = 2 * ?p"
    using room of_nat_less_u64 [of "2 * ?p"] by simp
  then have "unat (SIZE_MAX - 2 * of_nat ?p) = 18446744073709551615 - 2 * ?p"
    using room by (simp add: SIZE_MAX_def unat_sub_u64 word_le_nat_alt)
  then have notbig: "\<not> (2 ^ k :: u64) > SIZE_MAX - 2 * of_nat ?p"
    using room pow by (simp add: word_less_nat_alt)
  have "(of_nat sizeof_T * (2 ^ k + 2 * of_nat ?p) :: u64) =
      of_nat (sizeof_T * (2 ^ k + 2 * ?p))"
    by simp
  then have bytes: "unat (of_nat sizeof_T * (2 ^ k + 2 * of_nat ?p) :: u64) =
      sizeof_T * (2 ^ k + 2 * ?p)"
    using fits of_nat_less_u64 by presburger
  have even: "and (2 ^ k :: u64) 1 \<noteq> 1"
    using k pow unat_and_mask [of "2 ^ k :: u64" 1] by (cases k) (auto simp: word_unat_eq_iff)
  let ?r = "\<lparr>r_sizeof = sizeof_T, r_capacity = 2 ^ k, r_mask = 2 ^ k - 1,
      r_data = replicate (2 ^ k + 2 * ?p) None, r_index_write = 0, r_index_read = 0\<rparr>"
  have "spsc_ring_new sizeof_T (2 ^ k) = Inr ?r"
    using even notbig bytes sz by (simp add: spsc_ring_new_def Let_def)
  moreover have "ring_inv ?r"
    using k k64 pow by (auto simp: ring_inv_def ring_shape_def entries_def)
  moreover have "items ?r = []"
    by (simp add: items_def entries_def)
  moreover have "unat (ring_capacity ?r) = 2 ^ k - 1"
    using pow by (simp add: ring_capacity_def unat_sub_u64 word_le_nat_alt)
  ultimately show ?thesis by blast
qed

lemma ring_size_items:
  assumes "ring_inv r"
  shows "ring_size r = Inr (of_nat (length (items r)))"
proof -
  let ?n = "r_index_write r - r_index_read r"
  have sh: "ring_shape r" using assms by (rule ring_inv_shape)
  have "unat (and ?n (r_mask r)) = unat ?n"
    using ring_and_mask [OF sh, of ?n] entries_less_cap [OF assms] by (simp add: entries_def)
  then have "and ?n (r_mask r) = ?n" by (simp only: word_unat_eq_iff)
  then have "and ?n (not (r_mask r)) = 0"
    by (metis and.assoc and.right_neutral bit.conj_cancel_right and_zero_eq)
  then show ?thesis by (simp add: ring_size_def Let_def entries_def)
qed

lemma ring_empty_items:
  assumes "ring_inv r"
  shows "ring_empty r = Inr (items r = [])"
proof -
  have "(of_nat (entries r) :: u64) = 0 \<longleftrightarrow> entries r = 0"
    by (simp add: entries_def unat_eq_zero)
  then show ?thesis
    using assms by (simp add: ring_empty_def ring_size_items flip: length_0_conv)
qed

lemma spsc_ring_delete_total:
  assumes "ring_inv r"
  shows "\<exists>r'. spsc_ring_delete r = Inr r'"
  using assms
proof (induction "items r" arbitrary: r)
  case Nil
  then show ?case by (subst spsc_ring_delete.simps) (simp add: front_empty)
next
  case (Cons x xs)
  from Cons.hyps(2) Cons.prems obtain r' where r': "pop r = Inr r'" "ring_inv r'" "items r' = xs"
    using pop_nonempty by metis
  moreover obtain p where "front r = Some p"
    using front_nonempty Cons.hyps(2) Cons.prems by metis
  ultimately show ?case
    using Cons.hyps(1) [of r'] by (subst spsc_ring_delete.simps) simp
qed

section \<open>The ring is a bounded queue\<close>

lemma ring_bounded: "ring_inv r \<Longrightarrow> length (items r) \<le> unat (ring_capacity r)"
  by (simp add: ring_inv_def ring_capacity_def)

lemma take_front_nonempty:
  assumes "ring_inv r" and "items r = x # xs"
  shows "\<exists>r'. take_front r = Inr (Some x, r') \<and> ring_inv r' \<and> items r' = xs"
  using front_nonempty [OF assms] pop_nonempty [OF assms] by (auto simp: take_front_def)

lemma batch_out_all:
  assumes "ring_inv r"
  shows "\<exists>r'. batch_out dflt v r = Inr (items r \<noteq> [], v @ items r, r') \<and>
    ring_inv r' \<and> items r' = []"
  using assms batch_out_empty [of r dflt v] batch_out_nonempty [of r dflt v]
  by (cases "items r = []") auto

text \<open>No operation changes the capacity.\<close>

lemma construct_at_mask: "construct_at r i v = Inr r' \<Longrightarrow> r_mask r' = r_mask r"
  by (auto simp: construct_at_def split: if_splits)

lemma destroy_at_mask: "destroy_at r i = Inr r' \<Longrightarrow> r_mask r' = r_mask r"
  by (auto simp: destroy_at_def split: if_splits option.splits)

lemma try_emplace_mask: "try_emplace v r = Inr (b, r') \<Longrightarrow> r_mask r' = r_mask r"
  by (auto simp: try_emplace_def Let_def res_bind_Inr_iff construct_at_mask split: if_splits)

lemma take_front_mask: "take_front r = Inr (x, r') \<Longrightarrow> r_mask r' = r_mask r"
  by (auto simp: take_front_def pop_def Let_def res_bind_Inr_iff destroy_at_mask split: option.splits)

lemma batch_out_mask: "batch_out dflt v r = Inr (b, v', r') \<Longrightarrow> r_mask r' = r_mask r"
  by (auto simp: batch_out_def Let_def res_bind_Inr_iff split: if_splits)

interpretation ring_queue: bounded_queue ring_inv items "\<lambda>r. unat (ring_capacity r)"
  try_push take_front "batch_out dflt" for dflt
proof (unfold_locales, goal_cases)
  case (1 q)
  then show ?case by (rule ring_bounded)
next
  case (2 q x)
  then show ?case
    using try_emplace_room [of q x] by (simp add: try_push_def ring_capacity_def)
next
  case (3 q x)
  then show ?case
    using try_emplace_full [of q x] by (simp add: try_push_def ring_capacity_def)
next
  case (4 q)
  then show ?case by (simp add: take_front_def front_empty)
next
  case (5 q x xs)
  then show ?case by (rule take_front_nonempty)
next
  case (6 q v)
  then show ?case by (rule batch_out_all)
next
  case (7 x q b q')
  then show ?case by (simp add: try_push_def ring_capacity_def try_emplace_mask)
next
  case (8 q y q')
  then show ?case by (simp add: ring_capacity_def take_front_mask)
next
  case (9 v q b v' q')
  then show ?case by (simp add: ring_capacity_def batch_out_mask)
qed

end
