(* ===== verification/Spsc_Threads.thy ===== *)
theory Spsc_Threads
  imports Spsc_Ring
begin

text \<open>
  The ring used by two threads at once. Every access to shared memory of \<open>emplace\<close> and
  \<open>try_emplace\<close> (the producer) and of \<open>front\<close>/\<open>pop\<close> and \<open>batch_out\<close> (the consumer) is a step of
  its own, and the steps of the two threads interleave freely. The order of the steps of one
  thread is the program order, which the release fences before the two index stores keep;
  a load sees the last store (the two \<open>volatile\<close> indices on a machine with strong ordering).
  \<open>sent\<close> and \<open>received\<close> are ghost fields that record what was published and what was consumed.
\<close>

section \<open>The machine\<close>

datatype 'a producer =
    P_idle
  | P_room size_t 'a      \<comment> \<open>\<open>free_entries\<close> was not 0; local \<open>write_index\<close>, value to store\<close>
  | P_built size_t 'a     \<comment> \<open>the object is in its slot, the index not yet stored\<close>

datatype 'a consumer =
    C_idle
  | C_front size_t                      \<comment> \<open>\<open>front\<close> returned a pointer; local \<open>read_index\<close>\<close>
  | C_destroyed size_t 'a               \<comment> \<open>\<open>pop\<close> has destroyed the object, index not yet stored\<close>
  | C_batch size_t size_t               \<comment> \<open>\<open>batch_out\<close> has read both indices\<close>
  | C_copied size_t size_t "'a list"    \<comment> \<open>\<open>batch_out\<close> has copied the elements\<close>

record 'a threads =
  ring :: "'a spsc_ring"
  producer :: "'a producer"
  consumer :: "'a consumer"
  sent :: "'a list"
  received :: "'a list"

inductive thread_step :: "'a \<Rightarrow> 'a threads \<Rightarrow> 'a threads \<Rightarrow> bool" for dflt where
  p_view: "producer s = P_idle \<Longrightarrow>
    free_entries (ring s) (r_index_read (ring s)) (r_index_write (ring s)) \<noteq> 0 \<Longrightarrow>
    thread_step dflt s (s\<lparr>producer := P_room (r_index_write (ring s)) v\<rparr>)"
| p_construct: "producer s = P_room w v \<Longrightarrow> construct_at (ring s) w v = Inr r' \<Longrightarrow>
    thread_step dflt s (s\<lparr>ring := r', producer := P_built w v\<rparr>)"
| p_publish: "producer s = P_built w v \<Longrightarrow>
    thread_step dflt s (s\<lparr>ring := (ring s)\<lparr>r_index_write := w + 1\<rparr>, producer := P_idle,
      sent := sent s @ [v]\<rparr>)"
| c_front: "consumer s = C_idle \<Longrightarrow> front (ring s) = Some p \<Longrightarrow>
    thread_step dflt s (s\<lparr>consumer := C_front (r_index_read (ring s))\<rparr>)"
| c_destroy: "consumer s = C_front rd \<Longrightarrow> r_data (ring s) ! slot (ring s) rd = Some x \<Longrightarrow>
    destroy_at (ring s) rd = Inr r' \<Longrightarrow>
    thread_step dflt s (s\<lparr>ring := r', consumer := C_destroyed rd x\<rparr>)"
| c_advance: "consumer s = C_destroyed rd x \<Longrightarrow>
    thread_step dflt s (s\<lparr>ring := (ring s)\<lparr>r_index_read := rd + 1\<rparr>, consumer := C_idle,
      received := received s @ [x]\<rparr>)"
| c_batch: "consumer s = C_idle \<Longrightarrow> r_index_write (ring s) - r_index_read (ring s) \<noteq> 0 \<Longrightarrow>
    thread_step dflt s (s\<lparr>consumer := C_batch (r_index_read (ring s)) (r_index_write (ring s))\<rparr>)"
| c_copy: "consumer s = C_batch rd wr \<Longrightarrow>
    batch_copy (ring s) rd wr (replicate (unat (wr - rd)) dflt) = Inr xs \<Longrightarrow>
    thread_step dflt s (s\<lparr>consumer := C_copied rd (wr - rd) xs\<rparr>)"
| c_drain: "consumer s = C_copied rd n xs \<Longrightarrow>
    thread_step dflt s (s\<lparr>ring := (ring s)\<lparr>r_index_read := rd + n\<rparr>, consumer := C_idle,
      received := received s @ xs\<rparr>)"

definition threads_init :: "'a spsc_ring \<Rightarrow> 'a threads" where
  "threads_init r = \<lparr>ring = r, producer = P_idle, consumer = C_idle, sent = [], received = []\<rparr>"

inductive threads_reach :: "'a \<Rightarrow> 'a spsc_ring \<Rightarrow> 'a threads \<Rightarrow> bool" for dflt r where
  reach_init: "threads_reach dflt r (threads_init r)"
| reach_step: "threads_reach dflt r s \<Longrightarrow> thread_step dflt s t \<Longrightarrow> threads_reach dflt r t"

text \<open>What would be a fault: an access that the pending step of a thread must not make.\<close>

definition threads_fault :: "'a \<Rightarrow> 'a threads \<Rightarrow> bool" where
  "threads_fault dflt s \<longleftrightarrow>
     (case producer s of
        P_room w v \<Rightarrow> \<not> (\<exists>r'. construct_at (ring s) w v = Inr r') | _ \<Rightarrow> False) \<or>
     (case consumer s of
        C_front rd \<Rightarrow> \<not> (\<exists>r'. destroy_at (ring s) rd = Inr r')
      | C_batch rd wr \<Rightarrow>
          \<not> (\<exists>xs. batch_copy (ring s) rd wr (replicate (unat (wr - rd)) dflt) = Inr xs)
      | _ \<Rightarrow> False)"

section \<open>The invariant\<close>

definition gone :: "'a consumer \<Rightarrow> nat" where
  "gone c = (case c of C_destroyed _ _ \<Rightarrow> 1 | _ \<Rightarrow> 0)"

fun producer_ok :: "'a spsc_ring \<Rightarrow> 'a producer \<Rightarrow> bool" where
  "producer_ok r P_idle = True"
| "producer_ok r (P_room w v) = (w = r_index_write r \<and> entries r < unat (r_mask r))"
| "producer_ok r (P_built w v) =
     (w = r_index_write r \<and> entries r < unat (r_mask r) \<and> r_data r ! slot r w = Some v)"

fun consumer_ok :: "'a spsc_ring \<Rightarrow> 'a list \<Rightarrow> 'a consumer \<Rightarrow> bool" where
  "consumer_ok r q C_idle = True"
| "consumer_ok r q (C_front rd) = (rd = r_index_read r \<and> 0 < entries r)"
| "consumer_ok r q (C_destroyed rd x) = (rd = r_index_read r \<and> 0 < entries r \<and> x = q ! 0)"
| "consumer_ok r q (C_batch rd wr) =
     (rd = r_index_read r \<and> 0 < unat (wr - rd) \<and> unat (wr - rd) \<le> entries r)"
| "consumer_ok r q (C_copied rd n xs) =
     (rd = r_index_read r \<and> unat n \<le> entries r \<and> xs = take (unat n) q)"

definition threads_inv :: "'a threads \<Rightarrow> bool" where
  "threads_inv s \<longleftrightarrow>
     (\<exists>q. sent s = received s @ q \<and> holds (ring s) (gone (consumer s)) q \<and>
        producer_ok (ring s) (producer s) \<and> consumer_ok (ring s) q (consumer s))"

lemma threads_invI:
  "sent s = received s @ q \<Longrightarrow> holds (ring s) (gone (consumer s)) q \<Longrightarrow>
   producer_ok (ring s) (producer s) \<Longrightarrow> consumer_ok (ring s) q (consumer s) \<Longrightarrow> threads_inv s"
  by (auto simp: threads_inv_def)

text \<open>The frames: what one thread writes does not disturb what the other has in hand.\<close>

lemma producer_ok_read:
  assumes "producer_ok r p" and "entries (r\<lparr>r_index_read := i\<rparr>) \<le> entries r"
  shows "producer_ok (r\<lparr>r_index_read := i\<rparr>) p"
  using assms by (cases p) (auto simp: slot_def)

lemma consumer_ok_data: "consumer_ok (r\<lparr>r_data := d\<rparr>) q c = consumer_ok r q c"
  by (cases c) (auto simp: entries_def)

lemma consumer_ok_write:
  assumes "consumer_ok r q c" and "entries r \<le> entries (r\<lparr>r_index_write := w\<rparr>)"
    and "length q = entries r"
  shows "consumer_ok (r\<lparr>r_index_write := w\<rparr>) (q @ xs) c"
  using assms by (cases c) (auto simp: nth_append)

lemma holds_slot:
  "holds r k q \<Longrightarrow> k \<le> i \<Longrightarrow> i < entries r \<Longrightarrow> r_data r ! slot_at r i = Some (q ! i)"
  by (simp add: holds_def)

text \<open>The elements a batch sees: the oldest ones, up to the write index it has read.\<close>

lemma batch_copy_prefix:
  assumes h: "holds r 0 q" and wr: "0 < unat (wr - r_index_read r)"
    and le: "unat (wr - r_index_read r) \<le> entries r"
  shows "batch_copy r (r_index_read r) wr (replicate (unat (wr - r_index_read r)) dflt) =
    Inr (take (unat (wr - r_index_read r)) q)"
proof -
  let ?r = "r\<lparr>r_index_write := wr\<rparr>"
  have e: "entries ?r = unat (wr - r_index_read r)" by (simp add: entries_def)
  have "holds ?r 0 (take (entries ?r) q)"
    using h le e by (auto simp: holds_def ring_shape_def slot_at_def slot_def)
  then have inv: "ring_inv ?r" and it: "items ?r = take (entries ?r) q"
    using holds_ring_inv by blast+
  have "batch_copy ?r (r_index_read ?r) (r_index_write ?r) ([] @ replicate (entries ?r) dflt) =
      Inr ([] @ items ?r)"
    using wr e by (intro batch_copy_items [OF inv]) simp
  moreover have "batch_copy ?r i j v = batch_copy r i j v" for i j v
    by (simp add: batch_copy_def copy_slots_def Let_def)
  ultimately show ?thesis using e it by simp
qed

section \<open>Every step keeps the invariant\<close>

lemma producer_ok_destroy:
  assumes h: "holds r 0 q" and e: "0 < entries r" and ok: "producer_ok r p"
  shows "producer_ok (r\<lparr>r_data := (r_data r)[slot r (r_index_read r) := None]\<rparr>) p"
proof -
  have "slot r (r_index_read r) \<noteq> slot r (r_index_write r)"
    using h e holds_entries_less_cap [OF h] slot_at_inj [of r 0 "entries r"]
    by (auto simp: holds_def slot_at_write slot_at_def [of r 0])
  then show ?thesis using ok by (cases p) (auto simp: slot_def entries_def)
qed

lemma free_entries_room:
  assumes "holds r k q" and "free_entries r (r_index_read r) (r_index_write r) \<noteq> 0"
  shows "entries r < unat (r_mask r)"
proof -
  have "r_index_write r - r_index_read r \<noteq> r_mask r"
    using assms(2) by (auto simp: free_entries_def algebra_simps)
  then have "entries r \<noteq> unat (r_mask r)"
    by (simp add: entries_def word_unat_eq_iff)
  with assms(1) show ?thesis by (simp add: holds_def)
qed

lemma entries_advance:
  assumes "unat n \<le> entries r"
  shows "entries (r\<lparr>r_index_read := r_index_read r + n\<rparr>) = entries r - unat n"
proof -
  have "n \<le> r_index_write r - r_index_read r"
    using assms by (simp add: entries_def word_le_nat_alt)
  then show ?thesis by (simp add: entries_def unat_sub_u64 diff_diff_eq [symmetric])
qed

lemma advance_inv:
  assumes inv: "sent s = received s @ q" "holds (ring s) (gone (consumer s)) q"
      "producer_ok (ring s) (producer s)"
    and n: "gone (consumer s) \<le> unat n" "unat n \<le> entries (ring s)"
  shows "threads_inv (s\<lparr>ring := (ring s)\<lparr>r_index_read := r_index_read (ring s) + n\<rparr>,
    consumer := C_idle, received := received s @ take (unat n) q\<rparr>)"
proof (rule threads_invI)
  let ?s = "s\<lparr>ring := (ring s)\<lparr>r_index_read := r_index_read (ring s) + n\<rparr>,
    consumer := C_idle, received := received s @ take (unat n) q\<rparr>"
  show "sent ?s = received ?s @ drop (unat n) q" using inv(1) by simp
  show "holds (ring ?s) (gone (consumer ?s)) (drop (unat n) q)"
    using holds_advance [OF inv(2) n] by (simp add: gone_def)
  show "producer_ok (ring ?s) (producer ?s)"
    using producer_ok_read [OF inv(3)] entries_advance [OF n(2)] by simp
  show "consumer_ok (ring ?s) (drop (unat n) q) (consumer ?s)" by simp
qed

lemma thread_step_inv:
  assumes step: "thread_step dflt s t" and inv: "threads_inv s"
  shows "threads_inv t"
proof -
  from inv obtain q where sent: "sent s = received s @ q"
    and h: "holds (ring s) (gone (consumer s)) q"
    and p: "producer_ok (ring s) (producer s)" and c: "consumer_ok (ring s) q (consumer s)"
    by (auto simp: threads_inv_def)
  have sh: "ring_shape (ring s)" and q: "length q = entries (ring s)"
    using h by (simp_all add: holds_def)
  from step show ?thesis
  proof cases
    case (p_view v)
    then show ?thesis
      using sent h c free_entries_room [OF h] by (intro threads_invI) auto
  next
    case (p_construct w v r')
    then show ?thesis
      using sent p c holds_construct [OF h] sh slot_in_storage [OF sh]
      by (intro threads_invI) (auto simp: construct_at_write consumer_ok_data entries_def slot_def)
  next
    case (p_publish w v)
    have pub: "holds ((ring s)\<lparr>r_index_write := w + 1\<rparr>) (gone (consumer s)) (q @ [v])"
      using p p_publish holds_publish [OF h] by auto
    then have "entries ((ring s)\<lparr>r_index_write := w + 1\<rparr>) = Suc (entries (ring s))"
      using q by (simp add: holds_def)
    then show ?thesis
      using sent pub p_publish consumer_ok_write [OF c _ q] by (intro threads_invI [of _ "q @ [v]"]) auto
  next
    case (c_front pt)
    then show ?thesis
      using sent h p by (intro threads_invI)
        (auto simp: gone_def front_def Let_def split: if_splits, simp add: entries_def unat_gt_0)
  next
    case (c_destroy rd x r')
    then have e: "0 < entries (ring s)" and rd: "rd = r_index_read (ring s)"
      and h0: "holds (ring s) 0 q"
      using c h by (simp_all add: gone_def)
    have "r' = (ring s)\<lparr>r_data := (r_data (ring s))[slot (ring s) (r_index_read (ring s)) := None]\<rparr>"
      using c_destroy rd by (auto simp: destroy_at_def split: if_splits option.splits)
    moreover have "x = q ! 0"
      using holds_slot [OF h0 _ e] c_destroy rd by (simp add: slot_at_def)
    ultimately show ?thesis
      using c_destroy sent e rd holds_destroy [OF h0 e] producer_ok_destroy [OF h0 e p]
      by (intro threads_invI) (auto simp: gone_def entries_def)
  next
    case (c_advance rd x)
    then have "rd = r_index_read (ring s)" and "received s @ [x] = received s @ take (unat (1 :: u64)) q"
      and "1 \<le> entries (ring s)"
      using c q by (cases q; auto)+
    then show ?thesis
      using advance_inv [OF sent h p, of 1] c_advance by (simp add: gone_def)
  next
    case c_batch
    then show ?thesis
      using sent h p by (intro threads_invI) (auto simp: gone_def entries_def unat_gt_0)
  next
    case (c_copy rd wr xs)
    then have h0: "holds (ring s) 0 q" using h by (simp add: gone_def)
    have "xs = take (unat (wr - rd)) q"
      using batch_copy_prefix [OF h0, of wr dflt] c_copy c by auto
    then show ?thesis
      using c_copy sent h p c by (intro threads_invI) (auto simp: gone_def)
  next
    case (c_drain rd n xs)
    then show ?thesis
      using advance_inv [OF sent h p, of n] c by (auto simp: gone_def)
  qed
qed

lemma threads_inv_init: "ring_inv r \<Longrightarrow> items r = [] \<Longrightarrow> threads_inv (threads_init r)"
  using ring_inv_holds [of r] by (auto simp: threads_inv_def threads_init_def gone_def)

lemma threads_reach_inv:
  assumes "threads_reach dflt r s" and "ring_inv r" and "items r = []"
  shows "threads_inv s"
  using assms
  by (induction rule: threads_reach.induct) (auto intro: threads_inv_init thread_step_inv)

lemma threads_inv_no_fault:
  assumes "threads_inv s"
  shows "\<not> threads_fault dflt s"
proof -
  from assms obtain q where h: "holds (ring s) (gone (consumer s)) q"
    and c: "consumer_ok (ring s) q (consumer s)"
    by (auto simp: threads_inv_def)
  have sh: "ring_shape (ring s)" using h by (simp add: holds_def)
  have "\<exists>r'. destroy_at (ring s) rd = Inr r'" if "consumer s = C_front rd" for rd
    using that c h holds_slot [of "ring s" 0 q 0] slot_in_storage [OF sh]
    by (auto simp: destroy_at_def slot_at_def gone_def)
  moreover have "\<exists>xs. batch_copy (ring s) rd wr (replicate (unat (wr - rd)) dflt) = Inr xs"
    if "consumer s = C_batch rd wr" for rd wr
    using that c h batch_copy_prefix [of "ring s" q wr dflt] by (auto simp: gone_def)
  ultimately show ?thesis
    using sh by (auto simp: threads_fault_def construct_at_write
      split: producer.splits consumer.splits)
qed

text \<open>What is in flight between the two threads never exceeds the capacity of the ring.\<close>

lemma threads_inv_prefix:
  "threads_inv s \<Longrightarrow>
    \<exists>rest. sent s = received s @ rest \<and> length rest \<le> unat (ring_capacity (ring s))"
  by (auto simp: threads_inv_def holds_def ring_capacity_def)

lemma thread_step_mask: "thread_step dflt s t \<Longrightarrow> r_mask (ring t) = r_mask (ring s)"
  by (induction rule: thread_step.induct) (auto simp: construct_at_mask destroy_at_mask)

lemma threads_reach_capacity:
  "threads_reach dflt r s \<Longrightarrow> ring_capacity (ring s) = ring_capacity r"
  by (induction rule: threads_reach.induct)
     (auto simp: threads_init_def ring_capacity_def thread_step_mask)

end
