(* ===== verification/Endian.thy ===== *)
theory Endian
  imports Coring_Prelude
begin

text \<open>
  Byte order (\<^verbatim>\<open>include/coring/endian.hpp\<close>).

  \<open>htobe16/32/64\<close> and \<open>be16/32/64toh\<close> of the C library swap bytes on a little-endian host and
  do nothing on a big-endian one, so the host's byte order is an argument here. An integer
  object in memory is the list of its bytes, lowest address first. The overloads for the
  signed types convert to the unsigned type of the same width and back, which keeps the bits.
\<close>

section \<open>Integers and their bytes\<close>

datatype byte_order = Little | Big

fun le_bytes :: "nat \<Rightarrow> nat \<Rightarrow> char list" where
  "le_bytes 0 x = []"
| "le_bytes (Suc n) x = char_of (x mod 256) # le_bytes n (x div 256)"

fun le_val :: "char list \<Rightarrow> nat" where
  "le_val [] = 0"
| "le_val (c # cs) = of_char c + 256 * le_val cs"

definition sizeof_word :: "'a::len word itself \<Rightarrow> nat" where
  "sizeof_word _ = LENGTH('a) div 8"

text \<open>The bytes of an object of type \<open>'a word\<close>, and the object a sequence of bytes stores.\<close>

definition store_word :: "byte_order \<Rightarrow> 'a::len word \<Rightarrow> char list" where
  "store_word order x =
     (let bs = le_bytes (LENGTH('a) div 8) (unat x)
      in case order of Little \<Rightarrow> bs | Big \<Rightarrow> rev bs)"

definition load_word :: "byte_order \<Rightarrow> char list \<Rightarrow> 'a::len word" where
  "load_word order cs =
     of_nat (le_val (case order of Little \<Rightarrow> cs | Big \<Rightarrow> rev cs))"

definition byte_swap :: "'a::len word \<Rightarrow> 'a word" where
  "byte_swap x = of_nat (le_val (rev (le_bytes (LENGTH('a) div 8) (unat x))))"

definition host_to_network :: "byte_order \<Rightarrow> 'a::len word \<Rightarrow> 'a word" where
  "host_to_network order x = (case order of Little \<Rightarrow> byte_swap x | Big \<Rightarrow> x)"

definition network_to_host :: "byte_order \<Rightarrow> 'a::len word \<Rightarrow> 'a word" where
  "network_to_host order x = (case order of Little \<Rightarrow> byte_swap x | Big \<Rightarrow> x)"

lemma length_le_bytes [simp]: "length (le_bytes n x) = n"
  by (induction n arbitrary: x) simp_all

lemma le_val_le_bytes: "le_val (le_bytes n x) = x mod 256 ^ n"
proof (induction n arbitrary: x)
  case 0
  then show ?case by simp
next
  case (Suc n)
  have "le_val (le_bytes (Suc n) x) = x mod 256 + 256 * (x div 256 mod 256 ^ n)"
    using Suc.IH by simp
  also have "\<dots> = x mod 256 ^ Suc n"
    by (simp add: mod_mult2_eq)
  finally show ?case .
qed

lemma le_bytes_le_val: "le_bytes (length cs) (le_val cs) = cs"
proof (induction cs)
  case Nil
  then show ?case by simp
next
  case (Cons c cs)
  have "(of_char c :: nat) < 256" by (rule nat_of_char_less_256)
  then have "(of_char c + 256 * le_val cs) mod 256 = (of_char c :: nat)"
    and "(of_char c + 256 * le_val cs) div 256 = le_val cs"
    by simp_all
  then show ?case using Cons by simp
qed

lemma le_val_less: "le_val cs < 256 ^ length cs"
  using le_val_le_bytes [of "length cs" "le_val cs"] le_bytes_le_val [of cs]
  by (metis mod_less_divisor zero_less_numeral zero_less_power)

text \<open>From here on the widths are whole numbers of bytes.\<close>

lemma pow256:
  assumes "8 dvd LENGTH('a::len)"
  shows "(256 :: nat) ^ (LENGTH('a) div 8) = 2 ^ LENGTH('a)"
proof -
  obtain m where "LENGTH('a) = 8 * m" using assms by (elim dvdE)
  then show ?thesis by (simp add: power_mult)
qed

lemma unat_of_le_val:
  assumes "8 dvd LENGTH('a::len)" and "length cs = LENGTH('a) div 8"
  shows "unat (of_nat (le_val cs) :: 'a word) = le_val cs"
proof -
  have "le_val cs < 2 ^ LENGTH('a)"
    using le_val_less [of cs] assms by (simp add: pow256)
  then show ?thesis by (simp add: unat_of_nat take_bit_eq_mod)
qed

lemma le_val_unat:
  fixes x :: "'a::len word"
  assumes "8 dvd LENGTH('a)"
  shows "le_val (le_bytes (LENGTH('a) div 8) (unat x)) = unat x"
  using assms unsigned_less [of x, where 'a = nat] by (simp add: le_val_le_bytes pow256)

lemma length_store_word [simp]: "length (store_word order (x :: 'a::len word)) = LENGTH('a) div 8"
  by (simp add: store_word_def Let_def split: byte_order.split)

lemma load_store_word:
  fixes x :: "'a::len word"
  assumes "8 dvd LENGTH('a)"
  shows "load_word order (store_word order x) = x"
  using assms by (simp add: load_word_def store_word_def Let_def le_val_unat split: byte_order.split)

lemma store_load_word:
  assumes "8 dvd LENGTH('a::len)" and "length cs = LENGTH('a) div 8"
  shows "store_word order (load_word order cs :: 'a word) = cs"
  using assms le_bytes_le_val [of cs] le_bytes_le_val [of "rev cs"]
    unat_of_le_val [where 'a = 'a, of cs] unat_of_le_val [where 'a = 'a, of "rev cs"]
  by (simp add: load_word_def store_word_def Let_def split: byte_order.split)

lemma store_byte_swap:
  fixes x :: "'a::len word"
  assumes "8 dvd LENGTH('a)"
  shows "store_word Little (byte_swap x) = store_word Big x"
proof -
  have "byte_swap x = load_word Little (store_word Big x)"
    by (simp add: byte_swap_def load_word_def store_word_def Let_def)
  then show ?thesis using assms by (simp add: store_load_word)
qed

lemma byte_swap_byte_swap:
  fixes x :: "'a::len word"
  assumes "8 dvd LENGTH('a)"
  shows "byte_swap (byte_swap x) = x"
proof -
  have "byte_swap (byte_swap x) = load_word Little (rev (store_word Little (byte_swap x)))"
    by (simp add: byte_swap_def load_word_def store_word_def Let_def)
  also have "\<dots> = load_word Little (store_word Little x)"
    using assms by (simp add: store_byte_swap) (simp add: store_word_def Let_def)
  finally show ?thesis using assms by (simp add: load_store_word)
qed

text \<open>Whatever the host's order, the stored network value has its bytes in big-endian order.\<close>

lemma store_host_to_network:
  fixes x :: "'a::len word"
  assumes "8 dvd LENGTH('a)"
  shows "store_word order (host_to_network order x) = store_word Big x"
  using assms by (cases order) (simp_all add: host_to_network_def store_byte_swap)

lemma network_to_host_load:
  assumes "8 dvd LENGTH('a::len)" and "length cs = LENGTH('a) div 8"
  shows "network_to_host order (load_word order cs :: 'a word) = load_word Big cs"
proof (cases order)
  case Little
  have "byte_swap (load_word Little cs :: 'a word) = load_word Little (rev cs)"
    using store_load_word [where 'a = 'a, of cs Little] assms
    by (simp add: byte_swap_def load_word_def store_word_def Let_def)
  with Little show ?thesis by (simp add: network_to_host_def load_word_def)
next
  case Big
  then show ?thesis by (simp add: network_to_host_def)
qed

lemma network_host_roundtrip:
  fixes x :: "'a::len word"
  assumes "8 dvd LENGTH('a)"
  shows "network_to_host order (host_to_network order x) = x"
  using assms by (cases order) (simp_all add: network_to_host_def host_to_network_def byte_swap_byte_swap)

end
