(* ===== verification/Buffer.thy ===== *)
theory Buffer
  imports Endian Contracts
begin

text \<open>
  The byte buffers (\<^verbatim>\<open>include/coring/buffer.hpp\<close>): \<open>buffer_base\<close> with its two indices over a
  container of characters, and its two subclasses, which differ in \<open>make_room\<close> only:
  \<open>fixed_buffer\<close> works on an array of the caller and throws when it is full, \<open>flex_buffer\<close> grows
  a vector.

  A pointer into the container is its offset from \<open>container_.data()\<close>, and a null pointer is
  \<open>None\<close>. Reads and writes outside the container end in \<open>Out_of_bounds\<close>. The capacity of the
  vector beyond its size is not modelled, since no operation of the buffer writes there.
\<close>

section \<open>Memory\<close>

definition mem_read :: "char list \<Rightarrow> nat \<Rightarrow> nat \<Rightarrow> char list res" where
  "mem_read m p n = (if p + n \<le> length m then Inr (take n (drop p m)) else Inl Out_of_bounds)"

definition mem_write :: "char list \<Rightarrow> nat \<Rightarrow> char list \<Rightarrow> char list res" where
  "mem_write m p bs =
     (if p + length bs \<le> length m then Inr (take p m @ bs @ drop (p + length bs) m)
      else Inl Out_of_bounds)"

text \<open>\<open>memmove\<close> within the container.\<close>

definition mem_move :: "char list \<Rightarrow> nat \<Rightarrow> nat \<Rightarrow> nat \<Rightarrow> char list res" where
  "mem_move m dst src n = res_bind (mem_read m src n) (mem_write m dst)"

text \<open>\<open>std::vector<char>::resize\<close>: new characters are zero; beyond \<open>max_size\<close> it throws.\<close>

definition vector_max_size :: nat where
  "vector_max_size = 9223372036854775807"

definition vec_resize :: "char list \<Rightarrow> nat \<Rightarrow> char list res" where
  "vec_resize m n =
     (if vector_max_size < n then Inl (Runtime_error ''vector::_M_default_append'')
      else Inr (take n m @ replicate (n - length m) (CHR 0x00)))"

text \<open>\<open>std::search\<close>: the offset of the first occurrence, the length when there is none.\<close>

fun is_prefix :: "char list \<Rightarrow> char list \<Rightarrow> bool" where
  "is_prefix [] xs = True"
| "is_prefix (p # ps) [] = False"
| "is_prefix (p # ps) (x # xs) = (p = x \<and> is_prefix ps xs)"

fun std_search :: "char list \<Rightarrow> char list \<Rightarrow> nat" where
  "std_search pat [] = 0"
| "std_search pat (x # xs) = (if is_prefix pat (x # xs) then 0 else Suc (std_search pat xs))"

text \<open>\<open>memchr\<close>\<close>

fun memchr :: "char \<Rightarrow> char list \<Rightarrow> nat option" where
  "memchr c [] = None"
| "memchr c (x # xs) = (if x = c then Some 0 else map_option Suc (memchr c xs))"

section \<open>buffer_base\<close>

record buffer_base =
  b_container :: "char list"
  b_index_read :: size_t
  b_index_write :: size_t

definition kCRLF :: "char list" where
  "kCRLF = [CHR 0x0D, CHR 0x0A, CHR 0x0D, CHR 0x0A]"

definition buffer_base_new :: "char list \<Rightarrow> buffer_base" where
  "buffer_base_new m = \<lparr>b_container = m, b_index_read = 0, b_index_write = 0\<rparr>"

definition buf_size :: "buffer_base \<Rightarrow> size_t" where
  "buf_size b = of_nat (length (b_container b))"

definition readable :: "buffer_base \<Rightarrow> size_t" where
  "readable b = b_index_write b - b_index_read b"

definition writable :: "buffer_base \<Rightarrow> size_t" where
  "writable b = buf_size b - b_index_write b"

definition readable_view_n :: "size_t \<Rightarrow> buffer_base \<Rightarrow> char list res" where
  "readable_view_n n b = mem_read (b_container b) (unat (b_index_read b)) (unat n)"

definition readable_view :: "buffer_base \<Rightarrow> char list res" where
  "readable_view b = mem_read (b_container b) (unat (b_index_read b)) (unat (readable b))"

definition clear :: "buffer_base \<Rightarrow> buffer_base" where
  "clear b = b\<lparr>b_index_read := 0, b_index_write := 0\<rparr>"

definition has_read :: "size_t \<Rightarrow> buffer_base \<Rightarrow> buffer_base res" where
  "has_read len b =
     (if \<not> len \<le> readable b then Inl Assert_failed
      else if len = readable b then Inr (clear b)
      else Inr (b\<lparr>b_index_read := b_index_read b + len\<rparr>))"

definition pop_string :: "size_t \<Rightarrow> buffer_base \<Rightarrow> (char list \<times> buffer_base) res" where
  "pop_string len b =
     (let len = (if readable b < len then readable b else len)
      in res_bind (mem_read (b_container b) (unat (b_index_read b)) (unat len)) (\<lambda>ret.
         res_bind (has_read len b) (\<lambda>b. Inr (ret, b))))"

definition pop_int :: "byte_order \<Rightarrow> buffer_base \<Rightarrow> ('a::len word \<times> buffer_base) res" where
  "pop_int order b =
     (let n = sizeof_word TYPE('a word)
      in if \<not> of_nat n \<le> readable b then Inl Assert_failed
         else res_bind (mem_read (b_container b) (unat (b_index_read b)) n) (\<lambda>bytes.
              res_bind (has_read (of_nat n) b) (\<lambda>b.
              Inr (network_to_host order (load_word order bytes), b))))"

definition has_written :: "size_t \<Rightarrow> buffer_base \<Rightarrow> buffer_base" where
  "has_written len b = b\<lparr>b_index_write := b_index_write b + len\<rparr>"

text \<open>The characters from the pointer \<open>start\<close> up to \<open>back ()\<close>.\<close>

definition range_to_back :: "nat \<Rightarrow> buffer_base \<Rightarrow> char list res" where
  "range_to_back start b =
     (if start \<le> unat (b_index_write b)
      then mem_read (b_container b) start (unat (b_index_write b) - start)
      else Inl Out_of_bounds)"

definition search_from :: "char list \<Rightarrow> nat \<Rightarrow> buffer_base \<Rightarrow> nat option res" where
  "search_from pat start b =
     res_bind (range_to_back start b) (\<lambda>r.
       let crlf = start + std_search pat r
       in Inr (if crlf = unat (b_index_write b) then None else Some crlf))"

definition find_ch :: "char \<Rightarrow> buffer_base \<Rightarrow> nat option res" where
  "find_ch ch b =
     res_bind (mem_read (b_container b) (unat (b_index_read b)) (unat (readable b))) (\<lambda>r.
       Inr (case memchr ch r of
              None \<Rightarrow> None
            | Some i \<Rightarrow> if unat (b_index_read b) + i = unat (b_index_write b) then None
                        else Some (unat (b_index_read b) + i)))"

definition find_crlf :: "buffer_base \<Rightarrow> nat option res" where
  "find_crlf b = search_from (take 2 kCRLF) (unat (b_index_read b)) b"

definition find_crlf_from :: "nat \<Rightarrow> buffer_base \<Rightarrow> nat option res" where
  "find_crlf_from start b = search_from (take 2 kCRLF) start b"

definition find_2crlf :: "buffer_base \<Rightarrow> nat option res" where
  "find_2crlf b = search_from (take 4 kCRLF) (unat (b_index_read b)) b"

definition find_2crlf_from :: "nat \<Rightarrow> buffer_base \<Rightarrow> nat option res" where
  "find_2crlf_from start b = search_from (take 4 kCRLF) start b"

definition find_eol :: "buffer_base \<Rightarrow> nat option res" where
  "find_eol b =
     res_bind (mem_read (b_container b) (unat (b_index_read b)) (unat (readable b))) (\<lambda>r.
       Inr (map_option ((+) (unat (b_index_read b))) (memchr (CHR 0x0A) r)))"

definition findEOL :: "nat \<Rightarrow> buffer_base \<Rightarrow> nat option res" where
  "findEOL start b =
     res_bind (range_to_back start b) (\<lambda>r.
       Inr (map_option ((+) start) (memchr (CHR 0x0A) r)))"

section \<open>fixed_buffer\<close>

definition fixed_buffer :: "char list \<Rightarrow> size_t \<Rightarrow> buffer_base" where
  "fixed_buffer s len = buffer_base_new (take (unat len) s)"

text \<open>From a character array of \<open>N\<close> characters; the terminating zero is left out.\<close>

definition fixed_buffer_of_array :: "char list \<Rightarrow> buffer_base" where
  "fixed_buffer_of_array s = buffer_base_new (take (length s - 1) s)"

definition fixed_make_room :: "size_t \<Rightarrow> buffer_base \<Rightarrow> buffer_base res" where
  "fixed_make_room want b =
     res_bind
       (if 0 < b_index_read b
        then let now_have = readable b
             in res_bind (mem_move (b_container b) (unat (b_index_read b)) (unat (b_index_read b))
                           (unat now_have)) (\<lambda>m.
                Inr (b\<lparr>b_container := m, b_index_read := 0, b_index_write := now_have\<rparr>))
        else Inr b)
       (\<lambda>b. if writable b < want then Inl (Runtime_error ''cannot make room for fixed buffer'')
            else Inr b)"

definition fixed_emplace_back :: "char \<Rightarrow> buffer_base \<Rightarrow> buffer_base res" where
  "fixed_emplace_back ch b =
     res_bind (mem_write (b_container b) (unat (b_index_write b)) [ch]) (\<lambda>m.
     Inr (has_written 1 (b\<lparr>b_container := m\<rparr>)))"

definition fixed_push_back_ch :: "char \<Rightarrow> buffer_base \<Rightarrow> buffer_base res" where
  "fixed_push_back_ch ch b = res_bind (fixed_make_room 1 b) (fixed_emplace_back ch)"

definition fixed_push_back :: "char list \<Rightarrow> size_t \<Rightarrow> buffer_base \<Rightarrow> buffer_base res" where
  "fixed_push_back src len b =
     res_bind (fixed_make_room len b) (\<lambda>b.
     res_bind (mem_read src 0 (unat len)) (\<lambda>bytes.
     res_bind (mem_write (b_container b) (unat (b_index_write b)) bytes) (\<lambda>m.
     Inr (has_written len (b\<lparr>b_container := m\<rparr>)))))"

definition fixed_push_back_string :: "string \<Rightarrow> buffer_base \<Rightarrow> buffer_base res" where
  "fixed_push_back_string str b = fixed_push_back str (of_nat (length str)) b"

section \<open>flex_buffer\<close>

text \<open>
  The constructor takes an \<open>int\<close>, which the constructor of the vector takes as a size: a negative one is
  beyond the largest size and throws. \<open>flex_buffer\<close> is the object for a size that is not.
\<close>

definition flex_buffer :: "nat \<Rightarrow> buffer_base" where
  "flex_buffer init_size = buffer_base_new (replicate init_size (CHR 0x00))"

definition flex_buffer_new :: "int \<Rightarrow> buffer_base res" where
  "flex_buffer_new init_size =
     (let n = unat (word_of_int init_size :: size_t)
      in if n \<le> vector_max_size then Inr (flex_buffer n)
         else Inl (Runtime_error ''cannot create std::vector larger than max_size()''))"

lemma flex_buffer_new_result:
  assumes "- 2147483648 \<le> n" and "n \<le> 2147483647"
  shows "flex_buffer_new n =
    (if 0 \<le> n then Inr (flex_buffer (nat n))
     else Inl (Runtime_error ''cannot create std::vector larger than max_size()''))"
proof -
  have "uint (word_of_int n :: size_t) = n mod 18446744073709551616"
    by (simp add: uint_word_of_int)
  also have "\<dots> = (if 0 \<le> n then n else n + 18446744073709551616)"
  proof (cases "0 \<le> n")
    case False
    have "n mod 18446744073709551616 = (n + 18446744073709551616) mod 18446744073709551616" by simp
    also have "\<dots> = n + 18446744073709551616" using False assms by (intro mod_pos_pos_trivial) simp_all
    finally show ?thesis using False by simp
  qed (use assms in \<open>simp add: mod_pos_pos_trivial\<close>)
  finally show ?thesis using assms by (auto simp: flex_buffer_new_def vector_max_size_def unat_eq_nat_uint Let_def)
qed

definition flex_make_room :: "size_t \<Rightarrow> buffer_base \<Rightarrow> buffer_base res" where
  "flex_make_room want b =
     res_bind
       (if 0 < b_index_read b
        then let now_have = readable b
             in res_bind (mem_move (b_container b) (unat (b_index_read b)) (unat (b_index_read b))
                           (unat now_have)) (\<lambda>m.
                Inr (b\<lparr>b_container := m, b_index_read := 0, b_index_write := now_have\<rparr>))
        else Inr b)
       (\<lambda>b. if writable b < want
            then res_bind (vec_resize (b_container b) (unat (b_index_write b + want))) (\<lambda>m.
                 Inr (b\<lparr>b_container := m\<rparr>))
            else Inr b)"

definition flex_emplace_back :: "char \<Rightarrow> buffer_base \<Rightarrow> buffer_base res" where
  "flex_emplace_back ch b =
     res_bind (mem_write (b_container b) (unat (b_index_write b)) [ch]) (\<lambda>m.
     Inr (has_written 1 (b\<lparr>b_container := m\<rparr>)))"

definition flex_push_back_ch :: "char \<Rightarrow> buffer_base \<Rightarrow> buffer_base res" where
  "flex_push_back_ch ch b = res_bind (flex_make_room 1 b) (flex_emplace_back ch)"

definition flex_push_back :: "char list \<Rightarrow> size_t \<Rightarrow> buffer_base \<Rightarrow> buffer_base res" where
  "flex_push_back src len b =
     res_bind (flex_make_room len b) (\<lambda>b.
     res_bind (mem_read src 0 (unat len)) (\<lambda>bytes.
     res_bind (mem_write (b_container b) (unat (b_index_write b)) bytes) (\<lambda>m.
     Inr (has_written len (b\<lparr>b_container := m\<rparr>)))))"

definition flex_push_back_string :: "string \<Rightarrow> buffer_base \<Rightarrow> buffer_base res" where
  "flex_push_back_string str b = flex_push_back str (of_nat (length str)) b"

section \<open>What the buffers keep\<close>

definition buf_inv :: "buffer_base \<Rightarrow> bool" where
  "buf_inv b \<longleftrightarrow> b_index_read b \<le> b_index_write b \<and>
     unat (b_index_write b) \<le> length (b_container b) \<and> length (b_container b) \<le> vector_max_size"

text \<open>The bytes that were written and not read yet.\<close>

definition buf_bytes :: "buffer_base \<Rightarrow> char list" where
  "buf_bytes b = take (unat (b_index_write b) - unat (b_index_read b))
     (drop (unat (b_index_read b)) (b_container b))"

definition buf_compact :: "buffer_base \<Rightarrow> bool" where
  "buf_compact b \<longleftrightarrow> b_index_read b = 0"

lemma mem_read_iff [buf_simps]:
  "mem_read m p n = Inr r \<longleftrightarrow> p + n \<le> length m \<and> r = take n (drop p m)"
  by (auto simp: mem_read_def)

lemma mem_move_same [buf_simps]:
  assumes "p + n \<le> length m"
  shows "mem_move m p p n = Inr m"
proof -
  have "take p m @ take n (drop p m) @ drop (p + n) m = m"
    by (metis add.commute append_take_drop_id drop_drop)
  then show ?thesis using assms by (simp add: mem_move_def mem_read_def mem_write_def)
qed

lemma unat_readable [buf_simps]:
  "buf_inv b \<Longrightarrow> unat (readable b) = unat (b_index_write b) - unat (b_index_read b)"
  by (simp add: buf_inv_def readable_def unat_sub_u64)

lemma unat_buf_size [buf_simps]: "buf_inv b \<Longrightarrow> unat (buf_size b) = length (b_container b)"
  by (simp add: buf_inv_def buf_size_def vector_max_size_def of_nat_less_u64)

lemma unat_writable [buf_simps]:
  assumes "buf_inv b"
  shows "unat (writable b) = length (b_container b) - unat (b_index_write b)"
proof -
  have "b_index_write b \<le> buf_size b"
    using assms unat_buf_size [OF assms] by (simp add: buf_inv_def word_le_nat_alt)
  then show ?thesis using unat_buf_size [OF assms] by (simp add: writable_def unat_sub_u64)
qed

lemma buf_inv_nat:
  "buf_inv b \<Longrightarrow> unat (b_index_read b) \<le> unat (b_index_write b)"
  "buf_inv b \<Longrightarrow> unat (b_index_write b) \<le> length (b_container b)"
  by (simp_all add: buf_inv_def word_le_nat_alt)

lemma length_buf_bytes: "buf_inv b \<Longrightarrow> length (buf_bytes b) = unat (readable b)"
  using buf_inv_nat [of b] by (simp add: buf_bytes_def unat_readable)

lemma readable_view_bytes: "buf_inv b \<Longrightarrow> readable_view b = Inr (buf_bytes b)"
  using buf_inv_nat [of b] by (simp add: readable_view_def mem_read_def buf_bytes_def buf_simps)

lemma clear_inv [simp]: "buf_inv b \<Longrightarrow> buf_inv (clear b)"
  by (simp add: buf_inv_def clear_def)

lemma clear_bytes [simp]: "buf_bytes (clear b) = []"
  by (simp add: buf_bytes_def clear_def)

lemma clear_compact [simp]: "buf_compact (clear b)"
  by (simp add: buf_compact_def clear_def)

text \<open>\<open>has_read\<close> drops exactly the bytes it is told, and asserts that there are as many.\<close>

lemma has_read_drops:
  assumes "buf_inv b" and "unat len \<le> length (buf_bytes b)"
  shows "\<exists>b'. has_read len b = Inr b' \<and> buf_inv b' \<and> buf_bytes b' = drop (unat len) (buf_bytes b)"
proof (cases "len = readable b")
  case True
  then show ?thesis
    using assms by (simp add: has_read_def length_buf_bytes)
next
  case False
  note nat = buf_inv_nat [OF assms(1)]
  have len: "unat len < unat (b_index_write b) - unat (b_index_read b)"
    using assms False by (simp add: length_buf_bytes unat_readable [symmetric] le_less unat_eq_iff_u64)
  have add: "unat (b_index_read b + len) = unat (b_index_read b) + unat len"
    using len by (intro unat_add_within [of _ _ "b_index_write b"]) simp
  have "len \<le> readable b" using assms by (simp add: length_buf_bytes word_le_nat_alt)
  then show ?thesis
    using assms False len add nat
    by (simp add: has_read_def buf_inv_def buf_bytes_def word_le_nat_alt drop_take
        add.commute)
qed

lemma has_read_asserts:
  "buf_inv b \<Longrightarrow> length (buf_bytes b) < unat len \<Longrightarrow> has_read len b = Inl Assert_failed"
  by (simp add: has_read_def length_buf_bytes word_le_nat_alt)

lemma pop_string_takes:
  assumes "buf_inv b"
  shows "\<exists>b'. pop_string len b = Inr (take (unat len) (buf_bytes b), b') \<and> buf_inv b' \<and>
    buf_bytes b' = drop (unat len) (buf_bytes b)"
proof -
  define n where "n = (if readable b < len then readable b else len)"
  have n: "unat n = min (unat len) (length (buf_bytes b))"
    using assms by (auto simp: n_def length_buf_bytes word_less_nat_alt)
  then obtain b' where b': "has_read n b = Inr b'" "buf_inv b'"
    "buf_bytes b' = drop (unat n) (buf_bytes b)"
    using has_read_drops [OF assms, of n] by auto
  have "unat (b_index_read b) + unat n \<le> length (b_container b)"
    using n buf_inv_nat [OF assms] length_buf_bytes [OF assms] unat_readable [OF assms] by simp
  then have "mem_read (b_container b) (unat (b_index_read b)) (unat n) =
      Inr (take (unat len) (buf_bytes b))"
    using n length_buf_bytes [OF assms] unat_readable [OF assms]
    by (simp add: mem_read_def buf_bytes_def min.commute)
  then show ?thesis
    using b' n by (simp add: pop_string_def n_def [symmetric] Let_def drop_min_length)
qed

text \<open>An integer in network order at the front of the buffer is popped as that integer.\<close>

lemma pop_int_takes:
  fixes x :: "'a::len word"
  assumes inv: "buf_inv b" and w: "8 dvd LENGTH('a)" "LENGTH('a) \<le> 64"
    and bytes: "buf_bytes b = store_word order (host_to_network order x) @ rest"
  shows "\<exists>b'. pop_int order b = Inr (x, b') \<and> buf_inv b' \<and> buf_bytes b' = rest"
proof -
  let ?n = "sizeof_word TYPE('a word)"
  have n: "?n = LENGTH('a) div 8" by (simp add: sizeof_word_def)
  have u: "unat (of_nat ?n :: u64) = ?n"
    using w n by (intro of_nat_less_u64) simp
  have len: "length (buf_bytes b) = ?n + length rest" using bytes n by simp
  then obtain b' where b': "has_read (of_nat ?n) b = Inr b'" "buf_inv b'"
    "buf_bytes b' = drop ?n (buf_bytes b)"
    using has_read_drops [OF inv, of "of_nat ?n"] u by auto
  have "unat (b_index_read b) + ?n \<le> length (b_container b)"
    using len buf_inv_nat [OF inv] length_buf_bytes [OF inv] unat_readable [OF inv] by simp
  then have "mem_read (b_container b) (unat (b_index_read b)) ?n = Inr (take ?n (buf_bytes b))"
    using len length_buf_bytes [OF inv] unat_readable [OF inv]
    by (simp add: mem_read_def buf_bytes_def min_def)
  moreover have "take ?n (buf_bytes b) = store_word order (host_to_network order x)"
    "drop ?n (buf_bytes b) = rest"
    using bytes n by simp_all
  moreover have "of_nat ?n \<le> readable b"
    using len u length_buf_bytes [OF inv] by (simp add: word_le_nat_alt)
  ultimately show ?thesis
    using b' w by (simp add: pop_int_def Let_def load_store_word network_host_roundtrip)
qed

section \<open>Making room and appending\<close>

text \<open>
  Both versions of \<open>make_room\<close> first do the same: \<open>memmove\<close> copies the readable bytes onto
  themselves, then the indices are moved to the front. So the readable bytes become the
  \<open>readable ()\<close> first bytes of the container.
\<close>

definition buf_rebase :: "buffer_base \<Rightarrow> buffer_base" where
  "buf_rebase b = b\<lparr>b_index_read := 0, b_index_write := readable b\<rparr>"

lemma buf_rebase_inv:
  assumes "buf_inv b"
  shows "buf_inv (buf_rebase b)" and "buf_compact (buf_rebase b)"
    and "buf_bytes (buf_rebase b) = take (length (buf_bytes b)) (b_container b)"
  using assms buf_inv_nat [OF assms] unat_readable [OF assms] length_buf_bytes [OF assms]
  by (simp_all add: buf_rebase_def buf_inv_def buf_compact_def buf_bytes_def)

lemma buf_rebase_compact: "buf_compact b \<Longrightarrow> buf_rebase b = b"
  by (simp add: buf_rebase_def buf_compact_def readable_def)

lemma make_room_prefix:
  assumes "buf_inv b"
  shows "(if 0 < b_index_read b
      then let now_have = readable b
           in res_bind (mem_move (b_container b) (unat (b_index_read b)) (unat (b_index_read b))
                         (unat now_have)) (\<lambda>m.
              Inr (b\<lparr>b_container := m, b_index_read := 0, b_index_write := now_have\<rparr>))
      else Inr b) = Inr (buf_rebase b)"
proof (cases "0 < b_index_read b")
  case True
  have "unat (b_index_read b) + unat (readable b) \<le> length (b_container b)"
    using buf_inv_nat [OF assms] unat_readable [OF assms] by simp
  then show ?thesis using True by (simp add: mem_move_same buf_rebase_def)
next
  case False
  then have "buf_compact b" by (simp add: buf_compact_def word_gt_0)
  then show ?thesis using False buf_rebase_compact [of b] by simp
qed

lemma fixed_make_room_exact:
  assumes "buf_inv b"
  shows "fixed_make_room want b =
    (if unat want \<le> length (b_container b) - length (buf_bytes b) then Inr (buf_rebase b)
     else Inl (Runtime_error ''cannot make room for fixed buffer''))"
proof -
  have "unat (writable (buf_rebase b)) = length (b_container b) - length (buf_bytes b)"
    using unat_writable [OF buf_rebase_inv(1) [OF assms]] length_buf_bytes [OF assms]
    by (simp add: buf_rebase_def)
  then show ?thesis
    unfolding fixed_make_room_def make_room_prefix [OF assms]
    by (simp add: word_less_nat_alt not_less [symmetric])
qed

definition buf_grow :: "nat \<Rightarrow> buffer_base \<Rightarrow> buffer_base" where
  "buf_grow n b = b\<lparr>b_container := b_container b @ replicate (n - length (b_container b)) (CHR 0x00)\<rparr>"

lemma buf_grow_inv:
  assumes "buf_inv b" and "n \<le> vector_max_size"
  shows "buf_inv (buf_grow n b)" and "buf_bytes (buf_grow n b) = buf_bytes b"
  using assms buf_inv_nat [OF assms(1)] by (auto simp: buf_grow_def buf_inv_def buf_bytes_def)

lemma buf_grow_noop: "n \<le> length (b_container b) \<Longrightarrow> buf_grow n b = b"
  by (simp add: buf_grow_def)

lemma flex_make_room_exact:
  assumes "buf_inv b" and max: "length (buf_bytes b) + unat want \<le> vector_max_size"
  shows "flex_make_room want b = Inr (buf_grow (length (buf_bytes b) + unat want) (buf_rebase b))"
proof -
  let ?b = "buf_rebase b"
  have rd: "unat (b_index_write ?b) = length (buf_bytes b)"
    using length_buf_bytes [OF assms(1)] by (simp add: buf_rebase_def)
  have wr: "unat (writable ?b) = length (b_container ?b) - length (buf_bytes b)"
    using unat_writable [OF buf_rebase_inv(1) [OF assms(1)]] rd by simp
  have le: "length (buf_bytes b) \<le> length (b_container ?b)"
    using buf_inv_nat(2) [OF buf_rebase_inv(1) [OF assms(1)]] rd by simp
  have "unat (b_index_write ?b + want) = length (buf_bytes b) + unat want"
    using max rd unat_add_le_u64 [of "b_index_write ?b" "unat want"]
    by (simp add: vector_max_size_def)
  then show ?thesis
    unfolding flex_make_room_def make_room_prefix [OF assms(1)]
    using wr le max
    by (auto simp: word_less_nat_alt vec_resize_def buf_grow_def)
qed

text \<open>The tail that both \<open>push_back\<close> operations share, once there is room.\<close>

definition store_back :: "char list \<Rightarrow> size_t \<Rightarrow> buffer_base \<Rightarrow> buffer_base res" where
  "store_back src len b =
     res_bind (mem_read src 0 (unat len)) (\<lambda>bytes.
     res_bind (mem_write (b_container b) (unat (b_index_write b)) bytes) (\<lambda>m.
     Inr (has_written len (b\<lparr>b_container := m\<rparr>))))"

lemma fixed_push_back_store:
  "fixed_push_back src len b = res_bind (fixed_make_room len b) (store_back src len)"
  by (simp add: fixed_push_back_def store_back_def [abs_def])

lemma flex_push_back_store:
  "flex_push_back src len b = res_bind (flex_make_room len b) (store_back src len)"
  by (simp add: flex_push_back_def store_back_def [abs_def])

lemma emplace_back_store:
  "fixed_emplace_back ch = store_back [ch] 1" "flex_emplace_back ch = store_back [ch] 1"
  by (simp_all add: fun_eq_iff fixed_emplace_back_def flex_emplace_back_def store_back_def
      mem_read_def)

lemma push_back_ch_push_back:
  "fixed_push_back_ch ch b = fixed_push_back [ch] 1 b"
  "flex_push_back_ch ch b = flex_push_back [ch] 1 b"
  by (simp_all add: fixed_push_back_ch_def flex_push_back_ch_def fixed_push_back_store
      flex_push_back_store emplace_back_store)

lemma store_back_appends:
  assumes inv: "buf_inv b" and len: "length src = unat len"
    and fits: "unat (b_index_write b) + length src \<le> length (b_container b)"
  shows "\<exists>b'. store_back src len b = Inr b' \<and> buf_inv b' \<and> buf_bytes b' = buf_bytes b @ src \<and>
    b_index_read b' = b_index_read b \<and> length (b_container b') = length (b_container b)"
proof -
  let ?w = "unat (b_index_write b)" and ?r = "unat (b_index_read b)" and ?c = "b_container b"
  let ?b' = "has_written len (b\<lparr>b_container := take ?w ?c @ src @ drop (?w + length src) ?c\<rparr>)"
  have w: "unat (b_index_write b + len) = ?w + length src"
    using fits inv len unat_add_le_u64 [of "b_index_write b" "unat len"]
    by (simp add: buf_inv_def vector_max_size_def)
  have rw: "?r \<le> ?w" "?w \<le> length ?c" using buf_inv_nat [OF inv] by auto
  have "store_back src len b = Inr ?b'"
    using len fits by (simp add: store_back_def mem_read_def mem_write_def)
  moreover have "buf_inv ?b'"
    using inv w fits rw by (simp add: buf_inv_def has_written_def word_le_nat_alt)
  moreover have "buf_bytes ?b' = buf_bytes b @ src"
    using w rw fits by (simp add: buf_bytes_def has_written_def drop_take)
  ultimately show ?thesis
    using rw fits by (auto simp: has_written_def)
qed

text \<open>What a \<open>push_back\<close> does for every state of the indices.\<close>

lemma fixed_push_back_exact:
  assumes "buf_inv b" and "length src = unat len"
    and "length (buf_bytes b) + length src \<le> length (b_container b)"
  shows "\<exists>b'. fixed_push_back src len b = Inr b' \<and> buf_inv b' \<and> buf_compact b' \<and>
    buf_bytes b' = take (length (buf_bytes b)) (b_container b) @ src \<and>
    length (b_container b') = length (b_container b)"
proof -
  note rb = buf_rebase_inv [OF assms(1)]
  have "unat (b_index_write (buf_rebase b)) + length src \<le> length (b_container (buf_rebase b))"
    using assms length_buf_bytes [OF assms(1)] by (simp add: buf_rebase_def)
  from store_back_appends [OF rb(1) assms(2) this] obtain b' where
    "store_back src len (buf_rebase b) = Inr b'" "buf_inv b'"
    "buf_bytes b' = buf_bytes (buf_rebase b) @ src" "b_index_read b' = b_index_read (buf_rebase b)"
    "length (b_container b') = length (b_container (buf_rebase b))" by blast
  then show ?thesis
    using rb assms fixed_make_room_exact [OF assms(1), of len]
    by (simp add: fixed_push_back_store buf_compact_def buf_rebase_def)
qed

lemma flex_push_back_exact:
  assumes "buf_inv b" and "length src = unat len"
    and "length (buf_bytes b) + length src \<le> vector_max_size"
  shows "\<exists>b'. flex_push_back src len b = Inr b' \<and> buf_inv b' \<and> buf_compact b' \<and>
    buf_bytes b' = take (length (buf_bytes b)) (b_container b) @ src"
proof -
  let ?b = "buf_grow (length (buf_bytes b) + unat len) (buf_rebase b)"
  note rb = buf_rebase_inv [OF assms(1)]
  have g: "buf_inv ?b" "buf_bytes ?b = buf_bytes (buf_rebase b)"
    using buf_grow_inv [OF rb(1), of "length (buf_bytes b) + unat len"] assms(2,3) by auto
  have "unat (b_index_write ?b) + length src \<le> length (b_container ?b)"
    using assms length_buf_bytes [OF assms(1)] by (simp add: buf_rebase_def buf_grow_def)
  from store_back_appends [OF g(1) assms(2) this] obtain b' where
    "store_back src len ?b = Inr b'" "buf_inv b'" "buf_bytes b' = buf_bytes ?b @ src"
    "b_index_read b' = b_index_read ?b" by blast
  then show ?thesis
    using rb g assms flex_make_room_exact [OF assms(1), of len]
    by (simp add: flex_push_back_store buf_compact_def buf_rebase_def buf_grow_def)
qed

lemma fixed_push_back_throws:
  assumes "buf_inv b" and "length (b_container b) < length (buf_bytes b) + unat len"
  shows "fixed_push_back src len b = Inl (Runtime_error ''cannot make room for fixed buffer'')"
proof -
  have "length (buf_bytes b) \<le> length (b_container b)"
    using buf_inv_nat [OF assms(1)] length_buf_bytes [OF assms(1)] unat_readable [OF assms(1)]
    by simp
  then have "\<not> unat len \<le> length (b_container b) - length (buf_bytes b)"
    using assms(2) by linarith
  then show ?thesis
    using fixed_make_room_exact [OF assms(1), of len] by (simp add: fixed_push_back_store)
qed

lemma take_bytes_compact:
  "buf_compact b \<Longrightarrow> buf_inv b \<Longrightarrow> take (length (buf_bytes b)) (b_container b) = buf_bytes b"
  using buf_inv_nat [of b] by (simp add: buf_compact_def buf_bytes_def)

section \<open>The buffers as byte buffers\<close>

definition take_all :: "buffer_base \<Rightarrow> (char list \<times> buffer_base) res" where
  "take_all b = pop_string (readable b) b"

definition fixed_fits :: "nat \<Rightarrow> buffer_base \<Rightarrow> bool" where
  "fixed_fits n b \<longleftrightarrow> length (buf_bytes b) + n \<le> length (b_container b) \<and> buf_inv b"

definition flex_fits :: "nat \<Rightarrow> buffer_base \<Rightarrow> bool" where
  "flex_fits n b \<longleftrightarrow> length (buf_bytes b) + n \<le> vector_max_size"

lemma take_all_bytes:
  assumes "buf_inv b"
  shows "\<exists>b'. take_all b = Inr (buf_bytes b, b') \<and> buf_inv b' \<and> buf_compact b' \<and> buf_bytes b' = []"
  using assms length_buf_bytes [OF assms] unat_readable [OF assms] buf_inv_nat [OF assms]
  by (simp add: take_all_def pop_string_def has_read_def mem_read_def buf_bytes_def)
     (simp add: clear_def buf_inv_def buf_compact_def)

interpretation fixed: byte_buffer buf_inv buf_bytes buf_compact fixed_fits fixed_push_back_string take_all
proof unfold_locales
  fix n m b
  assume "fixed_fits n b" and "m \<le> n"
  then show "fixed_fits m b" by (simp add: fixed_fits_def)
next
  fix b and bs :: "char list"
  assume b: "buf_inv b" "buf_compact b" and fits: "fixed_fits (length bs) b"
  then have "length bs = unat (of_nat (length bs) :: u64)"
    by (intro of_nat_less_u64 [symmetric]) (simp add: fixed_fits_def buf_inv_def vector_max_size_def)
  from fixed_push_back_exact [OF b(1) this] fits
  obtain b' where "fixed_push_back bs (of_nat (length bs)) b = Inr b'" "buf_inv b'" "buf_compact b'"
    "buf_bytes b' = take (length (buf_bytes b)) (b_container b) @ bs"
    "length (b_container b') = length (b_container b)"
    by (auto simp: fixed_fits_def)
  then show "\<exists>b'. fixed_push_back_string bs b = Inr b' \<and> buf_inv b' \<and> buf_compact b' \<and>
      buf_bytes b' = buf_bytes b @ bs \<and> (\<forall>n. fixed_fits (length bs + n) b \<longrightarrow> fixed_fits n b')"
    using take_bytes_compact [OF b(2,1)] by (auto simp: fixed_push_back_string_def fixed_fits_def)
next
  fix b
  assume "buf_inv b"
  then show "\<exists>b'. take_all b = Inr (buf_bytes b, b') \<and> buf_inv b' \<and> buf_compact b' \<and> buf_bytes b' = []"
    by (rule take_all_bytes)
qed

interpretation flex: byte_buffer buf_inv buf_bytes buf_compact flex_fits flex_push_back_string take_all
proof unfold_locales
  fix n m b
  assume "flex_fits n b" and "m \<le> n"
  then show "flex_fits m b" by (simp add: flex_fits_def)
next
  fix b and bs :: "char list"
  assume b: "buf_inv b" "buf_compact b" and fits: "flex_fits (length bs) b"
  then have "length bs = unat (of_nat (length bs) :: u64)"
    by (intro of_nat_less_u64 [symmetric]) (simp add: flex_fits_def buf_inv_def vector_max_size_def)
  from flex_push_back_exact [OF b(1) this] fits
  obtain b' where "flex_push_back bs (of_nat (length bs)) b = Inr b'" "buf_inv b'" "buf_compact b'"
    "buf_bytes b' = take (length (buf_bytes b)) (b_container b) @ bs"
    by (auto simp: flex_fits_def)
  then show "\<exists>b'. flex_push_back_string bs b = Inr b' \<and> buf_inv b' \<and> buf_compact b' \<and>
      buf_bytes b' = buf_bytes b @ bs \<and> (\<forall>n. flex_fits (length bs + n) b \<longrightarrow> flex_fits n b')"
    using take_bytes_compact [OF b(2,1)] by (auto simp: flex_push_back_string_def flex_fits_def)
next
  fix b
  assume "buf_inv b"
  then show "\<exists>b'. take_all b = Inr (buf_bytes b, b') \<and> buf_inv b' \<and> buf_compact b' \<and> buf_bytes b' = []"
    by (rule take_all_bytes)
qed

section \<open>Searching\<close>

lemma is_prefix_iff: "is_prefix p xs \<longleftrightarrow> (\<exists>ys. xs = p @ ys)"
  by (induction p xs rule: is_prefix.induct) auto

text \<open>\<open>std_search\<close> finds the first occurrence, and the end when there is none.\<close>

lemma std_search_le: "std_search pat xs \<le> length xs"
  by (induction xs) auto

lemma std_search_found:
  "std_search pat xs < length xs \<Longrightarrow> is_prefix pat (drop (std_search pat xs) xs)"
  by (induction xs) auto

lemma std_search_first:
  "j < std_search pat xs \<Longrightarrow> \<not> is_prefix pat (drop j xs)"
proof (induction xs arbitrary: j)
  case (Cons x xs)
  then show ?case by (cases j) (auto split: if_splits)
qed simp

lemma search_from_front:
  assumes inv: "buf_inv b"
  shows "search_from pat (unat (b_index_read b)) b =
    Inr (if std_search pat (buf_bytes b) = length (buf_bytes b) then None
         else Some (unat (b_index_read b) + std_search pat (buf_bytes b)))"
  using buf_inv_nat [OF inv] length_buf_bytes [OF inv] unat_readable [OF inv]
  by (auto simp: search_from_def range_to_back_def mem_read_def buf_bytes_def Let_def)

lemma find_crlf_first:
  assumes "buf_inv b"
  shows "find_crlf b = Inr None \<Longrightarrow> (\<forall>j < length (buf_bytes b). \<not> is_prefix (take 2 kCRLF) (drop j (buf_bytes b)))"
    and "find_crlf b = Inr (Some p) \<Longrightarrow> \<exists>i. p = unat (b_index_read b) + i \<and> i + 2 \<le> length (buf_bytes b) \<and>
      is_prefix (take 2 kCRLF) (drop i (buf_bytes b)) \<and>
      (\<forall>j < i. \<not> is_prefix (take 2 kCRLF) (drop j (buf_bytes b)))"
proof -
  let ?i = "std_search (take 2 kCRLF) (buf_bytes b)"
  have "find_crlf b = Inr (if ?i = length (buf_bytes b) then None
      else Some (unat (b_index_read b) + ?i))"
    using search_from_front [OF assms] by (simp add: find_crlf_def)
  moreover have "?i \<le> length (buf_bytes b)" by (rule std_search_le)
  moreover have "?i + 2 \<le> length (buf_bytes b)" if found: "?i < length (buf_bytes b)"
  proof -
    obtain ys where "drop ?i (buf_bytes b) = take 2 kCRLF @ ys"
      using std_search_found [OF found] by (auto simp: is_prefix_iff)
    from arg_cong [OF this, of length] have "length (buf_bytes b) - ?i = 2 + length ys"
      by (simp add: kCRLF_def)
    then show ?thesis using found by linarith
  qed
  ultimately show
    "find_crlf b = Inr None \<Longrightarrow> (\<forall>j < length (buf_bytes b). \<not> is_prefix (take 2 kCRLF) (drop j (buf_bytes b)))"
    and "find_crlf b = Inr (Some p) \<Longrightarrow> \<exists>i. p = unat (b_index_read b) + i \<and> i + 2 \<le> length (buf_bytes b) \<and>
      is_prefix (take 2 kCRLF) (drop i (buf_bytes b)) \<and>
      (\<forall>j < i. \<not> is_prefix (take 2 kCRLF) (drop j (buf_bytes b)))"
    using std_search_found [of "take 2 kCRLF" "buf_bytes b"] std_search_first [of _ "take 2 kCRLF" "buf_bytes b"]
    by (auto split: if_splits)
qed

end
