(* ===== verification/Buffer_Safety.thy ===== *)
theory Buffer_Safety
  imports Buffer
begin

text \<open>
  Clients of the byte buffers: any sequence of the operations of \<^verbatim>\<open>buffer.hpp\<close> on a \<open>fixed_buffer\<close> or a
  \<open>flex_buffer\<close>. A client that receives into the buffer stores at \<open>back ()\<close> what fits into \<open>writable ()\<close> and
  then calls \<open>has_written\<close>; sources of a \<open>push_back\<close> are objects, so no longer than the largest one.
\<close>

datatype buf_op =
    Op_clear
  | Op_has_read size_t
  | Op_pop_string size_t
  | Op_pop_u16 | Op_pop_u32 | Op_pop_u64
  | Op_find_crlf | Op_find_2crlf | Op_find_eol | Op_find_ch char
  | Op_make_room size_t
  | Op_push_back_ch char
  | Op_push_back string
  | Op_receive string

text \<open>\<open>flex\<close> chooses the class of the buffer. What an operation returns besides the buffer is dropped.\<close>

definition receive_into :: "string \<Rightarrow> buffer_base \<Rightarrow> buffer_base res" where
  "receive_into bytes b =
     res_bind (mem_write (b_container b) (unat (b_index_write b)) (take (unat (writable b)) bytes)) (\<lambda>m.
     Inr (has_written (of_nat (length (take (unat (writable b)) bytes))) (b\<lparr>b_container := m\<rparr>)))"

fun buf_step :: "bool \<Rightarrow> byte_order \<Rightarrow> buf_op \<Rightarrow> buffer_base \<Rightarrow> buffer_base res" where
  "buf_step flex order Op_clear b = Inr (clear b)"
| "buf_step flex order (Op_has_read n) b = has_read n b"
| "buf_step flex order (Op_pop_string n) b = res_bind (pop_string n b) (\<lambda>(s, b). Inr b)"
| "buf_step flex order Op_pop_u16 b = res_bind (pop_int order b) (\<lambda>(v :: u16, b). Inr b)"
| "buf_step flex order Op_pop_u32 b = res_bind (pop_int order b) (\<lambda>(v :: u32, b). Inr b)"
| "buf_step flex order Op_pop_u64 b = res_bind (pop_int order b) (\<lambda>(v :: u64, b). Inr b)"
| "buf_step flex order Op_find_crlf b = res_bind (find_crlf b) (\<lambda>_. Inr b)"
| "buf_step flex order Op_find_2crlf b = res_bind (find_2crlf b) (\<lambda>_. Inr b)"
| "buf_step flex order Op_find_eol b = res_bind (find_eol b) (\<lambda>_. Inr b)"
| "buf_step flex order (Op_find_ch c) b = res_bind (find_ch c b) (\<lambda>_. Inr b)"
| "buf_step flex order (Op_make_room n) b = (if flex then flex_make_room n b else fixed_make_room n b)"
| "buf_step flex order (Op_push_back_ch c) b = (if flex then flex_push_back_ch c b else fixed_push_back_ch c b)"
| "buf_step flex order (Op_push_back s) b = (if flex then flex_push_back_string s b else fixed_push_back_string s b)"
| "buf_step flex order (Op_receive s) b = receive_into s b"

fun buf_steps :: "bool \<Rightarrow> byte_order \<Rightarrow> buf_op list \<Rightarrow> buffer_base \<Rightarrow> buffer_base res" where
  "buf_steps flex order [] b = Inr b"
| "buf_steps flex order (x # xs) b = res_bind (buf_step flex order x b) (buf_steps flex order xs)"

text \<open>
  Sizes: a pushed string is an object, and the room asked of a \<open>flex_buffer\<close> is at most that of the largest
  vector. Beyond that, the sum in \<open>make_room\<close> may wrap around.
\<close>

fun op_ok :: "bool \<Rightarrow> buf_op \<Rightarrow> bool" where
  "op_ok flex (Op_make_room n) \<longleftrightarrow> (flex \<longrightarrow> unat n \<le> vector_max_size)"
| "op_ok flex (Op_push_back s) \<longleftrightarrow> length s \<le> vector_max_size"
| "op_ok flex _ \<longleftrightarrow> True"

text \<open>What a step may end in: a buffer in order, a failed assertion or an exception.\<close>

definition step_safe :: "buffer_base res \<Rightarrow> bool" where
  "step_safe r \<longleftrightarrow> (case r of Inr b \<Rightarrow> buf_inv b | Inl e \<Rightarrow> e = Assert_failed \<or> (\<exists>s. e = Runtime_error s))"

lemma step_safe_simps [simp]:
  "step_safe (Inr b) = buf_inv b" "step_safe (Inl Assert_failed)" "step_safe (Inl (Runtime_error s))"
  by (simp_all add: step_safe_def)

lemma has_read_safe: "buf_inv b \<Longrightarrow> step_safe (has_read n b)"
  using has_read_drops [of b n] has_read_asserts [of b n] by (cases "unat n \<le> length (buf_bytes b)") auto

lemma pop_string_safe: "buf_inv b \<Longrightarrow> step_safe (res_bind (pop_string n b) (\<lambda>(s, b). Inr b))"
  using pop_string_takes [of b n] by auto

lemma pop_int_safe:
  assumes inv: "buf_inv b" and n: "sizeof_word TYPE('a::len word) < 256"
  shows "step_safe (res_bind (pop_int order b) (\<lambda>(v :: 'a word, b). Inr b))"
proof -
  let ?n = "sizeof_word TYPE('a word)"
  show ?thesis
  proof (cases "of_nat ?n \<le> readable b")
    case True
    have u: "unat (of_nat ?n :: size_t) = ?n" using n by (intro of_nat_less_u64) simp
    then have "?n \<le> length (buf_bytes b)" using True length_buf_bytes [OF inv] by (simp add: word_le_nat_alt)
    moreover have "unat (b_index_read b) + ?n \<le> length (b_container b)"
      using True u buf_inv_nat [OF inv] unat_readable [OF inv] by (simp add: word_le_nat_alt)
    moreover obtain b' where "has_read (of_nat ?n) b = Inr b'" "buf_inv b'"
      using has_read_drops [OF inv, of "of_nat ?n"] u calculation(1) by auto
    ultimately show ?thesis using True by (simp add: pop_int_def Let_def mem_read_def)
  qed (simp add: pop_int_def Let_def)
qed

lemma readable_in_container:
  assumes "buf_inv b"
  shows "unat (b_index_read b) + unat (readable b) \<le> length (b_container b)"
    "unat (b_index_read b) \<le> unat (b_index_write b)"
  using buf_inv_nat [OF assms] unat_readable [OF assms] by simp_all

lemma find_safe:
  assumes "buf_inv b"
  shows "step_safe (res_bind (find_crlf b) (\<lambda>_. Inr b))" "step_safe (res_bind (find_2crlf b) (\<lambda>_. Inr b))"
    "step_safe (res_bind (find_eol b) (\<lambda>_. Inr b))" "step_safe (res_bind (find_ch c b) (\<lambda>_. Inr b))"
  using assms readable_in_container [OF assms] buf_inv_nat [OF assms]
  by (simp_all add: find_crlf_def find_2crlf_def find_eol_def find_ch_def search_from_def range_to_back_def
      mem_read_def Let_def)

lemma flex_make_room_throws:
  assumes inv: "buf_inv b" and n: "unat n \<le> vector_max_size" and big: "vector_max_size < length (buf_bytes b) + unat n"
  shows "\<exists>s. flex_make_room n b = Inl (Runtime_error s)"
proof -
  let ?b = "buf_rebase b"
  note rb = buf_rebase_inv [OF inv]
  have wr: "unat (b_index_write ?b) = length (buf_bytes b)"
    using length_buf_bytes [OF inv] by (simp add: buf_rebase_def)
  have le: "length (buf_bytes b) \<le> length (b_container ?b)" "length (b_container ?b) \<le> vector_max_size"
    using buf_inv_nat [OF rb(1)] wr rb(1) by (simp_all add: buf_inv_def)
  have "unat (writable ?b) < unat n" using unat_writable [OF rb(1)] wr le big by simp
  moreover have "unat (b_index_write ?b + n) = length (buf_bytes b) + unat n"
    using wr le n unat_add_le_u64 [of "b_index_write ?b" "unat n"] by (simp add: vector_max_size_def)
  ultimately show ?thesis
    unfolding flex_make_room_def make_room_prefix [OF inv] using big by (simp add: word_less_nat_alt vec_resize_def)
qed

text \<open>
  When the size of the resized container wraps around, the container becomes shorter than what is in
  the buffer, and the index of the next byte to write lies outside.
\<close>

lemma flex_make_room_wraps:
  assumes inv: "buf_inv b" and wrap: "18446744073709551616 \<le> length (buf_bytes b) + unat n"
  shows "\<exists>b'. flex_make_room n b = Inr b' \<and> unat (b_index_write b') = length (buf_bytes b) \<and>
    length (b_container b') = length (buf_bytes b) + unat n - 18446744073709551616 \<and>
    length (b_container b') < unat (b_index_write b')"
proof -
  let ?b = "buf_rebase b" and ?k = "length (buf_bytes b) + unat n - 18446744073709551616"
  note rb = buf_rebase_inv [OF inv]
  have wr: "unat (b_index_write ?b) = length (buf_bytes b)"
    using length_buf_bytes [OF inv] by (simp add: buf_rebase_def)
  have le: "length (buf_bytes b) \<le> length (b_container ?b)" "length (b_container ?b) \<le> vector_max_size"
    using buf_inv_nat [OF rb(1)] wr rb(1) by (simp_all add: buf_inv_def)
  have n: "unat n < 18446744073709551616" using unsigned_less [of n, where 'a = nat] by simp
  have small: "?k < 18446744073709551616" using n le unfolding vector_max_size_def by linarith
  have "unat (b_index_write ?b + n) = (length (buf_bytes b) + unat n) mod 18446744073709551616"
    by (simp only: unat_word_ariths(1) wr) simp
  also have "length (buf_bytes b) + unat n = ?k + 18446744073709551616" using wrap by simp
  also have "(?k + 18446744073709551616) mod 18446744073709551616 = ?k"
    using small by (simp only: mod_add_self2 mod_less)
  finally have k: "unat (b_index_write ?b + n) = ?k" .
  have "?k < length (buf_bytes b)" using n wrap by linarith
  moreover from this le have "?k \<le> length (b_container ?b)" "?k \<le> vector_max_size" by linarith+
  moreover have "unat (writable ?b) < unat n" using unat_writable [OF rb(1)] wr le wrap by (simp add: vector_max_size_def)
  ultimately show ?thesis
    unfolding flex_make_room_def make_room_prefix [OF inv] by (simp add: word_less_nat_alt vec_resize_def k wr)
qed

lemma make_room_safe:
  assumes "buf_inv b"
  shows "unat n \<le> vector_max_size \<Longrightarrow> step_safe (flex_make_room n b)" "step_safe (fixed_make_room n b)"
proof -
  show "step_safe (flex_make_room n b)" if n: "unat n \<le> vector_max_size"
  proof (cases "length (buf_bytes b) + unat n \<le> vector_max_size")
    case True
    then show ?thesis
      using flex_make_room_exact [OF assms(1) True] buf_grow_inv(1) [OF buf_rebase_inv(1) [OF assms(1)] True] by simp
  next
    case False
    then show ?thesis using flex_make_room_throws [OF assms n] by auto
  qed
  show "step_safe (fixed_make_room n b)"
    using fixed_make_room_exact [OF assms(1), of n] buf_rebase_inv(1) [OF assms(1)] by simp
qed

lemma push_back_safe:
  assumes inv: "buf_inv b" and len: "length s = unat n" and n: "unat n \<le> vector_max_size"
  shows "step_safe (flex_push_back s n b)" "step_safe (fixed_push_back s n b)"
proof -
  show "step_safe (flex_push_back s n b)"
  proof (cases "length (buf_bytes b) + unat n \<le> vector_max_size")
    case True
    then show ?thesis using flex_push_back_exact [OF inv len] len by auto
  next
    case False
    then show ?thesis using flex_make_room_throws [OF inv n] by (auto simp: flex_push_back_store)
  qed
  show "step_safe (fixed_push_back s n b)"
    using fixed_push_back_exact [OF inv len] fixed_push_back_throws [OF inv, of n s] len
    by (cases "length (buf_bytes b) + length s \<le> length (b_container b)") auto
qed

lemma receive_safe:
  assumes "buf_inv b"
  shows "step_safe (receive_into s b)"
proof -
  let ?s = "take (unat (writable b)) s"
  have w: "unat (writable b) = length (b_container b) - unat (b_index_write b)"
    using unat_writable [OF assms] by simp
  have fits: "unat (b_index_write b) + length ?s \<le> length (b_container b)"
    using w buf_inv_nat [OF assms] by simp
  then have u: "length ?s = unat (of_nat (length ?s) :: size_t)"
    using assms by (subst of_nat_less_u64) (auto simp: buf_inv_def vector_max_size_def)
  have "mem_read ?s 0 (unat (of_nat (length ?s) :: size_t)) = Inr ?s"
    unfolding u [symmetric] mem_read_def by (simp only: add_0 drop_0 take_all order_refl if_True)
  then have "receive_into s b = store_back ?s (of_nat (length ?s)) b"
    by (simp only: receive_into_def store_back_def res_bind_simps)
  then show ?thesis using store_back_appends [OF assms u fits] by auto
qed

lemma buf_step_safe:
  assumes inv: "buf_inv b" and ok: "op_ok flex x"
  shows "step_safe (buf_step flex order x b)"
proof (cases x)
  case (Op_push_back s)
  have "length s = unat (of_nat (length s) :: size_t)"
    using ok Op_push_back by (subst of_nat_less_u64) (auto simp: vector_max_size_def)
  then show ?thesis
    using push_back_safe [OF inv, of s] ok Op_push_back
    by (simp add: flex_push_back_string_def fixed_push_back_string_def)
next
  case (Op_push_back_ch c)
  then show ?thesis
    using push_back_safe [OF inv, of "[c]" 1] by (simp add: push_back_ch_push_back vector_max_size_def)
next
  case (Op_make_room n)
  then show ?thesis using make_room_safe [OF inv, of n] ok by simp
next
  case (Op_receive s)
  then show ?thesis using receive_safe [OF inv] by simp
next
  case (Op_has_read n)
  then show ?thesis using has_read_safe [OF inv] by simp
next
  case (Op_pop_string n)
  then show ?thesis using pop_string_safe [OF inv] by simp
next
  case Op_pop_u16
  then show ?thesis using pop_int_safe [OF inv, where 'a = 16] by (simp add: sizeof_word_def)
next
  case Op_pop_u32
  then show ?thesis using pop_int_safe [OF inv, where 'a = 32] by (simp add: sizeof_word_def)
next
  case Op_pop_u64
  then show ?thesis using pop_int_safe [OF inv, where 'a = 64] by (simp add: sizeof_word_def)
qed (use find_safe [OF inv] inv in simp_all)

lemma buf_steps_safe:
  "buf_inv b \<Longrightarrow> list_all (op_ok flex) xs \<Longrightarrow> step_safe (buf_steps flex order xs b)"
proof (induction xs arbitrary: b)
  case (Cons x xs)
  have s: "step_safe (buf_step flex order x b)" using buf_step_safe Cons.prems by simp
  show ?case
  proof (cases "buf_step flex order x b")
    case (Inl e)
    then show ?thesis using s by (auto simp: step_safe_def)
  next
    case (Inr b')
    then show ?thesis using s Cons by simp
  qed
qed simp

end
