(* ===== verification/Str_Utils.thy ===== *)
theory Str_Utils
  imports Coring_Prelude "HOL-Library.Signed_Division"
begin

text \<open>
  Integer printing (\<^verbatim>\<open>include/coring/detail/str_utils.hpp\<close>). The division of C truncates
  towards zero, so remainders of a negative number are not positive, and the digit table is
  indexed from \<open>-9\<close> on around its zero. A C string is written as the list of its characters up
  to the terminating zero byte, for which the caller's array needs one more character.
\<close>

section \<open>Definitions\<close>

definition str_util_parse_digits :: "char list" where
  "str_util_parse_digits = ''9876543210123456789ABCDEF0123456789abcdef''"

text \<open>\<open>str_util_parse_zero\<close> points at the tenth entry of the table.\<close>

definition str_util_parse_zero :: "int \<Rightarrow> char" where
  "str_util_parse_zero lsd = str_util_parse_digits ! nat (9 + lsd)"

lemma sdiv10_abs_less: "(i :: int) sdiv 10 \<noteq> 0 \<Longrightarrow> \<bar>i sdiv 10\<bar> < \<bar>i\<bar>"
  by (auto simp: signed_divide_int_def sgn_if abs_mult split: if_splits)

function itoad_loop :: "int \<Rightarrow> char list \<Rightarrow> char list" where
  "itoad_loop i p =
     (let lsd = i smod 10; i' = i sdiv 10; p' = p @ [str_util_parse_zero lsd]
      in if i' \<noteq> 0 then itoad_loop i' p' else p')"
  by pat_completeness auto
termination
  using sdiv10_abs_less by (relation "measure (\<lambda>(i, p). nat \<bar>i\<bar>)") auto

declare itoad_loop.simps [simp del]

definition itoad :: "int \<Rightarrow> string" where
  "itoad val =
     (let p = itoad_loop val []; p' = (if val < 0 then p @ ''-'' else p) in rev p')"

text \<open>
  \<open>itoa2\<close> prints the unsigned value of \<open>val\<close> in radix \<open>rdx\<close>, with capital letters when \<open>cap\<close> is
  set. A zero radix divides by zero, a radix of one never ends (\<open>None\<close>), and one above
  sixteen may read past the table.
\<close>

partial_function (option) itoa2_loop ::
  "nat \<Rightarrow> nat \<Rightarrow> nat \<Rightarrow> char list \<Rightarrow> char list res option" where
  "itoa2_loop zero rdx i p =
     (let lsd = i mod rdx; i' = i div rdx
      in if length str_util_parse_digits \<le> zero + lsd then Some (Inl Out_of_bounds)
         else let p' = p @ [str_util_parse_digits ! (zero + lsd)]
              in if i' \<noteq> 0 then itoa2_loop zero rdx i' p' else Some (Inr p'))"

definition itoa2 :: "u32 \<Rightarrow> nat \<Rightarrow> bool \<Rightarrow> string res option" where
  "itoa2 val rdx cap =
     (if rdx = 0 then Some (Inl (Runtime_error ''division by zero''))
      else case itoa2_loop (if cap then 9 else 25) rdx (unat val) [] of
             None \<Rightarrow> None
           | Some (Inl e) \<Rightarrow> Some (Inl e)
           | Some (Inr p) \<Rightarrow> Some (Inr (rev p)))"

section \<open>Correctness\<close>

text \<open>The number a decimal string denotes.\<close>

definition digit_val :: "char \<Rightarrow> int" where
  "digit_val c = of_char c - 48"

fun dec_nat :: "int \<Rightarrow> string \<Rightarrow> int" where
  "dec_nat acc [] = acc"
| "dec_nat acc (c # cs) = dec_nat (10 * acc + digit_val c) cs"

definition dec_int :: "string \<Rightarrow> int" where
  "dec_int s = (if s \<noteq> [] \<and> hd s = CHR ''-'' then - dec_nat 0 (tl s) else dec_nat 0 s)"

lemma dec_nat_append: "dec_nat acc (xs @ ys) = dec_nat (dec_nat acc xs) ys"
  by (induction xs arbitrary: acc) simp_all

lemma parse_zero_digit:
  assumes "-9 \<le> d" and "d \<le> 9"
  shows "digit_val (str_util_parse_zero d) = \<bar>d\<bar>" and "str_util_parse_zero d \<noteq> CHR ''-''"
proof -
  have "d \<in> set [-9..9]" using assms by (simp only: set_upto atLeastAtMost_iff)
  moreover have "\<forall>d \<in> set [-9..9]. digit_val (str_util_parse_zero d) = \<bar>d\<bar> \<and>
      str_util_parse_zero d \<noteq> CHR ''-''"
    by code_simp
  ultimately show "digit_val (str_util_parse_zero d) = \<bar>d\<bar>"
    and "str_util_parse_zero d \<noteq> CHR ''-''" by blast+
qed

lemma smod10_range: "-9 \<le> (i :: int) smod 10" "(i :: int) smod 10 \<le> 9"
  by (auto simp: signed_modulo_int_def signed_divide_int_def sgn_if)

lemma abs_sdiv_smod: "\<bar>i\<bar> = 10 * \<bar>i sdiv 10\<bar> + \<bar>i smod 10\<bar>" for i :: int
  by (auto simp: signed_modulo_int_def signed_divide_int_def sgn_if)

lemma itoad_loop_val:
  "\<exists>ds. itoad_loop i p = p @ ds \<and> ds \<noteq> [] \<and> CHR ''-'' \<notin> set ds \<and> dec_nat 0 (rev ds) = \<bar>i\<bar>"
proof (induction i p rule: itoad_loop.induct)
  case (1 i p)
  let ?c = "str_util_parse_zero (i smod 10)"
  have c: "digit_val ?c = \<bar>i smod 10\<bar>" "?c \<noteq> CHR ''-''"
    using parse_zero_digit smod10_range by blast+
  show ?case
  proof (cases "i sdiv 10 = 0")
    case True
    then have "dec_nat 0 (rev [?c]) = \<bar>i\<bar>" using c abs_sdiv_smod [of i] by simp
    then show ?thesis using True c by (subst itoad_loop.simps) (auto simp: Let_def)
  next
    case False
    obtain ds where ds: "itoad_loop (i sdiv 10) (p @ [?c]) = (p @ [?c]) @ ds"
      "ds \<noteq> []" "CHR ''-'' \<notin> set ds" "dec_nat 0 (rev ds) = \<bar>i sdiv 10\<bar>"
      using "1.IH" [OF refl refl refl False] by blast
    then have "dec_nat 0 (rev (?c # ds)) = \<bar>i\<bar>"
      using c abs_sdiv_smod [of i] by (simp add: dec_nat_append)
    moreover have "itoad_loop i p = p @ ?c # ds"
      using False ds by (subst itoad_loop.simps) (simp add: Let_def)
    ultimately show ?thesis using c ds by (intro exI [of _ "?c # ds"]) simp
  qed
qed

lemma itoad_loop_length:
  "\<bar>i\<bar> < 10 ^ n \<Longrightarrow> 0 < n \<Longrightarrow> length (itoad_loop i p) \<le> length p + n"
proof (induction i p arbitrary: n rule: itoad_loop.induct)
  case (1 i p)
  show ?case
  proof (cases "i sdiv 10 = 0")
    case True
    then show ?thesis using "1.prems" by (subst itoad_loop.simps) (simp add: Let_def)
  next
    case False
    have "0 < \<bar>i sdiv 10\<bar>" using False by simp
    then have ten: "10 \<le> \<bar>i\<bar>" using abs_sdiv_smod [of i] by linarith
    then obtain m where n: "n = Suc m" and m: "0 < m"
      using "1.prems" by (cases n; cases "n - 1") auto
    have "\<bar>i sdiv 10\<bar> < 10 ^ m" using "1.prems"(1) abs_sdiv_smod [of i] n by simp
    then have "length (itoad_loop (i sdiv 10) (p @ [str_util_parse_zero (i smod 10)]))
        \<le> length (p @ [str_util_parse_zero (i smod 10)]) + m"
      using "1.IH" [OF refl refl refl False] m by blast
    then show ?thesis using False n by (subst itoad_loop.simps) (simp add: Let_def)
  qed
qed

lemma itoad_dec_int: "dec_int (itoad val) = val"
proof -
  obtain ds where ds: "itoad_loop val [] = ds" "ds \<noteq> []" "CHR ''-'' \<notin> set ds"
    "dec_nat 0 (rev ds) = \<bar>val\<bar>"
    using itoad_loop_val [of val "[]"] by auto
  obtain c cs where rev: "rev ds = c # cs" using ds(2) by (cases "rev ds") auto
  then have "c \<in> set ds" by (metis list.set_intros(1) set_rev)
  with ds(3) have "c \<noteq> CHR ''-''" by auto
  then have "dec_int (rev ds) = dec_nat 0 (rev ds)"
    using rev by (simp add: dec_int_def)
  then show ?thesis
    using ds by (auto simp: itoad_def dec_int_def)
qed

text \<open>The number a string of hexadecimal digits denotes in radix \<open>rdx\<close>.\<close>

definition hex_val :: "char \<Rightarrow> nat" where
  "hex_val c = (let n = of_char c in if n < 58 then n - 48 else if n < 71 then n - 55 else n - 87)"

fun radix_nat :: "nat \<Rightarrow> nat \<Rightarrow> string \<Rightarrow> nat" where
  "radix_nat rdx acc [] = acc"
| "radix_nat rdx acc (c # cs) = radix_nat rdx (rdx * acc + hex_val c) cs"

lemma radix_nat_append: "radix_nat rdx acc (xs @ ys) = radix_nat rdx (radix_nat rdx acc xs) ys"
  by (induction xs arbitrary: acc) simp_all

lemma table_digit:
  assumes "d < 16" and "zero \<in> {9, 25}"
  shows "hex_val (str_util_parse_digits ! (zero + d)) = d"
proof -
  have "d \<in> set [0..<16]" using assms by (simp only: set_upt atLeastLessThan_iff) simp
  moreover have "\<forall>d \<in> set [0..<16]. hex_val (str_util_parse_digits ! (9 + d)) = d \<and>
      hex_val (str_util_parse_digits ! (25 + d)) = d"
    by code_simp
  ultimately show ?thesis using assms(2) by blast
qed

lemma length_digits: "length str_util_parse_digits = 41"
  by (simp add: str_util_parse_digits_def)

text \<open>For a radix of two to sixteen the loop ends, and the digits denote the number.\<close>

lemma itoa2_loop_val:
  assumes "2 \<le> rdx" and "rdx \<le> 16" and "zero \<in> {9, 25}"
  shows "\<exists>ds. itoa2_loop zero rdx i p = Some (Inr (p @ ds)) \<and> radix_nat rdx 0 (rev ds) = i"
proof (induction i arbitrary: p rule: less_induct)
  case (less i)
  let ?c = "str_util_parse_digits ! (zero + i mod rdx)"
  have mod: "i mod rdx < rdx" using assms by simp
  then have m16: "i mod rdx < 16" using assms(2) by linarith
  then have c: "hex_val ?c = i mod rdx" using table_digit assms(3) by blast
  have idx: "\<not> length str_util_parse_digits \<le> zero + i mod rdx"
    using m16 assms(3) by (auto simp: length_digits)
  show ?case
  proof (cases "i div rdx = 0")
    case True
    then have "i mod rdx = i" using div_mult_mod_eq [of i rdx] by simp
    then show ?thesis
      using True c idx by (subst itoa2_loop.simps) (auto simp: Let_def)
  next
    case False
    then have "0 < i" by (cases i) auto
    then have "i div rdx < i" using assms by (intro div_less_dividend) auto
    from less [OF this, of "p @ [?c]"] obtain ds where
      ds: "itoa2_loop zero rdx (i div rdx) (p @ [?c]) = Some (Inr ((p @ [?c]) @ ds))"
      "radix_nat rdx 0 (rev ds) = i div rdx" by blast
    then have "radix_nat rdx 0 (rev (?c # ds)) = i"
      using c by (simp add: radix_nat_append)
    then show ?thesis
      using False ds idx
      by (subst itoa2_loop.simps) (auto simp: Let_def intro!: exI [of _ "?c # ds"])
  qed
qed

lemma itoa2_radix_nat:
  assumes "2 \<le> rdx" and "rdx \<le> 16"
  shows "\<exists>s. itoa2 val rdx cap = Some (Inr s) \<and> radix_nat rdx 0 s = unat val"
  using itoa2_loop_val [OF assms, of "if cap then 9 else 25" "unat val" "[]"] assms
  by (auto simp: itoa2_def)

lemma itoad_length:
  assumes "- 2147483648 \<le> val" and "val < 2147483648"
  shows "length (itoad val) \<le> 11"
proof -
  have "\<bar>val\<bar> < 10 ^ 10" using assms by simp
  then have "length (itoad_loop val []) \<le> length ([] :: string) + 10" by (rule itoad_loop_length) simp
  then show ?thesis by (simp add: itoad_def Let_def)
qed

end
