(* ===== verification/Async_Join.thy ===== *)
theory Async_Join
  imports Contracts
begin

text \<open>
  The two counters a coroutine waits on for a number of completions: \<open>async_scope\<close>
  (\<^verbatim>\<open>include/coring/async_scope.hpp\<close>) and \<open>when_all_counter\<close>
  (\<^verbatim>\<open>include/coring/detail/async/when_all_counter.hpp\<close>). Each operation has one atomic
  read-modify-write access, so an interleaving of threads is a sequence of operations.
\<close>

section \<open>async_scope\<close>

record async_scope =
  sc_count :: size_t
  sc_continuation :: "handle option"

definition async_scope_new :: async_scope where
  "async_scope_new = \<lparr>sc_count = 1, sc_continuation = None\<rparr>"

definition async_scope_delete :: "async_scope \<Rightarrow> unit res" where
  "async_scope_delete s = (if sc_continuation s = None then Inl Assert_failed else Inr ())"

definition on_work_started :: "async_scope \<Rightarrow> async_scope res" where
  "on_work_started s =
     (if sc_count s = 0 then Inl Assert_failed else Inr (s\<lparr>sc_count := sc_count s + 1\<rparr>))"

definition on_work_finished :: "async_scope \<Rightarrow> (handle option \<times> async_scope) res" where
  "on_work_finished s =
     (let old = sc_count s; s = s\<lparr>sc_count := sc_count s - 1\<rparr>
      in if old = 1
         then (case sc_continuation s of None \<Rightarrow> Inl Null_deref | Some h \<Rightarrow> Inr (Some h, s))
         else Inr (None, s))"

definition scope_await_ready :: "async_scope \<Rightarrow> bool" where
  "scope_await_ready s \<longleftrightarrow> sc_count s = 0"

definition scope_await_suspend :: "handle \<Rightarrow> async_scope \<Rightarrow> bool \<times> async_scope" where
  "scope_await_suspend continuation s =
     (let s = s\<lparr>sc_continuation := Some continuation\<rparr>; old = sc_count s
      in (old > 1, s\<lparr>sc_count := sc_count s - 1\<rparr>))"

section \<open>when_all_counter\<close>

record when_all_counter =
  wc_count :: size_t
  wc_awaitingCoroutine :: "handle option"

definition when_all_counter_new :: "size_t \<Rightarrow> when_all_counter" where
  "when_all_counter_new n = \<lparr>wc_count = n + 1, wc_awaitingCoroutine = None\<rparr>"

definition is_ready :: "when_all_counter \<Rightarrow> bool" where
  "is_ready c \<longleftrightarrow> wc_awaitingCoroutine c \<noteq> None"

definition try_await :: "handle \<Rightarrow> when_all_counter \<Rightarrow> bool \<times> when_all_counter" where
  "try_await awaitingCoroutine c =
     (let c = c\<lparr>wc_awaitingCoroutine := Some awaitingCoroutine\<rparr>; old = wc_count c
      in (old > 1, c\<lparr>wc_count := wc_count c - 1\<rparr>))"

definition notify_awaitable_completed ::
  "when_all_counter \<Rightarrow> (handle option \<times> when_all_counter) res" where
  "notify_awaitable_completed c =
     (let old = wc_count c; c = c\<lparr>wc_count := wc_count c - 1\<rparr>
      in if old = 1
         then (case wc_awaitingCoroutine c of None \<Rightarrow> Inl Null_deref | Some h \<Rightarrow> Inr (Some h, c))
         else Inr (None, c))"

section \<open>Both are counters to join on\<close>

lemma unat_dec: "0 < unat (x :: u64) \<Longrightarrow> unat (x - 1) = unat x - 1"
  by (simp add: unat_sub_u64 word_le_nat_alt)

lemma unat_gt_1: "(1 :: u64) < x \<longleftrightarrow> 1 < unat x"
  by (simp add: word_less_nat_alt)

lemma unat_eq_1_u64: "(x :: u64) = 1 \<longleftrightarrow> unat x = 1"
  by (simp add: unat_eq_iff_u64)

lemma unat_inc: "unat (x :: u64) < 18446744073709551615 \<Longrightarrow> unat (x + 1) = Suc (unat x)"
  using unat_add_le_u64 [of x 1] by simp

lemmas count_defs = on_work_started_def on_work_finished_def scope_await_suspend_def try_await_def
  notify_awaitable_completed_def unat_dec unat_gt_1 unat_eq_1_u64 Let_def

interpretation scope: join_scope "\<lambda>s. unat (sc_count s)" sc_continuation scope_await_suspend
  on_work_finished on_work_started 18446744073709551615
proof unfold_locales
  fix s :: async_scope and h
  show "0 < unat (sc_count s) \<Longrightarrow> \<exists>s'. scope_await_suspend h s = (1 < unat (sc_count s), s') \<and>
      unat (sc_count s') = unat (sc_count s) - 1 \<and> sc_continuation s' = Some h"
    by (simp add: count_defs)
  show "1 < unat (sc_count s) \<Longrightarrow> \<exists>s'. on_work_finished s = Inr (None, s') \<and>
      unat (sc_count s') = unat (sc_count s) - 1 \<and> sc_continuation s' = sc_continuation s"
    by (simp add: count_defs)
  show "unat (sc_count s) = 1 \<Longrightarrow> sc_continuation s = Some h \<Longrightarrow>
      \<exists>s'. on_work_finished s = Inr (Some h, s') \<and> unat (sc_count s') = 0 \<and> sc_continuation s' = Some h"
    by (simp add: count_defs)
  show "0 < unat (sc_count s) \<Longrightarrow> unat (sc_count s) < 18446744073709551615 \<Longrightarrow>
      \<exists>s'. on_work_started s = Inr s' \<and> unat (sc_count s') = Suc (unat (sc_count s)) \<and>
        sc_continuation s' = sc_continuation s"
    by (auto simp: on_work_started_def unat_inc)
qed

interpretation all_counter: join_counter "\<lambda>c. unat (wc_count c)" wc_awaitingCoroutine try_await
  notify_awaitable_completed
proof unfold_locales
  fix c :: when_all_counter and h
  show "0 < unat (wc_count c) \<Longrightarrow> \<exists>c'. try_await h c = (1 < unat (wc_count c), c') \<and>
      unat (wc_count c') = unat (wc_count c) - 1 \<and> wc_awaitingCoroutine c' = Some h"
    by (simp add: count_defs)
  show "1 < unat (wc_count c) \<Longrightarrow> \<exists>c'. notify_awaitable_completed c = Inr (None, c') \<and>
      unat (wc_count c') = unat (wc_count c) - 1 \<and> wc_awaitingCoroutine c' = wc_awaitingCoroutine c"
    by (simp add: count_defs)
  show "unat (wc_count c) = 1 \<Longrightarrow> wc_awaitingCoroutine c = Some h \<Longrightarrow>
      \<exists>c'. notify_awaitable_completed c = Inr (Some h, c') \<and> unat (wc_count c') = 0 \<and>
        wc_awaitingCoroutine c' = Some h"
    by (simp add: count_defs)
qed

text \<open>The constructor counts the operations and the one that waits, below the width of the counter.\<close>

lemma when_all_counter_new_count:
  "unat n < 18446744073709551615 \<Longrightarrow> unat (wc_count (when_all_counter_new n)) = Suc (unat n)"
  by (simp add: when_all_counter_new_def unat_inc)

lemma async_scope_new_count: "unat (sc_count async_scope_new) = 1" "sc_continuation async_scope_new = None"
  by (simp_all add: async_scope_new_def)

end
