(* ===== verification/Tasks.thy ===== *)
theory Tasks
  imports Async_Join
begin

text \<open>
  Lazy and eager coroutine tasks (\<^verbatim>\<open>include/coring/task.hpp\<close>, \<^verbatim>\<open>include/coring/async_task.hpp\<close>).

  A coroutine frame is identified by its handle; 0 is the null handle. A frame holds the promise
  and the point at which the coroutine is suspended. The compiler's part of a coroutine is a
  machine: it allocates a frame for a call, executes a body up to the next suspension point,
  transfers control to the handle that \<open>await_suspend\<close> returns, and destroys a frame with its task
  object. The bodies themselves are the user's code, as a data type of what they do next.
\<close>

section \<open>Promises\<close>

datatype 'v result_type = empty_result | value_result 'v | exception_result fault

record 'v task_promise =
  who_await_me :: handle
  m_result :: "'v result_type"

definition task_promise_new :: "'v task_promise" where
  "task_promise_new = \<lparr>who_await_me = 0, m_result = empty_result\<rparr>"

definition set_continuation :: "handle \<Rightarrow> 'v task_promise \<Rightarrow> 'v task_promise" where
  "set_continuation h p = p\<lparr>who_await_me := h\<rparr>"

definition return_value :: "'v \<Rightarrow> 'v task_promise \<Rightarrow> 'v task_promise" where
  "return_value v p = p\<lparr>m_result := value_result v\<rparr>"

definition unhandled_exception :: "fault \<Rightarrow> 'v task_promise \<Rightarrow> 'v task_promise" where
  "unhandled_exception e p = p\<lparr>m_result := exception_result e\<rparr>"

text \<open>\<open>result\<close>: the inner sum is what it returns or throws, the outer one is a failed assertion.\<close>

definition promise_result :: "'v task_promise \<Rightarrow> 'v res res" where
  "promise_result p =
     (case m_result p of
        exception_result e \<Rightarrow> Inr (Inl e)
      | value_result v \<Rightarrow> Inr (Inr v)
      | empty_result \<Rightarrow> Inl Assert_failed)"

text \<open>
  The promises of \<open>task<void>\<close> and \<open>task<T &>\<close> have no tag: an exception pointer, null when the coroutine
  returned, and in the second case a pointer to the value, null until it is returned.
\<close>

record void_promise =
  v_exception :: "fault option"

definition void_unhandled_exception :: "fault \<Rightarrow> void_promise \<Rightarrow> void_promise" where
  "void_unhandled_exception e p = p\<lparr>v_exception := Some e\<rparr>"

definition return_void :: "void_promise \<Rightarrow> void_promise" where
  "return_void p = p"

definition void_result :: "void_promise \<Rightarrow> unit res" where
  "void_result p = (case v_exception p of Some e \<Rightarrow> Inl e | None \<Rightarrow> Inr ())"

record ref_promise = void_promise +
  r_value :: nat

definition ref_return_value :: "nat \<Rightarrow> ref_promise \<Rightarrow> ref_promise" where
  "ref_return_value a p = p\<lparr>r_value := a\<rparr>"

definition ref_unhandled_exception :: "fault \<Rightarrow> ref_promise \<Rightarrow> ref_promise" where
  "ref_unhandled_exception e p = p\<lparr>v_exception := Some e\<rparr>"

definition ref_result :: "ref_promise \<Rightarrow> nat res res" where
  "ref_result p =
     (case v_exception p of
        Some e \<Rightarrow> Inr (Inl e)
      | None \<Rightarrow> if r_value p = 0 then Inl Null_deref else Inr (Inr (r_value p)))"

section \<open>Frames\<close>

text \<open>
  A body returns, throws, awaits a task made by another body, or waits for an event outside of it.
  What it does next depends on the result or exception of the task, or on the value of the event.
\<close>

datatype 'v body =
    Co_return 'v
  | Co_throw fault
  | Co_await "'v body" "'v res \<Rightarrow> 'v body"
  | Co_wait "'v \<Rightarrow> 'v body"

datatype 'v point =
    At_body "'v body"
  | At_await handle "'v res \<Rightarrow> 'v body"
  | At_wait "'v \<Rightarrow> 'v body"
  | At_final

record 'v frame =
  f_promise :: "'v task_promise"
  f_point :: "'v point"

type_synonym 'v frames = "handle \<rightharpoonup> 'v frame"

definition frame_done :: "'v frames \<Rightarrow> handle \<Rightarrow> bool" where
  "frame_done F h \<longleftrightarrow> (case F h of Some f \<Rightarrow> (case f_point f of At_final \<Rightarrow> True | _ \<Rightarrow> False) | None \<Rightarrow> False)"

definition with_promise :: "handle \<Rightarrow> ('v task_promise \<Rightarrow> 'v task_promise) \<Rightarrow> 'v frames \<Rightarrow> 'v frames res" where
  "with_promise h g F =
     (case F h of None \<Rightarrow> Inl Undefined_object | Some f \<Rightarrow> Inr (F(h \<mapsto> f\<lparr>f_promise := g (f_promise f)\<rparr>)))"

section \<open>The task object\<close>

text \<open>A task object holds the handle of its coroutine. \<open>initial_suspend\<close> suspends always.\<close>

definition task_start :: "handle \<Rightarrow> 'v body \<Rightarrow> 'v frames \<Rightarrow> 'v frames" where
  "task_start h b F = F(h \<mapsto> \<lparr>f_promise = task_promise_new, f_point = At_body b\<rparr>)"

definition task_default :: handle where
  "task_default = 0"

definition task_move :: "handle \<Rightarrow> handle \<times> handle" where
  "task_move t = (t, 0)"

text \<open>The destructor, and move assignment between two different objects (new target, new source).\<close>

definition task_delete :: "handle \<Rightarrow> 'v frames \<Rightarrow> 'v frames res" where
  "task_delete t F =
     (if t \<noteq> 0 then (case F t of None \<Rightarrow> Inl Undefined_object | Some _ \<Rightarrow> Inr (F(t := None))) else Inr F)"

definition task_assign :: "handle \<Rightarrow> handle \<Rightarrow> 'v frames \<Rightarrow> (handle \<times> handle \<times> 'v frames) res" where
  "task_assign t other F = res_bind (task_delete t F) (\<lambda>F. Inr (other, 0, F))"

definition task_await_ready :: "'v frames \<Rightarrow> handle \<Rightarrow> bool" where
  "task_await_ready F t \<longleftrightarrow> t = 0 \<or> frame_done F t"

definition task_await_suspend :: "handle \<Rightarrow> handle \<Rightarrow> 'v frames \<Rightarrow> (handle \<times> 'v frames) res" where
  "task_await_suspend t awaitingCoroutine F =
     res_bind (with_promise t (set_continuation awaitingCoroutine) F) (\<lambda>F. Inr (t, F))"

definition task_await_resume :: "'v frames \<Rightarrow> handle \<Rightarrow> 'v res res" where
  "task_await_resume F t =
     (if t = 0 then Inr (Inl Broken_promise)
      else case F t of None \<Rightarrow> Inl Undefined_object | Some f \<Rightarrow> promise_result (f_promise f))"

definition task_when_ready_resume :: unit where
  "task_when_ready_resume = ()"

text \<open>\<open>final_awaitable::await_suspend\<close>: the handle that control is transferred to.\<close>

definition task_final_suspend :: "'v task_promise \<Rightarrow> handle" where
  "task_final_suspend p = who_await_me p"

section \<open>The coroutine machine\<close>

record 'v machine =
  frames :: "'v frames"
  current :: handle
  waiting :: handle
  next_frame :: handle

text \<open>The end of a body: the promise is told, and control goes to the awaiting coroutine.\<close>

definition finish :: "handle \<Rightarrow> ('v task_promise \<Rightarrow> 'v task_promise) \<Rightarrow> 'v frame \<Rightarrow> 'v machine \<Rightarrow> 'v machine" where
  "finish h g f m =
     (let p = g (f_promise f)
      in m\<lparr>frames := (frames m)(h \<mapsto> \<lparr>f_promise = p, f_point = At_final\<rparr>), current := task_final_suspend p\<rparr>)"

definition set_point :: "handle \<Rightarrow> 'v frame \<Rightarrow> 'v point \<Rightarrow> 'v frames \<Rightarrow> 'v frames" where
  "set_point h f pt F = F(h \<mapsto> f\<lparr>f_point := pt\<rparr>)"

text \<open>
  \<open>co_await\<close> on the task of a new call: a frame for the call, and when the task is not ready the
  awaiting coroutine is suspended and control is transferred.
\<close>

definition await_call ::
  "handle \<Rightarrow> 'v frame \<Rightarrow> 'v body \<Rightarrow> ('v res \<Rightarrow> 'v body) \<Rightarrow> 'v machine \<Rightarrow> 'v machine res" where
  "await_call h f b k m =
     (let t = next_frame m; F = task_start t b (set_point h f (At_await t k) (frames m));
          m = m\<lparr>next_frame := Suc t\<rparr>
      in if task_await_ready F t then Inr (m\<lparr>frames := F\<rparr>)
         else res_bind (task_await_suspend t h F) (\<lambda>(target, F). Inr (m\<lparr>frames := F, current := target\<rparr>)))"

text \<open>One step of the running coroutine. The task object of the call dies with the awaiting expression.\<close>

definition machine_step :: "'v machine \<Rightarrow> 'v machine res" where
  "machine_step m =
     (let h = current m
      in case frames m h of
           None \<Rightarrow> Inl Undefined_object
         | Some f \<Rightarrow>
             (case f_point f of
                At_body (Co_return v) \<Rightarrow> Inr (finish h (return_value v) f m)
              | At_body (Co_throw e) \<Rightarrow> Inr (finish h (unhandled_exception e) f m)
              | At_body (Co_await b k) \<Rightarrow> await_call h f b k m
              | At_body (Co_wait k) \<Rightarrow> 
                  Inr (m\<lparr>frames := set_point h f (At_wait k) (frames m), current := 0, waiting := h\<rparr>)
              | At_await t k \<Rightarrow>
                  res_bind (task_await_resume (frames m) t) (\<lambda>r.
                  res_bind (task_delete t (frames m)) (\<lambda>F.
                  Inr (m\<lparr>frames := set_point h f (At_body (k r)) F\<rparr>)))
              | At_wait k \<Rightarrow> Inl Undefined_object
              | At_final \<Rightarrow> Inl Undefined_object))"

text \<open>
  The runs of the machine with the values of the events to come: the running coroutine makes a
  step, or, when control is back at the event loop, the next event resumes the coroutine that
  waits for it.
\<close>

inductive run_step :: "'v machine \<times> 'v list \<Rightarrow> 'v machine \<times> 'v list \<Rightarrow> bool" where
  step: "current m \<noteq> 0 \<Longrightarrow> frames m (current m) \<noteq> None \<Longrightarrow> machine_step m = Inr m' \<Longrightarrow>
    run_step (m, es) (m', es)"
| event: "current m = 0 \<Longrightarrow> frames m (waiting m) = Some f \<Longrightarrow> f_point f = At_wait k \<Longrightarrow>
    run_step (m, e # es)
      (m\<lparr>frames := set_point (waiting m) f (At_body (k e)) (frames m), current := waiting m\<rparr>, es)"

inductive_cases run_stepE: "run_step (m, es) c"

text \<open>The meaning of a body without coroutines: awaiting a task is calling its body.\<close>

primrec eval_body :: "'v body \<Rightarrow> 'v list \<Rightarrow> ('v res \<times> 'v list) option" where
  "eval_body (Co_return v) = (\<lambda>es. Some (Inr v, es))"
| "eval_body (Co_throw e) = (\<lambda>es. Some (Inl e, es))"
| "eval_body (Co_await b k) =
     (\<lambda>es. case eval_body b es of None \<Rightarrow> None | Some (r, es) \<Rightarrow> eval_body (k r) es)"
| "eval_body (Co_wait k) = (\<lambda>es. case es of [] \<Rightarrow> None | e # es \<Rightarrow> eval_body (k e) es)"

section \<open>A task is a call\<close>

lemma run_step_deterministic: "run_step c c1 \<Longrightarrow> run_step c c2 \<Longrightarrow> c1 = c2"
  by (induction rule: run_step.induct) (auto elim: run_stepE)

text \<open>The last step of a body is to tell its promise.\<close>

definition store_result :: "'v res \<Rightarrow> 'v task_promise \<Rightarrow> 'v task_promise" where
  "store_result r = (case r of Inl e \<Rightarrow> unhandled_exception e | Inr v \<Rightarrow> return_value v)"

lemma store_result_simps [simp]:
  "who_await_me (store_result r p) = who_await_me p" "promise_result (store_result r p) = Inr r"
  by (auto simp: store_result_def unhandled_exception_def return_value_def promise_result_def split: sum.splits)

definition frames_below :: "'v machine \<Rightarrow> bool" where
  "frames_below m \<longleftrightarrow> 0 < next_frame m \<and> (\<forall>h. frames m h \<noteq> None \<longrightarrow> 0 < h \<and> h < next_frame m)"

lemma frames_below_update:
  assumes "frames_below m" and "frames m h = Some f" and "next_frame m < next_frame m2"
    and "frames m3 = (frames m)(h \<mapsto> g)" and "next_frame m3 = next_frame m2"
  shows "frames_below m3"
  using assms by (auto simp: frames_below_def dest: less_trans)

lemma step_finish:
  assumes "frames m h = Some f" and "f_point f = At_body b" and "current m = h" and "h \<noteq> 0"
    and "b = (case r of Inr v \<Rightarrow> Co_return v | Inl e \<Rightarrow> Co_throw e)"
  shows "run_step (m, es) (m\<lparr>frames := (frames m)(h \<mapsto> \<lparr>f_promise = store_result r (f_promise f), f_point = At_final\<rparr>),
    current := who_await_me (f_promise f)\<rparr>, es)"
  using assms
  by (intro run_step.step)
     (auto simp: machine_step_def finish_def store_result_def task_final_suspend_def return_value_def
       unhandled_exception_def split: sum.splits)

lemma step_await:
  assumes "frames m h = Some f" and "f_point f = At_body (Co_await b k)" and "current m = h"
    and "frames_below m" and "t = next_frame m"
  shows "run_step (m, es) (m\<lparr>frames := (frames m)(h \<mapsto> f\<lparr>f_point := At_await t k\<rparr>,
      t \<mapsto> \<lparr>f_promise = set_continuation h task_promise_new, f_point = At_body b\<rparr>),
    current := t, next_frame := Suc t\<rparr>, es)"
proof -
  have "h < t" "t \<noteq> 0" "h \<noteq> 0" using assms by (auto simp: frames_below_def)
  then have "machine_step m = Inr (m\<lparr>frames := (frames m)(h \<mapsto> f\<lparr>f_point := At_await t k\<rparr>,
      t \<mapsto> \<lparr>f_promise = set_continuation h task_promise_new, f_point = At_body b\<rparr>),
    current := t, next_frame := Suc t\<rparr>)"
    using assms
    by (simp add: machine_step_def await_call_def task_start_def set_point_def task_await_ready_def
      frame_done_def task_await_suspend_def with_promise_def Let_def)
  then show ?thesis using assms \<open>h \<noteq> 0\<close> by (intro run_step.step) auto
qed

lemma step_resume:
  assumes "frames m h = Some f" and "f_point f = At_await t k" and "current m = h" and "h \<noteq> 0"
    and "frames m t = Some g" and "promise_result (f_promise g) = Inr r" and "t \<noteq> 0" and "t \<noteq> h"
  shows "run_step (m, es) (m\<lparr>frames := (frames m)(t := None, h \<mapsto> f\<lparr>f_point := At_body (k r)\<rparr>)\<rparr>, es)"
  using assms
  by (intro run_step.step)
     (auto simp: machine_step_def task_await_resume_def task_delete_def set_point_def Let_def)

lemma step_wait:
  assumes "frames m h = Some f" and "f_point f = At_body (Co_wait k)" and "current m = h" and "h \<noteq> 0"
  shows "run_step\<^sup>*\<^sup>* (m, e # es) (m\<lparr>waiting := h, frames := (frames m)(h \<mapsto> f\<lparr>f_point := At_body (k e)\<rparr>), current := h\<rparr>, es)"
proof -
  let ?m = "m\<lparr>frames := (frames m)(h \<mapsto> f\<lparr>f_point := At_wait k\<rparr>), current := 0, waiting := h\<rparr>"
  have "run_step (m, e # es) (?m, e # es)"
    using assms by (intro run_step.step) (auto simp: machine_step_def set_point_def Let_def)
  moreover have "run_step (?m, e # es)
      (m\<lparr>waiting := h, frames := (frames m)(h \<mapsto> f\<lparr>f_point := At_body (k e)\<rparr>), current := h\<rparr>, es)"
    using run_step.event [of ?m "f\<lparr>f_point := At_wait k\<rparr>" k e es] by (simp add: set_point_def)
  ultimately show ?thesis by (meson r_into_rtranclp rtranclp.rtrancl_into_rtrancl)
qed

text \<open>
  Running a body in its frame has the effect of evaluating it: the result ends up in the promise,
  the frames of the tasks awaited on the way are gone, the other frames are as they were, and
  control is with the awaiting coroutine.
\<close>

definition finished :: "handle \<Rightarrow> 'v res \<Rightarrow> 'v frame \<Rightarrow> 'v frames \<Rightarrow> 'v frames" where
  "finished h r f F = F(h \<mapsto> \<lparr>f_promise = store_result r (f_promise f), f_point = At_final\<rparr>)"

lemma run_finish:
  assumes "frames m h = Some f" and "f_point f = At_body b" and "current m = h" and "frames_below m"
    and "b = (case r of Inr v \<Rightarrow> Co_return v | Inl e \<Rightarrow> Co_throw e)"
  shows "\<exists>m'. run_step\<^sup>*\<^sup>* (m, es) (m', es) \<and> current m' = who_await_me (f_promise f) \<and> frames_below m' \<and>
    next_frame m \<le> next_frame m' \<and>
    frames m' = finished h r f (frames m)"
proof -
  have "h \<noteq> 0" using assms by (auto simp: frames_below_def)
  let ?m' = "m\<lparr>frames := (frames m)(h \<mapsto> \<lparr>f_promise = store_result r (f_promise f), f_point = At_final\<rparr>),
    current := who_await_me (f_promise f)\<rparr>"
  have "run_step\<^sup>*\<^sup>* (m, es) (?m', es)"
    by (rule r_into_rtranclp) (rule step_finish [OF assms(1-3) \<open>h \<noteq> 0\<close> assms(5)])
  moreover have "frames_below ?m'" using assms(1,4) by (auto simp: frames_below_def)
  ultimately show ?thesis by (intro exI [of _ ?m']) (simp add: finished_def)
qed

lemma run_eval_body:
  "eval_body b es = Some (r, es') \<Longrightarrow> frames m h = Some f \<Longrightarrow> f_point f = At_body b \<Longrightarrow> current m = h \<Longrightarrow>
   frames_below m \<Longrightarrow>
   \<exists>m'. run_step\<^sup>*\<^sup>* (m, es) (m', es') \<and> current m' = who_await_me (f_promise f) \<and> frames_below m' \<and>
     next_frame m \<le> next_frame m' \<and>
     frames m' = finished h r f (frames m)"
proof (induction b arbitrary: es r es' m h f)
  case (Co_return v)
  then have "r = Inr v" "es' = es" by simp_all
  then show ?case using run_finish [OF Co_return.prems(2-5), of r es] by simp
next
  case (Co_throw e)
  then have "r = Inl e" "es' = es" by simp_all
  then show ?case using run_finish [OF Co_throw.prems(2-5), of r es] by simp
next
  case (Co_await b k)
  let ?t = "next_frame m"
  obtain r1 es1 where e1: "eval_body b es = Some (r1, es1)" and e2: "eval_body (k r1) es1 = Some (r, es')"
    using Co_await.prems(1) by (auto split: option.splits)
  have ht: "h < ?t" "h \<noteq> 0" "frames m ?t = None"
    using Co_await.prems(2,5) by (auto simp: frames_below_def)
  let ?g = "\<lparr>f_promise = set_continuation h task_promise_new, f_point = At_body b\<rparr>"
  let ?m1 = "m\<lparr>frames := (frames m)(h \<mapsto> f\<lparr>f_point := At_await ?t k\<rparr>, ?t \<mapsto> ?g), current := ?t, next_frame := Suc ?t\<rparr>"
  have s1: "run_step (m, es) (?m1, es)"
    using step_await [OF Co_await.prems(2-5) refl] .
  have b1: "frames_below ?m1" using Co_await.prems(5) ht by (auto simp: frames_below_def)
  have g: "frames ?m1 ?t = Some ?g" "f_point ?g = At_body b" "current ?m1 = ?t" by simp_all
  obtain m2 where m2: "run_step\<^sup>*\<^sup>* (?m1, es) (m2, es1)" "current m2 = who_await_me (f_promise ?g)"
    "frames_below m2" "next_frame ?m1 \<le> next_frame m2"
    "frames m2 = finished ?t r1 ?g (frames ?m1)"
    using Co_await.IH(1) [OF e1 g b1] by blast
  then have cur: "current m2 = h" by (simp add: set_continuation_def)
  let ?m3 = "m2\<lparr>frames := (frames m)(h \<mapsto> f\<lparr>f_point := At_body (k r1)\<rparr>)\<rparr>"
  have "(frames m2)(?t := None, h \<mapsto> f\<lparr>f_point := At_body (k r1)\<rparr>) = frames ?m3"
    using m2(5) ht by (auto simp: fun_eq_iff finished_def)
  then have s3: "run_step (m2, es1) (?m3, es1)"
    using step_resume [of m2 h "f\<lparr>f_point := At_await ?t k\<rparr>" ?t k _ r1 es1] m2(5) cur ht by (simp add: finished_def)
  have "next_frame m < next_frame m2" using m2(4) by simp
  then have b3: "frames_below ?m3"
    using frames_below_update [OF Co_await.prems(5,2), of m2 ?m3] by simp
  let ?f3 = "f\<lparr>f_point := At_body (k r1)\<rparr>"
  have g3: "frames ?m3 h = Some ?f3" "f_point ?f3 = At_body (k r1)" "current ?m3 = h" using cur by simp_all
  obtain m4 where "run_step\<^sup>*\<^sup>* (?m3, es1) (m4, es')" "current m4 = who_await_me (f_promise ?f3)"
    "frames_below m4" "next_frame ?m3 \<le> next_frame m4" "frames m4 = finished h r ?f3 (frames ?m3)"
    using Co_await.IH(2) [OF _ e2 g3 b3] by blast
  moreover have "finished h r ?f3 (frames ?m3) = finished h r f (frames m)" by (simp add: finished_def)
  ultimately show ?case
    using s1 m2(1) s3 \<open>next_frame m < next_frame m2\<close>
    by (intro exI [of _ m4]) (auto intro: converse_rtranclp_into_rtranclp rtranclp_trans)
next
  case (Co_wait k)
  obtain e es1 where es: "es = e # es1" and e1: "eval_body (k e) es1 = Some (r, es')"
    using Co_wait.prems(1) by (auto split: list.splits)
  let ?f1 = "f\<lparr>f_point := At_body (k e)\<rparr>"
  let ?m1 = "m\<lparr>waiting := h, frames := (frames m)(h \<mapsto> ?f1), current := h\<rparr>"
  have h: "h \<noteq> 0" and b: "frames_below ?m1" using Co_wait.prems(2,5) by (auto simp: frames_below_def)
  have s1: "run_step\<^sup>*\<^sup>* (m, es) (?m1, es1)" unfolding es by (rule step_wait [OF Co_wait.prems(2-4) h])
  have g: "frames ?m1 h = Some ?f1" "f_point ?f1 = At_body (k e)" "current ?m1 = h" by simp_all
  obtain m2 where "run_step\<^sup>*\<^sup>* (?m1, es1) (m2, es')" "current m2 = who_await_me (f_promise ?f1)"
    "frames_below m2" "next_frame ?m1 \<le> next_frame m2" "frames m2 = finished h r ?f1 (frames ?m1)"
    using Co_wait.IH [OF _ e1 g b] by blast
  moreover have "finished h r ?f1 (frames ?m1) = finished h r f (frames m)" by (simp add: finished_def)
  ultimately show ?case using s1 by (intro exI [of _ m2]) (auto intro: rtranclp_trans)
qed

text \<open>A task awaited by a coroutine \<open>w\<close> outside of the machine, when that one has been suspended.\<close>

definition awaited_task :: "handle \<Rightarrow> handle \<Rightarrow> 'v body \<Rightarrow> 'v machine" where
  "awaited_task h w b =
     \<lparr>frames = [h \<mapsto> \<lparr>f_promise = set_continuation w task_promise_new, f_point = At_body b\<rparr>],
      current = h, waiting = 0, next_frame = Suc h\<rparr>"

lemma awaited_task_runs:
  assumes e: "eval_body b es = Some (r, es')" and h: "h \<noteq> 0" and w: "w \<noteq> 0" "w \<noteq> h"
  shows "\<exists>m'. current m' = w \<and> dom (frames m') = {h} \<and> task_await_resume (frames m') h = Inr r \<and>
    (\<forall>c. run_step\<^sup>*\<^sup>* (awaited_task h w b, es) c \<longrightarrow> run_step\<^sup>*\<^sup>* c (m', es'))"
proof -
  let ?m = "awaited_task h w b"
  let ?f = "\<lparr>f_promise = set_continuation w task_promise_new, f_point = At_body b\<rparr>"
  have "frames ?m h = Some ?f" "f_point ?f = At_body b" "current ?m = h" "frames_below ?m"
    using h by (auto simp: awaited_task_def frames_below_def)
  then obtain m' where m': "run_step\<^sup>*\<^sup>* (?m, es) (m', es')" "current m' = who_await_me (f_promise ?f)"
    "frames m' = finished h r ?f (frames ?m)"
    using run_eval_body [OF e, of ?m h ?f] by blast
  then have cur: "current m' = w" and F: "frames m' = finished h r ?f [h \<mapsto> ?f]"
    by (simp_all add: set_continuation_def awaited_task_def)
  have "\<not> run_step (m', es') x" for x
    using cur F w by (auto elim!: run_stepE simp: finished_def)
  then have "\<forall>c. run_step\<^sup>*\<^sup>* (?m, es) c \<longrightarrow> run_step\<^sup>*\<^sup>* c (m', es')"
    using rtranclp_deterministic_end [OF m'(1)] run_step_deterministic by blast
  moreover have "dom (frames m') = {h}" "task_await_resume (frames m') h = Inr r"
    using F h by (auto simp: finished_def task_await_resume_def split: if_splits)
  ultimately show ?thesis using cur by blast
qed

section \<open>Eager tasks\<close>

text \<open>
  An \<open>async_task\<close> starts at once (\<open>initial_suspend\<close> never suspends) and runs beside its caller. Its
  frame and promise are as above; it is its final suspension that asks whether somebody waits, and
  its \<open>await_suspend\<close> that leaves control with the caller.
\<close>

definition async_final_suspend :: "'v frames \<Rightarrow> 'v task_promise \<Rightarrow> handle res" where
  "async_final_suspend F p =
     (if who_await_me p = 0 then Inr 0
      else case F (who_await_me p) of
             None \<Rightarrow> Inl Undefined_object
           | Some _ \<Rightarrow> Inr (if frame_done F (who_await_me p) then 0 else who_await_me p))"

definition async_await_ready :: "'v frames \<Rightarrow> handle \<Rightarrow> bool" where
  "async_await_ready F t \<longleftrightarrow> t = 0 \<or> frame_done F t"

definition async_await_suspend :: "handle \<Rightarrow> handle \<Rightarrow> 'v frames \<Rightarrow> 'v frames res" where
  "async_await_suspend t awaitingCoroutine F = with_promise t (set_continuation awaitingCoroutine) F"

definition async_await_resume :: "'v frames \<Rightarrow> handle \<Rightarrow> 'v res res" where
  "async_await_resume F t =
     (if t = 0 then Inr (Inl Broken_promise)
      else case F t of None \<Rightarrow> Inl Undefined_object | Some f \<Rightarrow> promise_result (f_promise f))"

definition async_delete :: "handle \<Rightarrow> 'v frames \<Rightarrow> 'v frames res" where
  "async_delete t F =
     (if t \<noteq> 0 then (case F t of None \<Rightarrow> Inl Undefined_object | Some _ \<Rightarrow> Inr (F(t := None))) else Inr F)"

definition async_move :: "handle \<Rightarrow> handle \<times> handle" where
  "async_move t = (t, 0)"

definition async_assign :: "handle \<Rightarrow> handle \<Rightarrow> 'v frames \<Rightarrow> (handle \<times> handle \<times> 'v frames) res" where
  "async_assign t other F = res_bind (async_delete t F) (\<lambda>F. Inr (other, 0, F))"

text \<open>The body of \<open>t\<close> ends with \<open>r\<close>: the frames after it and the coroutine that is resumed.\<close>

definition async_finish :: "handle \<Rightarrow> 'v res \<Rightarrow> 'v frames \<Rightarrow> (handle \<times> 'v frames) res" where
  "async_finish t r F =
     (case F t of
        None \<Rightarrow> Inl Undefined_object
      | Some f \<Rightarrow>
          let p = (case r of Inl e \<Rightarrow> unhandled_exception e | Inr v \<Rightarrow> return_value v) (f_promise f);
              F = F(t \<mapsto> \<lparr>f_promise = p, f_point = At_final\<rparr>)
          in res_bind (async_final_suspend F p) (\<lambda>target. Inr (target, F)))"

text \<open>\<open>co_await\<close> of \<open>t\<close> by \<open>h\<close>: whether \<open>h\<close> is suspended, and the frames after it.\<close>

definition async_co_await :: "handle \<Rightarrow> handle \<Rightarrow> 'v frames \<Rightarrow> (bool \<times> 'v frames) res" where
  "async_co_await t h F =
     (if async_await_ready F t then Inr (False, F)
      else res_bind (async_await_suspend t h F) (\<lambda>F. Inr (True, F)))"

lemmas async_defs = async_finish_def async_co_await_def async_await_ready_def async_await_suspend_def
  async_final_suspend_def async_await_resume_def with_promise_def set_continuation_def frame_done_def

lemma async_finish_then_await:
  assumes "F t = Some f" and "who_await_me (f_promise f) = 0" and "t \<noteq> 0"
  shows "\<exists>F'. async_finish t r F = Inr (0, F') \<and> async_co_await t h F' = Inr (False, F') \<and>
    async_await_resume F' t = Inr r"
proof -
  have "who_await_me (store_result r (f_promise f)) = 0" using assms(2) by simp
  then show ?thesis
    using assms by (simp add: async_defs store_result_def [symmetric] Let_def)
qed

lemma async_await_then_finish:
  assumes "F t = Some f" and "f_point f \<noteq> At_final" and "F h = Some g" and "f_point g \<noteq> At_final"
    and "t \<noteq> 0" and "h \<noteq> 0" and "h \<noteq> t"
  shows "\<exists>F1 F2. async_co_await t h F = Inr (True, F1) \<and> async_finish t r F1 = Inr (h, F2) \<and>
    async_await_resume F2 t = Inr r"
proof -
  let ?F1 = "F(t \<mapsto> f\<lparr>f_promise := set_continuation h (f_promise f)\<rparr>)"
    and ?p = "store_result r (set_continuation h (f_promise f))"
  let ?F2 = "F(t \<mapsto> \<lparr>f_promise = ?p, f_point = At_final\<rparr>)"
  have "async_co_await t h F = Inr (True, ?F1)"
    using assms by (auto simp: async_defs split: point.splits)
  moreover have "async_finish t r ?F1 = Inr (h, ?F2)"
  proof -
    have "\<not> frame_done ?F2 h" using assms by (auto simp: frame_done_def split: point.splits)
    moreover have "who_await_me ?p = h" by (simp add: set_continuation_def)
    ultimately show ?thesis
      using assms by (simp add: async_finish_def store_result_def [symmetric] async_final_suspend_def Let_def)
  qed
  moreover have "async_await_resume ?F2 t = Inr r" using assms by (simp add: async_await_resume_def)
  ultimately show ?thesis by blast
qed

section \<open>Detached coroutines\<close>

text \<open>
  \<open>async_run\<close> and the \<open>oneway_task\<close> of \<open>async_scope\<close> never suspend at their ends and have no result. An
  exception that escapes is dropped by the first and terminates the program in the second.
\<close>

definition async_run_unhandled_exception :: "fault \<Rightarrow> unit res" where
  "async_run_unhandled_exception e = Inr ()"

definition oneway_unhandled_exception :: "fault \<Rightarrow> unit res" where
  "oneway_unhandled_exception e = Inl Assert_failed"

text \<open>
  \<open>async_scope::spawn\<close>: the parts of its coroutine before and after the awaited work, which ends with
  \<open>r\<close>. The guard runs when the coroutine ends, before an exception reaches the promise.
\<close>

definition spawn_begin :: "async_scope \<Rightarrow> async_scope res" where
  "spawn_begin s = on_work_started s"

definition spawn_end :: "'v res \<Rightarrow> async_scope \<Rightarrow> (handle option \<times> async_scope) res" where
  "spawn_end r s =
     res_bind (on_work_finished s) (\<lambda>s.
       case r of Inl e \<Rightarrow> res_bind (oneway_unhandled_exception e) (\<lambda>_. Inr s) | Inr _ \<Rightarrow> Inr s)"

end
