(* ===== verification/Async_Events.thy ===== *)
theory Async_Events
  imports Coring_Prelude
begin

text \<open>
  Events a coroutine can wait for (\<^verbatim>\<open>include/coring/single_consumer_event.hpp\<close>,
  \<^verbatim>\<open>include/coring/single_consumer_async_auto_reset_event.hpp\<close>) and the event a thread can wait for
  (\<^verbatim>\<open>include/coring/detail/async/lightweight_manual_reset_event.hpp\<close>).

  The operations are modelled as functions, and then as step relations in which every atomic
  access is a step of its own, so that any number of threads calling \<open>set\<close> and the one awaiting
  coroutine interleave freely. Atomic accesses are sequentially consistent here.
\<close>

section \<open>single_consumer_event\<close>

datatype sce_state = not_set | not_set_consumer_waiting | is_set_state

record single_consumer_event =
  m_state :: sce_state
  m_awaiter :: "handle option"

definition single_consumer_event_new :: "bool \<Rightarrow> single_consumer_event" where
  "single_consumer_event_new initiallySet =
     \<lparr>m_state = (if initiallySet then is_set_state else not_set), m_awaiter = None\<rparr>"

definition is_set :: "single_consumer_event \<Rightarrow> bool" where
  "is_set e \<longleftrightarrow> m_state e = is_set_state"

text \<open>The two parts of \<open>set\<close>: the exchange, and the resumption when a consumer was waiting.\<close>

definition set_exchange :: "single_consumer_event \<Rightarrow> sce_state \<times> single_consumer_event" where
  "set_exchange e = (m_state e, e\<lparr>m_state := is_set_state\<rparr>)"

definition resume_awaiter :: "single_consumer_event \<Rightarrow> handle res" where
  "resume_awaiter e = (case m_awaiter e of None \<Rightarrow> Inl Null_deref | Some h \<Rightarrow> Inr h)"

text \<open>\<open>set\<close> without interference: the handle it resumes, if any.\<close>

definition sce_set :: "single_consumer_event \<Rightarrow> (handle option \<times> single_consumer_event) res" where
  "sce_set e =
     (let (oldState, e) = set_exchange e
      in if oldState = not_set_consumer_waiting
         then res_bind (resume_awaiter e) (\<lambda>h. Inr (Some h, e)) else Inr (None, e))"

definition sce_reset :: "single_consumer_event \<Rightarrow> single_consumer_event" where
  "sce_reset e = (if m_state e = is_set_state then e\<lparr>m_state := not_set\<rparr> else e)"

definition sce_await_ready :: "single_consumer_event \<Rightarrow> bool" where
  "sce_await_ready e = is_set e"

text \<open>The two parts of \<open>await_suspend\<close>.\<close>

definition store_awaiter :: "handle \<Rightarrow> single_consumer_event \<Rightarrow> single_consumer_event" where
  "store_awaiter h e = e\<lparr>m_awaiter := Some h\<rparr>"

definition cas_waiting :: "single_consumer_event \<Rightarrow> bool \<times> single_consumer_event" where
  "cas_waiting e =
     (if m_state e = not_set then (True, e\<lparr>m_state := not_set_consumer_waiting\<rparr>) else (False, e))"

definition sce_await_suspend :: "handle \<Rightarrow> single_consumer_event \<Rightarrow> bool \<times> single_consumer_event" where
  "sce_await_suspend h e = cas_waiting (store_awaiter h e)"

text \<open>
  The consumer \<open>h\<close> is running, or inside \<open>co_await\<close> after \<open>await_ready\<close> or after storing its handle,
  or suspended. \<open>wakers\<close> counts the calls of \<open>set\<close> between their exchange and the resumption.
\<close>

datatype consumer_pc = Running | Checked | Stored | Suspended

record sce_system =
  ev :: single_consumer_event
  pc :: consumer_pc
  wakers :: nat

inductive sce_step :: "handle \<Rightarrow> sce_system \<Rightarrow> sce_system \<Rightarrow> bool" for h where
  ready: "pc s = Running \<Longrightarrow> sce_await_ready (ev s) \<Longrightarrow> sce_step h s s"
| not_ready: "pc s = Running \<Longrightarrow> \<not> sce_await_ready (ev s) \<Longrightarrow> sce_step h s (s\<lparr>pc := Checked\<rparr>)"
| store: "pc s = Checked \<Longrightarrow> sce_step h s (s\<lparr>pc := Stored, ev := store_awaiter h (ev s)\<rparr>)"
| cas: "pc s = Stored \<Longrightarrow> cas_waiting (ev s) = (b, e) \<Longrightarrow>
    sce_step h s (s\<lparr>pc := (if b then Suspended else Running), ev := e\<rparr>)"
| exchange: "set_exchange (ev s) = (old, e) \<Longrightarrow>
    sce_step h s (s\<lparr>ev := e, wakers := (if old = not_set_consumer_waiting then Suc (wakers s) else wakers s)\<rparr>)"
| resume: "0 < wakers s \<Longrightarrow> pc s = Suspended \<Longrightarrow> resume_awaiter (ev s) = Inr h \<Longrightarrow>
    sce_step h s (s\<lparr>pc := Running, wakers := wakers s - 1\<rparr>)"
| reset: "sce_step h s (s\<lparr>ev := sce_reset (ev s)\<rparr>)"

definition sce_init :: "bool \<Rightarrow> sce_system" where
  "sce_init initiallySet = \<lparr>ev = single_consumer_event_new initiallySet, pc = Running, wakers = 0\<rparr>"

text \<open>A call of \<open>set\<close> that is about to resume something other than the suspended consumer.\<close>

definition sce_bad_resume :: "handle \<Rightarrow> sce_system \<Rightarrow> bool" where
  "sce_bad_resume h s \<longleftrightarrow> 0 < wakers s \<and> (pc s \<noteq> Suspended \<or> resume_awaiter (ev s) \<noteq> Inr h)"

definition sce_inv :: "handle \<Rightarrow> sce_system \<Rightarrow> bool" where
  "sce_inv h s \<longleftrightarrow>
     (pc s = Suspended \<longleftrightarrow> wakers s = 1 \<or> m_state (ev s) = not_set_consumer_waiting) \<and>
     \<not> (wakers s = 1 \<and> m_state (ev s) = not_set_consumer_waiting) \<and> wakers s \<le> 1 \<and>
     (pc s = Stored \<or> pc s = Suspended \<longrightarrow> m_awaiter (ev s) = Some h)"

lemmas sce_defs = sce_inv_def cas_waiting_def store_awaiter_def set_exchange_def sce_reset_def
  resume_awaiter_def single_consumer_event_new_def sce_await_ready_def is_set_def

lemma sce_step_inv: "sce_step h s s' \<Longrightarrow> sce_inv h s \<Longrightarrow> sce_inv h s'"
  by (cases rule: sce_step.cases, assumption) (auto simp: sce_defs split: if_splits)

lemma sce_init_inv: "sce_inv h (sce_init b)"
  by (auto simp: sce_init_def sce_defs)

lemma sce_reach_inv: "(sce_step h)\<^sup>*\<^sup>* (sce_init b) s \<Longrightarrow> sce_inv h s"
  by (erule rtranclp_invariant [where I = "sce_inv h"]) (rule sce_init_inv, rule sce_step_inv)

section \<open>single_consumer_async_auto_reset_event\<close>

text \<open>\<open>nullptr\<close>, \<open>this\<close>, or the address of the handle stored in the awaiter.\<close>

datatype ar_state = ar_null | ar_this | ar_waiter handle

definition auto_reset_event_new :: "bool \<Rightarrow> ar_state" where
  "auto_reset_event_new initiallySet = (if initiallySet then ar_this else ar_null)"

text \<open>The first exchange of \<open>set\<close>, and the handle that is to be resumed.\<close>

definition ar_set_exchange :: "ar_state \<Rightarrow> handle option \<times> ar_state" where
  "ar_set_exchange m = (case m of ar_waiter h \<Rightarrow> Some h | _ \<Rightarrow> None, ar_this)"

text \<open>The whole of \<open>set\<close> without interference.\<close>

definition ar_set :: "ar_state \<Rightarrow> handle option \<times> ar_state" where
  "ar_set m = (case ar_set_exchange m of (Some h, _) \<Rightarrow> (Some h, ar_null) | (None, m) \<Rightarrow> (None, m))"

text \<open>
  \<open>await_suspend\<close>: the compare and exchange, and the exchange after it failed. The result says
  whether the coroutine stays suspended.
\<close>

definition ar_cas :: "handle \<Rightarrow> ar_state \<Rightarrow> (bool \<times> ar_state) res" where
  "ar_cas h m =
     (case m of ar_null \<Rightarrow> Inr (True, ar_waiter h) | ar_this \<Rightarrow> Inr (False, ar_this)
      | ar_waiter _ \<Rightarrow> Inl Assert_failed)"

definition ar_await_suspend :: "handle \<Rightarrow> ar_state \<Rightarrow> (bool \<times> ar_state) res" where
  "ar_await_suspend h m =
     res_bind (ar_cas h m) (\<lambda>(b, m). if b then Inr (True, m) else Inr (False, ar_null))"

text \<open>
  The consumer runs, is suspended, or has failed the compare and exchange and is about to reset.
  A setter that found a waiter has to reset the state (\<open>resetting\<close>) and then to resume
  (\<open>resuming\<close>).
\<close>

datatype ar_pc = ARunning | AResetting | ASuspended

record ar_system =
  ast :: ar_state
  apc :: ar_pc
  resetting :: nat
  resuming :: nat

inductive ar_step :: "handle \<Rightarrow> ar_system \<Rightarrow> ar_system \<Rightarrow> bool" for h where
  await: "apc s = ARunning \<Longrightarrow> ar_cas h (ast s) = Inr (b, m) \<Longrightarrow>
    ar_step h s (s\<lparr>apc := (if b then ASuspended else AResetting), ast := m\<rparr>)"
| await_reset: "apc s = AResetting \<Longrightarrow> ar_step h s (s\<lparr>apc := ARunning, ast := ar_null\<rparr>)"
| set1: "ar_set_exchange (ast s) = (w, m) \<Longrightarrow>
    ar_step h s (s\<lparr>ast := m, resetting := (if w = None then resetting s else Suc (resetting s))\<rparr>)"
| set2: "0 < resetting s \<Longrightarrow>
    ar_step h s (s\<lparr>ast := ar_null, resetting := resetting s - 1, resuming := Suc (resuming s)\<rparr>)"
| set3: "0 < resuming s \<Longrightarrow> apc s = ASuspended \<Longrightarrow>
    ar_step h s (s\<lparr>apc := ARunning, resuming := resuming s - 1\<rparr>)"

definition ar_init :: "bool \<Rightarrow> ar_system" where
  "ar_init b = \<lparr>ast = auto_reset_event_new b, apc = ARunning, resetting = 0, resuming = 0\<rparr>"

definition ar_inv :: "handle \<Rightarrow> ar_system \<Rightarrow> bool" where
  "ar_inv h s \<longleftrightarrow>
     (apc s = ASuspended \<longleftrightarrow> ast s = ar_waiter h \<or> resetting s + resuming s = 1) \<and>
     \<not> (ast s = ar_waiter h \<and> resetting s + resuming s = 1) \<and>
     resetting s + resuming s \<le> 1 \<and> (\<forall>h'. ast s = ar_waiter h' \<longrightarrow> h' = h)"

lemmas ar_defs = ar_inv_def ar_cas_def ar_set_exchange_def auto_reset_event_new_def

lemma ar_step_inv: "ar_step h s s' \<Longrightarrow> ar_inv h s \<Longrightarrow> ar_inv h s'"
proof (induction rule: ar_step.induct)
  case (await s b m)
  then show ?case by (cases "ast s") (auto simp: ar_defs)
next
  case (await_reset s)
  then show ?case by (simp add: ar_defs)
next
  case (set1 s w m)
  then show ?case by (cases "ast s") (auto simp: ar_defs)
next
  case (set2 s)
  then show ?case by (auto simp: ar_defs)
next
  case (set3 s)
  then show ?case by (auto simp: ar_defs)
qed

lemma ar_init_inv: "ar_inv h (ar_init b)"
  by (auto simp: ar_init_def ar_defs)

lemma ar_reach_inv: "(ar_step h)\<^sup>*\<^sup>* (ar_init b) s \<Longrightarrow> ar_inv h s"
  by (erule rtranclp_invariant [where I = "ar_inv h"]) (rule ar_init_inv, rule ar_step_inv)

section \<open>lightweight_manual_reset_event\<close>

text \<open>
  The waiting thread: about to load the value, about to call \<open>futex (FUTEX_WAIT)\<close>, asleep in the
  kernel, or back from \<open>wait\<close>. \<open>FUTEX_WAIT\<close> compares the value with zero and falls asleep in one
  step, or fails with \<open>EAGAIN\<close>; it may also return at any time. \<open>FUTEX_WAKE\<close> wakes every sleeper.
\<close>

datatype waiter_pc = Loading | Calling | Asleep | Returned

datatype setter_pc = Idle | Storing | Waking | Done

record lw_system =
  m_value :: int
  w_pc :: waiter_pc
  s_pc :: setter_pc

definition lw_new :: "bool \<Rightarrow> lw_system" where
  "lw_new initiallySet = \<lparr>m_value = (if initiallySet then 1 else 0), w_pc = Loading, s_pc = Idle\<rparr>"

inductive lw_step :: "lw_system \<Rightarrow> lw_system \<Rightarrow> bool" where
  load: "w_pc s = Loading \<Longrightarrow> lw_step s (s\<lparr>w_pc := (if m_value s = 0 then Calling else Returned)\<rparr>)"
| sleep: "w_pc s = Calling \<Longrightarrow> m_value s = 0 \<Longrightarrow> lw_step s (s\<lparr>w_pc := Asleep\<rparr>)"
| eagain: "w_pc s = Calling \<Longrightarrow> m_value s \<noteq> 0 \<Longrightarrow> lw_step s (s\<lparr>w_pc := Returned\<rparr>)"
| transient: "w_pc s = Calling \<Longrightarrow> lw_step s (s\<lparr>w_pc := Loading\<rparr>)"
| spurious: "w_pc s = Asleep \<Longrightarrow> lw_step s (s\<lparr>w_pc := Loading\<rparr>)"
| call_set: "s_pc s = Idle \<Longrightarrow> lw_step s (s\<lparr>s_pc := Storing\<rparr>)"
| store: "s_pc s = Storing \<Longrightarrow> lw_step s (s\<lparr>s_pc := Waking, m_value := 1\<rparr>)"
| wake: "s_pc s = Waking \<Longrightarrow>
    lw_step s (s\<lparr>s_pc := Done, w_pc := (if w_pc s = Asleep then Loading else w_pc s)\<rparr>)"

definition lw_inv :: "bool \<Rightarrow> lw_system \<Rightarrow> bool" where
  "lw_inv b s \<longleftrightarrow>
     (m_value s = 0 \<or> m_value s = 1) \<and> (m_value s = 1 \<longleftrightarrow> b \<or> s_pc s \<in> {Waking, Done}) \<and>
     (w_pc s = Asleep \<longrightarrow> \<not> b \<and> s_pc s \<noteq> Done) \<and> (w_pc s = Returned \<longrightarrow> m_value s = 1)"

lemma lw_step_inv: "lw_step s s' \<Longrightarrow> lw_inv b s \<Longrightarrow> lw_inv b s'"
  by (cases rule: lw_step.cases, assumption) (auto simp: lw_inv_def split: if_splits)

lemma lw_init_inv: "lw_inv b (lw_new b)"
  by (auto simp: lw_inv_def lw_new_def)

lemma lw_reach_inv: "lw_step\<^sup>*\<^sup>* (lw_new b) s \<Longrightarrow> lw_inv b s"
  by (erule rtranclp_invariant [where I = "lw_inv b"]) (rule lw_init_inv, rule lw_step_inv)

text \<open>
  \<open>reset\<close> starts a new round. The machine above is one round: calls of \<open>reset\<close> that race with \<open>wait\<close>
  or \<open>set\<close> are not part of it.
\<close>

definition lw_reset :: "lw_system \<Rightarrow> lw_system" where
  "lw_reset s = s\<lparr>m_value := 0\<rparr>"

text \<open>Once \<open>set\<close> has stored the value, the waiting thread needs at most two steps of its own to return.\<close>

definition lw_waiter :: "lw_system \<Rightarrow> lw_system" where
  "lw_waiter s = (case w_pc s of
     Loading \<Rightarrow> s\<lparr>w_pc := (if m_value s = 0 then Calling else Returned)\<rparr>
   | Calling \<Rightarrow> s\<lparr>w_pc := (if m_value s = 0 then Asleep else Returned)\<rparr>
   | _ \<Rightarrow> s)"

lemma lw_waiter_step: "lw_waiter s = s \<or> lw_step s (lw_waiter s)"
  using load [of s] by (cases "w_pc s") (auto simp: lw_waiter_def intro: lw_step.intros)

lemma lw_done_returns:
  assumes "lw_step\<^sup>*\<^sup>* (lw_new b) s" and "s_pc s = Done"
  shows "w_pc (lw_waiter s) = Returned"
  using lw_reach_inv [OF assms(1)] assms(2) by (cases "w_pc s") (auto simp: lw_inv_def lw_waiter_def)

end
