(* ===== verification/When_All.thy ===== *)
theory When_All
  imports Tasks Async_Events
begin

text \<open>
  Waiting for several operations at once (\<^verbatim>\<open>include/coring/when_all.hpp\<close>,
  \<^verbatim>\<open>include/coring/when_all_ready.hpp\<close>, \<^verbatim>\<open>include/coring/detail/async/when_all_task.hpp\<close>,
  \<^verbatim>\<open>include/coring/detail/async/when_all_ready_awaitable.hpp\<close>) and blocking a thread on one
  (\<^verbatim>\<open>include/coring/sync_wait.hpp\<close>, \<^verbatim>\<open>include/coring/detail/async/sync_wait_task.hpp\<close>).

  Each operation is wrapped in a coroutine that stores the result or the exception in its promise
  and then tells the counter. Whether an operation completes at once or later, and with what, is the
  user's code: an argument of the functions below.
\<close>

section \<open>The wrapping coroutines\<close>

text \<open>\<open>wa_counter\<close> says whether \<open>m_counter\<close> has been set; \<open>wa_result\<close> is the value that \<open>m_result\<close> points to.\<close>

record 'v when_all_promise =
  wa_counter :: bool
  wa_exception :: "fault option"
  wa_result :: "'v option"

definition when_all_promise_new :: "'v when_all_promise" where
  "when_all_promise_new = \<lparr>wa_counter = False, wa_exception = None, wa_result = None\<rparr>"

definition wa_yield_value :: "'v \<Rightarrow> 'v when_all_promise \<Rightarrow> 'v when_all_promise" where
  "wa_yield_value v p = p\<lparr>wa_result := Some v\<rparr>"

definition wa_unhandled_exception :: "fault \<Rightarrow> 'v when_all_promise \<Rightarrow> 'v when_all_promise" where
  "wa_unhandled_exception e p = p\<lparr>wa_exception := Some e\<rparr>"

definition wa_return_void :: "unit res" where
  "wa_return_void = Inl Assert_failed"

definition wa_start :: "'v when_all_promise \<Rightarrow> 'v when_all_promise" where
  "wa_start p = p\<lparr>wa_counter := True\<rparr>"

definition rethrow_if_exception :: "'v when_all_promise \<Rightarrow> unit res" where
  "rethrow_if_exception p = (case wa_exception p of Some e \<Rightarrow> Inl e | None \<Rightarrow> Inr ())"

text \<open>\<open>result\<close>, as for the other promises: thrown or returned inside, undefined behaviour outside.\<close>

definition wa_promise_result :: "'v when_all_promise \<Rightarrow> 'v res res" where
  "wa_promise_result p =
     (case rethrow_if_exception p of
        Inl e \<Rightarrow> Inr (Inl e)
      | Inr _ \<Rightarrow> (case wa_result p of None \<Rightarrow> Inl Undefined_object | Some v \<Rightarrow> Inr (Inr v)))"

text \<open>\<open>make_when_all_task\<close>: what its coroutine does with the outcome of \<open>co_await\<close>.\<close>

definition make_when_all_task :: "'v res \<Rightarrow> 'v when_all_promise \<Rightarrow> 'v when_all_promise" where
  "make_when_all_task r = (case r of Inl e \<Rightarrow> wa_unhandled_exception e | Inr v \<Rightarrow> wa_yield_value v)"

text \<open>\<open>completion_notifier::await_suspend\<close>.\<close>

definition completion_notifier ::
  "'v when_all_promise \<Rightarrow> when_all_counter \<Rightarrow> (handle option \<times> when_all_counter) res" where
  "completion_notifier p c = (if wa_counter p then notify_awaitable_completed c else Inl Null_deref)"

section \<open>The awaitable\<close>

record 'v when_all_ready_awaitable =
  wr_counter :: when_all_counter
  wr_tasks :: "'v when_all_promise list"

definition when_all_ready :: "nat \<Rightarrow> 'v when_all_ready_awaitable" where
  "when_all_ready n =
     \<lparr>wr_counter = when_all_counter_new (of_nat n), wr_tasks = replicate n when_all_promise_new\<rparr>"

text \<open>The awaited operation of task \<open>i\<close> completes with \<open>r\<close>; the result is the coroutine it resumes.\<close>

definition task_completes ::
  "nat \<Rightarrow> 'v res \<Rightarrow> 'v when_all_ready_awaitable \<Rightarrow> (handle option \<times> 'v when_all_ready_awaitable) res" where
  "task_completes i r w =
     (if length (wr_tasks w) \<le> i then Inl Out_of_bounds
      else let p = make_when_all_task r (wr_tasks w ! i)
           in res_bind (completion_notifier p (wr_counter w)) (\<lambda>(h, c).
                Inr (h, \<lparr>wr_counter = c, wr_tasks = (wr_tasks w)[i := p]\<rparr>)))"

text \<open>The loop that starts the tasks; \<open>ss\<close> says which complete before they first suspend, and with what.\<close>

fun start_tasks ::
  "'v res option list \<Rightarrow> nat \<Rightarrow> 'v when_all_ready_awaitable \<Rightarrow> (handle list \<times> 'v when_all_ready_awaitable) res" where
  "start_tasks [] i w = Inr ([], w)"
| "start_tasks (s # ss) i w =
     (if length (wr_tasks w) \<le> i then Inl Out_of_bounds
      else let w = w\<lparr>wr_tasks := (wr_tasks w)[i := wa_start (wr_tasks w ! i)]\<rparr>
           in res_bind (case s of None \<Rightarrow> Inr (None, w) | Some r \<Rightarrow> task_completes i r w) (\<lambda>(h, w).
              res_bind (start_tasks ss (Suc i) w) (\<lambda>(hs, w).
                Inr ((case h of None \<Rightarrow> hs | Some h \<Rightarrow> h # hs), w))))"

definition wr_is_ready :: "'v when_all_ready_awaitable \<Rightarrow> bool" where
  "wr_is_ready w = is_ready (wr_counter w)"

text \<open>\<open>try_await\<close>: the coroutines resumed while the tasks start, and whether the caller stays suspended.\<close>

definition wr_try_await ::
  "'v res option list \<Rightarrow> handle \<Rightarrow> 'v when_all_ready_awaitable \<Rightarrow>
   (handle list \<times> bool \<times> 'v when_all_ready_awaitable) res" where
  "wr_try_await ss awaitingCoroutine w =
     res_bind (start_tasks ss 0 w) (\<lambda>(hs, w).
       let (b, c) = try_await awaitingCoroutine (wr_counter w)
       in Inr (hs, b, w\<lparr>wr_counter := c\<rparr>))"

text \<open>The functions that \<open>when_all\<close> maps over the tasks: all results in order, or the first exception.\<close>

fun collect_results :: "'v when_all_promise list \<Rightarrow> 'v list res res" where
  "collect_results [] = Inr (Inr [])"
| "collect_results (p # ps) =
     res_bind (wa_promise_result p) (\<lambda>r.
       case r of
         Inl e \<Rightarrow> Inr (Inl e)
       | Inr v \<Rightarrow> res_bind (collect_results ps) (\<lambda>rs. Inr (res_bind rs (\<lambda>vs. Inr (v # vs)))))"

text \<open>\<open>fmap_awaiter::await_resume\<close> applies the function to what the awaiter returns.\<close>

definition fmap_await_resume :: "('a \<Rightarrow> 'b res res) \<Rightarrow> 'a res \<Rightarrow> 'b res res" where
  "fmap_await_resume func r = (case r of Inl e \<Rightarrow> Inr (Inl e) | Inr a \<Rightarrow> func a)"

definition when_all_await_resume :: "'v when_all_ready_awaitable \<Rightarrow> 'v list res res" where
  "when_all_await_resume w = fmap_await_resume collect_results (Inr (wr_tasks w))"

section \<open>Every task completes\<close>

text \<open>The completions after the start, in the order in which they happen.\<close>

fun complete_all ::
  "(nat \<times> 'v res) list \<Rightarrow> 'v when_all_ready_awaitable \<Rightarrow> (handle list \<times> 'v when_all_ready_awaitable) res" where
  "complete_all [] w = Inr ([], w)"
| "complete_all ((i, r) # ps) w =
     res_bind (task_completes i r w) (\<lambda>(h, w).
     res_bind (complete_all ps w) (\<lambda>(hs, w).
       Inr ((case h of None \<Rightarrow> hs | Some h \<Rightarrow> h # hs), w)))"

definition wr_pending :: "'v when_all_ready_awaitable \<Rightarrow> nat" where
  "wr_pending w = unat (wc_count (wr_counter w))"

definition wr_cont :: "'v when_all_ready_awaitable \<Rightarrow> handle option" where
  "wr_cont w = wc_awaitingCoroutine (wr_counter w)"

lemma wa_store_simps [simp]:
  "wa_counter (make_when_all_task r p) = wa_counter p"
  "wa_exception p = None \<Longrightarrow> wa_promise_result (make_when_all_task r p) = Inr r"
  by (auto simp: make_when_all_task_def wa_unhandled_exception_def wa_yield_value_def wa_promise_result_def
    rethrow_if_exception_def split: sum.splits)

lemma task_completes_quiet:
  assumes "1 < wr_pending w" and "i < length (wr_tasks w)" and "wa_counter (wr_tasks w ! i)"
  shows "\<exists>w'. task_completes i r w = Inr (None, w') \<and> wr_pending w' = wr_pending w - 1 \<and> wr_cont w' = wr_cont w \<and>
    wr_tasks w' = (wr_tasks w)[i := make_when_all_task r (wr_tasks w ! i)]"
  using all_counter.finish_more [of "wr_counter w"] assms
  by (auto simp: task_completes_def completion_notifier_def wr_pending_def wr_cont_def Let_def)

lemma task_completes_last:
  assumes "wr_pending w = 1" and "wr_cont w = Some h" and "i < length (wr_tasks w)" and "wa_counter (wr_tasks w ! i)"
  shows "\<exists>w'. task_completes i r w = Inr (Some h, w') \<and> wr_pending w' = 0 \<and>
    wr_tasks w' = (wr_tasks w)[i := make_when_all_task r (wr_tasks w ! i)]"
  using all_counter.finish_last [of "wr_counter w" h] assms
  by (auto simp: task_completes_def completion_notifier_def wr_pending_def wr_cont_def Let_def)

text \<open>The tasks after the completions \<open>ps\<close>.\<close>

definition store_all :: "(nat \<times> 'v res) list \<Rightarrow> 'v when_all_promise list \<Rightarrow> 'v when_all_promise list" where
  "store_all ps ts = fold (\<lambda>(i, r) ts. ts[i := make_when_all_task r (ts ! i)]) ps ts"

lemma store_all_simps [simp]:
  "store_all [] ts = ts"
  "store_all ((i, r) # ps) ts = store_all ps (ts[i := make_when_all_task r (ts ! i)])"
  by (simp_all add: store_all_def)

lemma length_store_all [simp]: "length (store_all ps ts) = length ts"
  by (induction ps arbitrary: ts) auto

lemma store_all_nth:
  "distinct (map fst ps) \<Longrightarrow> j < length ts \<Longrightarrow>
    store_all ps ts ! j = (case map_of ps j of None \<Rightarrow> ts ! j | Some r \<Rightarrow> make_when_all_task r (ts ! j))"
proof (induction ps arbitrary: ts)
  case (Cons p ps)
  obtain i r where p: "p = (i, r)" by (cases p)
  then have "map_of ps i = None" using Cons.prems(1) by (simp add: map_of_eq_None_iff)
  then show ?case using Cons.IH [of "ts[i := make_when_all_task r (ts ! i)]"] Cons.prems p
    by (auto simp: nth_list_update split: option.splits)
qed simp

lemma complete_all_wakes:
  "length ps = wr_pending w \<Longrightarrow> ps \<noteq> [] \<Longrightarrow> wr_cont w = Some h \<Longrightarrow>
    \<forall>(i, r) \<in> set ps. i < length (wr_tasks w) \<Longrightarrow> \<forall>p \<in> set (wr_tasks w). wa_counter p \<Longrightarrow>
    \<exists>w'. complete_all ps w = Inr ([h], w') \<and> wr_tasks w' = store_all ps (wr_tasks w)"
proof (induction ps arbitrary: w)
  case (Cons p ps)
  obtain i r where p: "p = (i, r)" by (cases p)
  have i: "i < length (wr_tasks w)" and st: "wa_counter (wr_tasks w ! i)"
    using Cons.prems(4,5) p by auto
  show ?case
  proof (cases "ps = []")
    case True
    then show ?thesis using task_completes_last [OF _ Cons.prems(3) i st, of r] Cons.prems(1) p by auto
  next
    case False
    then have "1 < wr_pending w" using Cons.prems(1) by (cases ps) auto
    then obtain w1 where w1: "task_completes i r w = Inr (None, w1)" "wr_pending w1 = wr_pending w - 1"
      "wr_cont w1 = wr_cont w" "wr_tasks w1 = (wr_tasks w)[i := make_when_all_task r (wr_tasks w ! i)]"
      using task_completes_quiet [OF _ i st] by blast
    have "\<forall>p \<in> set (wr_tasks w1). wa_counter p"
      using Cons.prems(5) st set_update_subset_insert [of "wr_tasks w" i] unfolding w1(4) by fastforce
    moreover have "length ps = wr_pending w1" using Cons.prems(1) w1(2) by (metis diff_Suc_1 length_Cons)
    ultimately obtain w' where "complete_all ps w1 = Inr ([h], w')" "wr_tasks w' = store_all ps (wr_tasks w1)"
      using Cons.IH [of w1] Cons.prems(3,4) False w1(3,4) by auto
    then show ?thesis using w1 p by simp
  qed
qed simp

definition completed :: "'v res option list \<Rightarrow> nat" where
  "completed ss = length (filter (\<lambda>s. s \<noteq> None) ss)"

definition started_task :: "'v res option \<Rightarrow> 'v when_all_promise \<Rightarrow> 'v when_all_promise" where
  "started_task s p = (case s of None \<Rightarrow> wa_start p | Some r \<Rightarrow> make_when_all_task r (wa_start p))"

lemma start_tasks_starts:
  "i + length ss = length (wr_tasks w) \<Longrightarrow> completed ss < wr_pending w \<Longrightarrow>
    \<exists>w'. start_tasks ss i w = Inr ([], w') \<and> wr_pending w' = wr_pending w - completed ss \<and> wr_cont w' = wr_cont w \<and>
      wr_tasks w' = take i (wr_tasks w) @ map2 started_task ss (drop i (wr_tasks w))"
proof (induction ss arbitrary: i w)
  case (Cons s ss)
  have i: "i < length (wr_tasks w)" using Cons.prems(1) by simp
  let ?w = "w\<lparr>wr_tasks := (wr_tasks w)[i := wa_start (wr_tasks w ! i)]\<rparr>"
  have pend: "wr_pending ?w = wr_pending w" "wr_cont ?w = wr_cont w" by (simp_all add: wr_pending_def wr_cont_def)
  have "\<exists>w1. (case s of None \<Rightarrow> Inr (None, ?w) | Some r \<Rightarrow> task_completes i r ?w) = Inr (None, w1) \<and>
      wr_pending w1 = wr_pending w - completed [s] \<and> wr_cont w1 = wr_cont w \<and>
      wr_tasks w1 = (wr_tasks w)[i := started_task s (wr_tasks w ! i)]"
  proof (cases s)
    case None
    then show ?thesis using pend by (auto simp: started_task_def completed_def)
  next
    case (Some r)
    then have "1 < wr_pending ?w" using Cons.prems(2) pend by (simp add: completed_def)
    then show ?thesis
      using task_completes_quiet [of ?w i r] Some i pend by (auto simp: started_task_def wa_start_def completed_def)
  qed
  then obtain w1 where w1: "(case s of None \<Rightarrow> Inr (None, ?w) | Some r \<Rightarrow> task_completes i r ?w) = Inr (None, w1)"
    "wr_pending w1 = wr_pending w - completed [s]" "wr_cont w1 = wr_cont w"
    "wr_tasks w1 = (wr_tasks w)[i := started_task s (wr_tasks w ! i)]" by blast
  have "completed (s # ss) = completed [s] + completed ss" by (simp add: completed_def)
  then have "Suc i + length ss = length (wr_tasks w1)" "completed ss < wr_pending w1"
    using Cons.prems w1(2,4) by auto
  then obtain w' where w': "start_tasks ss (Suc i) w1 = Inr ([], w')" "wr_pending w' = wr_pending w1 - completed ss"
    "wr_cont w' = wr_cont w1" "wr_tasks w' = take (Suc i) (wr_tasks w1) @ map2 started_task ss (drop (Suc i) (wr_tasks w1))"
    using Cons.IH [of "Suc i" w1] by blast
  have "wr_tasks w' = take i (wr_tasks w) @ map2 started_task (s # ss) (drop i (wr_tasks w))"
    using w'(4) w1(4) i by (simp add: take_Suc_conv_app_nth Cons_nth_drop_Suc [symmetric])
  then show ?case
    using w' w1 i \<open>completed (s # ss) = completed [s] + completed ss\<close> by (simp add: Let_def)
qed (simp add: completed_def)

text \<open>
  \<open>when_all\<close> on the operations with the results \<open>rs\<close>: those at which \<open>at_once\<close> holds complete while they
  are started, the others afterwards in the order \<open>later\<close>.
\<close>

definition sync_results :: "(nat \<Rightarrow> bool) \<Rightarrow> 'v res list \<Rightarrow> 'v res option list" where
  "sync_results at_once rs = map (\<lambda>i. if at_once i then Some (rs ! i) else None) [0..<length rs]"

definition late_results :: "nat list \<Rightarrow> 'v res list \<Rightarrow> (nat \<times> 'v res) list" where
  "late_results later rs = map (\<lambda>i. (i, rs ! i)) later"

lemma collect_results_all:
  "length ts = length rs \<Longrightarrow> \<forall>i < length rs. wa_promise_result (ts ! i) = Inr (rs ! i) \<Longrightarrow>
    collect_results ts = Inr (case List.find (\<lambda>r. \<exists>e. r = Inl e) rs of
      Some (Inl e) \<Rightarrow> Inl e | _ \<Rightarrow> Inr (map projr rs))"
proof (induction ts arbitrary: rs)
  case (Cons t ts)
  obtain r rs' where rs: "rs = r # rs'" using Cons.prems(1) by (cases rs) auto
  have t: "wa_promise_result t = Inr r" using Cons.prems(2) rs by force
  have "collect_results ts = Inr (case List.find (\<lambda>r. \<exists>e. r = Inl e) rs' of
      Some (Inl e) \<Rightarrow> Inl e | _ \<Rightarrow> Inr (map projr rs'))"
    using Cons.IH [of rs'] Cons.prems rs by force
  then show ?case using t rs by (cases r) (auto split: option.splits sum.splits)
qed simp

lemma completed_sync:
  assumes "set later = {i. i < length rs \<and> \<not> at_once i}" and "distinct later"
  shows "completed (sync_results at_once rs) + length later = length rs"
proof -
  have "completed (sync_results at_once rs) = length (filter at_once [0..<length rs])"
    by (simp add: completed_def sync_results_def filter_map o_def)
  moreover have "length later = card {i. i < length rs \<and> \<not> at_once i}"
    using assms distinct_card by metis
  moreover have "card {i. i < length rs \<and> \<not> at_once i} = length (filter (\<lambda>i. \<not> at_once i) [0..<length rs])"
    by (subst distinct_card [symmetric]) (auto intro!: arg_cong [where f = card])
  ultimately show ?thesis using sum_length_filter_compl [of at_once "[0..<length rs]"] by simp
qed

lemma when_all_completes:
  assumes len: "length rs < 18446744073709551615"
    and later: "set later = {i. i < length rs \<and> \<not> at_once i}" "distinct later"
  shows "\<exists>w1 w2. wr_try_await (sync_results at_once rs) h (when_all_ready (length rs)) = Inr ([], later \<noteq> [], w1) \<and>
    complete_all (late_results later rs) w1 = Inr (if later = [] then [] else [h], w2) \<and>
    length (wr_tasks w2) = length rs \<and> (\<forall>i < length rs. wa_promise_result (wr_tasks w2 ! i) = Inr (rs ! i))"
proof -
  let ?n = "length rs" and ?ss = "sync_results at_once rs" and ?ps = "late_results later rs"
  have n: "unat (of_nat ?n :: u64) = ?n" using len by (intro of_nat_less_u64) simp
  have pend: "wr_pending (when_all_ready ?n :: 'a when_all_ready_awaitable) = Suc ?n"
    using when_all_counter_new_count [of "of_nat ?n"] n len by (simp add: wr_pending_def when_all_ready_def)
  have cnt: "completed ?ss + length later = ?n" by (rule completed_sync [OF later])
  obtain w1 where w1: "start_tasks ?ss 0 (when_all_ready ?n) = Inr ([], w1)"
    "wr_pending w1 = Suc (length later)" "wr_tasks w1 = map2 started_task ?ss (replicate ?n when_all_promise_new)"
    using start_tasks_starts [of 0 ?ss "when_all_ready ?n"] pend cnt
    by (auto simp: sync_results_def when_all_ready_def)
  obtain c where c: "try_await h (wr_counter w1) = (0 < length later, c)" "unat (wc_count c) = length later"
    "wc_awaitingCoroutine c = Some h"
    using all_counter.register_counts [of "wr_counter w1" h] w1(2) by (auto simp: wr_pending_def)
  let ?w = "w1\<lparr>wr_counter := c\<rparr>"
  have tasks: "i < ?n \<Longrightarrow> wr_tasks ?w ! i = started_task (if at_once i then Some (rs ! i) else None) when_all_promise_new"
    for i using w1(3) by (simp add: sync_results_def)
  have lt: "length (wr_tasks ?w) = ?n" using w1(3) by (simp add: sync_results_def)
  have st: "\<forall>p \<in> set (wr_tasks ?w). wa_counter p"
    using tasks lt by (auto simp: in_set_conv_nth started_task_def wa_start_def)
  have tr: "wr_try_await ?ss h (when_all_ready ?n) = Inr ([], later \<noteq> [], ?w)"
    using w1(1) c(1) by (simp add: wr_try_await_def)
  have run: "\<exists>w2. complete_all ?ps ?w = Inr (if later = [] then [] else [h], w2) \<and> wr_tasks w2 = store_all ?ps (wr_tasks ?w)"
  proof (cases "later = []")
    case False
    then show ?thesis
      using complete_all_wakes [of ?ps ?w h] c st lt later(1)
      by (auto simp: late_results_def wr_pending_def wr_cont_def)
  qed (simp add: late_results_def)
  then obtain w2 where w2: "complete_all ?ps ?w = Inr (if later = [] then [] else [h], w2)"
    "wr_tasks w2 = store_all ?ps (wr_tasks ?w)" by blast
  have "wa_promise_result (wr_tasks w2 ! i) = Inr (rs ! i)" if i: "i < ?n" for i
  proof -
    have d: "distinct (map fst ?ps)" using later(2) by (simp add: late_results_def o_def)
    have "map_of ?ps i = (if at_once i then None else Some (rs ! i))"
      using later(1) i by (auto simp: late_results_def map_of_map_restrict restrict_map_def)
    then show ?thesis
      using store_all_nth [OF d, of i "wr_tasks ?w"] tasks [OF i] lt i
      by (simp add: w2(2) started_task_def wa_start_def when_all_promise_new_def)
  qed
  then show ?thesis using tr w2 lt by auto
qed

section \<open>Blocking on one operation\<close>

record 'v sync_wait_promise =
  sw_event :: bool
  sw_exception :: "fault option"
  sw_result :: "'v option"

definition sync_wait_promise_new :: "'v sync_wait_promise" where
  "sync_wait_promise_new = \<lparr>sw_event = False, sw_exception = None, sw_result = None\<rparr>"

definition sw_start :: "'v sync_wait_promise \<Rightarrow> 'v sync_wait_promise" where
  "sw_start p = p\<lparr>sw_event := True\<rparr>"

definition sw_yield_value :: "'v \<Rightarrow> 'v sync_wait_promise \<Rightarrow> 'v sync_wait_promise" where
  "sw_yield_value v p = p\<lparr>sw_result := Some v\<rparr>"

definition sw_unhandled_exception :: "fault \<Rightarrow> 'v sync_wait_promise \<Rightarrow> 'v sync_wait_promise" where
  "sw_unhandled_exception e p = p\<lparr>sw_exception := Some e\<rparr>"

definition sw_promise_result :: "'v sync_wait_promise \<Rightarrow> 'v res res" where
  "sw_promise_result p =
     (case sw_exception p of
        Some e \<Rightarrow> Inr (Inl e)
      | None \<Rightarrow> (case sw_result p of None \<Rightarrow> Inl Undefined_object | Some v \<Rightarrow> Inr (Inr v)))"

definition make_sync_wait_task :: "'v res \<Rightarrow> 'v sync_wait_promise \<Rightarrow> 'v sync_wait_promise" where
  "make_sync_wait_task r = (case r of Inl e \<Rightarrow> sw_unhandled_exception e | Inr v \<Rightarrow> sw_yield_value v)"

text \<open>
  \<open>sync_wait\<close>: its thread has started the task and waits for the event, while the operation completes
  with \<open>r\<close>, here or on another thread, and the final suspension of the task calls \<open>set\<close>.
\<close>

record 'v sync_system =
  sy_promise :: "'v sync_wait_promise"
  sy_event :: lw_system

definition sync_wait :: "'v sync_system" where
  "sync_wait = \<lparr>sy_promise = sw_start sync_wait_promise_new, sy_event = lw_new False\<rparr>"

inductive sync_step :: "'v res \<Rightarrow> 'v sync_system \<Rightarrow> 'v sync_system \<Rightarrow> bool" for r where
  completes: "s_pc (sy_event s) = Idle \<Longrightarrow> sw_event (sy_promise s) \<Longrightarrow>
    sync_step r s (s\<lparr>sy_promise := make_sync_wait_task r (sy_promise s), sy_event := (sy_event s)\<lparr>s_pc := Storing\<rparr>\<rparr>)"
| event: "lw_step (sy_event s) e \<Longrightarrow> s_pc (sy_event s) \<noteq> Idle \<or> s_pc e = Idle \<Longrightarrow>
    sync_step r s (s\<lparr>sy_event := e\<rparr>)"

definition sync_inv :: "'v res \<Rightarrow> 'v sync_system \<Rightarrow> bool" where
  "sync_inv r s \<longleftrightarrow> lw_inv False (sy_event s) \<and>
     (if s_pc (sy_event s) = Idle then sy_promise s = sw_start sync_wait_promise_new
      else sw_promise_result (sy_promise s) = Inr r)"

lemma sync_step_inv: "sync_step r s s' \<Longrightarrow> sync_inv r s \<Longrightarrow> sync_inv r s'"
proof (induction rule: sync_step.induct)
  case (completes s)
  have "sw_promise_result (make_sync_wait_task r (sy_promise s)) = Inr r"
    using completes by (auto simp: sync_inv_def make_sync_wait_task_def sw_unhandled_exception_def sw_yield_value_def
      sw_promise_result_def sw_start_def sync_wait_promise_new_def split: sum.splits)
  then show ?case using completes by (auto simp: sync_inv_def lw_inv_def)
next
  case (event s e)
  have "lw_inv False e" using lw_step_inv [OF event.hyps(1)] event.prems by (simp add: sync_inv_def)
  moreover have "s_pc (sy_event s) = Idle \<longleftrightarrow> s_pc e = Idle"
    using event.hyps by (cases rule: lw_step.cases) auto
  ultimately show ?case using event.prems by (simp add: sync_inv_def)
qed

lemma sync_reach_inv: "(sync_step r)\<^sup>*\<^sup>* sync_wait s \<Longrightarrow> sync_inv r s"
  by (erule rtranclp_invariant [where I = "sync_inv r"])
     (simp add: sync_inv_def sync_wait_def lw_init_inv, simp add: lw_new_def, rule sync_step_inv)

lemma sync_wait_result:
  assumes "(sync_step r)\<^sup>*\<^sup>* sync_wait s" and "w_pc (sy_event s) = Returned"
  shows "sw_promise_result (sy_promise s) = Inr r"
  using sync_reach_inv [OF assms(1)] assms(2) by (auto simp: sync_inv_def lw_inv_def split: if_splits)

lemma sync_wait_wakes:
  assumes "(sync_step r)\<^sup>*\<^sup>* sync_wait s" and "s_pc (sy_event s) = Done"
  shows "w_pc (lw_waiter (sy_event s)) = Returned"
  using sync_reach_inv [OF assms(1)] assms(2)
  by (cases "w_pc (sy_event s)") (auto simp: sync_inv_def lw_inv_def lw_waiter_def)

end
