(* ===== verification/Promises.thy ===== *)
theory Promises
  imports When_All
begin

text \<open>
  The promises of every kind of coroutine, and what they share: \<open>task\<close>, \<open>async_task\<close>, \<open>sync_wait_task\<close> and
  \<open>when_all_task\<close> each have a general promise and specialisations for \<open>void\<close> and, the first two, for
  references (\<^verbatim>\<open>task.hpp\<close>, \<^verbatim>\<open>async_task.hpp\<close>, \<^verbatim>\<open>detail/async/sync_wait_task.hpp\<close>,
  \<^verbatim>\<open>detail/async/when_all_task.hpp\<close>). The general ones of the last two and those of \<open>task\<close> are in the theories
  this one builds on. The contract is a locale: a promise that a body has ended with \<open>r\<close> gives \<open>r\<close> to
  whoever asks for the result.

  An exception pointer is an option, a reference an address.
\<close>

section \<open>The contract\<close>

locale outcome_promise =
  fixes fresh :: 'p
    and complete :: "'v res \<Rightarrow> 'p \<Rightarrow> 'p"
    and result :: "'p \<Rightarrow> 'v res res"
    and valid :: "'v res \<Rightarrow> bool"
  assumes delivers: "valid r \<Longrightarrow> result (complete r fresh) = Inr r"
begin

text \<open>
  A chain of coroutines, each of which awaits the one before and ends with what that gave: a value or an
  exception reaches the end of it unchanged.
\<close>

lemma chain_delivers:
  "valid r \<Longrightarrow> ((\<lambda>q. res_bind q (\<lambda>r. result (complete r fresh))) ^^ n) (Inr r) = Inr r"
  by (induction n) (simp_all add: delivers)

end

text \<open>What a body does at its end: \<open>return_value\<close> with a value, \<open>unhandled_exception\<close> for an exception.\<close>

definition body_ends :: "(fault \<Rightarrow> 'p \<Rightarrow> 'p) \<Rightarrow> ('v \<Rightarrow> 'p \<Rightarrow> 'p) \<Rightarrow> 'v res \<Rightarrow> 'p \<Rightarrow> 'p" where
  "body_ends throws returns r = (case r of Inl e \<Rightarrow> throws e | Inr v \<Rightarrow> returns v)"

section \<open>task\<close>

definition void_promise_new :: void_promise where
  "void_promise_new = \<lparr>v_exception = None\<rparr>"

definition ref_promise_new :: ref_promise where
  "ref_promise_new = \<lparr>v_exception = None, r_value = 0\<rparr>"

interpretation task_outcome: outcome_promise task_promise_new "body_ends unhandled_exception return_value"
  promise_result "\<lambda>_. True"
  by unfold_locales (auto simp: body_ends_def promise_result_def unhandled_exception_def return_value_def split: sum.splits)

interpretation task_void_outcome: outcome_promise void_promise_new
  "body_ends void_unhandled_exception (\<lambda>_. return_void)" "\<lambda>p. Inr (void_result p)" "\<lambda>_. True"
  by unfold_locales
    (auto simp: body_ends_def void_result_def void_unhandled_exception_def return_void_def void_promise_new_def
      split: sum.splits)

interpretation task_ref_outcome: outcome_promise ref_promise_new
  "body_ends ref_unhandled_exception ref_return_value" ref_result "\<lambda>r. r \<noteq> Inr 0"
  by unfold_locales
    (auto simp: body_ends_def ref_result_def ref_unhandled_exception_def ref_return_value_def ref_promise_new_def
      split: sum.splits)

section \<open>async_task\<close>

datatype 'v async_result_type = Async_empty | Async_value 'v | Async_exception fault

record 'v async_task_promise =
  at_who_await_me :: handle
  at_result :: "'v async_result_type"

definition async_task_promise_new :: "'v async_task_promise" where
  "async_task_promise_new = \<lparr>at_who_await_me = 0, at_result = Async_empty\<rparr>"

definition at_set_continuation :: "handle \<Rightarrow> 'v async_task_promise \<Rightarrow> 'v async_task_promise" where
  "at_set_continuation h p = p\<lparr>at_who_await_me := h\<rparr>"

definition at_unhandled_exception :: "fault \<Rightarrow> 'v async_task_promise \<Rightarrow> 'v async_task_promise" where
  "at_unhandled_exception e p = p\<lparr>at_result := Async_exception e\<rparr>"

definition at_return_value :: "'v \<Rightarrow> 'v async_task_promise \<Rightarrow> 'v async_task_promise" where
  "at_return_value v p = p\<lparr>at_result := Async_value v\<rparr>"

text \<open>\<open>result\<close> for an lvalue and for an rvalue, which differ in the category of what they return.\<close>

definition at_promise_result :: "'v async_task_promise \<Rightarrow> 'v res res" where
  "at_promise_result p =
     (case at_result p of
        Async_exception e \<Rightarrow> Inr (Inl e)
      | Async_value v \<Rightarrow> Inr (Inr v)
      | Async_empty \<Rightarrow> Inl Assert_failed)"

definition at_promise_result_rvalue :: "'v async_task_promise \<Rightarrow> 'v res res" where
  "at_promise_result_rvalue p =
     (case at_result p of
        Async_exception e \<Rightarrow> Inr (Inl e)
      | Async_value v \<Rightarrow> Inr (Inr v)
      | Async_empty \<Rightarrow> Inl Assert_failed)"

text \<open>The destructor ends the lifetime of what the union holds.\<close>

definition async_task_promise_delete :: "'v async_task_promise \<Rightarrow> 'v async_task_promise" where
  "async_task_promise_delete p =
     (case at_result p of
        Async_value v \<Rightarrow> p\<lparr>at_result := Async_empty\<rparr>
      | Async_exception e \<Rightarrow> p\<lparr>at_result := Async_empty\<rparr>
      | Async_empty \<Rightarrow> p)"

record async_void_promise =
  av_exception :: "fault option"

definition async_void_promise_new :: async_void_promise where
  "async_void_promise_new = \<lparr>av_exception = None\<rparr>"

definition av_return_void :: "async_void_promise \<Rightarrow> async_void_promise" where
  "av_return_void p = p"

definition av_unhandled_exception :: "fault \<Rightarrow> async_void_promise \<Rightarrow> async_void_promise" where
  "av_unhandled_exception e p = p\<lparr>av_exception := Some e\<rparr>"

definition av_promise_result :: "async_void_promise \<Rightarrow> unit res" where
  "av_promise_result p = (case av_exception p of Some e \<Rightarrow> Inl e | None \<Rightarrow> Inr ())"

record async_ref_promise =
  ar_value :: nat
  ar_exception :: "fault option"

definition async_ref_promise_new :: async_ref_promise where
  "async_ref_promise_new = \<lparr>ar_value = 0, ar_exception = None\<rparr>"

definition ar_unhandled_exception :: "fault \<Rightarrow> async_ref_promise \<Rightarrow> async_ref_promise" where
  "ar_unhandled_exception e p = p\<lparr>ar_exception := Some e\<rparr>"

definition ar_return_value :: "nat \<Rightarrow> async_ref_promise \<Rightarrow> async_ref_promise" where
  "ar_return_value a p = p\<lparr>ar_value := a\<rparr>"

definition ar_promise_result :: "async_ref_promise \<Rightarrow> nat res res" where
  "ar_promise_result p =
     (case ar_exception p of
        Some e \<Rightarrow> Inr (Inl e)
      | None \<Rightarrow> if ar_value p = 0 then Inl Null_deref else Inr (Inr (ar_value p)))"

interpretation async_outcome: outcome_promise async_task_promise_new "body_ends at_unhandled_exception at_return_value"
  at_promise_result "\<lambda>_. True"
  by unfold_locales
    (auto simp: body_ends_def at_promise_result_def at_unhandled_exception_def at_return_value_def split: sum.splits)

interpretation async_rvalue_outcome: outcome_promise async_task_promise_new
  "body_ends at_unhandled_exception at_return_value" at_promise_result_rvalue "\<lambda>_. True"
  by unfold_locales
    (auto simp: body_ends_def at_promise_result_rvalue_def at_unhandled_exception_def at_return_value_def split: sum.splits)

interpretation async_void_outcome: outcome_promise async_void_promise_new
  "body_ends av_unhandled_exception (\<lambda>_. av_return_void)" "\<lambda>p. Inr (av_promise_result p)" "\<lambda>_. True"
  by unfold_locales
    (auto simp: body_ends_def av_promise_result_def av_unhandled_exception_def av_return_void_def
      async_void_promise_new_def split: sum.splits)

interpretation async_ref_outcome: outcome_promise async_ref_promise_new
  "body_ends ar_unhandled_exception ar_return_value" ar_promise_result "\<lambda>r. r \<noteq> Inr 0"
  by unfold_locales
    (auto simp: body_ends_def ar_promise_result_def ar_unhandled_exception_def ar_return_value_def
      async_ref_promise_new_def split: sum.splits)

section \<open>sync_wait_task\<close>

record sync_void_promise =
  sv_event :: bool
  sv_exception :: "fault option"

definition sync_void_promise_new :: sync_void_promise where
  "sync_void_promise_new = \<lparr>sv_event = False, sv_exception = None\<rparr>"

definition sv_start :: "sync_void_promise \<Rightarrow> sync_void_promise" where
  "sv_start p = p\<lparr>sv_event := True\<rparr>"

definition sv_return_void :: "sync_void_promise \<Rightarrow> sync_void_promise" where
  "sv_return_void p = p"

definition sv_unhandled_exception :: "fault \<Rightarrow> sync_void_promise \<Rightarrow> sync_void_promise" where
  "sv_unhandled_exception e p = p\<lparr>sv_exception := Some e\<rparr>"

definition sv_promise_result :: "sync_void_promise \<Rightarrow> unit res" where
  "sv_promise_result p = (case sv_exception p of Some e \<Rightarrow> Inl e | None \<Rightarrow> Inr ())"

interpretation sync_outcome: outcome_promise sync_wait_promise_new make_sync_wait_task sw_promise_result "\<lambda>_. True"
  by unfold_locales
    (auto simp: make_sync_wait_task_def sw_promise_result_def sw_unhandled_exception_def sw_yield_value_def
      sync_wait_promise_new_def split: sum.splits)

interpretation sync_void_outcome: outcome_promise sync_void_promise_new
  "body_ends sv_unhandled_exception (\<lambda>_. sv_return_void)" "\<lambda>p. Inr (sv_promise_result p)" "\<lambda>_. True"
  by unfold_locales
    (auto simp: body_ends_def sv_promise_result_def sv_unhandled_exception_def sv_return_void_def
      sync_void_promise_new_def split: sum.splits)

text \<open>The task object, which owns its coroutine.\<close>

definition sync_wait_task_move :: "handle \<Rightarrow> handle \<times> handle" where
  "sync_wait_task_move t = (t, 0)"

definition sync_wait_task_delete :: "handle \<Rightarrow> (handle \<rightharpoonup> 'p) \<Rightarrow> (handle \<rightharpoonup> 'p) res" where
  "sync_wait_task_delete t F =
     (if t \<noteq> 0 then (case F t of None \<Rightarrow> Inl Undefined_object | Some _ \<Rightarrow> Inr (F(t := None))) else Inr F)"

section \<open>when_all_task\<close>

record when_all_void_promise =
  wv_counter :: bool
  wv_exception :: "fault option"

definition when_all_void_promise_new :: when_all_void_promise where
  "when_all_void_promise_new = \<lparr>wv_counter = False, wv_exception = None\<rparr>"

definition wv_unhandled_exception :: "fault \<Rightarrow> when_all_void_promise \<Rightarrow> when_all_void_promise" where
  "wv_unhandled_exception e p = p\<lparr>wv_exception := Some e\<rparr>"

definition wv_return_void :: "when_all_void_promise \<Rightarrow> when_all_void_promise" where
  "wv_return_void p = p"

definition wv_start :: "when_all_void_promise \<Rightarrow> when_all_void_promise" where
  "wv_start p = p\<lparr>wv_counter := True\<rparr>"

definition wv_promise_result :: "when_all_void_promise \<Rightarrow> unit res" where
  "wv_promise_result p = (case wv_exception p of Some e \<Rightarrow> Inl e | None \<Rightarrow> Inr ())"

definition wv_completion_notifier ::
  "when_all_void_promise \<Rightarrow> when_all_counter \<Rightarrow> (handle option \<times> when_all_counter) res" where
  "wv_completion_notifier p c = (if wv_counter p then notify_awaitable_completed c else Inl Null_deref)"

text \<open>\<open>make_when_all_task\<close> for an operation without a value only awaits it.\<close>

definition make_when_all_void_task :: "unit res \<Rightarrow> when_all_void_promise \<Rightarrow> when_all_void_promise" where
  "make_when_all_void_task r = body_ends wv_unhandled_exception (\<lambda>_. wv_return_void) r"

interpretation when_all_outcome: outcome_promise when_all_promise_new make_when_all_task wa_promise_result "\<lambda>_. True"
  by unfold_locales
    (auto simp: make_when_all_task_def wa_promise_result_def rethrow_if_exception_def wa_unhandled_exception_def
      wa_yield_value_def when_all_promise_new_def split: sum.splits)

interpretation when_all_void_outcome: outcome_promise when_all_void_promise_new
  make_when_all_void_task "\<lambda>p. Inr (wv_promise_result p)" "\<lambda>_. True"
  by unfold_locales
    (auto simp: make_when_all_void_task_def body_ends_def wv_promise_result_def wv_unhandled_exception_def wv_return_void_def
      when_all_void_promise_new_def split: sum.splits)

text \<open>
  \<open>non_void_result\<close>, which gives a \<open>void_value\<close> (the value of \<open>unit\<close>) for a task without a value, and the
  function that \<open>when_all\<close> maps over a vector of such tasks: the first exception is thrown again.
\<close>

definition void_non_void_result :: "when_all_void_promise \<Rightarrow> unit res" where
  "void_non_void_result p = res_bind (wv_promise_result p) (\<lambda>_. Inr ())"

fun when_all_void_resume :: "when_all_void_promise list \<Rightarrow> unit res" where
  "when_all_void_resume [] = Inr ()"
| "when_all_void_resume (p # ps) = res_bind (wv_promise_result p) (\<lambda>_. when_all_void_resume ps)"

text \<open>\<open>when_all\<close> without values is \<open>when_all\<close> with values that are forgotten.\<close>

definition wv_abs :: "when_all_void_promise \<Rightarrow> unit when_all_promise" where
  "wv_abs p = \<lparr>wa_counter = wv_counter p, wa_exception = wv_exception p, wa_result = Some ()\<rparr>"

lemma wv_abs_result: "wa_promise_result (wv_abs p) = Inr (wv_promise_result p)"
  by (auto simp: wa_promise_result_def rethrow_if_exception_def wv_abs_def wv_promise_result_def split: option.splits)

lemma when_all_void_refines:
  "collect_results (map wv_abs ps) = Inr (res_bind (when_all_void_resume ps) (\<lambda>_. Inr (replicate (length ps) ())))"
proof (induction ps)
  case (Cons p ps)
  show ?case
  proof (cases "wv_promise_result p")
    case (Inl e)
    then show ?thesis by (simp add: wv_abs_result)
  next
    case (Inr u)
    then show ?thesis using Cons by (cases "when_all_void_resume ps") (simp_all add: wv_abs_result)
  qed
qed simp

section \<open>Coroutines that only await\<close>

text \<open>\<open>make_task\<close> and \<open>make_async_task\<close>: the body awaits its argument and returns what it gives.\<close>

definition make_task :: "'v body \<Rightarrow> 'v body" where
  "make_task awaitable = Co_await awaitable (\<lambda>r. case r of Inl e \<Rightarrow> Co_throw e | Inr v \<Rightarrow> Co_return v)"

definition make_async_task :: "'v body \<Rightarrow> 'v body" where
  "make_async_task awaitable = Co_await awaitable (\<lambda>r. case r of Inl e \<Rightarrow> Co_throw e | Inr v \<Rightarrow> Co_return v)"

lemma make_task_same: "eval_body (make_task b) es = eval_body b es" "eval_body (make_async_task b) es = eval_body b es"
  by (auto simp: make_task_def make_async_task_def split: option.splits sum.splits)

text \<open>\<open>is_ready\<close> of the two kinds of task; awaiting one that is ready does not suspend, as its comment says.\<close>

definition task_is_ready :: "'v frames \<Rightarrow> handle \<Rightarrow> bool" where
  "task_is_ready F t \<longleftrightarrow> t = 0 \<or> frame_done F t"

definition async_is_ready :: "'v frames \<Rightarrow> handle \<Rightarrow> bool" where
  "async_is_ready F t \<longleftrightarrow> t = 0 \<or> frame_done F t"

lemma async_is_ready_no_suspend: "async_is_ready F t \<Longrightarrow> async_co_await t h F = Inr (False, F)"
  by (auto simp: async_is_ready_def async_co_await_def async_await_ready_def)

lemma async_finish_is_ready: "async_finish t r F = Inr (h, F') \<Longrightarrow> async_is_ready F' t"
  by (auto simp: async_finish_def async_is_ready_def frame_done_def Let_def res_bind_Inr_iff split: option.splits if_splits)

text \<open>\<open>async_scope::spawn\<close> with a function for the result of the work.\<close>

definition spawn_then_end :: "('v \<Rightarrow> unit res) \<Rightarrow> 'v res \<Rightarrow> async_scope \<Rightarrow> (handle option \<times> async_scope) res" where
  "spawn_then_end f r s = spawn_end (res_bind r f) s"

end
