(* ===== verification/When_All_Tuple.thy ===== *)
theory When_All_Tuple
  imports Promises
begin

text \<open>
  \<open>when_all\<close> and \<open>when_all_ready\<close> with several arguments, whose tasks are a tuple (the specialisation of
  \<open>when_all_ready_awaitable\<close> for \<open>std::tuple\<close> in \<^verbatim>\<open>detail/async/when_all_ready_awaitable.hpp\<close>, the overloads in
  \<^verbatim>\<open>when_all_ready.hpp\<close> and \<^verbatim>\<open>when_all.hpp\<close>). The tasks may be of different types, and some without a value.
  A tuple awaitable is simulated by one over a vector, so what \<^verbatim>\<open>When_All\<close> shows of that holds here. What
  differs is the end: the results are the arguments of a call, which C++ evaluates in an order it does
  not fix. The order is therefore an argument.
\<close>

section \<open>Tasks and their tuple\<close>

text \<open>The values of a tuple, all in one type; \<open>Void_value\<close> stands for a task without a value.\<close>

datatype 'v tuple_value = Void_value | Tuple_value 'v

datatype 'v tuple_task = Void_task when_all_void_promise | Value_task "'v tuple_value when_all_promise"

fun tuple_task_start :: "'v tuple_task \<Rightarrow> 'v tuple_task" where
  "tuple_task_start (Void_task p) = Void_task (wv_start p)"
| "tuple_task_start (Value_task p) = Value_task (wa_start p)"

fun make_tuple_task :: "'v tuple_value res \<Rightarrow> 'v tuple_task \<Rightarrow> 'v tuple_task" where
  "make_tuple_task r (Void_task p) = Void_task (make_when_all_void_task (res_bind r (\<lambda>_. Inr ())) p)"
| "make_tuple_task r (Value_task p) = Value_task (make_when_all_task r p)"

fun tuple_completion_notifier ::
  "'v tuple_task \<Rightarrow> when_all_counter \<Rightarrow> (handle option \<times> when_all_counter) res" where
  "tuple_completion_notifier (Void_task p) c = wv_completion_notifier p c"
| "tuple_completion_notifier (Value_task p) c = completion_notifier p c"

fun non_void_result :: "'v tuple_task \<Rightarrow> 'v tuple_value res res" where
  "non_void_result (Void_task p) = Inr (res_bind (void_non_void_result p) (\<lambda>_. Inr Void_value))"
| "non_void_result (Value_task p) = wa_promise_result p"

record 'v when_all_tuple =
  wt_counter :: when_all_counter
  wt_tasks :: "'v tuple_task list"

text \<open>\<open>when_all_ready(awaitables...)\<close>; \<open>voids\<close> says which awaitables have no value.\<close>

definition when_all_ready_tuple :: "bool list \<Rightarrow> 'v when_all_tuple" where
  "when_all_ready_tuple voids =
     \<lparr>wt_counter = when_all_counter_new (of_nat (length voids)),
      wt_tasks = map (\<lambda>v. if v then Void_task when_all_void_promise_new else Value_task when_all_promise_new) voids\<rparr>"

definition tuple_completes ::
  "nat \<Rightarrow> 'v tuple_value res \<Rightarrow> 'v when_all_tuple \<Rightarrow> (handle option \<times> 'v when_all_tuple) res" where
  "tuple_completes i r w =
     (if length (wt_tasks w) \<le> i then Inl Out_of_bounds
      else let t = make_tuple_task r (wt_tasks w ! i)
           in res_bind (tuple_completion_notifier t (wt_counter w)) (\<lambda>(h, c).
                Inr (h, \<lparr>wt_counter = c, wt_tasks = (wt_tasks w)[i := t]\<rparr>)))"

text \<open>\<open>start_tasks\<close>: the elements of the initializer list are evaluated from left to right.\<close>

fun tuple_start_tasks ::
  "'v tuple_value res option list \<Rightarrow> nat \<Rightarrow> 'v when_all_tuple \<Rightarrow> (handle list \<times> 'v when_all_tuple) res" where
  "tuple_start_tasks [] i w = Inr ([], w)"
| "tuple_start_tasks (s # ss) i w =
     (if length (wt_tasks w) \<le> i then Inl Out_of_bounds
      else let w = w\<lparr>wt_tasks := (wt_tasks w)[i := tuple_task_start (wt_tasks w ! i)]\<rparr>
           in res_bind (case s of None \<Rightarrow> Inr (None, w) | Some r \<Rightarrow> tuple_completes i r w) (\<lambda>(h, w).
              res_bind (tuple_start_tasks ss (Suc i) w) (\<lambda>(hs, w).
                Inr ((case h of None \<Rightarrow> hs | Some h \<Rightarrow> h # hs), w))))"

text \<open>The empty tuple has a class of its own, without a counter, which is always ready.\<close>

definition wt_is_ready :: "'v when_all_tuple \<Rightarrow> bool" where
  "wt_is_ready w = (if wt_tasks w = [] then True else is_ready (wt_counter w))"

definition wt_try_await ::
  "'v tuple_value res option list \<Rightarrow> handle \<Rightarrow> 'v when_all_tuple \<Rightarrow> (handle list \<times> bool \<times> 'v when_all_tuple) res" where
  "wt_try_await ss awaitingCoroutine w =
     res_bind (tuple_start_tasks ss 0 w) (\<lambda>(hs, w).
       let (b, c) = try_await awaitingCoroutine (wt_counter w)
       in Inr (hs, b, w\<lparr>wt_counter := c\<rparr>))"

text \<open>\<open>operator co_await\<close>: its awaiter asks whether the tuple is ready before it suspends.\<close>

definition wt_co_await ::
  "'v tuple_value res option list \<Rightarrow> handle \<Rightarrow> 'v when_all_tuple \<Rightarrow> (handle list \<times> bool \<times> 'v when_all_tuple) res" where
  "wt_co_await ss awaitingCoroutine w =
     (if wt_is_ready w then Inr ([], False, w) else wt_try_await ss awaitingCoroutine w)"

fun tuple_complete_all ::
  "(nat \<times> 'v tuple_value res) list \<Rightarrow> 'v when_all_tuple \<Rightarrow> (handle list \<times> 'v when_all_tuple) res" where
  "tuple_complete_all [] w = Inr ([], w)"
| "tuple_complete_all ((i, r) # ps) w =
     res_bind (tuple_completes i r w) (\<lambda>(h, w).
     res_bind (tuple_complete_all ps w) (\<lambda>(hs, w).
       Inr ((case h of None \<Rightarrow> hs | Some h \<Rightarrow> h # hs), w)))"

text \<open>
  The function that \<open>when_all\<close> maps over the tuple: the results of the tasks, asked for in the order \<open>is\<close>,
  and then the tuple of them in the order of the arguments.
\<close>

fun tuple_arguments :: "nat list \<Rightarrow> 'v tuple_task list \<Rightarrow> (nat \<rightharpoonup> 'v tuple_value) res res" where
  "tuple_arguments [] ts = Inr (Inr Map.empty)"
| "tuple_arguments (i # is) ts =
     (if length ts \<le> i then Inl Out_of_bounds
      else res_bind (non_void_result (ts ! i)) (\<lambda>r.
        case r of
          Inl e \<Rightarrow> Inr (Inl e)
        | Inr v \<Rightarrow> res_bind (tuple_arguments is ts) (\<lambda>ms. Inr (res_bind ms (\<lambda>m. Inr (m(i \<mapsto> v)))))))"

definition make_tuple :: "nat list \<Rightarrow> 'v tuple_task list \<Rightarrow> 'v tuple_value list res res" where
  "make_tuple is ts =
     res_bind (tuple_arguments is ts) (\<lambda>ms.
       case ms of
         Inl e \<Rightarrow> Inr (Inl e)
       | Inr m \<Rightarrow> (case those (map m [0..<length ts]) of None \<Rightarrow> Inl Undefined_object | Some vs \<Rightarrow> Inr (Inr vs)))"

definition when_all_tuple_resume :: "nat list \<Rightarrow> 'v when_all_tuple \<Rightarrow> 'v tuple_value list res res" where
  "when_all_tuple_resume is w = fmap_await_resume (make_tuple is) (Inr (wt_tasks w))"

section \<open>Simulation by a vector\<close>

fun task_rel :: "'v tuple_task \<Rightarrow> 'v tuple_value when_all_promise \<Rightarrow> bool" where
  "task_rel (Void_task p) q \<longleftrightarrow> wv_counter p = wa_counter q \<and> wv_exception p = wa_exception q"
| "task_rel (Value_task p) q \<longleftrightarrow> p = q"

definition is_void_task :: "'v tuple_task \<Rightarrow> bool" where
  "is_void_task t = (case t of Void_task _ \<Rightarrow> True | Value_task _ \<Rightarrow> False)"

lemma is_void_task_simps [simp]:
  "is_void_task (tuple_task_start t) = is_void_task t" "is_void_task (make_tuple_task r t) = is_void_task t"
  by (cases t; simp add: is_void_task_def)+

definition tuple_rel :: "bool list \<Rightarrow> 'v when_all_tuple \<Rightarrow> 'v tuple_value when_all_ready_awaitable \<Rightarrow> bool" where
  "tuple_rel voids w w' \<longleftrightarrow> wt_counter w = wr_counter w' \<and> list_all2 task_rel (wt_tasks w) (wr_tasks w') \<and>
     map is_void_task (wt_tasks w) = voids"

lemma task_rel_start: "task_rel t q \<Longrightarrow> task_rel (tuple_task_start t) (wa_start q)"
  by (cases t) (auto simp: wv_start_def wa_start_def)

lemma task_rel_make: "task_rel t q \<Longrightarrow> task_rel (make_tuple_task r t) (make_when_all_task r q)"
  by (cases t; cases r)
     (auto simp: make_when_all_void_task_def body_ends_def wv_unhandled_exception_def wv_return_void_def
       make_when_all_task_def wa_unhandled_exception_def wa_yield_value_def)

lemma task_rel_notifier: "task_rel t q \<Longrightarrow> tuple_completion_notifier t c = completion_notifier q c"
  by (cases t) (auto simp: wv_completion_notifier_def completion_notifier_def)

lemma tuple_rel_ready:
  "tuple_rel voids (when_all_ready_tuple voids) (when_all_ready (length voids))"
  by (auto simp: tuple_rel_def when_all_ready_tuple_def when_all_ready_def list_all2_conv_all_nth
    when_all_void_promise_new_def when_all_promise_new_def is_void_task_def intro!: nth_equalityI split: if_splits)

lemma tuple_rel_nth: "tuple_rel voids w w' \<Longrightarrow> i < length (wt_tasks w) \<Longrightarrow> task_rel (wt_tasks w ! i) (wr_tasks w' ! i)"
  by (simp add: tuple_rel_def list_all2_conv_all_nth)

lemma tuple_rel_length: "tuple_rel voids w w' \<Longrightarrow> length (wt_tasks w) = length (wr_tasks w')"
  by (simp add: tuple_rel_def list_all2_conv_all_nth)

lemma tuple_rel_update:
  "tuple_rel voids w w' \<Longrightarrow> i < length (wt_tasks w) \<Longrightarrow> task_rel t q \<Longrightarrow>
    is_void_task t = is_void_task (wt_tasks w ! i) \<Longrightarrow>
    tuple_rel voids \<lparr>wt_counter = c, wt_tasks = (wt_tasks w)[i := t]\<rparr> \<lparr>wr_counter = c, wr_tasks = (wr_tasks w')[i := q]\<rparr>"
  by (auto simp: tuple_rel_def list_all2_update_cong map_update list_update_same_conv)

lemma tuple_completes_sim:
  assumes "tuple_rel voids w w'" and "task_completes i r w' = Inr (h, w1')"
  shows "\<exists>w1. tuple_completes i r w = Inr (h, w1) \<and> tuple_rel voids w1 w1'"
proof -
  have i: "i < length (wr_tasks w')" using assms(2) by (auto simp: task_completes_def split: if_splits)
  then have q: "task_rel (make_tuple_task r (wt_tasks w ! i)) (make_when_all_task r (wr_tasks w' ! i))"
    using tuple_rel_nth [OF assms(1)] tuple_rel_length [OF assms(1)] by (intro task_rel_make) simp
  have c: "wt_counter w = wr_counter w'" using assms(1) by (simp add: tuple_rel_def)
  show ?thesis
    using assms(2) i tuple_rel_length [OF assms(1)] task_rel_notifier [OF q] tuple_rel_update [OF assms(1) _ q] c
    by (cases "completion_notifier (make_when_all_task r (wr_tasks w' ! i)) (wr_counter w')")
       (auto simp: task_completes_def tuple_completes_def Let_def)
qed

lemma tuple_start_sim:
  assumes "tuple_rel voids w w'" and "start_tasks ss i w' = Inr (hs, w1')"
  shows "\<exists>w1. tuple_start_tasks ss i w = Inr (hs, w1) \<and> tuple_rel voids w1 w1'"
  using assms
proof (induction ss arbitrary: i w w' hs)
  case (Cons s ss)
  have i: "i < length (wr_tasks w')" using Cons.prems(2) by (auto split: if_splits)
  let ?w = "w\<lparr>wt_tasks := (wt_tasks w)[i := tuple_task_start (wt_tasks w ! i)]\<rparr>"
    and ?w' = "w'\<lparr>wr_tasks := (wr_tasks w')[i := wa_start (wr_tasks w' ! i)]\<rparr>"
  have rel: "tuple_rel voids ?w ?w'"
    using tuple_rel_update [OF Cons.prems(1) _ task_rel_start [OF tuple_rel_nth [OF Cons.prems(1)]], of i i "wt_counter w"]
      Cons.prems(1) i tuple_rel_length [OF Cons.prems(1)]
    by (simp add: tuple_rel_def)
  obtain h w2' hs' where step: "(case s of None \<Rightarrow> Inr (None, ?w') | Some r \<Rightarrow> task_completes i r ?w') = Inr (h, w2')"
    "start_tasks ss (Suc i) w2' = Inr (hs', w1')" "hs = (case h of None \<Rightarrow> hs' | Some h \<Rightarrow> h # hs')"
    using Cons.prems(2) i by (auto simp: Let_def res_bind_Inr_iff)
  have "\<exists>w2. (case s of None \<Rightarrow> Inr (None, ?w) | Some r \<Rightarrow> tuple_completes i r ?w) = Inr (h, w2) \<and> tuple_rel voids w2 w2'"
    using step(1) rel tuple_completes_sim [OF rel] by (cases s) auto
  then obtain w2 where w2: "(case s of None \<Rightarrow> Inr (None, ?w) | Some r \<Rightarrow> tuple_completes i r ?w) = Inr (h, w2)"
    "tuple_rel voids w2 w2'" by blast
  show ?case using Cons.IH [OF w2(2) step(2)] w2(1) step(3) i tuple_rel_length [OF Cons.prems(1)]
    by (auto simp: Let_def)
qed simp

lemma tuple_try_await_sim:
  assumes "tuple_rel voids w w'" and "wr_try_await ss h w' = Inr (hs, b, w1')"
  shows "\<exists>w1. wt_try_await ss h w = Inr (hs, b, w1) \<and> tuple_rel voids w1 w1'"
proof -
  obtain hs' w2' where st: "start_tasks ss 0 w' = Inr (hs', w2')"
    using assms(2) by (cases "start_tasks ss 0 w'") (auto simp: wr_try_await_def)
  obtain b' c where c: "try_await h (wr_counter w2') = (b', c)" by (cases "try_await h (wr_counter w2')")
  have e: "hs' = hs" "b' = b" "w1' = w2'\<lparr>wr_counter := c\<rparr>" using assms(2) st c by (auto simp: wr_try_await_def)
  obtain w2 where "tuple_start_tasks ss 0 w = Inr (hs, w2)" "tuple_rel voids w2 w2'"
    using tuple_start_sim [OF assms(1) st] e(1) by blast
  then show ?thesis using c e by (auto simp: wt_try_await_def tuple_rel_def)
qed

lemma tuple_complete_all_sim:
  assumes "tuple_rel voids w w'" and "complete_all ps w' = Inr (hs, w1')"
  shows "\<exists>w1. tuple_complete_all ps w = Inr (hs, w1) \<and> tuple_rel voids w1 w1'"
  using assms
proof (induction ps arbitrary: w w' hs)
  case (Cons p ps)
  obtain i r where p: "p = (i, r)" by (cases p)
  obtain h w2' hs' where step: "task_completes i r w' = Inr (h, w2')" "complete_all ps w2' = Inr (hs', w1')"
    "hs = (case h of None \<Rightarrow> hs' | Some h \<Rightarrow> h # hs')"
    using Cons.prems(2) p by (auto simp: res_bind_Inr_iff)
  obtain w2 where w2: "tuple_completes i r w = Inr (h, w2)" "tuple_rel voids w2 w2'"
    using tuple_completes_sim [OF Cons.prems(1) step(1)] by blast
  show ?case using Cons.IH [OF w2(2) step(2)] w2(1) step(3) p by auto
qed simp

section \<open>The results\<close>

text \<open>What an operation may end with: one without a value has no other value than \<open>Void_value\<close>.\<close>

definition outcome_fits :: "bool \<Rightarrow> 'v tuple_value res \<Rightarrow> bool" where
  "outcome_fits is_void r \<longleftrightarrow> (is_void \<longrightarrow> (case r of Inl _ \<Rightarrow> True | Inr v \<Rightarrow> v = Void_value))"

lemma non_void_result_related:
  "task_rel t q \<Longrightarrow> wa_promise_result q = Inr r \<Longrightarrow> outcome_fits (is_void_task t) r \<Longrightarrow> non_void_result t = Inr r"
  by (cases t)
     (auto simp: wa_promise_result_def rethrow_if_exception_def void_non_void_result_def wv_promise_result_def
       outcome_fits_def is_void_task_def split: option.splits sum.splits)

text \<open>
  The arguments of the call: all values when every task has one, otherwise the exception of the task
  that is asked first among those that failed.
\<close>

lemma tuple_arguments_all:
  assumes "\<forall>i \<in> set is. i < length ts \<and> non_void_result (ts ! i) = Inr (rs ! i)"
  shows "tuple_arguments is ts = Inr (case List.find (\<lambda>i. \<exists>e. rs ! i = Inl e) is of
    Some i \<Rightarrow> Inl (projl (rs ! i)) | None \<Rightarrow> Inr (map_of (map (\<lambda>i. (i, projr (rs ! i))) is)))"
  using assms
proof (induction "is")
  case (Cons i "is")
  then show ?case by (cases "rs ! i") (auto split: option.splits)
qed simp

lemma those_map_Some: "those (map (\<lambda>x. Some (f x)) xs) = Some (map f xs)"
  by (induction xs) simp_all

lemma make_tuple_all:
  assumes len: "length ts = length rs" and res: "\<forall>i < length rs. non_void_result (ts ! i) = Inr (rs ! i)"
    and order: "set is = {..<length rs}"
  shows "make_tuple is ts = Inr (case List.find (\<lambda>i. \<exists>e. rs ! i = Inl e) is of
    Some i \<Rightarrow> Inl (projl (rs ! i)) | None \<Rightarrow> Inr (map projr rs))"
proof -
  let ?m = "map_of (map (\<lambda>i. (i, projr (rs ! i))) is)"
  have m: "?m i = Some (projr (rs ! i))" if "i < length rs" for i
    using that order by (simp add: map_of_map_restrict restrict_map_def)
  have "map ?m [0..<length ts] = map (\<lambda>i. Some (projr (rs ! i))) [0..<length rs]" using m len by simp
  also have "those \<dots> = Some (map (\<lambda>i. projr (rs ! i)) [0..<length rs])" by (rule those_map_Some)
  also have "map (\<lambda>i. projr (rs ! i)) [0..<length rs] = map projr rs" by (rule nth_equalityI) simp_all
  finally have "those (map ?m [0..<length ts]) = Some (map projr rs)" .
  then show ?thesis using tuple_arguments_all [of "is" ts rs] assms
    by (auto simp: make_tuple_def split: option.splits)
qed

lemma when_all_tuple_completes:
  fixes rs :: "'v tuple_value res list"
  assumes len: "length rs < 18446744073709551615" "length voids = length rs"
    and fits: "\<forall>i < length rs. outcome_fits (voids ! i) (rs ! i)"
    and later: "set later = {i. i < length rs \<and> \<not> at_once i}" "distinct later"
    and order: "set is = {..<length rs}"
  shows "\<exists>w1 w2. wt_co_await (sync_results at_once rs) h (when_all_ready_tuple voids) = Inr ([], later \<noteq> [], w1) \<and>
    tuple_complete_all (late_results later rs) w1 = Inr (if later = [] then [] else [h], w2) \<and>
    when_all_tuple_resume is w2 = Inr (case List.find (\<lambda>i. \<exists>e. rs ! i = Inl e) is of
      Some i \<Rightarrow> Inl (projl (rs ! i)) | None \<Rightarrow> Inr (map projr rs))"
proof (cases "rs = []")
  case True
  then show ?thesis using len later order
    by (simp add: wt_co_await_def wt_is_ready_def when_all_ready_tuple_def late_results_def when_all_tuple_resume_def
      fmap_await_resume_def make_tuple_def)
next
  case False
  obtain v1 v2 where v: "wr_try_await (sync_results at_once rs) h (when_all_ready (length rs)) = Inr ([], later \<noteq> [], v1)"
    "complete_all (late_results later rs) v1 = Inr (if later = [] then [] else [h], v2)"
    "length (wr_tasks v2) = length rs" "\<forall>i < length rs. wa_promise_result (wr_tasks v2 ! i) = Inr (rs ! i)"
    using when_all_completes [OF len(1) later] by blast
  have "tuple_rel voids (when_all_ready_tuple voids) (when_all_ready (length rs))"
    using tuple_rel_ready [of voids] len(2) by simp
  from tuple_try_await_sim [OF this v(1)] obtain w1 where
    w1: "wt_try_await (sync_results at_once rs) h (when_all_ready_tuple voids) = Inr ([], later \<noteq> [], w1)"
    "tuple_rel voids w1 v1" by blast
  have "\<not> wt_is_ready (when_all_ready_tuple voids :: 'v when_all_tuple)"
    using False len(2) by (auto simp: wt_is_ready_def when_all_ready_tuple_def is_ready_def when_all_counter_new_def)
  with w1(1) have co: "wt_co_await (sync_results at_once rs) h (when_all_ready_tuple voids) = Inr ([], later \<noteq> [], w1)"
    by (simp add: wt_co_await_def)
  from tuple_complete_all_sim [OF w1(2) v(2)] obtain w2 where
    w2: "tuple_complete_all (late_results later rs) w1 = Inr (if later = [] then [] else [h], w2)"
    "tuple_rel voids w2 v2" by blast
  have l: "length (wt_tasks w2) = length rs" using tuple_rel_length [OF w2(2)] v(3) by simp
  have "non_void_result (wt_tasks w2 ! i) = Inr (rs ! i)" if i: "i < length rs" for i
  proof -
    have "is_void_task (wt_tasks w2 ! i) = voids ! i" using w2(2) l i by (auto simp: tuple_rel_def)
    then show ?thesis using non_void_result_related [OF tuple_rel_nth [OF w2(2)]] l i v(4) fits by simp
  qed
  then show ?thesis
    using co w2(1) make_tuple_all [OF l _ order] by (auto simp: when_all_tuple_resume_def fmap_await_resume_def)
qed

end
