(* ===== verification/Endpoint.thy ===== *)
theory Endpoint
  imports Endian Str_Utils
begin

text \<open>
  Socket addresses (\<^verbatim>\<open>include/coring/endpoint.hpp\<close>), which hold a \<open>sockaddr_in\<close>. The port and
  the address are kept in network order, so that the value of the members as integers depends on
  the byte order of the host, which is an argument. \<open>strchr\<close>, \<open>atoi\<close> and \<open>inet_pton\<close> are functions
  of the C library and are modelled as it documents them; the name service behind
  \<open>gethostbyname_r\<close> is an argument.
\<close>

section \<open>Functions of the C library\<close>

text \<open>The characters that \<open>c_str\<close> shows to a C function end at the first zero character.\<close>

definition c_str :: "string \<Rightarrow> string" where
  "c_str s = takeWhile (\<lambda>c. c \<noteq> CHR 0x00) s"

fun strchr :: "string \<Rightarrow> char \<Rightarrow> nat option" where
  "strchr [] c = None"
| "strchr (x # xs) c = (if x = c then Some 0 else map_option Suc (strchr xs c))"

fun strrchr :: "string \<Rightarrow> char \<Rightarrow> nat option" where
  "strrchr [] c = None"
| "strrchr (x # xs) c =
     (case strrchr xs c of Some i \<Rightarrow> Some (Suc i) | None \<Rightarrow> if x = c then Some 0 else None)"

definition is_digit :: "char \<Rightarrow> bool" where
  "is_digit c \<longleftrightarrow> (48 :: nat) \<le> of_char c \<and> (of_char c :: nat) \<le> 57"

definition is_space :: "char \<Rightarrow> bool" where
  "is_space c \<longleftrightarrow> c = CHR '' '' \<or> (9 :: nat) \<le> of_char c \<and> (of_char c :: nat) \<le> 13"

text \<open>\<open>atoi\<close>: white space, a sign and digits; \<open>strtol\<close> stops at the limits of \<open>long\<close>.\<close>

definition atoi :: "string \<Rightarrow> 32 word" where
  "atoi s =
     (let s = dropWhile is_space s;
          neg = (s \<noteq> [] \<and> hd s = CHR ''-'');
          s = (if s \<noteq> [] \<and> hd s \<in> {CHR ''-'', CHR ''+''} then tl s else s);
          v = dec_nat 0 (takeWhile is_digit s)
      in of_int (max LONG_MIN (min LONG_MAX (if neg then - v else v))))"

text \<open>
  \<open>inet_pton (AF_INET, \<dots>)\<close>: four decimal numbers of at most 255 without leading zeros, separated by
  dots. The loop keeps the octets that are complete and the one being read.
\<close>

fun inet_pton_loop :: "nat list \<Rightarrow> nat option \<Rightarrow> string \<Rightarrow> nat list option" where
  "inet_pton_loop octets cur [] =
     (case cur of None \<Rightarrow> None
      | Some n \<Rightarrow> if length octets = 3 then Some (octets @ [n]) else None)"
| "inet_pton_loop octets cur (c # cs) =
     (if is_digit c
      then let d = of_char c - 48
           in (case cur of
                 None \<Rightarrow> if length octets = 4 then None else inet_pton_loop octets (Some d) cs
               | Some n \<Rightarrow> if n = 0 \<or> 255 < n * 10 + d then None
                           else inet_pton_loop octets (Some (n * 10 + d)) cs)
      else if c = CHR ''.'' \<and> cur \<noteq> None
      then if length octets = 3 then None else inet_pton_loop (octets @ [the cur]) None cs
      else None)"

definition inet_pton :: "string \<Rightarrow> char list option" where
  "inet_pton s = map_option (map char_of) (inet_pton_loop [] None (c_str s))"

section \<open>endpoint\<close>

definition AF_INET :: u16 where
  "AF_INET = 2"

record endpoint =
  sin_family :: u16
  sin_port :: u16
  sin_addr :: u32

definition endpoint_len :: nat where
  "endpoint_len = 16"

definition endpoint_of_port :: "byte_order \<Rightarrow> u16 \<Rightarrow> endpoint" where
  "endpoint_of_port order p =
     \<lparr>sin_family = AF_INET, sin_port = host_to_network order p, sin_addr = 0\<rparr>"

definition endpoint_new :: "byte_order \<Rightarrow> string \<Rightarrow> u16 \<Rightarrow> endpoint res" where
  "endpoint_new order ip p =
     (case inet_pton ip of
        None \<Rightarrow> Inl (Runtime_error ''wrong ip address form'')
      | Some bytes \<Rightarrow> Inr \<lparr>sin_family = AF_INET, sin_port = host_to_network order p,
                           sin_addr = load_word order bytes\<rparr>)"

definition endpoint_of_string :: "byte_order \<Rightarrow> string \<Rightarrow> endpoint res" where
  "endpoint_of_string order ip_port =
     (case strchr (c_str ip_port) (CHR '':'') of
        None \<Rightarrow> Inl (Runtime_error ''not a ip_port address'')
      | Some split_ptr \<Rightarrow>
          (let port_num = (ucast (atoi (drop split_ptr (c_str ip_port))) :: u16);
               ip = take split_ptr ip_port
           in case inet_pton ip of
                None \<Rightarrow> Inl (Runtime_error ''wrong ip address form'')
              | Some bytes \<Rightarrow> Inr \<lparr>sin_family = AF_INET, sin_port = host_to_network order port_num,
                                   sin_addr = load_word order bytes\<rparr>))"

text \<open>
  The body of the loops of \<open>address_str\<close> and \<open>to_str\<close>: the \<open>i\<close>-th byte of the address, printed into
  an array of four characters. \<open>>>\<close> on a negative \<open>int\<close> keeps the sign.
\<close>

definition print_octet :: "u32 \<Rightarrow> nat \<Rightarrow> string res" where
  "print_octet ipv4_int i =
     (let pos = i * 8;
          and_v = and ipv4_int (push_bit pos 255);
          s = itoad (drop_bit pos (sint and_v))
      in if length s < 4 then Inr s else Inl Out_of_bounds)"

definition address_str :: "endpoint \<Rightarrow> string res" where
  "address_str e =
     res_bind (print_octet (sin_addr e) 0) (\<lambda>s0.
     res_bind (print_octet (sin_addr e) 1) (\<lambda>s1.
     res_bind (print_octet (sin_addr e) 2) (\<lambda>s2.
     res_bind (print_octet (sin_addr e) 3) (\<lambda>s3.
     Inr (s0 @ ''.'' @ s1 @ ''.'' @ s2 @ ''.'' @ s3)))))"

text \<open>\<open>to_str\<close> writes \<open>':'\<close> to its array and then the port number from the same place on.\<close>

definition to_str :: "byte_order \<Rightarrow> endpoint \<Rightarrow> string res" where
  "to_str order e =
     res_bind (print_octet (sin_addr e) 0) (\<lambda>s0.
     res_bind (print_octet (sin_addr e) 1) (\<lambda>s1.
     res_bind (print_octet (sin_addr e) 2) (\<lambda>s2.
     res_bind (print_octet (sin_addr e) 3) (\<lambda>s3.
       let p = itoad (uint (network_to_host order (sin_port e)))
       in if length p < 10 then Inr (s0 @ ''.'' @ s1 @ ''.'' @ s2 @ ''.'' @ s3 @ p)
          else Inl Out_of_bounds))))"

record hostent =
  h_addrtype :: u16
  h_addr :: "char list"

text \<open>\<open>lookup\<close> stands for \<open>gethostbyname_r\<close>: the host entry, or nothing.\<close>

definition endpoint_resolve ::
  "byte_order \<Rightarrow> (string \<Rightarrow> hostent option) \<Rightarrow> string \<Rightarrow> endpoint \<Rightarrow> (bool \<times> endpoint) res" where
  "endpoint_resolve order lookup hostname out =
     (case lookup hostname of
        None \<Rightarrow> Inr (False, out)
      | Some he \<Rightarrow>
          if \<not> (h_addrtype he = AF_INET \<and> length (h_addr he) = 4) then Inl Assert_failed
          else Inr (True, out\<lparr>sin_family := AF_INET, sin_addr := load_word order (h_addr he)\<rparr>))"

definition set_port :: "u16 \<Rightarrow> endpoint \<Rightarrow> endpoint" where
  "set_port p e = e\<lparr>sin_port := p\<rparr>"

definition from_resolve_port ::
  "byte_order \<Rightarrow> (string \<Rightarrow> hostent option) \<Rightarrow> string \<Rightarrow> u16 \<Rightarrow> endpoint res" where
  "from_resolve_port order lookup hostname p =
     res_bind (endpoint_resolve order lookup hostname (endpoint_of_port order 0)) (\<lambda>(ok, e).
       if \<not> ok then Inl (Runtime_error ''address resolve fails'')
       else Inr (set_port (host_to_network order p) e))"

text \<open>
  Without a port, \<open>host_to_network\<close> is given the literal 80, an \<open>int\<close>: it swaps all four bytes, and
  \<open>set_port\<close> takes the lower two of the result.
\<close>

definition from_resolve ::
  "byte_order \<Rightarrow> (string \<Rightarrow> hostent option) \<Rightarrow> string \<Rightarrow> endpoint res" where
  "from_resolve order lookup hostname =
     res_bind (endpoint_resolve order lookup hostname (endpoint_of_port order 0)) (\<lambda>(ok, e).
       if \<not> ok then Inl (Runtime_error ''address resolve fails'')
       else Inr (set_port (ucast (host_to_network order (80 :: u32))) e))"

definition family :: "endpoint \<Rightarrow> u16" where
  "family e = sin_family e"

definition port :: "endpoint \<Rightarrow> u16" where
  "port e = sin_port e"

section \<open>What is printed is parsed\<close>

definition octet :: "u32 \<Rightarrow> nat \<Rightarrow> nat" where
  "octet x i = unat x div 256 ^ i mod 256"

definition dig :: "nat \<Rightarrow> char" where
  "dig d = char_of (48 + d)"

lemma is_digit_dig: "d < 10 \<Longrightarrow> is_digit (dig d)" "d < 10 \<Longrightarrow> (of_char (dig d) :: nat) = 48 + d"
  by (simp_all add: is_digit_def dig_def)

lemma parse_zero_dig:
  assumes "d < 10"
  shows "str_util_parse_zero (int d) = dig d"
proof -
  have "d \<in> set [0..<10]" using assms by (simp only: set_upt atLeastLessThan_iff) simp
  moreover have "\<forall>d \<in> set [0..<10]. str_util_parse_zero (int d) = dig d"
    by code_simp
  ultimately show ?thesis by blast
qed

lemma itoad_loop_nat:
  "itoad_loop (int n) p =
     (if n < 10 then p @ [dig n] else itoad_loop (int (n div 10)) (p @ [dig (n mod 10)]))"
proof -
  have "int n smod 10 = int (n mod 10)" "int n sdiv 10 = int (n div 10)"
    by (simp_all add: signed_modulo_int_def signed_divide_int_def zdiv_int zmod_int sgn_if
        minus_mult_div_eq_mod minus_div_mult_eq_mod)
  then show ?thesis
    by (subst itoad_loop.simps) (simp add: Let_def parse_zero_dig div_eq_0_iff)
qed

lemma itoad_octet:
  assumes "n < 256"
  shows "itoad (int n) =
    (if n < 10 then [dig n] else if n < 100 then [dig (n div 10), dig (n mod 10)]
     else [dig (n div 100), dig (n div 10 mod 10), dig (n mod 10)])"
proof -
  have "n div 10 < 10 \<longleftrightarrow> n < 100" "n div 10 div 10 = n div 100" "n div 100 < 10" using assms by auto
  then show ?thesis
    using itoad_loop_nat [of n "[]"] itoad_loop_nat [of "n div 10" "[dig (n mod 10)]"]
      itoad_loop_nat [of "n div 100" "[dig (n mod 10), dig (n div 10 mod 10)]"]
    by (simp add: itoad_def Let_def)
qed

lemma pton_dig:
  assumes "d < 10"
  shows "length octets < 4 \<Longrightarrow> inet_pton_loop octets None (dig d # cs) = inet_pton_loop octets (Some d) cs"
    and "n \<noteq> 0 \<Longrightarrow> n * 10 + d < 256 \<Longrightarrow>
      inet_pton_loop octets (Some n) (dig d # cs) = inet_pton_loop octets (Some (n * 10 + d)) cs"
  using assms by (simp_all add: is_digit_dig)

lemma pton_octet:
  assumes "n < 256" and "length octets < 4"
  shows "inet_pton_loop octets None (itoad (int n) @ cs) = inet_pton_loop octets (Some n) cs"
proof -
  consider "n < 10" | "10 \<le> n" "n < 100" | "100 \<le> n" by linarith
  then show ?thesis
  proof cases
    case 1
    then show ?thesis using assms by (simp add: itoad_octet pton_dig del: inet_pton_loop.simps)
  next
    case 2
    have "n div 10 < 10" "n div 10 \<noteq> 0" using 2 by auto
    moreover have "n div 10 * 10 + n mod 10 = n" by simp
    ultimately show ?thesis
      using assms 2 by (simp add: itoad_octet pton_dig del: inet_pton_loop.simps)
  next
    case 3
    have d: "n div 100 < 10" "n div 100 \<noteq> 0" "n div 10 mod 10 < 10" "n mod 10 < 10" "n div 10 \<noteq> 0"
      using 3 assms by auto
    have e: "n div 100 * 10 + n div 10 mod 10 = n div 10"
      using div_mult_mod_eq [of "n div 10" 10] by (simp add: div_mult2_eq [symmetric])
    have f: "n div 10 * 10 + n mod 10 = n" by simp
    have g: "n div 10 < 256" using assms by linarith
    have "itoad (int n) = [dig (n div 100), dig (n div 10 mod 10), dig (n mod 10)]"
      using assms 3 by (simp add: itoad_octet)
    then show ?thesis
      using pton_dig(1) [OF d(1) assms(2), of "dig (n div 10 mod 10) # dig (n mod 10) # cs"]
        pton_dig(2) [OF d(3) d(2), of octets "dig (n mod 10) # cs"]
        pton_dig(2) [OF d(4) d(5), of octets cs] assms(1) e f g
      by (simp del: inet_pton_loop.simps)
  qed
qed

text \<open>
  The bytes of the address, as the loop takes them. The topmost is read with its sign, so that from
  128 on it is printed as a negative number.
\<close>

lemma and_push_byte:
  assumes "i < 4"
  shows "uint (and x (push_bit (8 * i) 255) :: u32) = int (octet x i * 256 ^ i)"
proof -
  have m: "(255 :: u32) = mask 8" by (simp add: mask_eq_exp_minus_1)
  have "uint (and x (push_bit (8 * i) (mask 8)) :: u32) =
      push_bit (8 * i) (take_bit 8 (drop_bit (8 * i) (uint x)))"
    by (rule bit_eqI)
      (use assms in \<open>auto simp: bit_simps\<close>)
  then have "uint (and x (push_bit (8 * i) 255) :: u32) = (uint x div 256 ^ i mod 256) * 256 ^ i"
    by (simp only: m push_bit_eq_mult take_bit_eq_mod drop_bit_eq_div power_mult) simp
  then show ?thesis by (simp add: octet_def zdiv_int zmod_int)
qed

lemma octet_less [simp]: "octet x i < 256"
  by (simp add: octet_def)

lemma sint_u32: "sint (y :: u32) = (if uint y < 2147483648 then uint y else uint y - 4294967296)"
proof -
  have "sint y = (uint y + 2147483648) mod 4294967296 - 2147483648"
    by (simp add: sint_uint signed_take_bit_eq_take_bit_shift take_bit_eq_mod)
  moreover have "(uint y + 2147483648) mod 4294967296 = uint y + 2147483648 - 4294967296"
    if "\<not> uint y < 2147483648"
    using that uint_lt2p [of y] mod_pos_geq [of 4294967296 "uint y + 2147483648"] by simp
  ultimately show ?thesis by simp
qed

lemma octet_power_less:
  assumes "i < 3 \<or> i = 3 \<and> octet x 3 < 128"
  shows "octet x i * 256 ^ i < 2147483648"
proof -
  have "i \<in> {0, 1, 2} \<or> i = 3 \<and> octet x 3 < 128" using assms by auto
  moreover have "octet x 0 < 256" "octet x 1 < 256" "octet x 2 < 256" by simp_all
  ultimately show ?thesis by (auto simp del: octet_less)
qed

lemma print_octet_ok:
  assumes "i < 3 \<or> i = 3 \<and> octet x 3 < 128"
  shows "print_octet x i = Inr (itoad (int (octet x i)))"
proof -
  have "i < 4" using assms by auto
  then have "sint (and x (push_bit (8 * i) 255) :: u32) = int (octet x i * 256 ^ i)"
    using octet_power_less [OF assms, THEN of_nat_less_iff [where 'a = int, THEN iffD2]]
    by (simp only: sint_u32 and_push_byte of_nat_numeral if_True)
  moreover have "drop_bit (8 * i) (int (octet x i * 256 ^ i)) = int (octet x i)"
    by (simp add: drop_bit_eq_div power_mult)
  moreover have "length (itoad (int (octet x i))) < 4"
    by (simp add: itoad_octet)
  ultimately show ?thesis by (simp add: print_octet_def Let_def mult.commute)
qed

lemma print_octet_negative:
  assumes "128 \<le> octet x 3" and "print_octet x 3 = Inr s"
  shows "CHR ''-'' \<in> set s"
proof -
  have o: "octet x 3 < 256" by simp
  have "sint (and x (push_bit (8 * 3) 255) :: u32) = (int (octet x 3) - 256) * 16777216"
    using assms(1) and_push_byte [of 3 x] by (simp add: sint_u32)
  then have "drop_bit 24 (sint (and x (push_bit 24 255) :: u32)) = int (octet x 3) - 256"
    by (simp add: drop_bit_eq_div)
  then have "s = itoad (int (octet x 3) - 256)"
    using assms(2) by (simp add: print_octet_def Let_def split: if_splits)
  then show ?thesis using o by (simp add: itoad_def Let_def)
qed

lemma pton_loop_rejects:
  "c \<in> set cs \<Longrightarrow> \<not> is_digit c \<Longrightarrow> c \<noteq> CHR ''.'' \<Longrightarrow> inet_pton_loop octets cur cs = None"
  by (induction octets cur cs rule: inet_pton_loop.induct) (auto simp: Let_def split: option.splits)

lemma parse_zero_nonzero:
  assumes "-9 \<le> d" and "d \<le> 9"
  shows "str_util_parse_zero d \<noteq> CHR 0x00"
proof -
  have "d \<in> set [-9..9]" using assms by (simp only: set_upto atLeastAtMost_iff)
  moreover have "\<forall>d \<in> set [-9..9]. str_util_parse_zero d \<noteq> CHR 0x00" by code_simp
  ultimately show ?thesis by blast
qed

lemma itoad_loop_no_zero: "CHR 0x00 \<notin> set p \<Longrightarrow> CHR 0x00 \<notin> set (itoad_loop i p)"
proof (induction i p rule: itoad_loop.induct)
  case (1 i p)
  have "str_util_parse_zero (i smod 10) \<noteq> CHR 0x00" using parse_zero_nonzero smod10_range by blast
  then show ?case using 1 by (subst itoad_loop.simps) (auto simp: Let_def)
qed

lemma itoad_no_zero: "CHR 0x00 \<notin> set (itoad v)"
  by (simp add: itoad_def Let_def itoad_loop_no_zero)

lemma print_octet_no_zero: "print_octet x i = Inr s \<Longrightarrow> CHR 0x00 \<notin> set s"
  by (auto simp: print_octet_def Let_def itoad_no_zero split: if_splits)

lemma c_str_id: "CHR 0x00 \<notin> set s \<Longrightarrow> c_str s = s"
  by (auto simp: c_str_def takeWhile_eq_all_conv)

lemma le_bytes_4:
  "le_bytes 4 n = map char_of [n mod 256, n div 256 mod 256, n div 65536 mod 256, n div 16777216 mod 256]"
proof -
  have "(4 :: nat) = Suc (Suc (Suc (Suc 0)))" by simp
  then show ?thesis by (simp only: le_bytes.simps list.map div_mult2_eq [symmetric]) simp
qed

lemma load_octets:
  "load_word Little (map char_of [octet x 0, octet x 1, octet x 2, octet x 3]) = x"
proof -
  have "map char_of [octet x 0, octet x 1, octet x 2, octet x 3] = le_bytes 4 (unat x)"
    by (simp add: octet_def le_bytes_4)
  moreover have "unat x < 4294967296" using unsigned_less [of x, where 'a = nat] by simp
  ultimately show ?thesis by (simp add: load_word_def le_val_le_bytes)
qed

text \<open>The text of an address below 128 in its last octet is parsed back to the address.\<close>

lemma address_str_parses:
  assumes "octet (sin_addr e) 3 < 128"
  shows "\<exists>s. address_str e = Inr s \<and> endpoint_new Little s p =
    Inr \<lparr>sin_family = AF_INET, sin_port = host_to_network Little p, sin_addr = sin_addr e\<rparr>"
proof -
  let ?o = "octet (sin_addr e)" and ?s = "\<lambda>i. itoad (int (octet (sin_addr e) i))"
  let ?str = "?s 0 @ ''.'' @ ?s 1 @ ''.'' @ ?s 2 @ ''.'' @ ?s 3"
  have str: "address_str e = Inr ?str"
    using assms by (simp add: address_str_def print_octet_ok)
  have "c_str ?str = ?str"
    by (rule c_str_id) (simp add: itoad_no_zero)
  moreover have "inet_pton_loop [] None ?str = Some [?o 0, ?o 1, ?o 2, ?o 3]"
    using pton_octet [of "?o 3" "[?o 0, ?o 1, ?o 2]" "[]"] by (simp add: pton_octet is_digit_def)
  ultimately have "inet_pton ?str = Some (map char_of [?o 0, ?o 1, ?o 2, ?o 3])"
    by (simp add: inet_pton_def)
  then show ?thesis using load_octets [of "sin_addr e"] by (simp add: endpoint_new_def str)
qed

text \<open>That of any other address is not parsed at all.\<close>

lemma address_str_rejected:
  assumes "128 \<le> octet (sin_addr e) 3" and "address_str e = Inr s"
  shows "endpoint_new order s p = Inl (Runtime_error ''wrong ip address form'')"
proof -
  obtain s0 s1 s2 s3 where s: "s = s0 @ ''.'' @ s1 @ ''.'' @ s2 @ ''.'' @ s3"
    and p: "print_octet (sin_addr e) 0 = Inr s0" "print_octet (sin_addr e) 1 = Inr s1"
      "print_octet (sin_addr e) 2 = Inr s2" "print_octet (sin_addr e) 3 = Inr s3"
    using assms(2) by (auto simp: address_str_def res_bind_Inr_iff)
  have "CHR ''-'' \<in> set s" using s print_octet_negative [OF assms(1) p(4)] by simp
  moreover have "CHR 0x00 \<notin> set s" using s p [THEN print_octet_no_zero] by simp
  ultimately have "inet_pton_loop [] None (c_str s) = None"
    by (intro pton_loop_rejects [of "CHR ''-''"]) (simp_all add: c_str_id is_digit_def)
  then show ?thesis by (simp add: endpoint_new_def inet_pton_def)
qed

section \<open>Ports\<close>

text \<open>
  A port that is given as a number is the one of the endpoint. The constructor from a string gives
  \<open>atoi\<close> the text from the colon on, which is not a number, so the port is always zero; and
  \<open>from_resolve\<close> without a port swaps four bytes instead of two.
\<close>

lemma strchr_Some: "strchr s c = Some i \<Longrightarrow> i < length s \<and> drop i s = c # drop (Suc i) s"
  by (induction s arbitrary: i) (auto split: if_splits)

lemma atoi_colon: "atoi (CHR '':'' # s) = 0"
  by (simp add: atoi_def is_space_def is_digit_def LONG_MIN_def LONG_MAX_def)

lemma endpoint_of_string_port: "endpoint_of_string order s = Inr e \<Longrightarrow> sin_port e = host_to_network order 0"
  by (auto simp: endpoint_of_string_def Let_def atoi_colon dest!: strchr_Some split: option.splits)

lemma from_resolve_port_port:
  "from_resolve_port order lookup h p = Inr e \<Longrightarrow> network_to_host order (port e) = p"
  by (auto simp: from_resolve_port_def res_bind_Inr_iff set_port_def port_def network_host_roundtrip
      split: if_splits)

lemma swapped_80: "ucast (host_to_network Little (80 :: u32)) = (0 :: u16)"
  by (simp add: host_to_network_def byte_swap_def le_bytes_4)

lemma from_resolve_little: "from_resolve Little lookup h = Inr e \<Longrightarrow> port e = 0"
  by (auto simp: from_resolve_def res_bind_Inr_iff set_port_def port_def swapped_80 split: if_splits)

lemma to_str_no_colon:
  assumes "to_str order e = Inr s"
  shows "\<exists>a. address_str e = Inr a \<and> s = a @ itoad (uint (network_to_host order (sin_port e)))"
  using assms by (auto simp: to_str_def address_str_def res_bind_Inr_iff Let_def split: if_splits)

end
