(* ===== verification/Stream_Io.thy ===== *)
theory Stream_Io
  imports Buffer
begin

text \<open>
  The coroutines that move bytes between a connection and a buffer
  (\<^verbatim>\<open>include/coring/socket_reader.hpp\<close>, \<^verbatim>\<open>include/coring/socket_writer.hpp\<close>).

  They are templates over the class of the connection and of the buffer, so those are arguments
  here: the \<open>make_room\<close> of the buffer, and the connection's \<open>recv_some\<close> and \<open>send_some\<close>, each with
  and without a time limit. Awaiting one of these is a function of the state \<open>'w\<close> of everything
  outside: \<open>recv_some\<close> gives the result of the call and the bytes that were stored at \<open>back ()\<close>, and
  \<open>send_some\<close> is given the bytes from \<open>front ()\<close> on. No other coroutine uses the buffer meanwhile. A
  loop that never ends is \<open>None\<close>.
\<close>

definition EINTR :: int where
  "EINTR = 4"

definition READ_BUFFER_AT_LEAST_WRITABLE :: size_t where
  "READ_BUFFER_AT_LEAST_WRITABLE = 128"

type_synonym 'w recv_fn = "size_t \<Rightarrow> 'w \<Rightarrow> int \<times> char list \<times> 'w"
type_synonym 'w send_fn = "char list \<Rightarrow> 'w \<Rightarrow> int \<times> 'w"

record ('w, 'd) stream_connection =
  sc_recv_some :: "'w recv_fn"
  sc_recv_some_for :: "'d \<Rightarrow> 'w recv_fn"
  sc_send_some :: "'w send_fn"
  sc_send_some_for :: "'d \<Rightarrow> 'w send_fn"

section \<open>Reading\<close>

text \<open>\<open>co_await sock->recv_some (buffer->back (), buffer->writable ())\<close>, and the checks that follow it.\<close>

definition recv_into :: "'w recv_fn \<Rightarrow> buffer_base \<Rightarrow> 'w \<Rightarrow> (int \<times> buffer_base \<times> 'w) res" where
  "recv_into recv b w =
     (case recv (writable b) w of
        (ret, bytes, w) \<Rightarrow>
          res_bind (mem_write (b_container b) (unat (b_index_write b)) bytes) (\<lambda>m.
          Inr (ret, b\<lparr>b_container := m\<rparr>, w)))"

definition check_recv :: "int \<Rightarrow> unit res" where
  "check_recv ret =
     (if ret = 0 then Inl Eof_error else if ret < 0 then Inl (System_error (- ret)) else Inr ())"

definition read_some_with ::
  "(size_t \<Rightarrow> buffer_base \<Rightarrow> buffer_base res) \<Rightarrow> 'w recv_fn \<Rightarrow> buffer_base \<Rightarrow> 'w \<Rightarrow>
   (int \<times> buffer_base \<times> 'w) res" where
  "read_some_with make_room recv b w =
     res_bind (make_room READ_BUFFER_AT_LEAST_WRITABLE b) (\<lambda>b.
     res_bind (recv_into recv b w) (\<lambda>(ret, b, w).
     res_bind (check_recv ret) (\<lambda>_.
     Inr (ret, has_written (of_int ret) b, w))))"

definition read_some ::
  "('w, 'd) stream_connection \<Rightarrow> (size_t \<Rightarrow> buffer_base \<Rightarrow> buffer_base res) \<Rightarrow> buffer_base \<Rightarrow> 'w \<Rightarrow>
   (int \<times> buffer_base \<times> 'w) res" where
  "read_some sock make_room b w = read_some_with make_room (sc_recv_some sock) b w"

definition read_some_for ::
  "('w, 'd) stream_connection \<Rightarrow> (size_t \<Rightarrow> buffer_base \<Rightarrow> buffer_base res) \<Rightarrow> 'd \<Rightarrow> buffer_base \<Rightarrow> 'w \<Rightarrow>
   (int \<times> buffer_base \<times> 'w) res" where
  "read_some_for sock make_room dur b w = read_some_with make_room (sc_recv_some_for sock dur) b w"

text \<open>\<open>nbytes\<close> is an \<open>int\<close> and is compared with a \<open>size_t\<close>, so that it is converted first.\<close>

partial_function (option) read_certain_loop ::
  "'w recv_fn \<Rightarrow> int \<Rightarrow> buffer_base \<Rightarrow> 'w \<Rightarrow> (buffer_base \<times> 'w) res option" where
  "read_certain_loop recv nbytes b w =
     (if readable b < of_int nbytes
      then ores_bind (Some (recv_into recv b w)) (\<lambda>(ret, b, w).
           ores_bind (Some (check_recv ret)) (\<lambda>_. read_certain_loop recv nbytes b w))
      else Some (Inr (b, w)))"

definition read_certain ::
  "('w, 'd) stream_connection \<Rightarrow> int \<Rightarrow> buffer_base \<Rightarrow> 'w \<Rightarrow> (buffer_base \<times> 'w) res option" where
  "read_certain sock nbytes b w = read_certain_loop (sc_recv_some sock) nbytes b w"

definition read_certain_for ::
  "('w, 'd) stream_connection \<Rightarrow> int \<Rightarrow> 'd \<Rightarrow> buffer_base \<Rightarrow> 'w \<Rightarrow> (buffer_base \<times> 'w) res option" where
  "read_certain_for sock nbytes dur b w = read_certain_loop (sc_recv_some_for sock dur) nbytes b w"

text \<open>
  The functions that read a line differ in the function that looks for its end, \<open>finder\<close>, and in what
  they add to the distance from the front, \<open>extra\<close>. The distance is a \<open>ptrdiff_t\<close>, and the length that
  \<open>co_return\<close> makes of it an \<open>int\<close>.
\<close>

partial_function (option) read_line_loop ::
  "(buffer_base \<Rightarrow> nat option res) \<Rightarrow> int \<Rightarrow> 'w recv_fn \<Rightarrow> nat option \<Rightarrow> buffer_base \<Rightarrow> 'w \<Rightarrow>
   (int \<times> buffer_base \<times> 'w) res option" where
  "read_line_loop finder extra recv eol b w =
     (case eol of
        None \<Rightarrow>
          ores_bind (Some (recv_into recv b w)) (\<lambda>(ret, b, w).
          ores_bind (Some (finder b)) (\<lambda>eol.
          ores_bind (Some (check_recv ret)) (\<lambda>_. read_line_loop finder extra recv eol b w)))
      | Some p \<Rightarrow> Some (Inr (to_int32 (int p - int (unat (b_index_read b)) + extra), b, w)))"

definition read_line_with ::
  "(buffer_base \<Rightarrow> nat option res) \<Rightarrow> int \<Rightarrow> 'w recv_fn \<Rightarrow> buffer_base \<Rightarrow> 'w \<Rightarrow>
   (int \<times> buffer_base \<times> 'w) res option" where
  "read_line_with finder extra recv b w =
     ores_bind (Some (if 0 < readable b then finder b else Inr None)) (\<lambda>eol.
       read_line_loop finder extra recv eol b w)"

definition read_line ::
  "('w, 'd) stream_connection \<Rightarrow> buffer_base \<Rightarrow> 'w \<Rightarrow> (int \<times> buffer_base \<times> 'w) res option" where
  "read_line sock b w = read_line_with find_eol 1 (sc_recv_some sock) b w"

definition read_line_for ::
  "('w, 'd) stream_connection \<Rightarrow> 'd \<Rightarrow> buffer_base \<Rightarrow> 'w \<Rightarrow> (int \<times> buffer_base \<times> 'w) res option" where
  "read_line_for sock dur b w = read_line_with find_eol 1 (sc_recv_some_for sock dur) b w"

definition read_crlf_line ::
  "('w, 'd) stream_connection \<Rightarrow> buffer_base \<Rightarrow> 'w \<Rightarrow> (int \<times> buffer_base \<times> 'w) res option" where
  "read_crlf_line sock b w = read_line_with find_crlf 2 (sc_recv_some sock) b w"

definition read_crlf_line_for ::
  "('w, 'd) stream_connection \<Rightarrow> 'd \<Rightarrow> buffer_base \<Rightarrow> 'w \<Rightarrow> (int \<times> buffer_base \<times> 'w) res option" where
  "read_crlf_line_for sock dur b w = read_line_with find_crlf 1 (sc_recv_some_for sock dur) b w"

section \<open>Writing\<close>

definition send_from :: "'w send_fn \<Rightarrow> buffer_base \<Rightarrow> 'w \<Rightarrow> (int \<times> 'w) res" where
  "send_from send b w = res_bind (readable_view b) (\<lambda>bytes. Inr (send bytes w))"

definition check_send :: "int \<Rightarrow> unit res" where
  "check_send n = (if n < 0 \<and> n \<noteq> - EINTR then Inl (System_error (- n)) else Inr ())"

definition write_some_with ::
  "'w send_fn \<Rightarrow> buffer_base \<Rightarrow> 'w \<Rightarrow> (int \<times> buffer_base \<times> 'w) res" where
  "write_some_with send b w =
     res_bind (send_from send b w) (\<lambda>(n, w).
     res_bind (check_send n) (\<lambda>_.
     res_bind (has_read (of_int n) b) (\<lambda>b.
     Inr (n, b, w))))"

definition write_some ::
  "('w, 'd) stream_connection \<Rightarrow> buffer_base \<Rightarrow> 'w \<Rightarrow> (int \<times> buffer_base \<times> 'w) res" where
  "write_some sock b w = write_some_with (sc_send_some sock) b w"

definition write_some_for ::
  "('w, 'd) stream_connection \<Rightarrow> 'd \<Rightarrow> buffer_base \<Rightarrow> 'w \<Rightarrow> (int \<times> buffer_base \<times> 'w) res" where
  "write_some_for sock dur b w = write_some_with (sc_send_some_for sock dur) b w"

text \<open>One pass of the loops of \<open>write_certain\<close> and \<open>write_all\<close>.\<close>

definition send_chunk ::
  "'w send_fn \<Rightarrow> buffer_base \<Rightarrow> 'w \<Rightarrow> (int \<times> buffer_base \<times> 'w) res" where
  "send_chunk send b w =
     res_bind (send_from send b w) (\<lambda>(n, w).
     res_bind (if n = 0 then Inl Eof_error else Inr ()) (\<lambda>_.
     res_bind (check_send n) (\<lambda>_.
     res_bind (has_read (of_int n) b) (\<lambda>b.
     Inr (n, b, w)))))"

partial_function (option) write_certain_loop ::
  "'w send_fn \<Rightarrow> int \<Rightarrow> buffer_base \<Rightarrow> 'w \<Rightarrow> (buffer_base \<times> 'w) res option" where
  "write_certain_loop send tot b w =
     (if tot \<noteq> 0
      then ores_bind (Some (send_chunk send b w)) (\<lambda>(n, b, w).
           ores_bind (Some (int32_res (tot - n))) (\<lambda>tot. write_certain_loop send tot b w))
      else Some (Inr (b, w)))"

definition write_certain ::
  "('w, 'd) stream_connection \<Rightarrow> int \<Rightarrow> buffer_base \<Rightarrow> 'w \<Rightarrow> (buffer_base \<times> 'w) res option" where
  "write_certain sock nbytes b w = write_certain_loop (sc_send_some sock) nbytes b w"

definition write_certain_for ::
  "('w, 'd) stream_connection \<Rightarrow> int \<Rightarrow> 'd \<Rightarrow> buffer_base \<Rightarrow> 'w \<Rightarrow> (buffer_base \<times> 'w) res option" where
  "write_certain_for sock nbytes dur b w = write_certain_loop (sc_send_some_for sock dur) nbytes b w"

partial_function (option) write_all_loop ::
  "'w send_fn \<Rightarrow> size_t \<Rightarrow> buffer_base \<Rightarrow> 'w \<Rightarrow> (buffer_base \<times> 'w) res option" where
  "write_all_loop send tot b w =
     (if tot \<noteq> 0
      then ores_bind (Some (send_chunk send b w)) (\<lambda>(n, b, w). write_all_loop send (readable b) b w)
      else Some (Inr (b, w)))"

definition write_all ::
  "('w, 'd) stream_connection \<Rightarrow> buffer_base \<Rightarrow> 'w \<Rightarrow> (buffer_base \<times> 'w) res option" where
  "write_all sock b w = write_all_loop (sc_send_some sock) (readable b) b w"

definition write_all_for ::
  "('w, 'd) stream_connection \<Rightarrow> 'd \<Rightarrow> buffer_base \<Rightarrow> 'w \<Rightarrow> (buffer_base \<times> 'w) res option" where
  "write_all_for sock dur b w = write_all_loop (sc_send_some_for sock dur) (readable b) b w"

text \<open>
  The same loop with what it leaves behind when it throws: the bytes of the earlier passes are sent and
  taken out of the buffer, and the failing call has happened too. A caller that catches the exception
  goes on from there.
\<close>

definition send_chunk_run ::
  "'w send_fn \<Rightarrow> buffer_base \<Rightarrow> 'w \<Rightarrow> int res \<times> buffer_base \<times> 'w" where
  "send_chunk_run send b w =
     (case readable_view b of
        Inl e \<Rightarrow> (Inl e, b, w)
      | Inr bytes \<Rightarrow>
          (case send bytes w of
             (n, w) \<Rightarrow>
               (case res_bind (if n = 0 then Inl Eof_error else Inr ()) (\<lambda>_.
                     res_bind (check_send n) (\<lambda>_. has_read (of_int n) b)) of
                  Inl e \<Rightarrow> (Inl e, b, w)
                | Inr b \<Rightarrow> (Inr n, b, w))))"

partial_function (option) write_all_run ::
  "'w send_fn \<Rightarrow> size_t \<Rightarrow> buffer_base \<Rightarrow> 'w \<Rightarrow> (unit res \<times> buffer_base \<times> 'w) option" where
  "write_all_run send tot b w =
     (if tot \<noteq> 0
      then (case send_chunk_run send b w of
              (Inl e, b, w) \<Rightarrow> Some (Inl e, b, w)
            | (Inr n, b, w) \<Rightarrow> write_all_run send (readable b) b w)
      else Some (Inr (), b, w))"

section \<open>What is relied on of the connection\<close>

text \<open>
  A send takes at most the bytes it is given, from their start on, and \<open>sent\<close> are all the bytes taken
  so far; a call that fails takes none. A receive stores as many bytes as it returns, within the
  room there is; \<open>incoming\<close> are the bytes that are still to come.
\<close>

definition send_ok :: "('w \<Rightarrow> char list) \<Rightarrow> 'w send_fn \<Rightarrow> bool" where
  "send_ok sent send \<longleftrightarrow>
     (\<forall>bs w n w'. send bs w = (n, w') \<longrightarrow>
        - 4095 \<le> n \<and> n \<le> int (length bs) \<and> n \<le> 2147483647 \<and> sent w' = sent w @ take (nat n) bs)"

definition recv_ok :: "('w \<Rightarrow> char list) \<Rightarrow> 'w recv_fn \<Rightarrow> bool" where
  "recv_ok incoming recv \<longleftrightarrow>
     (\<forall>room w ret bs w'. recv room w = (ret, bs, w') \<longrightarrow>
        ret \<le> 2147483647 \<and> length bs = nat ret \<and> length bs \<le> unat room \<and> incoming w = bs @ incoming w')"

text \<open>A connection that always takes something.\<close>

definition send_progress :: "'w send_fn \<Rightarrow> bool" where
  "send_progress send \<longleftrightarrow> (\<forall>bs w. bs \<noteq> [] \<longrightarrow> 0 < fst (send bs w))"

lemma send_progressD: "send_progress send \<Longrightarrow> send bs w = (n, w') \<Longrightarrow> n \<le> 0 \<Longrightarrow> bs = []"
  unfolding send_progress_def by (metis fst_conv not_le)

lemma send_okD:
  assumes "send_ok sent send" and "send bs w = (n, w')"
  shows "- 4095 \<le> n" "n \<le> int (length bs)" "n \<le> 2147483647" "sent w' = sent w @ take (nat n) bs"
  using assms unfolding send_ok_def by blast+

lemma recv_okD:
  assumes "recv_ok incoming recv" and "recv room w = (ret, bs, w')"
  shows "ret \<le> 2147483647" "length bs = nat ret" "length bs \<le> unat room" "incoming w = bs @ incoming w'"
  using assms unfolding recv_ok_def by blast+

section \<open>Sending everything\<close>

text \<open>
  How a send without progress ends the loops. An interrupted call is not taken for an error, but its
  result is then given to \<open>has_read\<close>, whose assertion fails.
\<close>

definition send_fault :: "int \<Rightarrow> fault" where
  "send_fault n =
     (if n = 0 then Eof_error else if n = - EINTR then Assert_failed else System_error (- n))"

lemma unat_of_int_u64: "0 \<le> n \<Longrightarrow> n \<le> 2147483647 \<Longrightarrow> unat (of_int n :: u64) = nat n"
  by (simp add: unat_eq_nat_uint uint_word_of_int_eq take_bit_int_eq_self)

lemma send_chunk_sends:
  assumes b: "buf_inv b" and ok: "send_ok sent send" and s: "send (buf_bytes b) w = (n, w')" and n: "0 < n"
  shows "\<exists>b'. send_chunk send b w = Inr (n, b', w') \<and> buf_inv b' \<and> buf_bytes b' = drop (nat n) (buf_bytes b)"
proof -
  note k = send_okD [OF ok s]
  have u: "unat (of_int n :: u64) = nat n" using n k(3) by (simp add: unat_of_int_u64)
  obtain b' where "has_read (of_int n) b = Inr b'" "buf_inv b'" "buf_bytes b' = drop (nat n) (buf_bytes b)"
    using has_read_drops [OF b, of "of_int n"] k(2) n u by (simp add: nat_le_iff) blast
  then show ?thesis
    using s n by (simp add: send_chunk_def send_from_def check_send_def readable_view_bytes [OF b])
qed

lemma send_chunk_fails:
  assumes b: "buf_inv b" and ok: "send_ok sent send" and s: "send (buf_bytes b) w = (n, w')" and n: "n \<le> 0"
  shows "send_chunk send b w = Inl (send_fault n)"
proof (cases "n = - EINTR")
  case True
  have "length (buf_bytes b) < unat (of_int (- 4) :: u64)"
    using length_buf_bytes [OF b] unat_readable [OF b] buf_inv_nat [OF b] b
    by (simp add: buf_inv_def vector_max_size_def) linarith
  then have "has_read (of_int n) b = Inl Assert_failed"
    using True has_read_asserts [OF b] by (simp add: EINTR_def)
  then show ?thesis
    using s True by (simp add: send_chunk_def send_from_def check_send_def readable_view_bytes [OF b]
        send_fault_def EINTR_def)
next
  case False
  then show ?thesis
    using s n by (simp add: send_chunk_def send_from_def check_send_def readable_view_bytes [OF b] send_fault_def)
qed

lemma write_all_loop_complete:
  assumes ok: "send_ok sent send"
  shows "buf_inv b \<Longrightarrow>
    (\<exists>b' w'. write_all_loop send (readable b) b w = Some (Inr (b', w')) \<and> buf_inv b' \<and>
       buf_bytes b' = [] \<and> sent w' = sent w @ buf_bytes b) \<or>
    (\<exists>k w1 n w2. k < length (buf_bytes b) \<and> sent w1 = sent w @ take k (buf_bytes b) \<and>
       send (drop k (buf_bytes b)) w1 = (n, w2) \<and> n \<le> 0 \<and>
       write_all_loop send (readable b) b w = Some (Inl (send_fault n)))"
proof (induction "length (buf_bytes b)" arbitrary: b w rule: less_induct)
  case less
  note b = less.prems
  show ?case
  proof (cases "readable b = 0")
    case True
    then show ?thesis
      using b length_buf_bytes [OF b] by (subst write_all_loop.simps) simp
  next
    case False
    obtain n w' where s: "send (buf_bytes b) w = (n, w')" by fastforce
    have len: "0 < length (buf_bytes b)"
      using False length_buf_bytes [OF b] by (simp add: unat_eq_iff_u64 del: word_neq_0_conv)
    note k = send_okD [OF ok s]
    show ?thesis
    proof (cases "0 < n")
      case True
      obtain b' where b': "send_chunk send b w = Inr (n, b', w')" "buf_inv b'"
        "buf_bytes b' = drop (nat n) (buf_bytes b)"
        using send_chunk_sends [OF b ok s True] by blast
      have step: "write_all_loop send (readable b) b w = write_all_loop send (readable b') b' w'"
        using False b'(1) by (subst write_all_loop.simps) simp
      have "length (buf_bytes b') < length (buf_bytes b)" using b'(3) True len by simp
      from less.hyps [OF this b'(2), of w'] show ?thesis
      proof (elim disjE exE conjE)
        fix b'' w''
        assume "write_all_loop send (readable b') b' w' = Some (Inr (b'', w''))" "buf_inv b''"
          "buf_bytes b'' = []" "sent w'' = sent w' @ buf_bytes b'"
        then show ?thesis using step k(4) b'(3) by (intro disjI1 exI [of _ b''] exI [of _ w'']) simp
      next
        fix j w1 m w2
        assume "j < length (buf_bytes b')" "sent w1 = sent w' @ take j (buf_bytes b')"
          "send (drop j (buf_bytes b')) w1 = (m, w2)" "m \<le> 0"
          "write_all_loop send (readable b') b' w' = Some (Inl (send_fault m))"
        moreover have "take (j + nat n) (buf_bytes b) = take (nat n) (buf_bytes b) @ take j (buf_bytes b')"
          using b'(3) by (simp add: add.commute [of j] take_add)
        ultimately show ?thesis
          using step k(4) b'(3)
          by - (rule disjI2, rule exI [of _ "j + nat n"], rule exI [of _ w1], rule exI [of _ m],
              rule exI [of _ w2], simp)
      qed
    next
      case nn: False
      then have "write_all_loop send (readable b) b w = Some (Inl (send_fault n))"
        using False send_chunk_fails [OF b ok s] by (subst write_all_loop.simps) simp
      then show ?thesis
        using len s nn
        by - (rule disjI2, rule exI [of _ 0], rule exI [of _ w], rule exI [of _ n], rule exI [of _ w'], simp)
    qed
  qed
qed

text \<open>The loop with its effects is the loop, and says what a failing one has done.\<close>

lemma send_chunk_run_eq:
  "send_chunk send b w =
     (case send_chunk_run send b w of (Inl e, b', w') \<Rightarrow> Inl e | (Inr n, b', w') \<Rightarrow> Inr (n, b', w'))"
  by (auto simp: send_chunk_def send_chunk_run_def send_from_def res_bind_def split: sum.splits prod.splits if_splits)

definition run_result :: "unit res \<times> 'b \<times> 'w \<Rightarrow> ('b \<times> 'w) res" where
  "run_result r = (case r of (Inl e, b, w) \<Rightarrow> Inl e | (Inr _, b, w) \<Rightarrow> Inr (b, w))"

lemma write_all_run_complete:
  assumes ok: "send_ok sent send"
  shows "buf_inv b \<Longrightarrow>
    \<exists>r b' w'. write_all_run send (readable b) b w = Some (r, b', w') \<and>
      write_all_loop send (readable b) b w = Some (run_result (r, b', w')) \<and>
      (r = Inr () \<and> buf_inv b' \<and> buf_bytes b' = [] \<and> sent w' = sent w @ buf_bytes b \<or>
       (\<exists>k w1 n. k < length (buf_bytes b) \<and> sent w1 = sent w @ take k (buf_bytes b) \<and> sent w' = sent w1 \<and>
          send (drop k (buf_bytes b)) w1 = (n, w') \<and> n \<le> 0 \<and> r = Inl (send_fault n)))"
proof (induction "length (buf_bytes b)" arbitrary: b w rule: less_induct)
  case less
  note b = less.prems
  show ?case
  proof (cases "readable b = 0")
    case True
    then have "write_all_run send (readable b) b w = Some (Inr (), b, w)"
      "write_all_loop send (readable b) b w = Some (Inr (b, w))"
      by (subst write_all_run.simps write_all_loop.simps, simp)+
    then show ?thesis using True b length_buf_bytes [OF b] by (simp add: run_result_def)
  next
    case False
    obtain n w' where s: "send (buf_bytes b) w = (n, w')" by fastforce
    have len: "0 < length (buf_bytes b)"
      using False length_buf_bytes [OF b] by (simp add: unat_eq_iff_u64 del: word_neq_0_conv)
    note k = send_okD [OF ok s]
    have end_in: "\<exists>b'. send_chunk_run send b w = (y, b', w')" if "y = fst (send_chunk_run send b w)" for y
      using s that
      by (auto simp: send_chunk_run_def readable_view_bytes [OF b] split: sum.splits)
    show ?thesis
    proof (cases "0 < n")
      case True
      obtain b' where b': "send_chunk send b w = Inr (n, b', w')" "buf_inv b'"
        "buf_bytes b' = drop (nat n) (buf_bytes b)"
        using send_chunk_sends [OF b ok s True] by blast
      have run: "send_chunk_run send b w = (Inr n, b', w')"
        using b'(1) unfolding send_chunk_run_eq by (auto split: prod.splits sum.splits)
      have step: "write_all_loop send (readable b) b w = write_all_loop send (readable b') b' w'"
        "write_all_run send (readable b) b w = write_all_run send (readable b') b' w'"
        using False b'(1) run by (subst write_all_loop.simps write_all_run.simps, simp)+
      have "length (buf_bytes b') < length (buf_bytes b)" using b'(3) True len by simp
      from less.hyps [OF this b'(2), of w'] obtain r b'' w'' where
        r: "write_all_run send (readable b') b' w' = Some (r, b'', w'')"
          "write_all_loop send (readable b') b' w' = Some (run_result (r, b'', w''))"
        and o: "r = Inr () \<and> buf_inv b'' \<and> buf_bytes b'' = [] \<and> sent w'' = sent w' @ buf_bytes b' \<or>
          (\<exists>j w1 m. j < length (buf_bytes b') \<and> sent w1 = sent w' @ take j (buf_bytes b') \<and> sent w'' = sent w1 \<and>
            send (drop j (buf_bytes b')) w1 = (m, w'') \<and> m \<le> 0 \<and> r = Inl (send_fault m))" by blast
      from o have "r = Inr () \<and> buf_inv b'' \<and> buf_bytes b'' = [] \<and> sent w'' = sent w @ buf_bytes b \<or>
          (\<exists>j w1 m. j < length (buf_bytes b) \<and> sent w1 = sent w @ take j (buf_bytes b) \<and> sent w'' = sent w1 \<and>
            send (drop j (buf_bytes b)) w1 = (m, w'') \<and> m \<le> 0 \<and> r = Inl (send_fault m))"
      proof (elim disjE exE conjE)
        fix j w1 m
        assume "j < length (buf_bytes b')" "sent w1 = sent w' @ take j (buf_bytes b')" "sent w'' = sent w1"
          "send (drop j (buf_bytes b')) w1 = (m, w'')" "m \<le> 0" "r = Inl (send_fault m)"
        then show ?thesis
          using k(4) b'(3)
          by - (rule disjI2, rule exI [of _ "j + nat n"], rule exI [of _ w1], rule exI [of _ m],
              auto simp: add.commute [of j] take_add)
      qed (use k(4) b'(3) in simp)
      then show ?thesis using r step by auto
    next
      case nn: False
      then have f: "send_chunk send b w = Inl (send_fault n)" using send_chunk_fails [OF b ok s] by simp
      obtain y b' where y: "send_chunk_run send b w = (y, b', w')" using end_in [OF refl] by blast
      then have run: "send_chunk_run send b w = (Inl (send_fault n), b', w')"
        using f unfolding send_chunk_run_eq by (cases y) auto
      have "write_all_run send (readable b) b w = Some (Inl (send_fault n), b', w')"
        "write_all_loop send (readable b) b w = Some (Inl (send_fault n))"
        using False f run by (subst write_all_run.simps write_all_loop.simps, simp)+
      moreover have "sent w' = sent w" using k(4) nn by simp
      ultimately show ?thesis
        using len s nn
        by - (rule exI [of _ "Inl (send_fault n)"], rule exI [of _ b'], rule exI [of _ w'],
            auto simp: run_result_def intro!: exI [of _ 0] exI [of _ w] exI [of _ n])
    qed
  qed
qed

text \<open>What sending does not change, the loop does not change.\<close>

lemma write_all_run_keeps:
  assumes keeps: "\<And>bs w. f (snd (send bs w)) = f w" and "write_all_run send tot b w = Some (r, b', w')"
  shows "f w' = f w"
proof -
  let ?P = "\<lambda>send (tot :: size_t) (b :: buffer_base) w y. (\<forall>bs w. f (snd (send bs w)) = f w) \<longrightarrow> f (snd (snd y)) = f w"
  have "?P send tot b w (r, b', w')"
    using assms(2)
  proof (rule write_all_run.raw_induct [where P = ?P, rotated])
    fix g and send :: "'a send_fn" and tot :: size_t and b :: buffer_base and w and y :: "unit res \<times> buffer_base \<times> 'a"
    assume IH: "\<And>send tot b w y. g send tot b w = Some y \<Longrightarrow> ?P send tot b w y"
      and eq: "(if tot \<noteq> 0
        then (case send_chunk_run send b w of
                (Inl e, b, w) \<Rightarrow> Some (Inl e, b, w)
              | (Inr n, b, w) \<Rightarrow> g send (readable b) b w)
        else Some (Inr (), b, w)) = Some y"
    show "?P send tot b w y"
    proof
      assume k: "\<forall>bs w. f (snd (send bs w)) = f w"
      obtain r1 b1 w1 where c: "send_chunk_run send b w = (r1, b1, w1)" by (metis prod_cases3)
      have "f (snd (send bytes w)) = f w" for bytes using k by blast
      then have "f w1 = f w"
        using c by (auto simp: send_chunk_run_def split: sum.splits prod.splits) (metis snd_conv)+
      then show "f (snd (snd y)) = f w"
        using eq c k IH [of send "readable b1" b1 w1 y] by (cases r1) (auto split: if_splits)
    qed
  qed
  then show ?thesis using keeps by simp
qed

text \<open>
  \<open>write_certain\<close> asks for all readable bytes to be sent, not only for those that are left of its
  \<open>nbytes\<close>. When it returns, exactly \<open>nbytes\<close> were sent; once more than that were taken, its counter is
  negative and it goes on until a send fails, or the counter leaves the range of \<open>int\<close>.
\<close>

lemma write_certain_loop_exact:
  assumes ok: "send_ok sent send"
  shows "buf_inv b \<Longrightarrow> tot \<le> 2147483647 \<Longrightarrow>
    (\<exists>b' w'. write_certain_loop send tot b w = Some (Inr (b', w')) \<and> buf_inv b' \<and>
       0 \<le> tot \<and> tot \<le> int (length (buf_bytes b)) \<and>
       buf_bytes b' = drop (nat tot) (buf_bytes b) \<and> sent w' = sent w @ take (nat tot) (buf_bytes b)) \<or>
    (\<exists>k w1 n w2. k \<le> length (buf_bytes b) \<and> int k \<noteq> tot \<and> sent w1 = sent w @ take k (buf_bytes b) \<and>
       send (drop k (buf_bytes b)) w1 = (n, w2) \<and>
       (n \<le> 0 \<and> write_certain_loop send tot b w = Some (Inl (send_fault n)) \<or>
        0 < n \<and> tot - int k - n < - 2147483648 \<and> write_certain_loop send tot b w = Some (Inl Signed_overflow)))"
proof (induction "length (buf_bytes b)" arbitrary: tot b w rule: less_induct)
  case less
  note b = less.prems(1)
  obtain n w' where s: "send (buf_bytes b) w = (n, w')" by fastforce
  note k = send_okD [OF ok s]
  consider "tot = 0" | "tot \<noteq> 0" "n \<le> 0" | "tot \<noteq> 0" "0 < n" by linarith
  then show ?case
  proof cases
    case 1
    then have "write_certain_loop send tot b w = Some (Inr (b, w))" by (subst write_certain_loop.simps) simp
    then show ?thesis using 1 b by simp
  next
    case 2
    then have "write_certain_loop send tot b w = Some (Inl (send_fault n))"
      using send_chunk_fails [OF b ok s] by (subst write_certain_loop.simps) simp
    then show ?thesis
      using 2 s by - (rule disjI2, rule exI [of _ 0], rule exI [of _ w], rule exI [of _ n], rule exI [of _ w'], simp)
  next
    case 3
    obtain b' where b': "send_chunk send b w = Inr (n, b', w')" "buf_inv b'"
      "buf_bytes b' = drop (nat n) (buf_bytes b)"
      using send_chunk_sends [OF b ok s 3(2)] by blast
    show ?thesis
    proof (cases "int32_res (tot - n)")
      case (Inl e)
      then have "tot - n < - 2147483648" "e = Signed_overflow"
        using less.prems(2) 3(2) by (auto simp: int32_res_def split: if_splits)
      moreover from this Inl have "write_certain_loop send tot b w = Some (Inl Signed_overflow)"
        using 3 b'(1) by (subst write_certain_loop.simps) simp
      ultimately show ?thesis
        using 3 s by - (rule disjI2, rule exI [of _ 0], rule exI [of _ w], rule exI [of _ n], rule exI [of _ w'], simp)
    next
      case (Inr t)
      then have t: "t = tot - n" "t \<le> 2147483647" by (simp_all add: int32_res_def split: if_splits)
      have step: "write_certain_loop send tot b w = write_certain_loop send t b' w'"
        using 3 Inr b'(1) by (subst write_certain_loop.simps) simp
      have "length (buf_bytes b') < length (buf_bytes b)" using b'(3) 3 k(2) by simp
      from less.hyps [OF this b'(2) t(2), of w'] show ?thesis
      proof (elim disjE exE conjE)
        fix b'' w''
        assume r: "write_certain_loop send t b' w' = Some (Inr (b'', w''))" "buf_inv b''" "0 \<le> t"
          "t \<le> int (length (buf_bytes b'))" "buf_bytes b'' = drop (nat t) (buf_bytes b')"
          "sent w'' = sent w' @ take (nat t) (buf_bytes b')"
        have tot: "nat tot = nat n + nat t" using t r(3) 3 by simp
        have "take (nat tot) (buf_bytes b) = take (nat n) (buf_bytes b) @ take (nat t) (buf_bytes b')"
          using b'(3) by (simp add: tot take_add)
        moreover have "drop (nat tot) (buf_bytes b) = drop (nat t) (buf_bytes b')"
          using b'(3) by (simp add: tot add.commute)
        moreover have "tot \<le> int (length (buf_bytes b))" using r(4) b'(3) t k(2) 3 by simp
        ultimately show ?thesis using step r k(4) t 3 by simp
      next
        fix j w1 m w2
        assume r: "j \<le> length (buf_bytes b')" "int j \<noteq> t" "sent w1 = sent w' @ take j (buf_bytes b')"
          "send (drop j (buf_bytes b')) w1 = (m, w2)" "m \<le> 0" "write_certain_loop send t b' w' = Some (Inl (send_fault m))"
        then show ?thesis
          using step k(2,4) b'(3) t(1) 3(2)
          by - (rule disjI2, rule exI [of _ "j + nat n"], rule exI [of _ w1], rule exI [of _ m],
              rule exI [of _ w2], auto simp: add.commute [of j] take_add)
      next
        fix j w1 m w2
        assume r: "j \<le> length (buf_bytes b')" "int j \<noteq> t" "sent w1 = sent w' @ take j (buf_bytes b')"
          "send (drop j (buf_bytes b')) w1 = (m, w2)" "0 < m" "t - int j - m < - 2147483648"
          "write_certain_loop send t b' w' = Some (Inl Signed_overflow)"
        then show ?thesis
          using step k(2,4) b'(3) t(1) 3(2)
          by - (rule disjI2, rule exI [of _ "j + nat n"], rule exI [of _ w1], rule exI [of _ m],
              rule exI [of _ w2], auto simp: add.commute [of j] take_add)
      qed
    qed
  qed
qed

section \<open>Reading\<close>

text \<open>A receive stores its bytes behind the readable ones, which stay as they are.\<close>

lemma recv_into_keeps:
  assumes "buf_inv b" and "recv_into recv b w = Inr (ret, b', w')"
  shows "buf_inv b'" "buf_bytes b' = buf_bytes b" "b_index_read b' = b_index_read b"
    "b_index_write b' = b_index_write b"
  using assms buf_inv_nat [OF assms(1)]
  by (auto simp: recv_into_def mem_write_def buf_inv_def buf_bytes_def take_drop split: prod.splits if_splits)

text \<open>
  The loops of \<open>read_certain\<close> and of the functions that read a line do not tell the buffer about the
  bytes received. So they return only if what they wait for was in the buffer to begin with.
\<close>

lemma read_certain_loop_waits:
  assumes "read_certain_loop recv nbytes b w = Some y"
  shows "buf_inv b \<and> readable b < of_int nbytes \<longrightarrow> (\<exists>e. y = Inl e)"
  using assms
proof (rule read_certain_loop.raw_induct
    [where P = "\<lambda>recv nbytes b w y. buf_inv b \<and> readable b < of_int nbytes \<longrightarrow> (\<exists>e. y = Inl e)", rotated])
  fix f and recv :: "'a recv_fn" and nbytes b w and y :: "(buffer_base \<times> 'a) res"
  assume IH: "\<And>recv nbytes b w y. f recv nbytes b w = Some y \<Longrightarrow>
      buf_inv b \<and> readable b < of_int nbytes \<longrightarrow> (\<exists>e. y = Inl e)"
    and eq: "(if readable b < of_int nbytes
      then ores_bind (Some (recv_into recv b w)) (\<lambda>(ret, b, w).
           ores_bind (Some (check_recv ret)) (\<lambda>_. f recv nbytes b w))
      else Some (Inr (b, w))) = Some y"
  show "buf_inv b \<and> readable b < of_int nbytes \<longrightarrow> (\<exists>e. y = Inl e)"
  proof (intro impI, elim conjE)
    assume b: "buf_inv b" and lt: "readable b < of_int nbytes"
    show "\<exists>e. y = Inl e"
    proof (cases "recv_into recv b w")
      case (Inr rbw)
      obtain ret b' w' where rbw: "rbw = (ret, b', w')" by (cases rbw) auto
      note kept = recv_into_keeps [OF b Inr [unfolded rbw]]
      have "readable b' < of_int nbytes" using kept lt by (simp add: readable_def)
      then show ?thesis
        using IH [of recv nbytes b' w' y] eq Inr rbw lt kept(1) by (cases "check_recv ret") auto
    qed (use eq lt in auto)
  qed
qed

lemma read_certain_loop_result:
  assumes "buf_inv b"
  shows "read_certain_loop recv nbytes b w = Some (Inr (b', w')) \<longleftrightarrow>
    of_int nbytes \<le> readable b \<and> b' = b \<and> w' = w"
proof (cases "readable b < of_int nbytes")
  case True
  then show ?thesis using read_certain_loop_waits [of recv nbytes b w "Inr (b', w')"] assms by auto
next
  case False
  then show ?thesis by (subst read_certain_loop.simps) auto
qed

text \<open>A function that looks for the end of a line sees the readable bytes only.\<close>

definition sees_readable :: "(buffer_base \<Rightarrow> nat option res) \<Rightarrow> bool" where
  "sees_readable finder \<longleftrightarrow>
     (\<forall>b b'. buf_inv b \<and> buf_inv b' \<and> buf_bytes b' = buf_bytes b \<and> b_index_read b' = b_index_read b \<longrightarrow>
        finder b' = finder b) \<and>
     (\<forall>b. buf_inv b \<and> buf_bytes b = [] \<longrightarrow> finder b = Inr None)"

lemma find_eol_bytes:
  "buf_inv b \<Longrightarrow> find_eol b = Inr (map_option ((+) (unat (b_index_read b))) (memchr (CHR 0x0A) (buf_bytes b)))"
  using readable_view_bytes [of b] by (simp add: find_eol_def readable_view_def)

lemma find_crlf_bytes:
  "buf_inv b \<Longrightarrow> find_crlf b =
     Inr (if std_search (take 2 kCRLF) (buf_bytes b) = length (buf_bytes b) then None
          else Some (unat (b_index_read b) + std_search (take 2 kCRLF) (buf_bytes b)))"
  by (simp add: find_crlf_def search_from_front)

lemma sees_readable_finders: "sees_readable find_eol" "sees_readable find_crlf"
proof -
  show "sees_readable find_eol"
    unfolding sees_readable_def by (intro conjI allI impI; elim conjE) (simp_all add: find_eol_bytes)
  show "sees_readable find_crlf"
    unfolding sees_readable_def by (intro conjI allI impI; elim conjE) (simp_all add: find_crlf_bytes)
qed

lemma read_line_loop_waits:
  assumes "read_line_loop finder extra recv eol b w = Some y"
  shows "sees_readable finder \<and> buf_inv b \<and> eol = None \<and> finder b = Inr None \<longrightarrow> (\<exists>e. y = Inl e)"
  using assms
proof (rule read_line_loop.raw_induct
    [where P = "\<lambda>finder extra recv eol b w y.
      sees_readable finder \<and> buf_inv b \<and> eol = None \<and> finder b = Inr None \<longrightarrow> (\<exists>e. y = Inl e)", rotated])
  fix f and finder extra and recv :: "'a recv_fn" and eol b w and y :: "(int \<times> buffer_base \<times> 'a) res"
  assume IH: "\<And>finder extra recv eol b w y. f finder extra recv eol b w = Some y \<Longrightarrow>
      sees_readable finder \<and> buf_inv b \<and> eol = None \<and> finder b = Inr None \<longrightarrow> (\<exists>e. y = Inl e)"
    and eq: "(case eol of
        None \<Rightarrow>
          ores_bind (Some (recv_into recv b w)) (\<lambda>(ret, b, w).
          ores_bind (Some (finder b)) (\<lambda>eol.
          ores_bind (Some (check_recv ret)) (\<lambda>_. f finder extra recv eol b w)))
      | Some p \<Rightarrow> Some (Inr (to_int32 (int p - int (unat (b_index_read b)) + extra), b, w))) = Some y"
  show "sees_readable finder \<and> buf_inv b \<and> eol = None \<and> finder b = Inr None \<longrightarrow> (\<exists>e. y = Inl e)"
  proof (intro impI, elim conjE)
    assume f: "sees_readable finder" "finder b = Inr None" and b: "buf_inv b" and e: "eol = None"
    show "\<exists>e. y = Inl e"
    proof (cases "recv_into recv b w")
      case (Inr rbw)
      obtain ret b' w' where rbw: "rbw = (ret, b', w')" by (cases rbw) auto
      note kept = recv_into_keeps [OF b Inr [unfolded rbw]]
      have "finder b' = Inr None" using f kept b unfolding sees_readable_def by metis
      then show ?thesis
        using IH [of finder extra recv None b' w' y] eq e f(1) Inr rbw kept(1)
        by (cases "check_recv ret") auto
    next
      case (Inl a)
      then have "y = Inl a" using eq e by simp
      then show ?thesis by blast
    qed
  qed
qed

lemma read_line_with_result:
  assumes b: "buf_inv b" and f: "sees_readable finder"
  shows "read_line_with finder extra recv b w = Some (Inr (n, b', w')) \<longleftrightarrow>
    (\<exists>p. finder b = Inr (Some p) \<and> n = to_int32 (int p - int (unat (b_index_read b)) + extra)) \<and> b' = b \<and> w' = w"
proof -
  have "(if 0 < readable b then finder b else Inr None) = finder b"
  proof (cases "0 < readable b")
    case False
    then have "readable b = 0" by (simp only: word_neq_0_conv [symmetric] not_not)
    then have "length (buf_bytes b) = 0" using length_buf_bytes [OF b] by simp
    then have "buf_bytes b = []" by simp
    then show ?thesis using f b False unfolding sees_readable_def by simp
  qed simp
  then have r: "read_line_with finder extra recv b w =
      ores_bind (Some (finder b)) (\<lambda>eol. read_line_loop finder extra recv eol b w)"
    by (simp add: read_line_with_def)
  show ?thesis
  proof (cases "finder b")
    case (Inr eol)
    show ?thesis
    proof (cases eol)
      case None
      then show ?thesis
        using r Inr b f read_line_loop_waits [of finder extra recv None b w "Inr (n, b', w')"]
        by (simp, blast)
    next
      case (Some p)
      then have "read_line_loop finder extra recv eol b w =
          Some (Inr (to_int32 (int p - int (unat (b_index_read b)) + extra), b, w))"
        by (subst read_line_loop.simps) simp
      then show ?thesis using r Inr Some by auto
    qed
  qed (use r in simp)
qed

text \<open>The end of the first line, and its length as long as it is in the range of \<open>int\<close>.\<close>

lemma memchr_Some:
  "memchr c xs = Some i \<Longrightarrow> i < length xs \<and> xs ! i = c \<and> c \<notin> set (take i xs)"
  by (induction xs arbitrary: i) (auto split: if_splits)

lemma find_eol_line:
  assumes "buf_inv b" and "find_eol b = Inr (Some p)" and "length (buf_bytes b) \<le> 2147483647"
  shows "\<exists>i. to_int32 (int p - int (unat (b_index_read b)) + 1) = int i + 1 \<and> i < length (buf_bytes b) \<and>
    buf_bytes b ! i = CHR 0x0A \<and> CHR 0x0A \<notin> set (take i (buf_bytes b))"
proof -
  obtain i where i: "memchr (CHR 0x0A) (buf_bytes b) = Some i" "p = unat (b_index_read b) + i"
    using assms(2) by (auto simp: find_eol_bytes [OF assms(1)])
  note m = memchr_Some [OF i(1)]
  then have "to_int32 (int i + 1) = int i + 1" using assms(3) by (intro to_int32_id) simp_all
  then show ?thesis using m i(2) by (intro exI [of _ i]) simp
qed

section \<open>Buffers to read into\<close>

text \<open>
  What \<open>read_some\<close> relies on of the buffer's \<open>make_room\<close>, as long as nothing was taken out of the
  buffer: it keeps what is in it and gives the room asked for.
\<close>

locale room_buffer =
  fixes make_room :: "size_t \<Rightarrow> buffer_base \<Rightarrow> buffer_base res"
    and fits :: "nat \<Rightarrow> buffer_base \<Rightarrow> bool"
  assumes room: "buf_inv b \<Longrightarrow> buf_compact b \<Longrightarrow> fits (unat n) b \<Longrightarrow>
    \<exists>b'. make_room n b = Inr b' \<and> buf_inv b' \<and> buf_compact b' \<and> buf_bytes b' = buf_bytes b \<and>
      n \<le> writable b'"
begin

lemma read_some_outcome:
  assumes b: "buf_inv b" "buf_compact b" "fits 128 b" and ok: "recv_ok incoming recv"
  shows "\<exists>space ret bs w'. 128 \<le> space \<and> recv space w = (ret, bs, w') \<and>
    incoming w = bs @ incoming w' \<and>
    (if ret = 0 then read_some_with make_room recv b w = Inl Eof_error
     else if ret < 0 then read_some_with make_room recv b w = Inl (System_error (- ret))
     else \<exists>b'. read_some_with make_room recv b w = Inr (ret, b', w') \<and> buf_inv b' \<and> buf_compact b' \<and>
       buf_bytes b' = buf_bytes b @ bs \<and> int (length bs) = ret)"
proof -
  obtain b1 where b1: "make_room 128 b = Inr b1" "buf_inv b1" "buf_compact b1" "buf_bytes b1 = buf_bytes b"
    "128 \<le> writable b1"
    using room [OF b(1,2), of 128] b(3) by auto
  obtain ret bs w' where r: "recv (writable b1) w = (ret, bs, w')" by (metis prod_cases3)
  note k = recv_okD [OF ok r]
  let ?m = "take (unat (b_index_write b1)) (b_container b1) @ bs @ drop (unat (b_index_write b1) + length bs) (b_container b1)"
  have fit: "unat (b_index_write b1) + length bs \<le> length (b_container b1)"
    using k(3) unat_writable [OF b1(2)] buf_inv_nat [OF b1(2)] by simp
  then have into: "recv_into recv b1 w = Inr (ret, b1\<lparr>b_container := ?m\<rparr>, w')"
    by (simp add: recv_into_def r mem_write_def)
  have pos: "\<exists>b'. read_some_with make_room recv b w = Inr (ret, b', w') \<and> buf_inv b' \<and> buf_compact b' \<and>
      buf_bytes b' = buf_bytes b @ bs \<and> int (length bs) = ret" if "0 < ret"
  proof -
    have len: "length bs = unat (of_int ret :: u64)" using that k(1,2) by (simp add: unat_of_int_u64)
    obtain b' where "store_back bs (of_int ret) b1 = Inr b'" "buf_inv b'" "buf_bytes b' = buf_bytes b1 @ bs"
      "b_index_read b' = b_index_read b1"
      using store_back_appends [OF b1(2) len fit] by blast
    moreover from this(1) have "b' = has_written (of_int ret) (b1\<lparr>b_container := ?m\<rparr>)"
      using fit len by (simp add: store_back_def mem_read_def mem_write_def)
    ultimately show ?thesis
      using that k(2) b1 into
      by (simp add: read_some_with_def READ_BUFFER_AT_LEAST_WRITABLE_def check_recv_def buf_compact_def)
  qed
  moreover have "read_some_with make_room recv b w = Inl (if ret = 0 then Eof_error else System_error (- ret))"
    if "\<not> 0 < ret"
    using that b1(1) into by (simp add: read_some_with_def READ_BUFFER_AT_LEAST_WRITABLE_def check_recv_def)
  ultimately show ?thesis
    using b1(5) r k(4)
    by - (rule exI [of _ "writable b1"], rule exI [of _ ret], rule exI [of _ bs], rule exI [of _ w'], auto)
qed

end

interpretation fixed_room: room_buffer fixed_make_room fixed_fits
proof unfold_locales
  fix b and n :: size_t
  assume b: "buf_inv b" "buf_compact b" and fits: "fixed_fits (unat n) b"
  have "fixed_make_room n b = Inr b"
    using fits fixed_make_room_exact [OF b(1), of n] buf_rebase_compact [OF b(2)]
    by (simp add: fixed_fits_def le_diff_conv2 del: diff_is_0_eq)
  moreover have "n \<le> writable b"
    using fits unat_writable [OF b(1)] length_buf_bytes [OF b(1)] unat_readable [OF b(1)] b(2)
    by (simp add: fixed_fits_def word_le_nat_alt buf_compact_def) linarith
  ultimately show "\<exists>b'. fixed_make_room n b = Inr b' \<and> buf_inv b' \<and> buf_compact b' \<and>
      buf_bytes b' = buf_bytes b \<and> n \<le> writable b'"
    using b by simp
qed

interpretation flex_room: room_buffer flex_make_room flex_fits
proof unfold_locales
  fix b and n :: size_t
  assume b: "buf_inv b" "buf_compact b" and fits: "flex_fits (unat n) b"
  let ?b = "buf_grow (length (buf_bytes b) + unat n) b"
  have max: "length (buf_bytes b) + unat n \<le> vector_max_size" using fits by (simp add: flex_fits_def)
  have "flex_make_room n b = Inr ?b"
    using flex_make_room_exact [OF b(1) max] buf_rebase_compact [OF b(2)] by simp
  moreover have g: "buf_inv ?b" "buf_bytes ?b = buf_bytes b" using buf_grow_inv [OF b(1) max] by simp_all
  moreover have "n \<le> writable ?b"
    using unat_writable [OF g(1)] length_buf_bytes [OF b(1)] unat_readable [OF b(1)] b(2)
    by (simp add: word_le_nat_alt buf_compact_def buf_grow_def)
  ultimately show "\<exists>b'. flex_make_room n b = Inr b' \<and> buf_inv b' \<and> buf_compact b' \<and>
      buf_bytes b' = buf_bytes b \<and> n \<le> writable b'"
    using b(2) by (intro exI [of _ ?b]) (simp add: buf_compact_def buf_grow_def)
qed

section \<open>A connection\<close>

text \<open>
  A peer that takes and delivers at most \<open>k\<close> bytes at a time and never fails; the state holds the bytes
  that are still to come and those that were sent.
\<close>

definition mem_send :: "nat \<Rightarrow> (char list \<times> char list) send_fn" where
  "mem_send k bs w = (int (length (take k bs)), (fst w, snd w @ take k bs))"

definition mem_recv :: "nat \<Rightarrow> (char list \<times> char list) recv_fn" where
  "mem_recv k space w =
     (let bs = take (min k (unat space)) (fst w) in (int (length bs), bs, (drop (length bs) (fst w), snd w)))"

definition mem_connection :: "nat \<Rightarrow> (char list \<times> char list, unit) stream_connection" where
  "mem_connection k = \<lparr>sc_recv_some = mem_recv k, sc_recv_some_for = (\<lambda>_. mem_recv k),
     sc_send_some = mem_send k, sc_send_some_for = (\<lambda>_. mem_send k)\<rparr>"

lemma mem_connection_ok:
  assumes "k \<le> 2147483647"
  shows "send_ok snd (sc_send_some (mem_connection k))" "recv_ok fst (sc_recv_some (mem_connection k))"
proof -
  show "send_ok snd (sc_send_some (mem_connection k))"
    using assms by (auto simp: send_ok_def mem_connection_def mem_send_def min_def)
  show "recv_ok fst (sc_recv_some (mem_connection k))"
    using assms by (auto simp: recv_ok_def mem_connection_def mem_recv_def Let_def min_def)
qed

end
