(* ===== verification/Http.thy ===== *)
theory Http
  imports Endpoint Stream_Io "HOL-Library.List_Lexorder" "HOL-Library.Char_ord"
begin

text \<open>
  Requests, their parser and responses of the HTTP server
  (\<^verbatim>\<open>examples/http1/http_request.hpp\<close>, \<^verbatim>\<open>http_context.hpp\<close>, \<^verbatim>\<open>http_response.hpp\<close>). A range of two
  pointers into a buffer is the list of its characters. \<open>std::map\<close> is a list of its entries in the order
  of their keys.
\<close>

section \<open>Containers\<close>

fun map_put :: "string \<Rightarrow> 'v \<Rightarrow> (string \<times> 'v) list \<Rightarrow> (string \<times> 'v) list" where
  "map_put k v [] = [(k, v)]"
| "map_put k v ((k', v') # m) =
     (if k = k' then (k, v) # m else if k < k' then (k, v) # (k', v') # m else (k', v') # map_put k v m)"

definition map_find :: "string \<Rightarrow> (string \<times> 'v) list \<Rightarrow> 'v option" where
  "map_find k m = map_of m k"

text \<open>\<open>std::find\<close>: the position of the first occurrence, or that of the end.\<close>

definition std_find :: "char \<Rightarrow> char list \<Rightarrow> nat" where
  "std_find c s = length (takeWhile (\<lambda>x. x \<noteq> c) s)"

section \<open>HttpRequest\<close>

datatype http_method = kInvalid | kGet | kPost | kHead | kPut | kDelete

datatype http_version = kUnknown | kHttp10 | kHttp11

record http_request =
  rq_method :: http_method
  rq_version :: http_version
  rq_path :: string
  rq_query :: string
  rq_headers :: "(string \<times> string) list"

definition http_request_new :: http_request where
  "http_request_new =
     \<lparr>rq_method = kInvalid, rq_version = kUnknown, rq_path = [], rq_query = [], rq_headers = []\<rparr>"

definition setVersion :: "http_version \<Rightarrow> http_request \<Rightarrow> http_request" where
  "setVersion v rq = rq\<lparr>rq_version := v\<rparr>"

definition getVersion :: "http_request \<Rightarrow> http_version" where
  "getVersion rq = rq_version rq"

definition setMethod :: "string \<Rightarrow> http_request \<Rightarrow> bool \<times> http_request" where
  "setMethod m rq =
     (let rq = rq\<lparr>rq_method :=
            (if m = ''GET'' then kGet
             else if m = ''POST'' then kPost
             else if m = ''HEAD'' then kHead
             else if m = ''PUT'' then kPut
             else if m = ''DELETE'' then kDelete
             else kInvalid)\<rparr>
      in (rq_method rq \<noteq> kInvalid, rq))"

definition methodString :: "http_request \<Rightarrow> string" where
  "methodString rq =
     (case rq_method rq of
        kGet \<Rightarrow> ''GET'' | kPost \<Rightarrow> ''POST'' | kHead \<Rightarrow> ''HEAD'' | kPut \<Rightarrow> ''PUT'' | kDelete \<Rightarrow> ''DELETE''
      | kInvalid \<Rightarrow> ''UNKNOWN'')"

definition setPath :: "string \<Rightarrow> http_request \<Rightarrow> http_request" where
  "setPath s rq = rq\<lparr>rq_path := (if s = ''/'' then ''public/index.html'' else ''public'' @ s)\<rparr>"

definition setQuery :: "string \<Rightarrow> http_request \<Rightarrow> http_request" where
  "setQuery s rq = rq\<lparr>rq_query := s\<rparr>"

definition strip_right :: "string \<Rightarrow> string" where
  "strip_right s = rev (dropWhile is_space (rev s))"

text \<open>\<open>line\<close> is the range from \<open>start\<close> to \<open>end\<close>, \<open>colon\<close> the position of the colon in it.\<close>

definition rq_addHeader :: "string \<Rightarrow> nat \<Rightarrow> http_request \<Rightarrow> http_request" where
  "rq_addHeader line colon rq =
     (let field = take colon line;
          value = strip_right (dropWhile is_space (drop (Suc colon) line))
      in rq\<lparr>rq_headers := map_put field value (rq_headers rq)\<rparr>)"

definition getHeader :: "string \<Rightarrow> http_request \<Rightarrow> string" where
  "getHeader field rq = (case map_find field (rq_headers rq) of None \<Rightarrow> [] | Some v \<Rightarrow> v)"

text \<open>\<open>keepalive\<close> returns whether to close.\<close>

definition keepalive :: "http_request \<Rightarrow> bool" where
  "keepalive rq =
     (let connection = getHeader ''Connection'' rq;
          close = (connection = ''close'' \<or> getVersion rq = kHttp10 \<and> connection \<noteq> ''Keep-Alive'')
      in close)"

section \<open>HttpContext\<close>

datatype parse_state = kExpectRequestLine | kExpectHeaders | kExpectBody | kGotAll

record http_context =
  cx_state :: parse_state
  cx_request :: http_request

definition http_context_new :: http_context where
  "http_context_new = \<lparr>cx_state = kExpectRequestLine, cx_request = http_request_new\<rparr>"

definition gotAll :: "http_context \<Rightarrow> bool" where
  "gotAll cx \<longleftrightarrow> cx_state cx = kGotAll"

definition cx_reset :: "http_context \<Rightarrow> http_context" where
  "cx_reset cx = cx\<lparr>cx_state := kExpectRequestLine, cx_request := http_request_new\<rparr>"

definition http_version_prefix :: string where
  "http_version_prefix = ''HTTP/1.''"

definition processRequestLine :: "string \<Rightarrow> http_request \<Rightarrow> bool \<times> http_request" where
  "processRequestLine line rq =
     (let space = std_find (CHR '' '') line
      in if space = length line then (False, rq)
         else (case setMethod (take space line) rq of
                 (ok, rq) \<Rightarrow>
                   if \<not> ok then (False, rq)
                   else let line = drop (Suc space) line; space = std_find (CHR '' '') line
                        in if space = length line then (False, rq)
                           else let target = take space line;
                                    question = std_find (CHR ''?'') target;
                                    rq = (if question \<noteq> length target
                                          then setQuery (drop question target) (setPath (take question target) rq)
                                          else setPath target rq);
                                    line = drop (Suc space) line
                                in if length line = 8 \<and> take 7 line = http_version_prefix
                                   then if last line = CHR ''1'' then (True, setVersion kHttp11 rq)
                                        else if last line = CHR ''0'' then (True, setVersion kHttp10 rq)
                                        else (False, rq)
                                   else (False, rq)))"

text \<open>
  The loop of \<open>parseRequest\<close>. In the states \<open>kExpectBody\<close> and \<open>kGotAll\<close> it does nothing, forever.
  \<open>line_at\<close> is the range from the front of the buffer to the position \<open>crlf\<close>.
\<close>

definition line_at :: "nat \<Rightarrow> buffer_base \<Rightarrow> string res" where
  "line_at crlf b = mem_read (b_container b) (unat (b_index_read b)) (crlf - unat (b_index_read b))"

definition skip_line :: "nat \<Rightarrow> buffer_base \<Rightarrow> buffer_base res" where
  "skip_line crlf b = has_read (of_nat (crlf + 2 - unat (b_index_read b))) b"

partial_function (option) parse_loop ::
  "http_context \<Rightarrow> buffer_base \<Rightarrow> (bool \<times> http_context \<times> buffer_base) res option" where
  "parse_loop cx b =
     (if cx_state cx = kExpectRequestLine
      then ores_bind (Some (find_crlf b)) (\<lambda>crlf.
             case crlf of
               None \<Rightarrow> Some (Inr (True, cx, b))
             | Some p \<Rightarrow>
                 ores_bind (Some (line_at p b)) (\<lambda>line.
                 case processRequestLine line (cx_request cx) of
                   (ok, rq) \<Rightarrow>
                     let cx = cx\<lparr>cx_request := rq\<rparr>
                     in if ok
                        then ores_bind (Some (skip_line p b)) (\<lambda>b. parse_loop (cx\<lparr>cx_state := kExpectHeaders\<rparr>) b)
                        else Some (Inr (False, cx, b))))
      else if cx_state cx = kExpectHeaders
      then ores_bind (Some (find_crlf b)) (\<lambda>crlf.
             case crlf of
               None \<Rightarrow> Some (Inr (True, cx, b))
             | Some p \<Rightarrow>
                 ores_bind (Some (line_at p b)) (\<lambda>line.
                 let colon = std_find (CHR '':'') line
                 in if colon \<noteq> length line
                    then let cx = cx\<lparr>cx_request := rq_addHeader line colon (cx_request cx)\<rparr>
                         in ores_bind (Some (skip_line p b)) (\<lambda>b. parse_loop cx b)
                    else let cx = cx\<lparr>cx_state := kGotAll\<rparr>
                         in ores_bind (Some (skip_line p b)) (\<lambda>b. Some (Inr (True, cx, b)))))
      else parse_loop cx b)"

definition parseRequest ::
  "http_context \<Rightarrow> buffer_base \<Rightarrow> (bool \<times> http_context \<times> buffer_base) res option" where
  "parseRequest cx b = parse_loop cx b"

section \<open>HttpResponse\<close>

datatype http_status = kStatusUnknown | k200Ok | k301MovedPermanently | k400BadRequest | k404NotFound

fun status_code :: "http_status \<Rightarrow> int" where
  "status_code kStatusUnknown = 0"
| "status_code k200Ok = 200"
| "status_code k301MovedPermanently = 301"
| "status_code k400BadRequest = 400"
| "status_code k404NotFound = 404"

record http_response =
  rs_headers :: "(string \<times> string) list"
  rs_statusCode :: http_status
  rs_statusMessage :: string
  rs_closeConnection :: bool

definition http_response_new :: "bool \<Rightarrow> http_response" where
  "http_response_new close =
     \<lparr>rs_headers = [], rs_statusCode = kStatusUnknown, rs_statusMessage = [], rs_closeConnection = close\<rparr>"

definition setStatusMessage :: "string \<Rightarrow> http_response \<Rightarrow> http_response" where
  "setStatusMessage msg rs = rs\<lparr>rs_statusMessage := msg\<rparr>"

definition setStatusCode :: "http_status \<Rightarrow> http_response \<Rightarrow> http_response" where
  "setStatusCode code rs =
     (let rs = rs\<lparr>rs_statusCode := code\<rparr>
      in case rs_statusCode rs of
           kStatusUnknown \<Rightarrow> rs
         | k200Ok \<Rightarrow> setStatusMessage ''OK'' rs
         | k301MovedPermanently \<Rightarrow> setStatusMessage ''Move Permanently'' rs
         | k400BadRequest \<Rightarrow> setStatusMessage ''Bad Request'' rs
         | k404NotFound \<Rightarrow> setStatusMessage ''Not Found'' rs)"

definition setCloseConnection :: "bool \<Rightarrow> http_response \<Rightarrow> http_response" where
  "setCloseConnection on rs = rs\<lparr>rs_closeConnection := on\<rparr>"

definition rs_addHeader :: "string \<Rightarrow> string \<Rightarrow> http_response \<Rightarrow> http_response" where
  "rs_addHeader k v rs = rs\<lparr>rs_headers := map_put k v (rs_headers rs)\<rparr>"

definition setContentType :: "string \<Rightarrow> http_response \<Rightarrow> http_response" where
  "setContentType t rs = rs_addHeader ''Content-Type'' t rs"

text \<open>\<open>std::to_string\<close> prints the decimal digits.\<close>

definition setContentLength :: "size_t \<Rightarrow> http_response \<Rightarrow> http_response" where
  "setContentLength len rs = rs_addHeader ''Content-Length'' (itoad (uint len)) rs"

text \<open>\<open>tolower\<close> of the C locale, and the two helpers.\<close>

definition tolower :: "char \<Rightarrow> char" where
  "tolower c = (if (65 :: nat) \<le> of_char c \<and> (of_char c :: nat) \<le> 90 then char_of (of_char c + 32 :: nat) else c)"

definition strtolower :: "string \<Rightarrow> string" where
  "strtolower s = map tolower s"

definition get_filename_ext :: "string \<Rightarrow> string" where
  "get_filename_ext filename =
     (case strrchr filename (CHR ''.'') of
        None \<Rightarrow> []
      | Some dot \<Rightarrow> if dot = 0 then [] else drop (Suc dot) filename)"

definition content_types :: "(string \<times> string) list" where
  "content_types =
     [(''jpeg'', ''image/jpeg''), (''png'', ''image/png''), (''jpg'', ''image/jpeg''), (''gif'', ''image/gif''),
      (''htm'', ''text/html''), (''html'', ''text/html''), (''js'', ''application/javascript''),
      (''css'', ''text/css''), (''txt'', ''text/plain''), (''mp4'', ''video/mpeg4'')]"

text \<open>The path is copied into an array of 1024 characters first.\<close>

definition setContentTypeByPath :: "string \<Rightarrow> http_response \<Rightarrow> http_response res" where
  "setContentTypeByPath path rs =
     (let small_case_path = c_str path
      in if 1024 \<le> length small_case_path then Inl Out_of_bounds
         else let file_ext = get_filename_ext (strtolower small_case_path)
              in Inr (case map_of content_types file_ext of None \<Rightarrow> rs | Some t \<Rightarrow> setContentType t rs))"

text \<open>
  The text that the calls of \<open>fmt::format_to\<close> produce, and \<open>appendToBuffer\<close>, which writes it to the
  buffer through a back inserter, one character at a time.
\<close>

definition crlf_text :: string where
  "crlf_text = [CHR 0x0D, CHR 0x0A]"

definition response_text :: "http_response \<Rightarrow> string" where
  "response_text rs =
     ''HTTP/1.0 '' @ itoad (status_code (rs_statusCode rs)) @ '' '' @ rs_statusMessage rs @ crlf_text @
     (if rs_closeConnection rs then ''Connection: close'' else ''Connection: Keep-Alive'') @ crlf_text @
     concat (map (\<lambda>(k, v). k @ '': '' @ v @ crlf_text) (rs_headers rs)) @ crlf_text"

fun back_insert :: "string \<Rightarrow> buffer_base \<Rightarrow> buffer_base res" where
  "back_insert [] b = Inr b"
| "back_insert (c # cs) b = res_bind (flex_push_back_ch c b) (back_insert cs)"

definition appendToBuffer :: "http_response \<Rightarrow> buffer_base \<Rightarrow> buffer_base res" where
  "appendToBuffer rs output = back_insert (response_text rs) output"

section \<open>The parser on sequences of bytes\<close>

text \<open>
  What the parser does, without buffers and positions: it takes lines from the front until the request
  is complete, a line is wrong, or there is no complete line.
\<close>

definition crlf_split :: "string \<Rightarrow> (string \<times> string) option" where
  "crlf_split bs =
     (let i = std_search (take 2 kCRLF) bs
      in if i = length bs then None else Some (take i bs, drop (i + 2) bs))"

lemma crlf_split_length: "crlf_split bs = Some (line, rest) \<Longrightarrow> length rest < length bs"
  using std_search_le [of "take 2 kCRLF" bs] by (auto simp: crlf_split_def Let_def split: if_splits)

function parse_bytes :: "http_context \<Rightarrow> string \<Rightarrow> bool \<times> http_context \<times> string" where
  "parse_bytes cx bs =
     (case crlf_split bs of
        None \<Rightarrow> (True, cx, bs)
      | Some (line, rest) \<Rightarrow>
          if cx_state cx = kExpectRequestLine
          then (case processRequestLine line (cx_request cx) of
                  (ok, rq) \<Rightarrow>
                    if ok then parse_bytes (cx\<lparr>cx_request := rq, cx_state := kExpectHeaders\<rparr>) rest
                    else (False, cx\<lparr>cx_request := rq\<rparr>, bs))
          else (let colon = std_find (CHR '':'') line
                in if colon \<noteq> length line
                   then parse_bytes (cx\<lparr>cx_request := rq_addHeader line colon (cx_request cx)\<rparr>) rest
                   else (True, cx\<lparr>cx_state := kGotAll\<rparr>, rest)))"
  by pat_completeness auto
termination
  by (relation "measure (\<lambda>(cx, bs). length bs)") (auto dest: crlf_split_length)

declare parse_bytes.simps [simp del]

lemma crlf_found:
  assumes b: "buf_inv b" and sp: "crlf_split (buf_bytes b) = Some (line, rest)"
  shows "\<exists>p b'. find_crlf b = Inr (Some p) \<and> line_at p b = Inr line \<and> skip_line p b = Inr b' \<and>
    buf_inv b' \<and> buf_bytes b' = rest"
proof -
  let ?i = "std_search (take 2 kCRLF) (buf_bytes b)"
  have i: "?i < length (buf_bytes b)" "line = take ?i (buf_bytes b)" "rest = drop (?i + 2) (buf_bytes b)"
    using sp std_search_le [of "take 2 kCRLF" "buf_bytes b"]
    by (auto simp: crlf_split_def Let_def le_less split: if_splits)
  have f: "find_crlf b = Inr (Some (unat (b_index_read b) + ?i))"
    using i(1) by (simp add: find_crlf_bytes [OF b])
  from find_crlf_first(2) [OF b f] have i2: "?i + 2 \<le> length (buf_bytes b)" by auto
  note nat = buf_inv_nat [OF b] length_buf_bytes [OF b] unat_readable [OF b]
  have "line_at (unat (b_index_read b) + ?i) b = Inr line"
    using i(2) i2 nat by (simp add: line_at_def mem_read_def buf_bytes_def min_def)
  moreover define n where "n = (of_nat (?i + 2) :: u64)"
  have "?i + 2 < 18446744073709551616"
    using i2 nat b unfolding buf_inv_def vector_max_size_def by linarith
  then have u: "unat n = ?i + 2" unfolding n_def by (rule of_nat_less_u64)
  then have "unat n \<le> length (buf_bytes b)" using i2 by simp
  from has_read_drops [OF b this] obtain b' where b': "has_read n b = Inr b'" "buf_inv b'"
    "buf_bytes b' = rest"
    using i(3) u by auto
  have "skip_line (unat (b_index_read b) + ?i) b = Inr b'"
    using b'(1) unfolding skip_line_def n_def by (simp only: add.assoc diff_add_inverse)
  ultimately show ?thesis using f b'(2,3) by blast
qed

lemma crlf_not_found: "buf_inv b \<Longrightarrow> crlf_split (buf_bytes b) = None \<Longrightarrow> find_crlf b = Inr None"
  by (simp add: find_crlf_bytes crlf_split_def Let_def split: if_splits)

lemma parse_loop_refines:
  "buf_inv b \<Longrightarrow> cx_state cx \<in> {kExpectRequestLine, kExpectHeaders} \<Longrightarrow>
    parse_bytes cx (buf_bytes b) = (ok, cx', rest) \<Longrightarrow>
    \<exists>b'. parse_loop cx b = Some (Inr (ok, cx', b')) \<and> buf_inv b' \<and> buf_bytes b' = rest"
proof (induction "length (buf_bytes b)" arbitrary: cx b rule: less_induct)
  case less
  note b = less.prems(1)
  show ?case
  proof (cases "crlf_split (buf_bytes b)")
    case None
    then have "(ok, cx', rest) = (True, cx, buf_bytes b)"
      using less.prems(3) by (subst (asm) parse_bytes.simps) simp
    moreover have "parse_loop cx b = Some (Inr (True, cx, b))"
      using less.prems(2) crlf_not_found [OF b None] by (subst parse_loop.simps) auto
    ultimately show ?thesis using b by simp
  next
    case (Some lr)
    obtain line rst where lr: "lr = (line, rst)" by fastforce
    obtain p b1 where p: "find_crlf b = Inr (Some p)" "line_at p b = Inr line" "skip_line p b = Inr b1"
      and b1: "buf_inv b1" "buf_bytes b1 = rst"
      using crlf_found [OF b] Some lr by blast
    have len: "length (buf_bytes b1) < length (buf_bytes b)"
      using crlf_split_length Some lr b1(2) by simp
    note IH = less.hyps [OF len b1(1)]
    let ?rq = "snd (processRequestLine line (cx_request cx))" and ?colon = "std_find (CHR '':'') line"
    consider (line) "cx_state cx = kExpectRequestLine" "fst (processRequestLine line (cx_request cx))"
      | (bad) "cx_state cx = kExpectRequestLine" "\<not> fst (processRequestLine line (cx_request cx))"
      | (header) "cx_state cx = kExpectHeaders" "?colon \<noteq> length line"
      | (last) "cx_state cx = kExpectHeaders" "?colon = length line"
      using less.prems(2) by blast
    then show ?thesis
    proof cases
      case line
      let ?cx = "cx\<lparr>cx_request := ?rq, cx_state := kExpectHeaders\<rparr>"
      have "parse_bytes ?cx (buf_bytes b1) = (ok, cx', rest)"
        using less.prems(3) Some lr line b1(2) by (subst (asm) parse_bytes.simps) (simp add: case_prod_beta)
      moreover have "parse_loop cx b = parse_loop ?cx b1"
        using line p by (subst parse_loop.simps) (simp add: case_prod_beta)
      ultimately show ?thesis using IH [of ?cx] by simp
    next
      case bad
      then have "parse_bytes cx (buf_bytes b) = (False, cx\<lparr>cx_request := ?rq\<rparr>, buf_bytes b)"
        using Some lr by (subst parse_bytes.simps) (simp add: case_prod_beta)
      moreover have "parse_loop cx b = Some (Inr (False, cx\<lparr>cx_request := ?rq\<rparr>, b))"
        using bad p by (subst parse_loop.simps) (simp add: case_prod_beta)
      ultimately show ?thesis using b less.prems(3) by simp
    next
      case header
      let ?cx = "cx\<lparr>cx_request := rq_addHeader line ?colon (cx_request cx)\<rparr>"
      have "parse_bytes ?cx (buf_bytes b1) = (ok, cx', rest)"
        using less.prems(3) Some lr header b1(2) by (subst (asm) parse_bytes.simps) (simp add: Let_def)
      moreover have "parse_loop cx b = parse_loop ?cx b1"
        using header p by (subst parse_loop.simps) (simp add: Let_def)
      ultimately show ?thesis using IH [of ?cx] header(1) by simp
    next
      case last
      then have "parse_bytes cx (buf_bytes b) = (True, cx\<lparr>cx_state := kGotAll\<rparr>, rst)"
        using Some lr by (subst parse_bytes.simps) (simp add: Let_def)
      moreover have "parse_loop cx b = Some (Inr (True, cx\<lparr>cx_state := kGotAll\<rparr>, b1))"
        using last p by (subst parse_loop.simps) (simp add: Let_def)
      ultimately show ?thesis using b1 less.prems(3) by simp
    qed
  qed
qed

section \<open>Requests that are written and parsed\<close>

text \<open>The text of a request with a method, a target, the last digit of the version and headers.\<close>

definition header_text :: "string \<times> string \<Rightarrow> string" where
  "header_text kv = fst kv @ '': '' @ snd kv"

definition request_text :: "string \<Rightarrow> string \<Rightarrow> char \<Rightarrow> (string \<times> string) list \<Rightarrow> string" where
  "request_text m target digit hs =
     m @ '' '' @ target @ '' HTTP/1.'' @ [digit] @ crlf_text @
     concat (map (\<lambda>kv. header_text kv @ crlf_text) hs) @ crlf_text"

definition trimmed :: "string \<Rightarrow> bool" where
  "trimmed s \<longleftrightarrow> s = [] \<or> \<not> is_space (hd s) \<and> \<not> is_space (last s)"

definition header_ok :: "string \<times> string \<Rightarrow> bool" where
  "header_ok kv \<longleftrightarrow> CHR '':'' \<notin> set (fst kv) \<and> CHR 0x0D \<notin> set (fst kv) \<and> CHR 0x0D \<notin> set (snd kv) \<and> trimmed (snd kv)"

lemma std_find_append: "c \<notin> set s \<Longrightarrow> std_find c (s @ c # t) = length s"
  by (induction s) (auto simp: std_find_def)

lemma std_find_absent: "c \<notin> set s \<Longrightarrow> std_find c s = length s"
  by (induction s) (auto simp: std_find_def)

lemma std_search_line:
  "CHR 0x0D \<notin> set line \<Longrightarrow> std_search (take 2 kCRLF) (line @ crlf_text @ rest) = length line"
proof (induction line)
  case Nil
  then show ?case by (simp add: crlf_text_def kCRLF_def)
next
  case (Cons c line)
  then show ?case by (simp add: kCRLF_def)
qed

lemma crlf_split_line:
  "CHR 0x0D \<notin> set line \<Longrightarrow> crlf_split (line @ crlf_text @ rest) = Some (line, rest)"
  using std_search_line [of line rest] by (simp add: crlf_split_def Let_def crlf_text_def)

lemma dropWhile_hd: "v = [] \<or> \<not> P (hd v) \<Longrightarrow> dropWhile P v = v"
  by (cases v) auto

lemma strip_trimmed:
  assumes "trimmed v"
  shows "strip_right (dropWhile is_space (CHR '' '' # v)) = v"
proof -
  have "dropWhile is_space v = v" "dropWhile is_space (rev v) = rev v"
    using assms by (auto intro!: dropWhile_hd simp: trimmed_def hd_rev)
  moreover have "is_space (CHR '' '')" by (simp add: is_space_def)
  ultimately show ?thesis by (simp add: strip_right_def)
qed

lemma parse_headers:
  assumes "\<forall>kv \<in> set hs. header_ok kv"
  shows "cx_state cx = kExpectHeaders \<Longrightarrow>
    parse_bytes cx (concat (map (\<lambda>kv. header_text kv @ crlf_text) hs) @ crlf_text @ rest) =
      (True, cx\<lparr>cx_request := cx_request cx\<lparr>rq_headers :=
        fold (\<lambda>kv. map_put (fst kv) (snd kv)) hs (rq_headers (cx_request cx))\<rparr>, cx_state := kGotAll\<rparr>, rest)"
  using assms
proof (induction hs arbitrary: cx)
  case Nil
  then show ?case
    using crlf_split_line [of "[]" rest] by (subst parse_bytes.simps) (simp add: std_find_def)
next
  case (Cons kv hs)
  let ?k = "fst kv" and ?v = "snd kv"
  let ?rest = "concat (map (\<lambda>kv. header_text kv @ crlf_text) hs) @ crlf_text @ rest"
  have ok: "header_ok kv" using Cons.prems(2) by simp
  have split: "crlf_split (header_text kv @ crlf_text @ ?rest) = Some (header_text kv, ?rest)"
    using ok by (intro crlf_split_line) (simp add: header_ok_def header_text_def)
  have colon: "std_find (CHR '':'') (header_text kv) = length ?k"
    using std_find_append [of "CHR '':''" ?k "'' '' @ ?v"] ok by (simp add: header_ok_def header_text_def)
  have add: "rq_addHeader (header_text kv) (length ?k) rq = rq\<lparr>rq_headers := map_put ?k ?v (rq_headers rq)\<rparr>" for rq
    using ok strip_trimmed [of ?v] by (simp add: rq_addHeader_def header_text_def header_ok_def Let_def)
  have "parse_bytes cx (header_text kv @ crlf_text @ ?rest) =
      parse_bytes (cx\<lparr>cx_request := cx_request cx\<lparr>rq_headers := map_put ?k ?v (rq_headers (cx_request cx))\<rparr>\<rparr>) ?rest"
    using Cons.prems(1) split colon by (subst parse_bytes.simps) (simp add: Let_def add, simp add: header_text_def)
  then show ?case using Cons by simp
qed

definition method_of :: "string \<Rightarrow> http_method" where
  "method_of m = rq_method (snd (setMethod m http_request_new))"

text \<open>The path and the query of a target.\<close>

definition target_path :: "string \<Rightarrow> string" where
  "target_path target =
     (let p = takeWhile (\<lambda>c. c \<noteq> CHR ''?'') target in if p = ''/'' then ''public/index.html'' else ''public'' @ p)"

definition target_query :: "string \<Rightarrow> string" where
  "target_query target = dropWhile (\<lambda>c. c \<noteq> CHR ''?'') target"

lemma take_std_find: "take (std_find c s) s = takeWhile (\<lambda>x. x \<noteq> c) s"
  unfolding std_find_def by (metis takeWhile_eq_take)

lemma drop_std_find: "drop (std_find c s) s = dropWhile (\<lambda>x. x \<noteq> c) s"
  unfolding std_find_def by (rule dropWhile_eq_drop [symmetric])

lemma set_target:
  "(if std_find (CHR ''?'') t \<noteq> length t
    then setQuery (drop (std_find (CHR ''?'') t) t) (setPath (take (std_find (CHR ''?'') t) t) rq)
    else setPath t (rq\<lparr>rq_query := []\<rparr>)) = rq\<lparr>rq_path := target_path t, rq_query := target_query t\<rparr>"
proof (cases "std_find (CHR ''?'') t = length t")
  case True
  then have "takeWhile (\<lambda>x. x \<noteq> CHR ''?'') t = t" "dropWhile (\<lambda>x. x \<noteq> CHR ''?'') t = []"
    using take_std_find [of "CHR ''?''" t] drop_std_find [of "CHR ''?''" t] by simp_all
  then have "target_path t = (if t = ''/'' then ''public/index.html'' else ''public'' @ t)" "target_query t = []"
    unfolding target_path_def target_query_def by (simp_all only: Let_def)
  then show ?thesis using True by (cases rq) (simp add: setPath_def)
next
  case False
  then show ?thesis
    by (simp add: take_std_find drop_std_find setPath_def setQuery_def target_path_def target_query_def Let_def)
qed

lemma method_no_space: "method_of m \<noteq> kInvalid \<Longrightarrow> CHR '' '' \<notin> set m \<and> CHR 0x0D \<notin> set m"
  by (auto simp: method_of_def setMethod_def split: if_splits)

lemma processRequestLine_steps:
  assumes "std_find (CHR '' '') line = sp" and "sp \<noteq> length line" and "setMethod (take sp line) rq = (True, rq1)"
    and "drop (Suc sp) line = line2" and "std_find (CHR '' '') line2 = sp2" and "sp2 \<noteq> length line2"
    and "take sp2 line2 = t" and "drop (Suc sp2) line2 = line3" and "length line3 = 8"
    and "take 7 line3 = http_version_prefix"
    and "(if std_find (CHR ''?'') t \<noteq> length t
      then setQuery (drop (std_find (CHR ''?'') t) t) (setPath (take (std_find (CHR ''?'') t) t) rq1)
      else setPath t rq1) = rq2"
  shows "processRequestLine line rq =
    (if last line3 = CHR ''1'' then (True, setVersion kHttp11 rq2)
     else if last line3 = CHR ''0'' then (True, setVersion kHttp10 rq2) else (False, rq2))"
  unfolding processRequestLine_def Let_def assms(1) assms(3) prod.case assms(4) assms(5) assms(7) assms(8) assms(11)
  using assms(2,6,9,10) by simp

lemma request_line_ok:
  assumes m: "method_of m \<noteq> kInvalid" and t: "CHR '' '' \<notin> set target" and d: "digit \<in> {CHR ''0'', CHR ''1''}"
  shows "processRequestLine (m @ '' '' @ target @ '' HTTP/1.'' @ [digit]) http_request_new =
    (True, \<lparr>rq_method = method_of m, rq_version = (if digit = CHR ''1'' then kHttp11 else kHttp10),
       rq_path = target_path target, rq_query = target_query target, rq_headers = []\<rparr>)"
proof -
  let ?v = "''HTTP/1.'' @ [digit]"
  let ?rq = "http_request_new\<lparr>rq_method := method_of m\<rparr>"
  let ?line = "m @ CHR '' '' # target @ CHR '' '' # ?v"
  have s1: "std_find (CHR '' '') ?line = length m"
    using method_no_space [OF m] by (intro std_find_append) simp
  have s2: "std_find (CHR '' '') (target @ CHR '' '' # ?v) = length target"
    using t by (rule std_find_append)
  have mm: "setMethod (take (length m) ?line) http_request_new = (True, ?rq)"
    using m by (simp add: method_of_def setMethod_def Let_def)
  have q: "?rq\<lparr>rq_query := []\<rparr> = ?rq" by (simp add: http_request_new_def)
  have "processRequestLine ?line http_request_new =
    (if last ?v = CHR ''1''
     then (True, setVersion kHttp11 (?rq\<lparr>rq_path := target_path target, rq_query := target_query target\<rparr>))
     else if last ?v = CHR ''0''
     then (True, setVersion kHttp10 (?rq\<lparr>rq_path := target_path target, rq_query := target_query target\<rparr>))
     else (False, ?rq\<lparr>rq_path := target_path target, rq_query := target_query target\<rparr>))"
    by (rule processRequestLine_steps [OF s1 _ mm _ s2 _ _ _ _ _ set_target [of target ?rq, unfolded q]])
      (simp_all add: http_version_prefix_def)
  then show ?thesis using d by (auto simp: setVersion_def http_request_new_def)
qed

lemma map_of_put: "map_of (map_put k v m) = (map_of m)(k \<mapsto> v)"
  by (induction k v m rule: map_put.induct) auto

lemma map_of_puts:
  "map_of (fold (\<lambda>kv. map_put (fst kv) (snd kv)) hs m) k =
     (case map_of (rev hs) k of Some v \<Rightarrow> Some v | None \<Rightarrow> map_of m k)"
proof (induction hs arbitrary: m)
  case (Cons kv hs)
  then show ?case
    by (cases kv) (simp add: map_of_put map_add_def split: option.splits)
qed simp

text \<open>The keys of a \<open>std::map\<close> are in ascending order, each once.\<close>

definition map_sorted :: "(string \<times> 'v) list \<Rightarrow> bool" where
  "map_sorted m \<longleftrightarrow> sorted_wrt (<) (map fst m)"

lemma map_put_keys: "set (map fst (map_put k v m)) = insert k (set (map fst m))"
  by (induction k v m rule: map_put.induct) auto

lemma map_put_sorted: "map_sorted m \<Longrightarrow> map_sorted (map_put k v m)"
proof (induction k v m rule: map_put.induct)
  case (2 k v k' v' m)
  then have m: "\<forall>x \<in> set (map fst m). k' < x" "map_sorted m" by (simp_all add: map_sorted_def)
  consider "k = k'" | "k < k'" | "k' < k" by (metis linorder_neqE)
  then show ?case
  proof cases
    case 3
    then have "map_put k v ((k', v') # m) = (k', v') # map_put k v m" by auto
    moreover have "map_sorted (map_put k v m)" using 2 3 m(2) by auto
    moreover have "\<forall>x \<in> set (map fst (map_put k v m)). k' < x" using m(1) 3 by (simp only: map_put_keys) auto
    ultimately show ?thesis by (simp add: map_sorted_def)
  qed (use m in \<open>auto simp: map_sorted_def\<close>)
qed (simp add: map_sorted_def)

lemma parse_request_text:
  assumes m: "method_of m \<noteq> kInvalid" and t: "CHR '' '' \<notin> set target" "CHR 0x0D \<notin> set target"
    and d: "digit \<in> {CHR ''0'', CHR ''1''}" and hs: "\<forall>kv \<in> set hs. header_ok kv"
  shows "\<exists>rq. parse_bytes http_context_new (request_text m target digit hs @ body) =
      (True, \<lparr>cx_state = kGotAll, cx_request = rq\<rparr>, body) \<and>
    rq_method rq = method_of m \<and> rq_version rq = (if digit = CHR ''1'' then kHttp11 else kHttp10) \<and>
    rq_path rq = target_path target \<and> rq_query rq = target_query target \<and>
    (\<forall>k. getHeader k rq = (case map_of (rev hs) k of None \<Rightarrow> [] | Some v \<Rightarrow> v))"
proof -
  let ?line = "m @ '' '' @ target @ '' HTTP/1.'' @ [digit]"
  let ?rest = "concat (map (\<lambda>kv. header_text kv @ crlf_text) hs) @ crlf_text @ body"
  let ?rq = "\<lparr>rq_method = method_of m, rq_version = (if digit = CHR ''1'' then kHttp11 else kHttp10),
       rq_path = target_path target, rq_query = target_query target, rq_headers = []\<rparr>"
  let ?hs = "fold (\<lambda>kv. map_put (fst kv) (snd kv)) hs []"
  have req: "request_text m target digit hs @ body = ?line @ crlf_text @ ?rest"
    by (simp add: request_text_def)
  have split: "crlf_split (?line @ crlf_text @ ?rest) = Some (?line, ?rest)"
    using method_no_space [OF m] t d by (intro crlf_split_line) auto
  have "parse_bytes http_context_new (?line @ crlf_text @ ?rest) =
      parse_bytes \<lparr>cx_state = kExpectHeaders, cx_request = ?rq\<rparr> ?rest"
    unfolding parse_bytes.simps [of http_context_new] split
    using request_line_ok [OF m t(1) d] by (simp add: http_context_new_def)
  also have "\<dots> = (True, \<lparr>cx_state = kGotAll, cx_request = ?rq\<lparr>rq_headers := ?hs\<rparr>\<rparr>, body)"
    using parse_headers [OF hs, of "\<lparr>cx_state = kExpectHeaders, cx_request = ?rq\<rparr>" body] by simp
  finally show ?thesis
    unfolding req
    by (intro exI [of _ "?rq\<lparr>rq_headers := ?hs\<rparr>"])
      (simp add: getHeader_def map_find_def map_of_puts split: option.splits)
qed

section \<open>Responses\<close>

lemma push_back_ch_string: "flex_push_back_ch c b = flex_push_back_string [c] b"
  by (simp add: push_back_ch_push_back flex_push_back_string_def)

lemma back_insert_appends:
  "buf_inv b \<Longrightarrow> buf_compact b \<Longrightarrow> flex_fits (length cs) b \<Longrightarrow>
    \<exists>b'. back_insert cs b = Inr b' \<and> buf_inv b' \<and> buf_compact b' \<and> buf_bytes b' = buf_bytes b @ cs"
proof (induction cs arbitrary: b)
  case (Cons c cs)
  have fits: "flex_fits (length [c]) b" "flex_fits (length [c] + length cs) b"
    using Cons.prems(3) by (simp_all add: flex_fits_def)
  obtain b1 where b1: "flex_push_back_string [c] b = Inr b1" "buf_inv b1" "buf_compact b1"
    "buf_bytes b1 = buf_bytes b @ [c]" "flex_fits (length cs) b1"
    using flex.push_appends [OF Cons.prems(1,2) fits(1)] fits(2) by blast
  then show ?case using Cons.IH [OF b1(2,3,5)] by (simp add: push_back_ch_string)
qed simp

lemma flex_buffer_empty:
  assumes "n \<le> vector_max_size"
  shows "buf_inv (flex_buffer n)" "buf_compact (flex_buffer n)" "buf_bytes (flex_buffer n) = []"
  using assms by (simp_all add: buf_inv_def buf_compact_def buf_bytes_def flex_buffer_def buffer_base_new_def)

lemma appendToBuffer_text:
  assumes "n \<le> vector_max_size" and "length (response_text rs) \<le> vector_max_size"
  shows "\<exists>b. appendToBuffer rs (flex_buffer n) = Inr b \<and> buf_inv b \<and> buf_bytes b = response_text rs"
  using back_insert_appends [OF flex_buffer_empty(1,2) [OF assms(1)], of "response_text rs"] assms
  by (auto simp: appendToBuffer_def flex_fits_def flex_buffer_empty)

end
