(* ===== verification/Skiplist.thy ===== *)
theory Skiplist
  imports Contracts
begin

text \<open>
  The skip list behind the timers (\<^verbatim>\<open>include/coring/detail/skiplist_map.hpp\<close>).

  Nodes live in a heap that maps addresses to nodes; address zero is the null pointer. The
  head node is a member of the list object and the tail a dummy node with the largest key;
  both have an address here. A node taken from the allocator gets the address \<open>place\<close> of the
  operation's argument, and \<open>draws\<close> are the results of the Bernoulli trials of \<open>random_level\<close>.
  Walking along a level may not end on a cyclic list, so it is a \<open>partial_function\<close>.
\<close>

section \<open>State\<close>

type_synonym addr = nat

definition MAX_LEVEL :: nat where
  "MAX_LEVEL = 32"

record ('k, 'v) node =
  n_key :: 'k
  n_val :: 'v
  n_next :: "addr list"

type_synonym ('k, 'v) heap = "addr \<Rightarrow> ('k, 'v) node option"

record ('k, 'v) skiplist =
  s_heap :: "('k, 'v) heap"
  s_head :: addr
  s_tail :: addr
  s_max_level :: nat
  s_length :: size_t

definition node_load :: "('k, 'v) heap \<Rightarrow> addr \<Rightarrow> ('k, 'v) node res" where
  "node_load h a =
     (if a = 0 then Inl Null_deref
      else case h a of None \<Rightarrow> Inl Undefined_object | Some n \<Rightarrow> Inr n)"

definition level_next :: "('k, 'v) heap \<Rightarrow> addr \<Rightarrow> nat \<Rightarrow> addr res" where
  "level_next h a i =
     res_bind (node_load h a) (\<lambda>n.
       if i < length (n_next n) then Inr (n_next n ! i) else Inl Out_of_bounds)"

definition set_level_next :: "('k, 'v) heap \<Rightarrow> addr \<Rightarrow> nat \<Rightarrow> addr \<Rightarrow> ('k, 'v) heap res" where
  "set_level_next h a i p =
     res_bind (node_load h a) (\<lambda>n.
       if i < length (n_next n) then Inr (h(a \<mapsto> n\<lparr>n_next := (n_next n)[i := p]\<rparr>))
       else Inl Out_of_bounds)"

section \<open>Operations\<close>

definition new_node :: "'k \<Rightarrow> 'v \<Rightarrow> nat \<Rightarrow> ('k, 'v) node" where
  "new_node key val height = \<lparr>n_key = key, n_val = val, n_next = replicate height 0\<rparr>"

text \<open>
  The constructor, with the head at address \<open>hd_at\<close>, the dummy node allocated at \<open>place\<close>, and the
  default value \<open>v0\<close> of the value type in both.
\<close>

definition skiplist_new :: "'k \<Rightarrow> 'k \<Rightarrow> 'v \<Rightarrow> addr \<Rightarrow> addr \<Rightarrow> ('k, 'v) skiplist" where
  "skiplist_new minKey maxKey v0 hd_at place =
     \<lparr>s_heap = [hd_at \<mapsto> \<lparr>n_key = minKey, n_val = v0, n_next = replicate MAX_LEVEL place\<rparr>,
                place \<mapsto> new_node maxKey v0 MAX_LEVEL],
      s_head = hd_at, s_tail = place, s_max_level = 1, s_length = 0\<rparr>"

function random_level_loop :: "(nat \<Rightarrow> bool) \<Rightarrow> nat \<Rightarrow> nat" where
  "random_level_loop dis level =
     (if level < MAX_LEVEL \<and> dis level then random_level_loop dis (Suc level) else level)"
  by pat_completeness auto
termination by (relation "measure (\<lambda>(dis, level). MAX_LEVEL - level)") auto

declare random_level_loop.simps [simp del]

definition random_level :: "(nat \<Rightarrow> bool) \<Rightarrow> nat" where
  "random_level draws = random_level_loop draws 1"

text \<open>The inner loop of every search: move along level \<open>i\<close> while the next key satisfies \<open>before\<close>.\<close>

partial_function (option) advance ::
  "('k \<Rightarrow> bool) \<Rightarrow> ('k, 'v) heap \<Rightarrow> nat \<Rightarrow> addr \<Rightarrow> addr res option" where
  "advance before h i cur =
     (case res_bind (level_next h cur i) (\<lambda>nx. res_bind (node_load h nx) (\<lambda>n. Inr (nx, n_key n))) of
        Inl e \<Rightarrow> Some (Inl e)
      | Inr (nx, k) \<Rightarrow> if before k then advance before h i nx else Some (Inr cur))"

text \<open>The outer loop, from level \<open>n - 1\<close> down to zero, recording the stops in \<open>prevs\<close>.\<close>

fun descend ::
  "('k \<Rightarrow> bool) \<Rightarrow> ('k, 'v) heap \<Rightarrow> nat \<Rightarrow> addr \<Rightarrow> addr list \<Rightarrow> (addr \<times> addr list) res option" where
  "descend before h 0 cur prevs = Some (Inr (cur, prevs))"
| "descend before h (Suc i) cur prevs =
     ores_bind (advance before h i cur) (\<lambda>cur. descend before h i cur (prevs[i := cur]))"

definition find_prevs :: "'k::linorder \<Rightarrow> ('k, 'v) skiplist \<Rightarrow> addr list res option" where
  "find_prevs key s =
     ores_bind (descend (\<lambda>k. key > k) (s_heap s) (s_max_level s) (s_head s) (replicate MAX_LEVEL 0))
       (\<lambda>(cur, prevs). Some (Inr prevs))"

definition find_upper_prevs :: "'k::linorder \<Rightarrow> ('k, 'v) skiplist \<Rightarrow> addr list res option" where
  "find_upper_prevs key s =
     ores_bind (descend (\<lambda>k. key \<ge> k) (s_heap s) (s_max_level s) (s_head s) (replicate MAX_LEVEL 0))
       (\<lambda>(cur, prevs). Some (Inr prevs))"

partial_function (option) destroy :: "('k, 'v) heap \<Rightarrow> addr \<Rightarrow> ('k, 'v) heap res option" where
  "destroy h first =
     (if first \<noteq> 0
      then case level_next h first 0 of
             Inl e \<Rightarrow> Some (Inl e)
           | Inr nx \<Rightarrow> destroy (h(first := None)) nx
      else Some (Inr h))"

definition skiplist_delete :: "('k, 'v) skiplist \<Rightarrow> ('k, 'v) heap res option" where
  "skiplist_delete s =
     (case level_next (s_heap s) (s_head s) 0 of
        Inl e \<Rightarrow> Some (Inl e)
      | Inr first \<Rightarrow> destroy (s_heap s) first)"

definition contains :: "'k::linorder \<Rightarrow> ('k, 'v) skiplist \<Rightarrow> bool res option" where
  "contains target s =
     ores_bind (descend (\<lambda>k. target > k) (s_heap s) (s_max_level s) (s_head s) []) (\<lambda>(cur, _).
     Some (res_bind (level_next (s_heap s) cur 0) (\<lambda>nx.
       if nx = 0 then Inr False
       else res_bind (node_load (s_heap s) nx) (\<lambda>n. Inr (n_key n = target)))))"

definition list_begin :: "('k, 'v) skiplist \<Rightarrow> addr res" where
  "list_begin s = level_next (s_heap s) (s_head s) 0"

definition list_end :: "('k, 'v) skiplist \<Rightarrow> addr" where
  "list_end s = s_tail s"

definition iter_next :: "('k, 'v) skiplist \<Rightarrow> addr \<Rightarrow> addr res" where
  "iter_next s cur = level_next (s_heap s) cur 0"

definition find :: "'k::linorder \<Rightarrow> ('k, 'v) skiplist \<Rightarrow> addr res option" where
  "find target s =
     ores_bind (descend (\<lambda>k. target > k) (s_heap s) (s_max_level s) (s_head s) []) (\<lambda>(cur, _).
     Some (res_bind (level_next (s_heap s) cur 0) (\<lambda>nx.
       res_bind (node_load (s_heap s) nx) (\<lambda>n.
         Inr (if n_key n = target then nx else list_end s)))))"

definition peek_first :: "('k, 'v) skiplist \<Rightarrow> ('k \<times> 'v) res" where
  "peek_first s =
     res_bind (level_next (s_heap s) (s_head s) 0) (\<lambda>a.
     res_bind (node_load (s_heap s) a) (\<lambda>n. Inr (n_key n, n_val n)))"

text \<open>The loop that links the new node \<open>cur\<close> in, from level \<open>n - 1\<close> down to zero.\<close>

fun link_levels :: "('k, 'v) heap \<Rightarrow> addr list \<Rightarrow> addr \<Rightarrow> nat \<Rightarrow> ('k, 'v) heap res" where
  "link_levels h prevs cur 0 = Inr h"
| "link_levels h prevs cur (Suc i) =
     res_bind (level_next h (prevs ! i) i) (\<lambda>nx.
     res_bind (set_level_next h cur i nx) (\<lambda>h.
     res_bind (set_level_next h (prevs ! i) i cur) (\<lambda>h. link_levels h prevs cur i)))"

definition raise_prevs :: "addr \<Rightarrow> nat \<Rightarrow> nat \<Rightarrow> addr list \<Rightarrow> addr list" where
  "raise_prevs head max_level level prevs =
     map (\<lambda>i. if max_level \<le> i \<and> i < level then head else prevs ! i) [0..<length prevs]"

definition add ::
  "addr \<Rightarrow> (nat \<Rightarrow> bool) \<Rightarrow> 'k::linorder \<times> 'v \<Rightarrow> ('k, 'v) skiplist \<Rightarrow>
   (addr \<times> ('k, 'v) skiplist) res option" where
  "add place draws data s =
     (let s = s\<lparr>s_length := s_length s + 1\<rparr>
      in ores_bind (find_prevs (fst data) s) (\<lambda>prevs.
         let level = random_level draws;
             (prevs, max_level) =
               (if s_max_level s < level
                then (raise_prevs (s_head s) (s_max_level s) level prevs, level)
                else (prevs, s_max_level s));
             h = (s_heap s)(place \<mapsto> new_node (fst data) (snd data) level)
         in Some (res_bind (link_levels h prevs place level) (\<lambda>h.
              Inr (place, s\<lparr>s_heap := h, s_max_level := max_level\<rparr>)))))"

definition emplace ::
  "addr \<Rightarrow> (nat \<Rightarrow> bool) \<Rightarrow> 'k::linorder \<Rightarrow> 'v \<Rightarrow> ('k, 'v) skiplist \<Rightarrow>
   (addr \<times> ('k, 'v) skiplist) res option" where
  "emplace place draws key val s =
     (let s = s\<lparr>s_length := s_length s + 1\<rparr>
      in ores_bind (find_prevs key s) (\<lambda>prevs.
         let level = random_level draws;
             (prevs, max_level) =
               (if s_max_level s < level
                then (raise_prevs (s_head s) (s_max_level s) level prevs, level)
                else (prevs, s_max_level s));
             h = (s_heap s)(place \<mapsto> new_node key val level)
         in Some (res_bind (link_levels h prevs place level) (\<lambda>h.
              Inr (place, s\<lparr>s_heap := h, s_max_level := max_level\<rparr>)))))"

text \<open>The loop that unlinks \<open>del\<close>, at the levels \<open>i\<close> up to \<open>i + n - 1\<close>.\<close>

fun unlink_levels :: "('k, 'v) heap \<Rightarrow> addr list \<Rightarrow> addr \<Rightarrow> nat \<Rightarrow> nat \<Rightarrow> ('k, 'v) heap res" where
  "unlink_levels h prevs del i 0 = Inr h"
| "unlink_levels h prevs del i (Suc n) =
     res_bind (level_next h del i) (\<lambda>nx.
     res_bind (set_level_next h (prevs ! i) i nx) (\<lambda>h. unlink_levels h prevs del (Suc i) n))"

text \<open>\<open>while (max_level_ > 1 && head_.level_next_[max_level_ - 1] == tail_) max_level_--;\<close>\<close>

fun trim_level :: "('k, 'v) heap \<Rightarrow> addr \<Rightarrow> addr \<Rightarrow> nat \<Rightarrow> nat res" where
  "trim_level h head tail 0 = Inr 0"
| "trim_level h head tail (Suc m) =
     (if 0 < m
      then res_bind (level_next h head m) (\<lambda>a.
             if a = tail then trim_level h head tail m else Inr (Suc m))
      else Inr (Suc m))"

definition erase_one :: "'k::linorder \<Rightarrow> ('k, 'v) skiplist \<Rightarrow> (bool \<times> ('k, 'v) skiplist) res option" where
  "erase_one key s =
     ores_bind (find_prevs key s) (\<lambda>prevs.
     Some (res_bind (level_next (s_heap s) (prevs ! 0) 0) (\<lambda>del.
       if del = 0 then Inr (False, s)
       else res_bind (node_load (s_heap s) del) (\<lambda>n.
         if n_key n \<noteq> key then Inr (False, s)
         else res_bind (unlink_levels (s_heap s) prevs del 0 (length (n_next n))) (\<lambda>h.
              let h = h(del := None)
              in res_bind (trim_level h (s_head s) (s_tail s) (s_max_level s)) (\<lambda>m.
                 Inr (True, s\<lparr>s_heap := h, s_max_level := m, s_length := s_length s - 1\<rparr>)))))))"

text \<open>The loop that links the head to the rest and cuts the popped nodes off, from level \<open>i\<close> on.\<close>

fun cut_levels :: "('k, 'v) heap \<Rightarrow> addr list \<Rightarrow> addr \<Rightarrow> nat \<Rightarrow> nat \<Rightarrow> ('k, 'v) heap res" where
  "cut_levels h prevs head i 0 = Inr h"
| "cut_levels h prevs head i (Suc n) =
     res_bind (level_next h (prevs ! i) i) (\<lambda>nx.
     res_bind (set_level_next h head i nx) (\<lambda>h.
     res_bind (if prevs ! i \<noteq> head then set_level_next h (prevs ! i) i 0 else Inr h) (\<lambda>h.
     cut_levels h prevs head (Suc i) n)))"

partial_function (option) pop_nodes ::
  "('k, 'v) heap \<Rightarrow> addr \<Rightarrow> 'v list \<Rightarrow> ('v list \<times> ('k, 'v) heap) res option" where
  "pop_nodes h cur res =
     (if cur \<noteq> 0
      then case node_load h cur of
             Inl e \<Rightarrow> Some (Inl e)
           | Inr n \<Rightarrow>
               (case level_next h cur 0 of
                  Inl e \<Rightarrow> Some (Inl e)
                | Inr nx \<Rightarrow> pop_nodes (h(cur := None)) nx (res @ [n_val n]))
      else Some (Inr (res, h)))"

definition pop_less_eq ::
  "'k::linorder \<Rightarrow> ('k, 'v) skiplist \<Rightarrow> ('v list \<times> ('k, 'v) skiplist) res option" where
  "pop_less_eq key s =
     ores_bind (find_upper_prevs key s) (\<lambda>prevs.
     if prevs ! 0 = s_head s then Some (Inr ([], s))
     else ores_bind (Some (level_next (s_heap s) (s_head s) 0)) (\<lambda>start.
          ores_bind (Some (cut_levels (s_heap s) prevs (s_head s) 0 (s_max_level s))) (\<lambda>h.
          ores_bind (pop_nodes h start []) (\<lambda>(res, h).
          ores_bind (Some (trim_level h (s_head s) (s_tail s) (s_max_level s))) (\<lambda>m.
          Some (Inr (res, s\<lparr>s_heap := h, s_max_level := m,
            s_length := s_length s - of_nat (length res)\<rparr>)))))))"

text \<open>
  The callback \<open>f\<close> of \<open>do_less_eq_then_pop\<close> gets the value and may change the list object, and
  also a state of its own (the first component of what it is given and returns). The nodes are counted
  in an \<open>int\<close>.
\<close>

type_synonym ('k, 'v, 'w) callback =
  "'v \<Rightarrow> 'w \<times> ('k, 'v) skiplist \<Rightarrow> ('w \<times> ('k, 'v) skiplist) res option"

partial_function (option) run_nodes ::
  "('k, 'v, 'w) callback \<Rightarrow> addr \<Rightarrow> int \<Rightarrow> 'w \<times> ('k, 'v) skiplist \<Rightarrow>
   (int \<times> 'w \<times> ('k, 'v) skiplist) res option" where
  "run_nodes f cur cnt ws =
     (if cur \<noteq> 0
      then ores_bind (Some (int32_res (cnt + 1))) (\<lambda>cnt.
           ores_bind (Some (node_load (s_heap (snd ws)) cur)) (\<lambda>n.
           ores_bind (Some (level_next (s_heap (snd ws)) cur 0)) (\<lambda>nx.
           ores_bind (f (n_val n) ws) (\<lambda>(w, s).
             run_nodes f nx cnt (w, s\<lparr>s_heap := (s_heap s)(cur := None)\<rparr>)))))
      else Some (Inr (cnt, ws)))"

definition do_less_eq_then_pop ::
  "'k::linorder \<Rightarrow> ('k, 'v, 'w) callback \<Rightarrow> 'w \<times> ('k, 'v) skiplist \<Rightarrow>
   ('w \<times> ('k, 'v) skiplist) res option" where
  "do_less_eq_then_pop key f ws =
     (let s = snd ws
      in ores_bind (find_upper_prevs key s) (\<lambda>prevs.
         if prevs ! 0 = s_head s then Some (Inr ws)
         else ores_bind (Some (level_next (s_heap s) (s_head s) 0)) (\<lambda>start.
              ores_bind (Some (cut_levels (s_heap s) prevs (s_head s) 0 (s_max_level s))) (\<lambda>h.
              ores_bind (run_nodes f start 0 (fst ws, s\<lparr>s_heap := h\<rparr>)) (\<lambda>(cnt, w, s).
              ores_bind (Some (trim_level (s_heap s) (s_head s) (s_tail s) (s_max_level s))) (\<lambda>m.
              Some (Inr (w, s\<lparr>s_max_level := m, s_length := s_length s - of_int cnt\<rparr>))))))))"

section \<open>The checker\<close>

function check_count :: "('k, 'v) heap \<Rightarrow> addr \<Rightarrow> nat \<Rightarrow> nat option res" where
  "check_count h cur cnt =
     (if cur \<noteq> 0
      then res_bind (level_next h cur 0) (\<lambda>cur.
             if 100000 \<le> Suc cnt then Inr None else check_count h cur (Suc cnt))
      else Inr (Some cnt))"
  by pat_completeness auto
termination by (relation "measure (\<lambda>(h, cur, cnt). 100000 - cnt)") auto

declare check_count.simps [simp del]

text \<open>The inner loop at level \<open>i\<close>: \<open>None\<close> when it finds a descent or counts too far.\<close>

function check_level ::
  "('k::linorder, 'v) heap \<Rightarrow> nat \<Rightarrow> addr \<Rightarrow> nat \<Rightarrow> (addr \<times> nat) option res" where
  "check_level h i cur cnt =
     res_bind (level_next h cur i) (\<lambda>nx.
     if nx \<noteq> 0
     then res_bind (node_load h cur) (\<lambda>n. res_bind (node_load h nx) (\<lambda>m.
            if n_key n > n_key m then Inr None
            else if 100000 \<le> Suc cnt then Inr None
            else check_level h i nx (Suc cnt)))
     else Inr (Some (cur, cnt)))"
  by pat_completeness auto
termination by (relation "measure (\<lambda>(h, i, cur, cnt). 100000 - cnt)") auto

declare check_level.simps [simp del]

fun check_levels :: "('k::linorder, 'v) heap \<Rightarrow> nat list \<Rightarrow> addr \<Rightarrow> nat \<Rightarrow> bool res" where
  "check_levels h [] cur cnt = Inr True"
| "check_levels h (i # is) cur cnt =
     res_bind (check_level h i cur cnt) (\<lambda>r.
       case r of None \<Rightarrow> Inr False | Some (cur, cnt) \<Rightarrow> check_levels h is cur cnt)"

definition check_correctness :: "('k::linorder, 'v) skiplist \<Rightarrow> bool res" where
  "check_correctness s =
     res_bind (check_count (s_heap s) (s_head s) 0) (\<lambda>r.
       case r of
         None \<Rightarrow> Inr False
       | Some cnt \<Rightarrow>
           if (of_nat cnt - 2 :: size_t) \<noteq> s_length s then Inr False
           else check_levels (s_heap s) [0..<MAX_LEVEL] (s_head s) 0)"

end
