(* ===== verification/Skiplist_Shape.thy ===== *)
theory Skiplist_Shape
  imports Skiplist
begin

text \<open>
  The shape of a well-formed skip list, and what searching and relinking do to it. A list is
  described by the addresses \<open>ns\<close> of its data nodes in order; level \<open>i\<close> is then a chain from the
  head through the nodes of \<open>ns\<close> that are higher than \<open>i\<close> to the tail.
\<close>

section \<open>Views of the heap\<close>

definition nxt :: "('k, 'v) heap \<Rightarrow> nat \<Rightarrow> addr \<Rightarrow> addr option" where
  "nxt h i a =
     (case h a of None \<Rightarrow> None
      | Some n \<Rightarrow> if i < length (n_next n) then Some (n_next n ! i) else None)"

text \<open>What no relinking changes: the key, the value and the number of levels of a node.\<close>

definition info :: "('k, 'v) heap \<Rightarrow> addr \<Rightarrow> ('k \<times> 'v \<times> nat) option" where
  "info h a = map_option (\<lambda>n. (n_key n, n_val n, length (n_next n))) (h a)"

definition key :: "('k, 'v) heap \<Rightarrow> addr \<Rightarrow> 'k" where
  "key h a = fst (the (info h a))"

definition val :: "('k, 'v) heap \<Rightarrow> addr \<Rightarrow> 'v" where
  "val h a = fst (snd (the (info h a)))"

definition height :: "('k, 'v) heap \<Rightarrow> addr \<Rightarrow> nat" where
  "height h a = (case info h a of None \<Rightarrow> 0 | Some (_, _, l) \<Rightarrow> l)"

definition put :: "('k, 'v) heap \<Rightarrow> addr \<Rightarrow> nat \<Rightarrow> addr \<Rightarrow> ('k, 'v) heap" where
  "put h a i p =
     (case h a of None \<Rightarrow> h | Some n \<Rightarrow> h(a \<mapsto> n\<lparr>n_next := (n_next n)[i := p]\<rparr>))"

lemma nxt_defined: "nxt h i a \<noteq> None \<longleftrightarrow> i < height h a"
  by (auto simp: nxt_def height_def info_def split: option.splits)

lemma nxt_Some_height: "nxt h i a = Some b \<Longrightarrow> i < height h a"
  using nxt_defined by fastforce

lemma level_next_nxt: "a \<noteq> 0 \<Longrightarrow> nxt h i a = Some b \<Longrightarrow> level_next h a i = Inr b"
  by (auto simp: nxt_def level_next_def node_load_def split: option.splits if_splits)

lemma node_load_info:
  assumes "a \<noteq> 0" and "0 < height h a"
  shows "\<exists>n. node_load h a = Inr n \<and> h a = Some n \<and> n_key n = key h a \<and> n_val n = val h a \<and>
    length (n_next n) = height h a"
  using assms by (auto simp: node_load_def height_def info_def key_def val_def split: option.splits)

lemma set_level_next_put:
  "a \<noteq> 0 \<Longrightarrow> i < height h a \<Longrightarrow> set_level_next h a i p = Inr (put h a i p)"
  by (auto simp: set_level_next_def node_load_def put_def height_def info_def split: option.splits)

lemma info_put [heap_simps]: "info (put h a i p) = info h"
  by (auto simp: put_def info_def fun_eq_iff split: option.splits)

lemma key_put [heap_simps]: "key (put h a i p) = key h"
  and val_put [heap_simps]: "val (put h a i p) = val h"
  and height_put [heap_simps]: "height (put h a i p) = height h"
  by (simp_all add: key_def val_def height_def fun_eq_iff info_put)

lemma nxt_put [heap_simps]:
  "nxt (put h a i p) j b = (if b = a \<and> j = i \<and> i < height h a then Some p else nxt h j b)"
  by (auto simp: nxt_def put_def height_def info_def split: option.splits)

lemma views_info:
  assumes "info h' a = info h a"
  shows "key h' a = key h a" and "val h' a = val h a" and "height h' a = height h a"
  using assms by (simp_all add: key_def val_def height_def)

section \<open>Chains\<close>

fun chain :: "(addr \<Rightarrow> addr option) \<Rightarrow> addr list \<Rightarrow> bool" where
  "chain nx (a # b # xs) = (nx a = Some b \<and> chain nx (b # xs))"
| "chain nx _ = True"

lemma chain_Cons: "chain nx (a # xs) \<longleftrightarrow> xs = [] \<or> (nx a = Some (hd xs) \<and> chain nx xs)"
  by (cases xs) auto

lemma chain_append:
  "chain nx (xs @ a # ys) \<longleftrightarrow> chain nx (xs @ [a]) \<and> chain nx (a # ys)"
proof (induction xs)
  case (Cons x xs)
  then show ?case by (cases xs) auto
qed simp

lemma chain_cong:
  "(\<And>x. x \<in> set (butlast xs) \<Longrightarrow> nx' x = nx x) \<Longrightarrow> chain nx xs \<Longrightarrow> chain nx' xs"
  by (induction nx xs rule: chain.induct) auto

lemma chain_avoid:
  assumes "chain nx xs" and "d \<notin> set xs" and "\<And>x. x \<noteq> d \<Longrightarrow> nx' x = nx x"
  shows "chain nx' xs"
  using assms(2) by (intro chain_cong [OF _ assms(1)] assms(3)) (auto dest: in_set_butlastD)

definition level :: "('k, 'v) heap \<Rightarrow> nat \<Rightarrow> addr list \<Rightarrow> addr list" where
  "level h i ns = filter (\<lambda>a. i < height h a) ns"

lemma level_append [simp]: "level h i (xs @ ys) = level h i xs @ level h i ys"
  by (simp add: level_def)

lemma level_Nil [simp]: "level h i [] = []"
  by (simp add: level_def)

lemma set_level: "a \<in> set (level h i ns) \<longleftrightarrow> a \<in> set ns \<and> i < height h a"
  by (auto simp: level_def)

lemma level_cong:
  "(\<And>a. a \<in> set ns \<Longrightarrow> height h' a = height h a) \<Longrightarrow> level h' i ns = level h i ns"
  by (auto simp: level_def intro: filter_cong)

lemma level_all: "(\<And>a. a \<in> set ns \<Longrightarrow> i < height h a) \<Longrightarrow> level h i ns = ns"
  by (simp add: level_def)

section \<open>Well-formed lists\<close>

definition sl_shape :: "('k::linorder, 'v) skiplist \<Rightarrow> addr list \<Rightarrow> bool" where
  "sl_shape s ns \<longleftrightarrow>
     distinct (s_head s # ns @ [s_tail s]) \<and> 0 \<notin> set (s_head s # ns @ [s_tail s]) \<and>
     height (s_heap s) (s_head s) = MAX_LEVEL \<and> height (s_heap s) (s_tail s) = MAX_LEVEL \<and>
     (\<forall>i < MAX_LEVEL. nxt (s_heap s) i (s_tail s) = Some 0) \<and>
     (\<forall>a \<in> set ns. 1 \<le> height (s_heap s) a \<and> height (s_heap s) a \<le> s_max_level s) \<and>
     1 \<le> s_max_level s \<and> s_max_level s \<le> MAX_LEVEL \<and>
     sorted (map (key (s_heap s)) ns) \<and>
     (\<forall>a \<in> set ns. key (s_heap s) a \<le> key (s_heap s) (s_tail s)) \<and>
     (\<forall>i < MAX_LEVEL. chain (nxt (s_heap s) i) (s_head s # level (s_heap s) i ns @ [s_tail s]))"

definition sl_inv :: "('k::linorder, 'v) skiplist \<Rightarrow> addr list \<Rightarrow> bool" where
  "sl_inv s ns \<longleftrightarrow> sl_shape s ns \<and> s_length s = of_nat (length ns)"

text \<open>The contents: keys with their values, in order.\<close>

definition entries_of :: "('k, 'v) skiplist \<Rightarrow> addr list \<Rightarrow> ('k \<times> 'v) list" where
  "entries_of s ns = map (\<lambda>a. (key (s_heap s) a, val (s_heap s) a)) ns"

lemma sl_shapeD:
  assumes "sl_shape s ns"
  shows "distinct (s_head s # ns @ [s_tail s])" and "0 \<notin> set (s_head s # ns @ [s_tail s])"
    and "height (s_heap s) (s_head s) = MAX_LEVEL" and "height (s_heap s) (s_tail s) = MAX_LEVEL"
    and "\<And>i. i < MAX_LEVEL \<Longrightarrow> nxt (s_heap s) i (s_tail s) = Some 0"
    and "\<And>a. a \<in> set ns \<Longrightarrow> 1 \<le> height (s_heap s) a"
    and "\<And>a. a \<in> set ns \<Longrightarrow> height (s_heap s) a \<le> s_max_level s"
    and "1 \<le> s_max_level s" and "s_max_level s \<le> MAX_LEVEL"
    and "sorted (map (key (s_heap s)) ns)"
    and "\<And>a. a \<in> set ns \<Longrightarrow> key (s_heap s) a \<le> key (s_heap s) (s_tail s)"
    and "\<And>i. i < MAX_LEVEL \<Longrightarrow>
      chain (nxt (s_heap s) i) (s_head s # level (s_heap s) i ns @ [s_tail s])"
  using assms unfolding sl_shape_def by auto

lemma sl_shape_nonnull:
  assumes "sl_shape s ns" and "a \<in> insert (s_head s) (insert (s_tail s) (set ns))"
  shows "a \<noteq> 0"
  using sl_shapeD(2) [OF assms(1)] assms(2) by (metis Un_iff insert_iff list.set(1,2) set_append)

lemma level_zero: "sl_shape s ns \<Longrightarrow> xs = ns \<or> set xs \<subseteq> set ns \<Longrightarrow> level (s_heap s) 0 xs = xs"
  using sl_shapeD(6) by (intro level_all) fastforce

section \<open>Searching\<close>

lemma advance_chain:
  assumes "chain (nxt h i) (cur # xs @ y # zs)" and "0 \<notin> set (cur # xs @ [y])"
    and "\<And>x. x \<in> set xs \<Longrightarrow> before (key h x)" and "\<not> before (key h y)" and "0 < height h y"
  shows "advance before h i cur = Some (Inr (last (cur # xs)))"
  using assms(1-3)
proof (induction xs arbitrary: cur)
  case Nil
  then have "level_next h cur i = Inr y" by (auto intro: level_next_nxt)
  moreover obtain n where "node_load h y = Inr n" "n_key n = key h y"
    using node_load_info [of y h] Nil assms(5) by auto
  ultimately show ?case using assms(4) by (subst advance.simps) simp
next
  case (Cons x xs)
  then have nx: "level_next h cur i = Inr x" by (auto intro: level_next_nxt)
  have "chain (nxt h i) (x # xs @ y # zs)" using Cons.prems(1) by simp
  then have "nxt h i x \<noteq> None" by (cases xs) auto
  then have "0 < height h x" using nxt_defined [of h i x] by auto
  then obtain n where "node_load h x = Inr n" "n_key n = key h x"
    using node_load_info [of x h] Cons.prems(2) by auto
  moreover have "before (key h x)" using Cons.prems(3) by simp
  moreover have "advance before h i x = Some (Inr (last (x # xs)))"
    using Cons.prems by (intro Cons.IH) auto
  ultimately show ?case using nx by (subst advance.simps) simp
qed

text \<open>Where a search stops at level \<open>i\<close> when \<open>xs\<close> are the nodes before the place searched.\<close>

definition stop :: "('k, 'v) heap \<Rightarrow> addr \<Rightarrow> addr list \<Rightarrow> nat \<Rightarrow> addr" where
  "stop h head xs i = last (head # level h i xs)"

lemma stop_cases: "stop h head xs i = head \<or> stop h head xs i \<in> set (level h i xs)"
  by (auto simp: stop_def)

lemma advance_level:
  assumes s: "sl_shape s (xs @ ys)" and i: "i < MAX_LEVEL"
    and cur: "cur \<in> set (s_head s # level (s_heap s) i xs)"
    and xs: "\<And>x. x \<in> set xs \<Longrightarrow> before (key (s_heap s) x)"
    and ys: "\<And>y. y \<in> set (ys @ [s_tail s]) \<Longrightarrow> \<not> before (key (s_heap s) y)"
  shows "advance before (s_heap s) i cur = Some (Inr (stop (s_heap s) (s_head s) xs i))"
proof -
  let ?h = "s_heap s"
  obtain us vs where uv: "s_head s # level ?h i xs = us @ cur # vs"
    using cur by (meson split_list)
  obtain y zs where yz: "level ?h i ys @ [s_tail s] = y # zs"
    by (cases "level ?h i ys @ [s_tail s]") auto
  then have y: "y \<in> set (ys @ [s_tail s])"
    by (metis append_Cons list.set_intros(1) set_append Un_iff set_level)
  have "chain (nxt ?h i) ((us @ cur # vs) @ y # zs)"
    using sl_shapeD(12) [OF s i] uv yz by (metis append.assoc append_Cons level_append)
  then have ch: "chain (nxt ?h i) (cur # vs @ y # zs)"
    using chain_append [of "nxt ?h i" us cur "vs @ y # zs"] by simp
  have sub: "set (us @ cur # vs) \<subseteq> set (s_head s # xs)"
    using uv by (metis set_level set_subset_Cons list.set(2) insert_mono subsetI)
  have "0 < height ?h y"
    using y sl_shapeD(4,6) [OF s] by (auto simp: MAX_LEVEL_def dest: Suc_le_lessD)
  moreover have "set vs \<subseteq> set (level ?h i xs)"
    using uv by (cases us) auto
  then have "set vs \<subseteq> set xs" by (auto simp: set_level)
  moreover have "0 \<notin> set (cur # vs @ [y])"
    using sub y sl_shapeD(2) [OF s] by (metis Un_iff append_Cons in_mono set_append set_ConsD
        list.set_intros(1,2) empty_iff empty_set)
  ultimately have "advance before ?h i cur = Some (Inr (last (cur # vs)))"
    using y xs ys by (intro advance_chain [OF ch]) auto
  moreover have "last (cur # vs) = stop ?h (s_head s) xs i"
    unfolding stop_def uv by simp
  ultimately show ?thesis by simp
qed

lemma descend_stops:
  assumes s: "sl_shape s (xs @ ys)"
    and xs: "\<And>x. x \<in> set xs \<Longrightarrow> before (key (s_heap s) x)"
    and ys: "\<And>y. y \<in> set (ys @ [s_tail s]) \<Longrightarrow> \<not> before (key (s_heap s) y)"
  shows "n \<le> MAX_LEVEL \<Longrightarrow> cur = s_head s \<or> (cur \<in> set xs \<and> n \<le> height (s_heap s) cur) \<Longrightarrow>
    descend before (s_heap s) n cur prevs =
      Some (Inr (if n = 0 then cur else stop (s_heap s) (s_head s) xs 0,
        map (\<lambda>i. if i < n then stop (s_heap s) (s_head s) xs i else prevs ! i) [0..<length prevs]))"
proof (induction n arbitrary: cur prevs)
  case 0
  then show ?case by (simp add: map_nth)
next
  case (Suc n)
  let ?h = "s_heap s" and ?st = "stop (s_heap s) (s_head s) xs"
  have "cur \<in> set (s_head s # level ?h n xs)"
    using Suc.prems(2) by (auto simp: set_level)
  then have adv: "advance before ?h n cur = Some (Inr (?st n))"
    using Suc.prems(1) advance_level [OF s, of n cur before] xs ys by simp
  have "?st n = s_head s \<or> (?st n \<in> set xs \<and> n \<le> height ?h (?st n))"
    using stop_cases [of ?h "s_head s" xs n] by (auto simp: set_level)
  note Suc.IH [OF _ this, of "prevs[n := ?st n]"]
  then have "descend before ?h n (?st n) (prevs[n := ?st n]) = Some (Inr (
      if n = 0 then ?st n else ?st 0,
      map (\<lambda>i. if i < n then ?st i else prevs[n := ?st n] ! i) [0..<length prevs]))"
    using Suc.prems(1) by simp
  moreover have "map (\<lambda>i. if i < n then ?st i else prevs[n := ?st n] ! i) [0..<length prevs] =
      map (\<lambda>i. if i < Suc n then ?st i else prevs ! i) [0..<length prevs]"
    by (rule map_cong) (auto simp: nth_list_update less_Suc_eq)
  ultimately show ?case using adv by simp
qed

end
