(* ===== verification/Skiplist_Insert.thy ===== *)
theory Skiplist_Insert
  imports Skiplist_Shape
begin

text \<open>
  Creating a skip list, looking keys up and inserting. An insertion puts the new node before
  the nodes with the same key, and changes no node but the ones it links.
\<close>

section \<open>Splitting the list at a key\<close>

definition lower :: "('k::linorder, 'v) skiplist \<Rightarrow> 'k \<Rightarrow> addr list \<Rightarrow> addr list" where
  "lower s k ns = takeWhile (\<lambda>a. key (s_heap s) a < k) ns"

definition upper :: "('k::linorder, 'v) skiplist \<Rightarrow> 'k \<Rightarrow> addr list \<Rightarrow> addr list" where
  "upper s k ns = dropWhile (\<lambda>a. key (s_heap s) a < k) ns"

lemma lower_upper: "lower s k ns @ upper s k ns = ns"
  by (simp add: lower_def upper_def)

lemma sorted_dropWhile_all:
  assumes "sorted (map f xs)" and "\<And>x y. f x \<le> f y \<Longrightarrow> P (f y) \<Longrightarrow> P (f x)"
    and "y \<in> set (dropWhile (\<lambda>x. P (f x)) xs)"
  shows "\<not> P (f y)"
  using assms(1,3)
proof (induction xs)
  case (Cons x xs)
  then show ?case using assms(2) by (auto split: if_splits)
qed simp

lemma lower_less: "a \<in> set (lower s k ns) \<Longrightarrow> key (s_heap s) a < k"
  by (auto simp: lower_def dest: set_takeWhileD)

lemma upper_geq: "sl_shape s ns \<Longrightarrow> a \<in> set (upper s k ns) \<Longrightarrow> k \<le> key (s_heap s) a"
  using sorted_dropWhile_all [of "key (s_heap s)" ns "\<lambda>x. x < k" a] sl_shapeD(10) [of s ns]
  by (fastforce simp: upper_def)

text \<open>The stops of a search for \<open>k\<close>.\<close>

lemma descend_lower:
  assumes s: "sl_shape s ns" and k: "k \<le> key (s_heap s) (s_tail s)"
  shows "descend (\<lambda>k'. k > k') (s_heap s) (s_max_level s) (s_head s) prevs =
    Some (Inr (stop (s_heap s) (s_head s) (lower s k ns) 0,
      map (\<lambda>i. if i < s_max_level s then stop (s_heap s) (s_head s) (lower s k ns) i else prevs ! i)
        [0..<length prevs]))"
proof -
  have s': "sl_shape s (lower s k ns @ upper s k ns)" using s by (simp add: lower_upper)
  have "\<not> s_max_level s = 0" using sl_shapeD(8) [OF s] by simp
  then show ?thesis
    using descend_stops [OF s', of "\<lambda>k'. k > k'" "s_max_level s" "s_head s" prevs]
      lower_less [of _ s k ns] upper_geq [OF s, of _ k] k sl_shapeD(9) [OF s]
    by (fastforce simp: not_less)
qed

lemma find_prevs_stops:
  assumes "sl_shape s ns" and "k \<le> key (s_heap s) (s_tail s)"
  shows "find_prevs k s = Some (Inr (map (\<lambda>i. if i < s_max_level s
    then stop (s_heap s) (s_head s) (lower s k ns) i else 0) [0..<MAX_LEVEL]))"
  unfolding find_prevs_def descend_lower [OF assms] by (simp cong: map_cong)

text \<open>The node after a stop at level \<open>i\<close>.\<close>

lemma level_split:
  "s_head s # level h i (xs @ ys) @ [s_tail s] =
   butlast (s_head s # level h i xs) @ stop h (s_head s) xs i # level h i ys @ [s_tail s]"
  unfolding stop_def using append_butlast_last_id [of "s_head s # level h i xs"]
  by (metis append.assoc append_Cons append_Nil level_append list.distinct(1))

lemma nxt_stop:
  assumes s: "sl_shape s (xs @ ys)" and i: "i < MAX_LEVEL"
  shows "nxt (s_heap s) i (stop (s_heap s) (s_head s) xs i) =
    Some (hd (level (s_heap s) i ys @ [s_tail s]))"
proof -
  have "chain (nxt (s_heap s) i) (stop (s_heap s) (s_head s) xs i # level (s_heap s) i ys @ [s_tail s])"
    using sl_shapeD(12) [OF s i] unfolding level_split
    by (rule chain_append [THEN iffD1, THEN conjunct2])
  then show ?thesis by (simp add: chain_Cons)
qed

lemma stop_in: "stop h head xs i \<in> insert head (set xs)"
  using stop_cases [of h head xs i] by (auto simp: set_level)

lemma level0_upper:
  "sl_shape s (xs @ ys) \<Longrightarrow> level (s_heap s) 0 ys = ys"
  using level_zero [of s "xs @ ys" ys] by auto

lemma entry_load:
  assumes s: "sl_shape s ns" and a: "a \<in> set (ns @ [s_tail s])"
  shows "\<exists>n. node_load (s_heap s) a = Inr n \<and> s_heap s a = Some n \<and> n_key n = key (s_heap s) a \<and>
    n_val n = val (s_heap s) a \<and> length (n_next n) = height (s_heap s) a"
proof -
  have "a \<noteq> 0" using a by (intro sl_shape_nonnull [OF s]) auto
  moreover have "0 < height (s_heap s) a"
    using a sl_shapeD(4,6) [OF s] by (fastforce simp: MAX_LEVEL_def)
  ultimately show ?thesis by (rule node_load_info)
qed

lemma listed_allocated:
  assumes s: "sl_shape s ns" and a: "a \<in> set (s_head s # ns @ [s_tail s])"
  shows "s_heap s a \<noteq> None"
  using entry_load [OF s, of a] sl_shapeD(3) [OF s] a
  by (cases "a = s_head s") (auto simp: height_def info_def MAX_LEVEL_def split: option.splits)

section \<open>Looking up\<close>

lemma search_next:
  assumes s: "sl_shape s ns"
  shows "level_next (s_heap s) (stop (s_heap s) (s_head s) (lower s k ns) 0) 0 =
    Inr (hd (upper s k ns @ [s_tail s]))"
proof -
  have s': "sl_shape s (lower s k ns @ upper s k ns)" using s by (simp add: lower_upper)
  have "stop (s_heap s) (s_head s) (lower s k ns) 0 \<noteq> 0"
    using stop_in [of "s_heap s" "s_head s" "lower s k ns" 0]
    by (intro sl_shape_nonnull [OF s']) auto
  then show ?thesis
    using nxt_stop [OF s', of 0] level0_upper [OF s'] by (auto simp: MAX_LEVEL_def intro: level_next_nxt)
qed

lemma hd_upper_key:
  assumes s: "sl_shape s ns" and k: "k < key (s_heap s) (s_tail s)"
  shows "key (s_heap s) (hd (upper s k ns @ [s_tail s])) = k \<longleftrightarrow> k \<in> set (map (key (s_heap s)) ns)"
proof -
  have srt: "sorted (map (key (s_heap s)) (lower s k ns @ upper s k ns))"
    using sl_shapeD(10) [OF s] by (simp add: lower_upper)
  show ?thesis
  proof (cases "upper s k ns")
    case Nil
    then have "ns = lower s k ns" using lower_upper [of s k ns] by simp
    then have "\<forall>a \<in> set ns. key (s_heap s) a < k" using lower_less [of _ s k ns] by metis
    then show ?thesis using Nil k by auto
  next
    case (Cons a as)
    have "\<forall>b \<in> set as. key (s_heap s) a \<le> key (s_heap s) b"
      using srt Cons by (simp add: sorted_append)
    moreover have "k \<le> key (s_heap s) a" using upper_geq [OF s, of a k] Cons by simp
    moreover have "set ns = set (lower s k ns) \<union> set (a # as)"
      using lower_upper [of s k ns] Cons by (metis set_append)
    ultimately show ?thesis
      using Cons lower_less [of _ s k ns] by fastforce
  qed
qed

lemma contains_iff:
  assumes s: "sl_shape s ns" and k: "k < key (s_heap s) (s_tail s)"
  shows "contains k s = Some (Inr (k \<in> fst ` set (entries_of s ns)))"
proof -
  let ?a = "hd (upper s k ns @ [s_tail s])"
  have "set (upper s k ns) \<subseteq> set ns" by (auto simp: upper_def dest: set_dropWhileD)
  then have a: "?a \<in> set (ns @ [s_tail s])" by (cases "upper s k ns") auto
  then obtain n where n: "node_load (s_heap s) ?a = Inr n" "n_key n = key (s_heap s) ?a"
    using entry_load [OF s] by blast
  have "?a \<noteq> 0" using a by (intro sl_shape_nonnull [OF s]) auto
  then show ?thesis
    using descend_lower [OF s less_imp_le [OF k], of "[]"] search_next [OF s, of k] n
      hd_upper_key [OF s k]
    by (simp add: contains_def entries_of_def image_image)
qed

section \<open>The constructor\<close>

lemma skiplist_new_inv:
  fixes minKey maxKey :: "'k::linorder"
  assumes "hd_at \<noteq> 0" and "place \<noteq> 0" and "hd_at \<noteq> place"
  shows "sl_inv (skiplist_new minKey maxKey v0 hd_at place) []"
    and "key (s_heap (skiplist_new minKey maxKey v0 hd_at place)) place = maxKey"
  using assms
  by (auto simp: sl_inv_def sl_shape_def skiplist_new_def height_def info_def nxt_def new_node_def
      MAX_LEVEL_def key_def)

section \<open>Linking a node in\<close>

lemma random_level_loop_bounds:
  "l \<le> MAX_LEVEL \<Longrightarrow>
    l \<le> random_level_loop dis l \<and> random_level_loop dis l \<le> MAX_LEVEL"
proof (induction dis l rule: random_level_loop.induct)
  case (1 dis l)
  show ?case
  proof (cases "l < MAX_LEVEL \<and> dis l")
    case True
    then show ?thesis using 1 by (subst (1 2) random_level_loop.simps) auto
  next
    case False
    then show ?thesis using "1.prems" by (subst (1 2) random_level_loop.simps) auto
  qed
qed

lemma random_level_bounds: "1 \<le> random_level draws" "random_level draws \<le> MAX_LEVEL"
  using random_level_loop_bounds [of 1 draws] by (simp_all add: random_level_def MAX_LEVEL_def)

lemma link_levels_effect:
  assumes "cur \<noteq> 0" and "n \<le> height h cur"
    and "\<And>i. i < n \<Longrightarrow> prevs ! i \<noteq> 0 \<and> prevs ! i \<noteq> cur \<and> i < height h (prevs ! i)"
  shows "\<exists>h'. link_levels h prevs cur n = Inr h' \<and> info h' = info h \<and>
    (\<forall>i a. nxt h' i a = (if i < n \<and> a = cur then nxt h i (prevs ! i)
       else if i < n \<and> a = prevs ! i then Some cur else nxt h i a))"
  using assms(2-3)
proof (induction n arbitrary: h)
  case 0
  then show ?case by auto
next
  case (Suc n)
  let ?p = "prevs ! n"
  have p: "?p \<noteq> 0" "?p \<noteq> cur" "n < height h ?p" using Suc.prems(2) [of n] by auto
  then obtain b where b: "nxt h n ?p = Some b" using nxt_defined [of h n ?p] by auto
  define h1 where "h1 = put h cur n b"
  define h2 where "h2 = put h1 ?p n cur"
  have info2: "info h2 = info h" by (simp add: h1_def h2_def heap_simps)
  have hts: "height h1 = height h" "height h2 = height h" by (simp_all add: h1_def h2_def heap_simps)
  obtain h' where h': "link_levels h2 prevs cur n = Inr h'" "info h' = info h2"
    "\<forall>i a. nxt h' i a = (if i < n \<and> a = cur then nxt h2 i (prevs ! i)
       else if i < n \<and> a = prevs ! i then Some cur else nxt h2 i a)"
    using Suc.IH [of h2] Suc.prems hts by auto
  have "set_level_next h cur n b = Inr h1" "set_level_next h1 ?p n cur = Inr h2"
    using assms(1) p Suc.prems(1) hts by (simp_all add: set_level_next_put h1_def h2_def)
  then have "link_levels h prevs cur (Suc n) = Inr h'"
    using h'(1) level_next_nxt [OF p(1) b] by simp
  moreover have "nxt h2 i a = (if i = n \<and> a = ?p then Some cur
      else if i = n \<and> a = cur then Some b else nxt h i a)" for i a
    using p Suc.prems(1) hts by (auto simp: h2_def h1_def heap_simps)
  ultimately show ?case
    using h'(2,3) info2 b p(2) by (intro exI [of _ h']) (auto simp: less_Suc_eq)
qed

lemma chain_insert:
  assumes "chain nx (us @ a # vs)" and "vs \<noteq> []" and "distinct (us @ a # vs)"
    and "p \<notin> set (us @ a # vs)"
    and "nx' p = nx a" and "nx' a = Some p" and "\<And>x. x \<noteq> a \<Longrightarrow> x \<noteq> p \<Longrightarrow> nx' x = nx x"
  shows "chain nx' (us @ a # p # vs)"
proof -
  have "chain nx (us @ [a])" "chain nx (a # vs)"
    using assms(1) chain_append [of nx us a vs] by auto
  moreover have "chain nx' (us @ [a])"
    using assms(3,4) by (intro chain_cong [OF _ \<open>chain nx (us @ [a])\<close>] assms(7)) auto
  moreover have "chain nx vs" using \<open>chain nx (a # vs)\<close> by (simp add: chain_Cons assms(2))
  then have "chain nx' vs"
    using assms(3,4) by (elim chain_cong [rotated], intro assms(7)) (auto dest: in_set_butlastD)
  ultimately show ?thesis
    using assms(2,5,6) chain_append [of nx' us a "p # vs"] by (simp add: chain_Cons)
qed

text \<open>
  What an insertion leaves: the node \<open>p\<close> sits between \<open>xs\<close> and \<open>ys\<close>, and only the head and list
  nodes have changed.
\<close>

definition insert_frame ::
  "('k, 'v) skiplist \<Rightarrow> addr list \<Rightarrow> addr \<Rightarrow> 'k \<Rightarrow> 'v \<Rightarrow> ('k, 'v) skiplist \<Rightarrow> bool" where
  "insert_frame s ns p k v s' \<longleftrightarrow>
     s_head s' = s_head s \<and> s_tail s' = s_tail s \<and> s_length s' = s_length s + 1 \<and>
     key (s_heap s') p = k \<and> val (s_heap s') p = v \<and>
     (\<forall>a. a \<noteq> p \<longrightarrow> info (s_heap s') a = info (s_heap s) a) \<and>
     (\<forall>a. a \<noteq> p \<longrightarrow> a \<notin> set (s_head s # ns) \<longrightarrow> s_heap s' a = s_heap s a)"

lemma heap_eqI:
  assumes "info h' a = info h a" and "\<And>i. nxt h' i a = nxt h i a"
  shows "h' a = h a"
proof (cases "h a")
  case None
  then show ?thesis using assms(1) by (simp add: info_def)
next
  case (Some n)
  then obtain n' where n': "h' a = Some n'" "n_key n' = n_key n" "n_val n' = n_val n"
    "length (n_next n') = length (n_next n)"
    using assms(1) by (auto simp: info_def)
  have "n_next n' = n_next n"
  proof (rule nth_equalityI [OF n'(4)])
    fix i assume "i < length (n_next n')"
    then show "n_next n' ! i = n_next n ! i"
      using assms(2) [of i] Some n'(1,4) by (simp add: nxt_def)
  qed
  then have "n' = n" using n' by simp
  then show ?thesis using Some n' by simp
qed

text \<open>The heap after the new node was allocated, before it is linked.\<close>

lemma views_alloc:
  fixes h :: "('k, 'v) heap"
  defines "h1 p k v l \<equiv> h(p \<mapsto> new_node k v l)"
  shows "info (h1 p k v l) a = (if a = p then Some (k, v, l) else info h a)"
    and "nxt (h1 p k v l) i a = (if a = p then (if i < l then Some 0 else None) else nxt h i a)"
  by (simp_all add: h1_def info_def nxt_def new_node_def)

text \<open>The heap \<open>h'\<close> is \<open>h\<close> with the node \<open>p\<close> linked in after the stops \<open>st\<close> of its levels.\<close>

definition linked ::
  "('k, 'v) heap \<Rightarrow> addr \<Rightarrow> 'k \<Rightarrow> 'v \<Rightarrow> nat \<Rightarrow> (nat \<Rightarrow> addr) \<Rightarrow> ('k, 'v) heap \<Rightarrow> bool" where
  "linked h p k v l st h' \<longleftrightarrow>
     (\<forall>a. info h' a = (if a = p then Some (k, v, l) else info h a)) \<and>
     (\<forall>i a. nxt h' i a = (if i < l \<and> a = p then nxt h i (st i)
        else if i < l \<and> a = st i then Some p else if a = p then None else nxt h i a))"

lemma linkedD:
  assumes "linked h p k v l st h'"
  shows "a \<noteq> p \<Longrightarrow> height h' a = height h a" and "a \<noteq> p \<Longrightarrow> key h' a = key h a"
    and "a \<noteq> p \<Longrightarrow> val h' a = val h a" and "a \<noteq> p \<Longrightarrow> info h' a = info h a"
    and "height h' p = l" and "key h' p = k" and "val h' p = v"
    and "nxt h' i a = (if i < l \<and> a = p then nxt h i (st i)
        else if i < l \<and> a = st i then Some p else if a = p then None else nxt h i a)"
  using assms by (auto simp: linked_def height_def key_def val_def)

lemma stop_valid:
  assumes s: "sl_shape s (xs @ ys)" and p: "p \<notin> set (s_head s # (xs @ ys) @ [s_tail s])"
  defines "a i \<equiv> stop (s_heap s) (s_head s) xs i"
  shows "a i \<noteq> p" and "a i \<noteq> 0" and "i < MAX_LEVEL \<Longrightarrow> i < height (s_heap s) (a i)"
  using stop_in [of "s_heap s" "s_head s" xs i] p sl_shape_nonnull [OF s, of "a i"]
    nxt_Some_height [OF nxt_stop [OF s, of i]]
  by (auto simp: a_def)

lemma link_levels_linked:
  assumes s: "sl_shape s (xs @ ys)" and p: "p \<noteq> 0" "p \<notin> set (s_head s # (xs @ ys) @ [s_tail s])"
    and l: "l \<le> MAX_LEVEL"
    and prevs: "\<And>i. i < l \<Longrightarrow> prevs ! i = stop (s_heap s) (s_head s) xs i"
  shows "\<exists>h'. link_levels ((s_heap s)(p \<mapsto> new_node k v l)) prevs p l = Inr h' \<and>
    linked (s_heap s) p k v l (stop (s_heap s) (s_head s) xs) h'"
proof -
  let ?h = "s_heap s" and ?h1 = "(s_heap s)(p \<mapsto> new_node k v l)"
  note st = stop_valid [OF s p(2)]
  have "height ?h1 p = l" "\<And>a. a \<noteq> p \<Longrightarrow> height ?h1 a = height ?h a"
    by (simp_all add: height_def views_alloc)
  then obtain h' where h': "link_levels ?h1 prevs p l = Inr h'" "info h' = info ?h1"
    "\<And>i a. nxt h' i a = (if i < l \<and> a = p then nxt ?h1 i (prevs ! i)
       else if i < l \<and> a = prevs ! i then Some p else nxt ?h1 i a)"
    using link_levels_effect [of p l ?h1 prevs] p(1) prevs st l by auto
  moreover have "linked ?h p k v l (stop ?h (s_head s) xs) h'"
    unfolding linked_def using h'(2,3) prevs st(1) by (auto simp: views_alloc)
  ultimately show ?thesis by blast
qed

lemma linked_chain:
  assumes s: "sl_shape s (xs @ ys)" and p: "p \<notin> set (s_head s # (xs @ ys) @ [s_tail s])"
    and h': "linked (s_heap s) p k v l (stop (s_heap s) (s_head s) xs) h'" and i: "i < MAX_LEVEL"
  shows "chain (nxt h' i) (s_head s # level h' i (xs @ p # ys) @ [s_tail s])"
proof -
  let ?h = "s_heap s" and ?st = "stop (s_heap s) (s_head s) xs"
  let ?us = "butlast (s_head s # level ?h i xs)" and ?vs = "level ?h i ys @ [s_tail s]"
  have lev: "level h' i xs = level ?h i xs" "level h' i ys = level ?h i ys"
    using p by (auto intro!: level_cong linkedD(1) [OF h'])
  have ch: "chain (nxt ?h i) (?us @ ?st i # ?vs)"
    using sl_shapeD(12) [OF s i] by (simp only: level_split)
  have set: "set (?us @ ?st i # ?vs) \<subseteq> set (s_head s # (xs @ ys) @ [s_tail s])"
    unfolding level_split [symmetric] by (auto simp: set_level)
  have dist: "distinct (?us @ ?st i # ?vs)"
    unfolding level_split [symmetric] using sl_shapeD(1) [OF s] by (auto simp: level_def)
  note nx = linkedD(8) [OF h']
  show ?thesis
  proof (cases "i < l")
    case True
    have "p \<notin> set (?us @ ?st i # ?vs)" using set p by blast
    then have "chain (nxt h' i) (?us @ ?st i # p # ?vs)"
      using True stop_valid(1) [OF s p] by (intro chain_insert [OF ch _ dist]) (auto simp: nx)
    moreover have "s_head s # level h' i (xs @ p # ys) @ [s_tail s] = ?us @ ?st i # p # ?vs"
      using append_butlast_last_id [of "s_head s # level ?h i xs"] True lev linkedD(5) [OF h']
      by (simp add: level_def stop_def)
    ultimately show ?thesis by (simp only:)
  next
    case False
    have "nxt h' i a = nxt ?h i a" if "a \<in> set (?us @ ?st i # ?vs)" for a
      using that set p False nx [of i a] by auto
    then have "chain (nxt h' i) (?us @ ?st i # ?vs)"
      by (intro chain_cong [OF _ ch]) (auto simp only: dest!: in_set_butlastD)
    moreover have "level h' i (xs @ p # ys) = level ?h i (xs @ ys)"
      using False lev linkedD(5) [OF h'] by (simp add: level_def)
    ultimately show ?thesis by (simp only: level_split)
  qed
qed

lemma linked_shape:
  assumes s: "sl_shape s (xs @ ys)" and p: "p \<noteq> 0" "p \<notin> set (s_head s # (xs @ ys) @ [s_tail s])"
    and l: "1 \<le> l" "l \<le> MAX_LEVEL"
    and xs: "\<And>x. x \<in> set xs \<Longrightarrow> key (s_heap s) x \<le> k"
    and ys: "\<And>y. y \<in> set (ys @ [s_tail s]) \<Longrightarrow> k \<le> key (s_heap s) y"
    and h': "linked (s_heap s) p k v l (stop (s_heap s) (s_head s) xs) h'"
    and s': "s' = s\<lparr>s_heap := h', s_max_level := max (s_max_level s) l, s_length := s_length s + 1\<rparr>"
  shows "sl_shape s' (xs @ p # ys)" and "insert_frame s (xs @ ys) p k v s'"
proof -
  note D = sl_shapeD [OF s] and L = linkedD [OF h']
  have keys: "map (key h') xs = map (key (s_heap s)) xs" "map (key h') ys = map (key (s_heap s)) ys"
    using p(2) by (auto intro!: L(2))
  have "sorted (map (key h') (xs @ p # ys))"
    using D(10) xs ys L(6) by (simp add: keys sorted_append)
  moreover have "height h' (s_head s) = MAX_LEVEL" "height h' (s_tail s) = MAX_LEVEL"
    "key h' (s_tail s) = key (s_heap s) (s_tail s)"
    using p(2) D(3,4) L(1,2) by auto
  moreover have "nxt h' i (s_tail s) = Some 0" if "i < MAX_LEVEL" for i
  proof -
    have "s_tail s \<noteq> stop (s_heap s) (s_head s) xs i"
      using stop_in [of "s_heap s" "s_head s" xs i] D(1) by auto
    then show ?thesis using that p(2) D(5) L(8) by auto
  qed
  moreover have "1 \<le> height h' a \<and> height h' a \<le> max (s_max_level s) l \<and> key h' a \<le> key (s_heap s) (s_tail s)"
    if "a \<in> set (xs @ p # ys)" for a
    using that D(6,7,11) [of a] l ys [of "s_tail s"] L(1,2,5,6) by (cases "a = p") auto
  ultimately show "sl_shape s' (xs @ p # ys)"
    using D(1,2,8,9) p l linked_chain [OF s p(2) h'] by (auto simp: s' sl_shape_def)
  have "h' a = s_heap s a" if "a \<noteq> p" "a \<notin> set (s_head s # xs @ ys)" for a
  proof (rule heap_eqI)
    show "info h' a = info (s_heap s) a" using that L(4) by simp
    show "nxt h' i a = nxt (s_heap s) i a" for i
      using that L(8) stop_in [of "s_heap s" "s_head s" xs i] by auto
  qed
  then show "insert_frame s (xs @ ys) p k v s'"
    using L(4,6,7) by (auto simp: s' insert_frame_def)
qed

section \<open>Inserting\<close>

text \<open>
  The stops of a search are the nodes to link after also at the levels above the highest node,
  where they are the head.
\<close>

lemma stop_above:
  assumes s: "sl_shape s ns" and "set xs \<subseteq> set ns" and i: "s_max_level s \<le> i"
  shows "stop (s_heap s) (s_head s) xs i = s_head s"
proof -
  have "level (s_heap s) i xs = []"
    using sl_shapeD(7) [OF s] assms(2) i by (fastforce simp: level_def filter_empty_conv)
  then show ?thesis by (simp add: stop_def)
qed

lemma emplace_inserts:
  assumes s: "sl_shape s ns" and k: "k \<le> key (s_heap s) (s_tail s)"
    and p: "p \<noteq> 0" "p \<notin> set (s_head s # ns @ [s_tail s])"
  shows "\<exists>s'. emplace p draws k v s = Some (Inr (p, s')) \<and>
    sl_shape s' (lower s k ns @ p # upper s k ns) \<and> insert_frame s ns p k v s'"
proof -
  let ?xs = "lower s k ns" and ?ys = "upper s k ns" and ?l = "random_level draws"
  let ?st = "stop (s_heap s) (s_head s) (lower s k ns)"
  let ?s1 = "s\<lparr>s_length := s_length s + 1\<rparr>"
  let ?pv = "map (\<lambda>i. if i < s_max_level s then ?st i else 0) [0..<MAX_LEVEL]"
  let ?pv' = "if s_max_level s < ?l then raise_prevs (s_head s) (s_max_level s) ?l ?pv else ?pv"
  have s1: "sl_shape ?s1 ns" using s by (simp add: sl_shape_def)
  have sp: "sl_shape s (?xs @ ?ys)" and p': "p \<notin> set (s_head s # (?xs @ ?ys) @ [s_tail s])"
    using s p by (simp_all add: lower_upper flip: set_append)
  have fp: "find_prevs k ?s1 = Some (Inr ?pv)"
    using find_prevs_stops [OF s1] k by (simp add: lower_def)
  have l: "1 \<le> ?l" "?l \<le> MAX_LEVEL" by (rule random_level_bounds)+
  have above: "?st i = s_head s" if "s_max_level s \<le> i" for i
    using that by (intro stop_above [OF s]) (auto simp: lower_def dest: set_takeWhileD)
  have pv: "?pv' ! i = ?st i" if "i < ?l" for i
    using that l above [of i] by (auto simp: raise_prevs_def)
  obtain h' where h': "link_levels ((s_heap s)(p \<mapsto> new_node k v ?l)) ?pv' p ?l = Inr h'"
    "linked (s_heap s) p k v ?l ?st h'"
    using link_levels_linked [OF sp p(1) p' l(2) pv, of k v] by blast
  define s' where "s' = s\<lparr>s_heap := h', s_max_level := max (s_max_level s) ?l, s_length := s_length s + 1\<rparr>"
  have "emplace p draws k v s = Some (Inr (p, s'))"
    using h'(1) fp by (auto simp: emplace_def Let_def s'_def split: if_splits)
  moreover have "sl_shape s' (?xs @ p # ?ys)" and "insert_frame s (?xs @ ?ys) p k v s'"
    using linked_shape [OF sp p(1) p' l _ _ h'(2) s'_def] k lower_less [of _ s k ns] upper_geq [OF s, of _ k]
    by (fastforce simp: less_imp_le)+
  ultimately show ?thesis by (auto simp: lower_upper)
qed

text \<open>\<open>add\<close> is \<open>emplace\<close> on a pair.\<close>

lemma add_emplace: "add p draws (k, v) s = emplace p draws k v s"
  by (simp add: add_def emplace_def)

lemma entries_of_cong:
  assumes "\<And>a. a \<in> set xs \<Longrightarrow> info (s_heap s') a = info (s_heap s) a"
  shows "entries_of s' xs = entries_of s xs"
  unfolding entries_of_def using assms views_info(1,2) by (metis (no_types, lifting) map_eq_conv)

lemma entries_of_append [simp]: "entries_of s (xs @ ys) = entries_of s xs @ entries_of s ys"
  and entries_of_Cons [simp]:
    "entries_of s (a # xs) = (key (s_heap s) a, val (s_heap s) a) # entries_of s xs"
  and entries_of_Nil [simp]: "entries_of s [] = []"
  by (simp_all add: entries_of_def)

lemma entries_of_lower_upper:
  "entries_of s (lower s k ns) = takeWhile (\<lambda>e. fst e < k) (entries_of s ns)"
  "entries_of s (upper s k ns) = dropWhile (\<lambda>e. fst e < k) (entries_of s ns)"
  by (simp_all add: entries_of_def lower_def upper_def takeWhile_map dropWhile_map o_def)

lemma lower_upper_subset: "set (lower s k ns) \<subseteq> set ns" "set (upper s k ns) \<subseteq> set ns"
  by (auto simp: lower_def upper_def dest: set_takeWhileD set_dropWhileD)

lemma insert_frame_entries:
  assumes fr: "insert_frame s ns p k v s'" and p: "p \<notin> set ns"
  shows "entries_of s' (lower s k ns @ p # upper s k ns) = ins_entry k v (entries_of s ns)"
proof -
  have same: "entries_of s' xs = entries_of s xs" if "set xs \<subseteq> set ns" for xs
    using fr p that by (intro entries_of_cong) (auto simp: insert_frame_def)
  have "entries_of s' (lower s k ns @ p # upper s k ns) =
      entries_of s (lower s k ns) @ (k, v) # entries_of s (upper s k ns)"
    using fr same [OF lower_upper_subset(1) [of s k ns]] same [OF lower_upper_subset(2) [of s k ns]]
    by (simp add: insert_frame_def)
  then show ?thesis by (simp add: entries_of_lower_upper ins_entry_def)
qed

end
