(* ===== verification/Skiplist_Remove.thy ===== *)
theory Skiplist_Remove
  imports Skiplist_Insert
begin

text \<open>
  Removing from a skip list: erasing one entry, and popping every entry up to a key, with or
  without a callback. Also the destructor and the checker.
\<close>

section \<open>Lowering the level\<close>

lemma shape_frame:
  assumes s: "sl_shape s ns"
    and h': "\<And>a. a \<in> set (s_head s # ns @ [s_tail s]) \<Longrightarrow> h' a = s_heap s a"
  shows "sl_shape (s\<lparr>s_heap := h'\<rparr>) ns"
proof -
  let ?l = "set (s_head s # ns @ [s_tail s])"
  have info: "a \<in> ?l \<Longrightarrow> info h' a = info (s_heap s) a" for a
    using h' by (simp add: info_def)
  have nx: "a \<in> ?l \<Longrightarrow> nxt h' i a = nxt (s_heap s) i a" for a i
    using h' by (simp add: nxt_def)
  have keys: "a \<in> ?l \<Longrightarrow> key h' a = key (s_heap s) a" "a \<in> ?l \<Longrightarrow> height h' a = height (s_heap s) a" for a
    using info views_info(1,3) by blast+
  have lev: "level h' i ns = level (s_heap s) i ns" for i
    using keys by (intro level_cong) simp
  have "chain (nxt h' i) (s_head s # level h' i ns @ [s_tail s])" if "i < MAX_LEVEL" for i
    unfolding lev
    by (rule chain_cong [OF nx sl_shapeD(12) [OF s that]])
       (auto simp: set_level butlast_append split: if_splits)
  moreover have "map (key h') ns = map (key (s_heap s)) ns" using keys by simp
  then have "sorted (map (key h') ns)" using sl_shapeD(10) [OF s] by (simp only:)
  ultimately show ?thesis
    using s keys nx by (simp add: sl_shape_def)
qed

lemma trim_level_effect:
  assumes "head \<noteq> 0" and "m \<le> height h head" and "1 \<le> m"
  shows "\<exists>m'. trim_level h head tail m = Inr m' \<and> 1 \<le> m' \<and> m' \<le> m \<and>
    (\<forall>i. m' \<le> i \<longrightarrow> i < m \<longrightarrow> nxt h i head = Some tail)"
  using assms(2,3)
proof (induction m)
  case (Suc m)
  show ?case
  proof (cases "0 < m")
    case True
    obtain b where b: "nxt h m head = Some b" using nxt_defined [of h m head] Suc.prems by auto
    show ?thesis
    proof (cases "b = tail")
      case True
      with Suc \<open>0 < m\<close> obtain m' where "trim_level h head tail m = Inr m'" "1 \<le> m'" "m' \<le> m"
        "\<forall>i. m' \<le> i \<longrightarrow> i < m \<longrightarrow> nxt h i head = Some tail" by auto
      then show ?thesis
        using True \<open>0 < m\<close> b level_next_nxt [OF assms(1) b] by (auto simp: less_Suc_eq)
    next
      case False
      then show ?thesis using \<open>0 < m\<close> level_next_nxt [OF assms(1) b] by auto
    qed
  qed auto
qed simp

text \<open>Trimming keeps the shape: no node is higher than the level that remains.\<close>

lemma trim_shape:
  assumes s: "sl_shape s ns"
  shows "\<exists>m. trim_level (s_heap s) (s_head s) (s_tail s) (s_max_level s) = Inr m \<and>
    sl_shape (s\<lparr>s_max_level := m\<rparr>) ns"
proof -
  note D = sl_shapeD [OF s]
  obtain m where m: "trim_level (s_heap s) (s_head s) (s_tail s) (s_max_level s) = Inr m"
    "1 \<le> m" "m \<le> s_max_level s"
    "\<And>i. m \<le> i \<Longrightarrow> i < s_max_level s \<Longrightarrow> nxt (s_heap s) i (s_head s) = Some (s_tail s)"
    using trim_level_effect [of "s_head s" "s_max_level s" "s_heap s" "s_tail s"]
      D(3,8,9) sl_shape_nonnull [OF s, of "s_head s"] by auto
  have "height (s_heap s) a \<le> m" if a: "a \<in> set ns" for a
  proof (rule ccontr)
    let ?i = "height (s_heap s) a - 1"
    assume "\<not> height (s_heap s) a \<le> m"
    then have i: "m \<le> ?i" "?i < s_max_level s" using D(6,7) [OF a] by auto
    then have "a \<in> set (level (s_heap s) ?i ns)" using a D(6) [OF a] by (simp add: set_level)
    then obtain b bs where b: "level (s_heap s) ?i ns = b # bs" by (cases "level (s_heap s) ?i ns") auto
    have "nxt (s_heap s) ?i (s_head s) = Some b" using D(12) [of ?i] i D(9) b by simp
    then have "b = s_tail s" using m(4) i by simp
    moreover have "b \<in> set ns" using b set_level [of b "s_heap s" ?i ns] by simp
    ultimately show False using D(1) by auto
  qed
  then show ?thesis using s m by (auto simp: sl_shape_def)
qed

section \<open>Unlinking one node\<close>

lemma unlink_levels_effect:
  assumes "del \<noteq> 0"
    and "\<And>j. i \<le> j \<Longrightarrow> j < i + n \<Longrightarrow>
      prevs ! j \<noteq> 0 \<and> prevs ! j \<noteq> del \<and> j < height h (prevs ! j) \<and> j < height h del"
  shows "\<exists>h'. unlink_levels h prevs del i n = Inr h' \<and> info h' = info h \<and>
    (\<forall>j a. nxt h' j a = (if i \<le> j \<and> j < i + n \<and> a = prevs ! j then nxt h j del else nxt h j a))"
  using assms(2)
proof (induction n arbitrary: i h)
  case 0
  then show ?case by auto
next
  case (Suc n)
  let ?p = "prevs ! i"
  have p: "?p \<noteq> 0" "?p \<noteq> del" "i < height h ?p" "i < height h del" using Suc.prems [of i] by auto
  then obtain b where b: "nxt h i del = Some b" using nxt_defined [of h i del] by auto
  let ?h1 = "put h ?p i b"
  obtain h' where h': "unlink_levels ?h1 prevs del (Suc i) n = Inr h'" "info h' = info ?h1"
    "\<And>j a. nxt h' j a = (if Suc i \<le> j \<and> j < Suc i + n \<and> a = prevs ! j then nxt ?h1 j del else nxt ?h1 j a)"
    using Suc.IH [of "Suc i" ?h1] Suc.prems by (auto simp: heap_simps)
  have "unlink_levels h prevs del i (Suc n) = Inr h'"
    using h'(1) level_next_nxt [OF assms(1) b] set_level_next_put [OF p(1,3)] by simp
  moreover have "nxt h' j a =
      (if i \<le> j \<and> j < i + Suc n \<and> a = prevs ! j then nxt h j del else nxt h j a)" for j a
    using h'(3) [of j a] b p by (cases "j = i") (auto simp: heap_simps)
  ultimately show ?case using h'(2) by (auto simp: info_put)
qed

lemma chain_remove:
  assumes "chain nx (us @ a # p # vs)" and "vs \<noteq> []" and "distinct (us @ a # p # vs)"
    and "nx' a = nx p" and "\<And>x. x \<noteq> a \<Longrightarrow> x \<noteq> p \<Longrightarrow> nx' x = nx x"
  shows "chain nx' (us @ a # vs)"
proof -
  have ch: "chain nx (us @ [a])" "chain nx (a # p # vs)"
    using assms(1) chain_append [of nx us a "p # vs"] by auto
  then have "nx p = Some (hd vs)" "chain nx vs" by (simp_all add: chain_Cons assms(2))
  moreover from this(2) have "chain nx' vs"
    using assms(3) by (elim chain_cong [rotated], intro assms(5)) (auto dest: in_set_butlastD)
  moreover have "chain nx' (us @ [a])"
    using assms(3) by (intro chain_cong [OF _ ch(1)] assms(5)) auto
  ultimately show ?thesis
    using assms(2,4) chain_append [of nx' us a vs] by (simp add: chain_Cons)
qed

lemma unlinked_chain:
  assumes s: "sl_shape s (xs @ d # ys)" and i: "i < MAX_LEVEL"
    and info: "\<And>a. a \<noteq> d \<Longrightarrow> info h' a = info (s_heap s) a"
    and nx: "\<And>j a. a \<noteq> d \<Longrightarrow> nxt h' j a = (if j < height (s_heap s) d \<and>
      a = stop (s_heap s) (s_head s) xs j then nxt (s_heap s) j d else nxt (s_heap s) j a)"
  shows "chain (nxt h' i) (s_head s # level h' i (xs @ ys) @ [s_tail s])"
proof -
  let ?h = "s_heap s" and ?st = "stop (s_heap s) (s_head s) xs"
  let ?us = "butlast (s_head s # level ?h i xs)" and ?vs = "level ?h i ys @ [s_tail s]"
  have dd: "distinct (s_head s # (xs @ d # ys) @ [s_tail s])" using sl_shapeD(1) [OF s] .
  have lev: "level h' i (xs @ ys) = level ?h i (xs @ ys)"
    using dd by (intro level_cong views_info(3) info) auto
  have ch: "chain (nxt ?h i) (?us @ ?st i # level ?h i (d # ys) @ [s_tail s])"
    using sl_shapeD(12) [OF s i] by (simp only: level_split)
  have dist: "distinct (?us @ ?st i # level ?h i (d # ys) @ [s_tail s])"
    unfolding level_split [symmetric] using dd by (auto simp: level_def)
  have "?st i \<noteq> d" using stop_in [of ?h "s_head s" xs i] dd by auto
  have "chain (nxt h' i) (?us @ ?st i # ?vs)"
  proof (cases "i < height ?h d")
    case True
    then have lv: "level ?h i (d # ys) = d # level ?h i ys" by (simp add: level_def)
    then have "chain (nxt ?h i) (?us @ ?st i # d # ?vs)" "distinct (?us @ ?st i # d # ?vs)"
      using ch dist by (simp_all only: append_Cons)
    then show ?thesis
      using True \<open>?st i \<noteq> d\<close> by (elim chain_remove) (simp_all add: nx)
  next
    case False
    then have lv: "level ?h i (d # ys) = level ?h i ys" by (simp add: level_def)
    have "d \<notin> set (?us @ ?st i # ?vs)"
      unfolding level_split [symmetric] using dd by (auto simp: set_level)
    moreover have "nxt h' i x = nxt ?h i x" if "x \<noteq> d" for x
      using nx [OF that, of i] False by simp
    ultimately show ?thesis by (rule chain_avoid [OF ch [unfolded lv]])
  qed
  then show ?thesis unfolding lev by (simp only: level_split)
qed

lemma unlinked_shape:
  assumes s: "sl_shape s (xs @ d # ys)"
    and info: "\<And>a. a \<noteq> d \<Longrightarrow> info h' a = info (s_heap s) a"
    and nx: "\<And>j a. a \<noteq> d \<Longrightarrow> nxt h' j a = (if j < height (s_heap s) d \<and>
      a = stop (s_heap s) (s_head s) xs j then nxt (s_heap s) j d else nxt (s_heap s) j a)"
  shows "sl_shape (s\<lparr>s_heap := h'\<rparr>) (xs @ ys)"
proof -
  note D = sl_shapeD [OF s]
  have same: "height h' a = height (s_heap s) a" "key h' a = key (s_heap s) a" if "a \<noteq> d" for a
    using that by (auto intro: views_info info)
  have "map (key h') (xs @ ys) = map (key (s_heap s)) (xs @ ys)"
    using D(1) by (intro map_cong same(2)) auto
  moreover have "sorted (map (key (s_heap s)) (xs @ ys))"
    using D(10) by (auto simp: sorted_append)
  ultimately have "sorted (map (key h') (xs @ ys))" by (simp only:)
  moreover have "nxt h' i (s_tail s) = Some 0" if "i < MAX_LEVEL" for i
    using that D(1,5) stop_in [of "s_heap s" "s_head s" xs i] nx [of "s_tail s" i] by auto
  moreover have "height h' a = height (s_heap s) a \<and> key h' a = key (s_heap s) a"
    if "a \<in> set (s_head s # (xs @ ys) @ [s_tail s])" for a
    using that D(1) same [of a] by auto
  ultimately show ?thesis
    using D unlinked_chain [OF s _ info nx] by (simp add: sl_shape_def)
qed

lemma stop_before:
  assumes s: "sl_shape s (xs @ d # ys)" and j: "j < MAX_LEVEL"
  defines "a \<equiv> stop (s_heap s) (s_head s) xs j"
  shows "a \<noteq> 0 \<and> a \<noteq> d \<and> j < height (s_heap s) a"
  using stop_in [of "s_heap s" "s_head s" xs j] sl_shapeD(1) [OF s] sl_shape_nonnull [OF s, of a]
    nxt_Some_height [OF nxt_stop [OF s j]] by (auto simp: a_def)

lemma unlink_node:
  assumes s: "sl_shape s (xs @ d # ys)"
    and pv: "\<And>i. i < s_max_level s \<Longrightarrow> pv ! i = stop (s_heap s) (s_head s) xs i"
  shows "\<exists>h'. unlink_levels (s_heap s) pv d 0 (height (s_heap s) d) = Inr h' \<and>
    info h' = info (s_heap s) \<and> sl_shape (s\<lparr>s_heap := h'(d := None)\<rparr>) (xs @ ys)"
proof -
  let ?h = "s_heap s" and ?st = "stop (s_heap s) (s_head s) xs"
  note D = sl_shapeD [OF s]
  have hd: "height ?h d \<le> s_max_level s" using D(7) [of d] by auto
  have d0: "d \<noteq> 0" by (intro sl_shape_nonnull [OF s]) simp
  have "pv ! j \<noteq> 0 \<and> pv ! j \<noteq> d \<and> j < height ?h (pv ! j) \<and> j < height ?h d"
    if "j < height ?h d" for j
    using that stop_before [OF s, of j] pv [of j] hd D(9) by auto
  then obtain h' where
    h': "unlink_levels ?h pv d 0 (height ?h d) = Inr h'" "info h' = info ?h"
    "\<And>j a. nxt h' j a = (if j < height ?h d \<and> a = pv ! j then nxt ?h j d else nxt ?h j a)"
    using unlink_levels_effect [OF d0, of 0 "height ?h d" pv ?h] by auto
  have "sl_shape (s\<lparr>s_heap := h'(d := None)\<rparr>) (xs @ ys)"
  proof (rule unlinked_shape [OF s])
    show "info (h'(d := None)) a = info ?h a" if "a \<noteq> d" for a
      using that fun_cong [OF h'(2), of a] by (simp add: info_def)
    show "nxt (h'(d := None)) j a = (if j < height ?h d \<and> a = ?st j then nxt ?h j d else nxt ?h j a)"
      if "a \<noteq> d" for j a
    proof -
      have "nxt (h'(d := None)) j a = nxt h' j a" using that by (simp add: nxt_def)
      then show ?thesis using h'(3) [of j a] pv [of j] hd by auto
    qed
  qed
  then show ?thesis using h' by blast
qed

lemma erase_one_hit:
  assumes s: "sl_shape s ns" and k: "k < key (s_heap s) (s_tail s)"
    and up: "upper s k ns = d # ys" and d: "key (s_heap s) d = k"
  shows "\<exists>s'. erase_one k s = Some (Inr (True, s')) \<and> sl_shape s' (lower s k ns @ ys) \<and>
    s_length s' = s_length s - 1 \<and> entries_of s' (lower s k ns @ ys) = entries_of s (lower s k ns @ ys) \<and>
    s_tail s' = s_tail s \<and> info (s_heap s') (s_tail s) = info (s_heap s) (s_tail s)"
proof -
  let ?xs = "lower s k ns" and ?h = "s_heap s" and ?st = "stop (s_heap s) (s_head s) (lower s k ns)"
  have s1: "sl_shape s (?xs @ d # ys)" using s up lower_upper [of s k ns] by simp
  define pv where "pv = map (\<lambda>i. if i < s_max_level s then ?st i else 0) [0..<MAX_LEVEL]"
  have fp: "find_prevs k s = Some (Inr pv)"
    using find_prevs_stops [OF s] k by (simp add: pv_def)
  have pv: "pv ! i = ?st i" if "i < s_max_level s" for i
    using that sl_shapeD(9) [OF s] by (simp add: pv_def)
  obtain n where n: "node_load ?h d = Inr n" "n_key n = k" "length (n_next n) = height ?h d"
    using entry_load [OF s1, of d] d by auto
  have d0: "d \<noteq> 0" by (intro sl_shape_nonnull [OF s1]) simp
  have nx: "level_next ?h (pv ! 0) 0 = Inr d"
    using search_next [OF s, of k] up pv [of 0] sl_shapeD(8) [OF s] by simp
  obtain h' where h': "unlink_levels ?h pv d 0 (height ?h d) = Inr h'" "info h' = info ?h"
    "sl_shape (s\<lparr>s_heap := h'(d := None)\<rparr>) (?xs @ ys)"
    using unlink_node [OF s1 pv] by auto
  obtain m where m: "trim_level (h'(d := None)) (s_head s) (s_tail s) (s_max_level s) = Inr m"
    "sl_shape (s\<lparr>s_heap := h'(d := None), s_max_level := m\<rparr>) (?xs @ ys)"
    using trim_shape [OF h'(3)] by auto
  define s' where "s' = s\<lparr>s_heap := h'(d := None), s_max_level := m, s_length := s_length s - 1\<rparr>"
  have "erase_one k s = Some (Inr (True, s'))"
    using fp nx n d0 h'(1) m(1) by (simp add: erase_one_def s'_def Let_def)
  moreover have "sl_shape s' (?xs @ ys)" using m(2) by (simp add: s'_def sl_shape_def)
  moreover have "entries_of s' (?xs @ ys) = entries_of s (?xs @ ys)"
    using sl_shapeD(1) [OF s1] fun_cong [OF h'(2)]
    by (intro entries_of_cong) (auto simp: s'_def info_def)
  moreover have "info (s_heap s') (s_tail s) = info (s_heap s) (s_tail s)"
    using sl_shapeD(1) [OF s1] fun_cong [OF h'(2)] by (auto simp: s'_def info_def)
  ultimately show ?thesis by (auto simp: s'_def)
qed

lemma erase_one_miss:
  assumes s: "sl_shape s ns" and k: "k < key (s_heap s) (s_tail s)"
    and miss: "k \<notin> fst ` set (entries_of s ns)"
  shows "erase_one k s = Some (Inr (False, s))"
proof -
  let ?a = "hd (upper s k ns @ [s_tail s])"
  have a: "?a \<in> set (ns @ [s_tail s])"
    using lower_upper_subset(2) [of s k ns] by (cases "upper s k ns") auto
  obtain n where n: "node_load (s_heap s) ?a = Inr n" "n_key n = key (s_heap s) ?a"
    using entry_load [OF s a] by blast
  have "n_key n \<noteq> k" using n hd_upper_key [OF s k] miss by (auto simp: entries_of_def image_image)
  moreover have "level_next (s_heap s) (map (\<lambda>i. if i < s_max_level s
      then stop (s_heap s) (s_head s) (lower s k ns) i else 0) [0..<MAX_LEVEL] ! 0) 0 = Inr ?a"
    using search_next [OF s, of k] sl_shapeD(8) [OF s] by (simp add: MAX_LEVEL_def)
  moreover have "?a \<noteq> 0" using a by (intro sl_shape_nonnull [OF s]) auto
  ultimately show ?thesis
    using find_prevs_stops [OF s less_imp_le [OF k]] n by (simp add: erase_one_def)
qed

section \<open>Popping everything up to a key\<close>

definition due :: "('k::linorder, 'v) skiplist \<Rightarrow> 'k \<Rightarrow> addr list \<Rightarrow> addr list" where
  "due s k ns = takeWhile (\<lambda>a. key (s_heap s) a \<le> k) ns"

definition later :: "('k::linorder, 'v) skiplist \<Rightarrow> 'k \<Rightarrow> addr list \<Rightarrow> addr list" where
  "later s k ns = dropWhile (\<lambda>a. key (s_heap s) a \<le> k) ns"

lemma due_later: "due s k ns @ later s k ns = ns"
  by (simp add: due_def later_def)

lemma later_greater: "sl_shape s ns \<Longrightarrow> a \<in> set (later s k ns) \<Longrightarrow> k < key (s_heap s) a"
  using sorted_dropWhile_all [of "key (s_heap s)" ns "\<lambda>x. x \<le> k" a] sl_shapeD(10) [of s ns]
  by (fastforce simp: later_def)

lemma due_apart:
  assumes "sl_shape s ns"
  shows "distinct (s_head s # (due s k ns @ later s k ns) @ [s_tail s])" and "0 \<notin> set (due s k ns)"
  using sl_shapeD(1,2) [OF assms] by (simp_all add: due_later flip: set_append)
    (auto simp: due_def dest: set_takeWhileD)

lemma find_upper_prevs_stops:
  assumes s: "sl_shape s ns" and k: "k < key (s_heap s) (s_tail s)"
  shows "find_upper_prevs k s = Some (Inr (map (\<lambda>i. if i < s_max_level s
    then stop (s_heap s) (s_head s) (due s k ns) i else 0) [0..<MAX_LEVEL]))"
proof -
  have s': "sl_shape s (due s k ns @ later s k ns)" using s by (simp add: due_later)
  have "a \<in> set (due s k ns) \<Longrightarrow> key (s_heap s) a \<le> k" for a
    by (auto simp: due_def dest: set_takeWhileD)
  moreover have "a \<in> set (later s k ns @ [s_tail s]) \<Longrightarrow> \<not> key (s_heap s) a \<le> k" for a
    using later_greater [OF s, of a k] k by auto
  ultimately show ?thesis
    using sl_shapeD(9) [OF s] descend_stops [OF s', of "\<lambda>k'. k \<ge> k'" "s_max_level s" "s_head s"
        "replicate MAX_LEVEL 0"]
    by (simp add: find_upper_prevs_def cong: map_cong)
qed

lemma cut_levels_effect:
  assumes "head \<noteq> 0"
    and "\<And>j. i \<le> j \<Longrightarrow> j < i + n \<Longrightarrow> prevs ! j \<noteq> 0 \<and> j < height h (prevs ! j) \<and> j < height h head"
  shows "\<exists>h'. cut_levels h prevs head i n = Inr h' \<and> info h' = info h \<and>
    (\<forall>j a. nxt h' j a =
      (if i \<le> j \<and> j < i + n \<and> a = head then nxt h j (prevs ! j)
       else if i \<le> j \<and> j < i + n \<and> a = prevs ! j then Some 0 else nxt h j a))"
  using assms(2)
proof (induction n arbitrary: i h)
  case 0
  then show ?case by auto
next
  case (Suc n)
  let ?p = "prevs ! i"
  have p: "?p \<noteq> 0" "i < height h ?p" "i < height h head" using Suc.prems [of i] by auto
  then obtain b where b: "nxt h i ?p = Some b" using nxt_defined [of h i ?p] by auto
  define h1 where "h1 = put h head i b"
  define h2 where "h2 = (if ?p \<noteq> head then put h1 ?p i 0 else h1)"
  have views: "info h2 = info h" "height h2 = height h" "height h1 = height h"
    by (simp_all add: h1_def h2_def heap_simps)
  have pre: "prevs ! j \<noteq> 0 \<and> j < height h2 (prevs ! j) \<and> j < height h2 head"
    if "Suc i \<le> j" "j < Suc i + n" for j
    using Suc.prems [of j] that views(2) by simp
  obtain h' where h': "cut_levels h2 prevs head (Suc i) n = Inr h'" "info h' = info h2"
    "\<And>j a. nxt h' j a =
      (if Suc i \<le> j \<and> j < Suc i + n \<and> a = head then nxt h2 j (prevs ! j)
       else if Suc i \<le> j \<and> j < Suc i + n \<and> a = prevs ! j then Some 0 else nxt h2 j a)"
    using Suc.IH [of "Suc i" h2, OF pre] by blast
  have set1: "set_level_next h head i b = Inr h1"
    unfolding h1_def by (rule set_level_next_put [OF assms(1) p(3)])
  have set2: "(if ?p \<noteq> head then set_level_next h1 ?p i 0 else Inr h1) = Inr h2"
    using set_level_next_put [of ?p i h1 0] p(1,2) views(3) by (simp add: h2_def)
  have cut: "cut_levels h prevs head i (Suc n) = Inr h'"
    by (simp only: cut_levels.simps level_next_nxt [OF p(1) b] set1 set2 res_bind_simps h'(1))
  have nx2: "nxt h2 j a = (if j = i \<and> a = head then Some b
      else if j = i \<and> a = ?p then Some 0 else nxt h j a)" for j a
    using p(2,3) by (cases "?p = head") (auto simp: h2_def h1_def nxt_put height_put)
  have "nxt h' j a =
      (if i \<le> j \<and> j < i + Suc n \<and> a = head then nxt h j (prevs ! j)
       else if i \<le> j \<and> j < i + Suc n \<and> a = prevs ! j then Some 0 else nxt h j a)" for j a
    unfolding h'(3) nx2 using b by (cases "j = i") auto
  moreover have "info h' = info h" using h'(2) views(1) by simp
  ultimately show ?case using cut by (intro exI [of _ h'] conjI allI)
qed

text \<open>
  After the cut the head leads to the nodes \<open>ys\<close> that stay, and the nodes \<open>xs\<close> cut off are a
  null-terminated chain.
\<close>

lemma cut_off_chain:
  assumes s: "sl_shape s (xs @ ys)" and xs: "xs \<noteq> []"
    and nx: "\<And>a. a \<noteq> s_head s \<Longrightarrow> nx a =
      (if a = stop (s_heap s) (s_head s) xs 0 then Some 0 else nxt (s_heap s) 0 a)"
  shows "chain nx (xs @ [0])"
proof -
  note D = sl_shapeD [OF s]
  have l0: "level (s_heap s) 0 (xs @ ys) = xs @ ys" "level (s_heap s) 0 xs = xs"
    using level_zero [OF s, of "xs @ ys"] level_zero [OF s, of xs] by auto
  obtain us l where us: "xs = us @ [l]" using xs by (cases xs rule: rev_cases) auto
  have st: "stop (s_heap s) (s_head s) xs 0 = l" unfolding stop_def l0(2) using us by simp
  have "chain (nxt (s_heap s) 0) (s_head s # us @ l # ys @ [s_tail s])"
    using D(12) [of 0] l0(1) us by (simp add: MAX_LEVEL_def del: level_append)
  then have "chain (nxt (s_heap s) 0) (us @ l # ys @ [s_tail s])" by (simp add: chain_Cons)
  then have ch: "chain (nxt (s_heap s) 0) (us @ [l])"
    by (rule chain_append [THEN iffD1, THEN conjunct1])
  have "nx x = nxt (s_heap s) 0 x" if "x \<in> set us" for x
  proof -
    have "x \<noteq> s_head s" "x \<noteq> l" using that D(1) us by auto
    then show ?thesis using nx [of x] st by simp
  qed
  then have "chain nx (us @ [l])" by (intro chain_cong [OF _ ch]) simp
  moreover have "nx l = Some 0" using D(1) us st nx [of l] by auto
  ultimately show ?thesis using us chain_append [of nx us l "[0]"] by simp
qed

lemma cut_shape:
  assumes s: "sl_shape s (xs @ ys)" and xs: "xs \<noteq> []"
    and pv: "\<And>i. i < s_max_level s \<Longrightarrow> pv ! i = stop (s_heap s) (s_head s) xs i"
  shows "\<exists>h'. cut_levels (s_heap s) pv (s_head s) 0 (s_max_level s) = Inr h' \<and>
    info h' = info (s_heap s) \<and> sl_shape (s\<lparr>s_heap := h'\<rparr>) ys \<and> chain (nxt h' 0) (xs @ [0])"
proof -
  let ?h = "s_heap s" and ?st = "stop (s_heap s) (s_head s) xs"
  note D = sl_shapeD [OF s]
  have h0: "s_head s \<noteq> 0" by (intro sl_shape_nonnull [OF s]) simp
  have st: "?st j \<noteq> 0" "j < MAX_LEVEL \<Longrightarrow> j < height ?h (?st j)" for j
    using stop_in [of ?h "s_head s" xs j] sl_shape_nonnull [OF s, of "?st j"]
      nxt_Some_height [OF nxt_stop [OF s, of j]] by auto
  obtain h' where h': "cut_levels ?h pv (s_head s) 0 (s_max_level s) = Inr h'" "info h' = info ?h"
    "\<And>j a. nxt h' j a = (if j < s_max_level s \<and> a = s_head s then nxt ?h j (pv ! j)
       else if j < s_max_level s \<and> a = pv ! j then Some 0 else nxt ?h j a)"
    using cut_levels_effect [OF h0, of 0 "s_max_level s" pv ?h] st pv D(3,9) by auto
  have nx: "nxt h' j a = (if a = s_head s then nxt ?h j (?st j)
       else if j < s_max_level s \<and> a = ?st j then Some 0 else nxt ?h j a)" for j a
    using h'(3) [of j a] pv [of j] stop_above [OF s, of xs j] by auto
  have views: "key h' = key ?h" "height h' = height ?h" "level h' = level ?h"
    using h'(2) by (simp_all add: fun_eq_iff key_def height_def level_def)
  have nst: "a \<noteq> ?st j" "a \<noteq> s_head s" if "a \<in> set (ys @ [s_tail s])" for a j
    using that stop_in [of ?h "s_head s" xs j] D(1) by auto
  have "chain (nxt h' i) (s_head s # level h' i ys @ [s_tail s])" if i: "i < MAX_LEVEL" for i
  proof -
    have "chain (nxt ?h i) (?st i # level ?h i ys @ [s_tail s])"
      using D(12) [OF i] unfolding level_split by (rule chain_append [THEN iffD1, THEN conjunct2])
    then have ch: "chain (nxt ?h i) (level ?h i ys @ [s_tail s])" by (simp add: chain_Cons)
    have "nxt h' i a = nxt ?h i a" if "a \<in> set (level ?h i ys @ [s_tail s])" for a
      using nx [of i a] nst [of a] that by (auto simp: set_level)
    then have "chain (nxt h' i) (level ?h i ys @ [s_tail s])"
      by (intro chain_cong [OF _ ch]) (auto simp only: dest!: in_set_butlastD)
    then show ?thesis using nx [of i "s_head s"] nxt_stop [OF s i] by (simp add: chain_Cons views)
  qed
  moreover have "nxt h' i (s_tail s) = Some 0" if "i < MAX_LEVEL" for i
    using nx [of i "s_tail s"] nst [of "s_tail s"] D(5) [OF that] by simp
  moreover have "sorted (map (key ?h) ys)" using D(10) by (simp add: sorted_append)
  ultimately have "sl_shape (s\<lparr>s_heap := h'\<rparr>) ys"
    using D by (auto simp: sl_shape_def views)
  moreover have "chain (nxt h' 0) (xs @ [0])"
    using nx [of 0] D(8) by (intro cut_off_chain [OF s xs]) auto
  ultimately show ?thesis using h' by blast
qed

text \<open>The heap without the nodes \<open>xs\<close>.\<close>

definition free_all :: "addr list \<Rightarrow> ('k, 'v) heap \<Rightarrow> ('k, 'v) heap" where
  "free_all xs h = (\<lambda>a. if a \<in> set xs then None else h a)"

lemma free_all_Cons: "free_all xs (h(x := None)) = free_all (x # xs) h"
  by (auto simp: free_all_def)

lemma chain_upd_other:
  assumes "chain (nxt h i) (x # xs)" and "x \<notin> set xs"
  shows "chain (nxt (h(x := m)) i) xs"
proof -
  have "chain (nxt h i) xs" using assms(1) by (cases xs) auto
  then show ?thesis using assms(2) by (rule chain_avoid) (simp add: nxt_def)
qed

lemma chain_dom:
  "chain (nxt h i) (xs @ [y]) \<Longrightarrow> set xs \<subseteq> dom h"
proof (induction xs)
  case (Cons x xs)
  then have "nxt h i x \<noteq> None" "chain (nxt h i) (xs @ [y])" by (auto simp: chain_Cons)
  moreover from this(1) have "x \<in> dom h" by (auto simp: nxt_def split: option.splits)
  ultimately show ?case using Cons.IH by simp
qed simp

lemma pop_nodes_chain:
  assumes "chain (nxt h 0) (xs @ [0])" and "distinct xs" and "0 \<notin> set xs"
  shows "pop_nodes h (hd (xs @ [0])) res = Some (Inr (res @ map (val h) xs, free_all xs h))"
  using assms
proof (induction xs arbitrary: h res)
  case Nil
  then show ?case by (subst pop_nodes.simps) (simp add: free_all_def)
next
  case (Cons x xs)
  have x: "x \<noteq> 0" "nxt h 0 x = Some (hd (xs @ [0]))" using Cons.prems by (auto simp: chain_Cons)
  obtain n where n: "node_load h x = Inr n" "n_val n = val h x"
    using node_load_info [OF x(1) nxt_Some_height [OF x(2)]] by blast
  have d: "distinct xs" "0 \<notin> set xs" using Cons.prems by auto
  let ?h = "h(x := None)"
  have "chain (nxt ?h 0) (xs @ [0])"
    using chain_upd_other [of h 0 x "xs @ [0]" None] Cons.prems by auto
  then have "pop_nodes ?h (hd (xs @ [0])) (res @ [val h x]) =
      Some (Inr ((res @ [val h x]) @ map (val ?h) xs, free_all xs ?h))"
    by (rule Cons.IH [OF _ d])
  moreover have "map (val ?h) xs = map (val h) xs"
    using Cons.prems by (auto simp: val_def info_def)
  ultimately show ?case
    using x n level_next_nxt [OF x] by (subst pop_nodes.simps) (simp add: free_all_Cons)
qed

lemma due_nil: "stop h head [] i = head"
  by (simp add: stop_def)

lemma stop_head_iff:
  assumes s: "sl_shape s (xs @ ys)"
  shows "stop (s_heap s) (s_head s) xs 0 = s_head s \<longleftrightarrow> xs = []"
proof -
  have "level (s_heap s) 0 xs = xs" using level_zero [OF s, of xs] by auto
  moreover have "last xs \<noteq> s_head s" if "xs \<noteq> []"
    using sl_shapeD(1) [OF s] last_in_set [OF that] by (auto simp del: last_in_set)
  ultimately show ?thesis by (simp add: stop_def)
qed

text \<open>What both popping operations do before they visit the nodes.\<close>

lemma pop_cut:
  assumes s: "sl_shape s ns" and k: "k < key (s_heap s) (s_tail s)" and due: "due s k ns \<noteq> []"
  shows "\<exists>pv h. find_upper_prevs k s = Some (Inr pv) \<and> pv ! 0 \<noteq> s_head s \<and>
    level_next (s_heap s) (s_head s) 0 = Inr (hd (due s k ns @ [0])) \<and>
    cut_levels (s_heap s) pv (s_head s) 0 (s_max_level s) = Inr h \<and> info h = info (s_heap s) \<and>
    sl_shape (s\<lparr>s_heap := h\<rparr>) (later s k ns) \<and> chain (nxt h 0) (due s k ns @ [0])"
proof -
  have s': "sl_shape s (due s k ns @ later s k ns)" using s by (simp add: due_later)
  define pv where "pv = map (\<lambda>i. if i < s_max_level s
    then stop (s_heap s) (s_head s) (due s k ns) i else 0) [0..<MAX_LEVEL]"
  have pv: "pv ! i = stop (s_heap s) (s_head s) (due s k ns) i" if "i < s_max_level s" for i
    using that sl_shapeD(9) [OF s] by (simp add: pv_def)
  have "pv ! 0 \<noteq> s_head s"
    using pv [of 0] sl_shapeD(8) [OF s] stop_head_iff [OF s'] due by simp
  moreover have "level_next (s_heap s) (s_head s) 0 = Inr (hd (due s k ns @ [0]))"
  proof (rule level_next_nxt)
    show "s_head s \<noteq> 0" by (intro sl_shape_nonnull [OF s]) simp
    obtain x xs where x: "due s k ns = x # xs" using due by (cases "due s k ns") auto
    then have "ns = x # xs @ later s k ns" using due_later [of s k ns] by simp
    moreover have "chain (nxt (s_heap s) 0) (s_head s # ns @ [s_tail s])"
      using sl_shapeD(12) [OF s, of 0] level_zero [OF s, of ns] by (simp add: MAX_LEVEL_def)
    ultimately have "nxt (s_heap s) 0 (s_head s) = Some x"
      by (metis append_Cons chain.simps(1))
    then show "nxt (s_heap s) 0 (s_head s) = Some (hd (due s k ns @ [0]))" using x by simp
  qed
  moreover have "find_upper_prevs k s = Some (Inr pv)"
    unfolding pv_def by (rule find_upper_prevs_stops [OF s k])
  ultimately show ?thesis using cut_shape [OF s' due pv] by blast
qed

lemma due_entries:
  "entries_of s (due s k ns) = takeWhile (\<lambda>e. fst e \<le> k) (entries_of s ns)"
  "entries_of s (later s k ns) = dropWhile (\<lambda>e. fst e \<le> k) (entries_of s ns)"
  by (simp_all add: entries_of_def due_def later_def takeWhile_map dropWhile_map o_def)

lemma pop_none_due:
  assumes s: "sl_shape s ns" and k: "k < key (s_heap s) (s_tail s)" and due: "due s k ns = []"
  shows "\<exists>pv. find_upper_prevs k s = Some (Inr pv) \<and> pv ! 0 = s_head s"
  using find_upper_prevs_stops [OF s k] due sl_shapeD(8,9) [OF s]
  by (auto simp: due_nil MAX_LEVEL_def)

text \<open>\<open>s'\<close> is \<open>s\<close> after relinking and freeing: no node is new or has other data, and the tail stays.\<close>

definition shrunk :: "('k, 'v) skiplist \<Rightarrow> ('k, 'v) skiplist \<Rightarrow> bool" where
  "shrunk s s' \<longleftrightarrow> s_head s' = s_head s \<and> s_tail s' = s_tail s \<and>
     (\<forall>a. info (s_heap s') a = None \<or> info (s_heap s') a = info (s_heap s) a) \<and>
     info (s_heap s') (s_tail s) = info (s_heap s) (s_tail s)"

lemma pop_less_eq_pops:
  assumes inv: "sl_inv s ns" and k: "k < key (s_heap s) (s_tail s)"
  shows "\<exists>s'. pop_less_eq k s = Some (Inr (map snd (takeWhile (\<lambda>e. fst e \<le> k) (entries_of s ns)), s')) \<and>
    sl_inv s' (later s k ns) \<and>
    entries_of s' (later s k ns) = dropWhile (\<lambda>e. fst e \<le> k) (entries_of s ns) \<and>
    shrunk s s'"
proof (cases "due s k ns = []")
  case True
  have s: "sl_shape s ns" using inv by (simp add: sl_inv_def)
  have "later s k ns = ns" using True due_later [of s k ns] by simp
  then show ?thesis
    using pop_none_due [OF s k True] True inv due_entries [of s k ns]
    by (auto simp: pop_less_eq_def shrunk_def)
next
  case False
  have s: "sl_shape s ns" using inv by (simp add: sl_inv_def)
  let ?xs = "due s k ns" and ?ys = "later s k ns"
  obtain pv h where pv: "find_upper_prevs k s = Some (Inr pv)" "pv ! 0 \<noteq> s_head s"
    and st: "level_next (s_heap s) (s_head s) 0 = Inr (hd (?xs @ [0]))"
    and h: "cut_levels (s_heap s) pv (s_head s) 0 (s_max_level s) = Inr h" "info h = info (s_heap s)"
    and sh: "sl_shape (s\<lparr>s_heap := h\<rparr>) ?ys" and ch: "chain (nxt h 0) (?xs @ [0])"
    using pop_cut [OF s k False] by blast
  note dist = due_apart [OF s, of k]
  let ?h' = "free_all ?xs h"
  have pop: "pop_nodes h (hd (?xs @ [0])) [] = Some (Inr (map (val h) ?xs, ?h'))"
    using pop_nodes_chain [OF ch _ dist(2), of "[]"] dist(1) by simp
  have "?h' a = h a" if "a \<in> set (s_head s # ?ys @ [s_tail s])" for a
    using that dist(1) by (auto simp: free_all_def)
  then have sh': "sl_shape (s\<lparr>s_heap := ?h'\<rparr>) ?ys"
    using shape_frame [OF sh, of ?h'] by simp
  then obtain m where m: "trim_level ?h' (s_head s) (s_tail s) (s_max_level s) = Inr m"
    "sl_shape (s\<lparr>s_heap := ?h', s_max_level := m\<rparr>) ?ys"
    using trim_shape [OF sh'] by auto
  define s' where "s' = s\<lparr>s_heap := ?h', s_max_level := m,
    s_length := s_length s - of_nat (length (map (val h) ?xs))\<rparr>"
  have "pop_less_eq k s = Some (Inr (map (val h) ?xs, s'))"
    using pv st h(1) pop m(1) by (simp add: pop_less_eq_def s'_def)
  moreover have "map (val h) ?xs = map snd (entries_of s ?xs)"
    using h(2) by (simp add: entries_of_def val_def)
  moreover have "sl_inv s' ?ys"
    using inv m(2) due_later [of s k ns, THEN arg_cong, of length]
    by (simp add: sl_inv_def s'_def sl_shape_def algebra_simps flip: of_nat_add)
  moreover have info: "info (s_heap s') a = info (s_heap s) a" if "a \<in> set (?ys @ [s_tail s])" for a
    using that dist(1) fun_cong [OF h(2), of a] by (auto simp: s'_def free_all_def info_def)
  then have "entries_of s' ?ys = entries_of s ?ys" by (intro entries_of_cong) simp
  moreover have "info (s_heap s') a = None \<or> info (s_heap s') a = info (s_heap s) a" for a
    using fun_cong [OF h(2), of a] by (simp add: s'_def free_all_def info_def)
  then have "shrunk s s'" using info [of "s_tail s"] by (simp add: shrunk_def s'_def)
  ultimately show ?thesis by (auto simp: due_entries)
qed

end
