(* ===== verification/Skiplist_Callback.thy ===== *)
theory Skiplist_Callback
  imports Skiplist_Remove
begin

text \<open>
  Popping with a callback that may itself insert into the list, as the timers do. The callback
  runs while the popped nodes are already cut off but not yet freed, so what it may rely on and
  what it has to leave alone are stated by \<open>callback_ok\<close>.
\<close>

section \<open>Callbacks\<close>

text \<open>
  \<open>I\<close> is an invariant of the callback's own state and the list object. It must not be affected by
  relinking and freeing, since these go on around the calls.
\<close>

definition stable :: "('w \<Rightarrow> ('k, 'v) skiplist \<Rightarrow> bool) \<Rightarrow> bool" where
  "stable I \<longleftrightarrow> (\<forall>w s s'. I w s \<longrightarrow> shrunk s s' \<longrightarrow> I w s')"

text \<open>The nodes that are allocated but not on the list; a list that is in order has none.\<close>

definition spare_nodes :: "('k, 'v) skiplist \<Rightarrow> addr list \<Rightarrow> addr set" where
  "spare_nodes s ns = dom (s_heap s) - set (s_head s # ns @ [s_tail s])"

text \<open>
  On a well-formed list, with \<open>D\<close> a set of allocated nodes that are not on it, the callback
  returns, does \<open>eff\<close> to its state and the contents, keeps the list well formed, neither
  touches nor links the nodes of \<open>D\<close>, and neither leaks nor frees a node. The invariant may be another
  one after the call, such as a count that has one less to go.
\<close>

definition callback_from ::
  "('w \<Rightarrow> ('k::linorder, 'v) skiplist \<Rightarrow> bool) \<Rightarrow> ('w \<Rightarrow> ('k, 'v) skiplist \<Rightarrow> bool) \<Rightarrow> ('k, 'v, 'w) callback \<Rightarrow>
   ('v \<Rightarrow> 'w \<times> ('k \<times> 'v) list \<Rightarrow> 'w \<times> ('k \<times> 'v) list) \<Rightarrow> bool" where
  "callback_from I J f eff \<longleftrightarrow> (\<forall>v w s ns D.
     I w s \<longrightarrow> sl_shape s ns \<longrightarrow> D \<inter> set (s_head s # ns @ [s_tail s]) = {} \<longrightarrow>
     D \<subseteq> dom (s_heap s) \<longrightarrow>
     (\<exists>w' s' ns'. f v (w, s) = Some (Inr (w', s')) \<and> J w' s' \<and> sl_shape s' ns' \<and>
        eff v (w, entries_of s ns) = (w', entries_of s' ns') \<and>
        s_head s' = s_head s \<and> s_tail s' = s_tail s \<and>
        D \<inter> set (s_head s # ns' @ [s_tail s]) = {} \<and> (\<forall>a \<in> D. s_heap s' a = s_heap s a) \<and>
        s_length s' - of_nat (length ns') = s_length s - of_nat (length ns) \<and>
        spare_nodes s' ns' = spare_nodes s ns))"

definition callback_ok ::
  "('w \<Rightarrow> ('k::linorder, 'v) skiplist \<Rightarrow> bool) \<Rightarrow> ('k, 'v, 'w) callback \<Rightarrow>
   ('v \<Rightarrow> 'w \<times> ('k \<times> 'v) list \<Rightarrow> 'w \<times> ('k \<times> 'v) list) \<Rightarrow> bool" where
  "callback_ok I f eff \<longleftrightarrow> callback_from I I f eff"

lemma stableD: "stable I \<Longrightarrow> I w s \<Longrightarrow> shrunk s s' \<Longrightarrow> I w s'"
  unfolding stable_def by blast

lemma info_None: "info h a = None \<longleftrightarrow> h a = None"
  by (simp add: info_def)

lemma free_shape:
  assumes s: "sl_shape s ns" and x: "x \<notin> set (s_head s # ns @ [s_tail s])"
  defines "s' \<equiv> s\<lparr>s_heap := (s_heap s)(x := None)\<rparr>"
  shows "sl_shape s' ns" and "entries_of s' ns = entries_of s ns"
    and "stable I \<Longrightarrow> I w s \<Longrightarrow> I w s'" and "spare_nodes s' ns = spare_nodes s ns - {x}"
proof -
  have x': "a \<in> set (s_head s # ns @ [s_tail s]) \<Longrightarrow> a \<noteq> x" for a using x by metis
  show "sl_shape s' ns" unfolding s'_def by (rule shape_frame [OF s]) (simp add: x')
  show "entries_of s' ns = entries_of s ns"
    using x by (intro entries_of_cong) (auto simp: s'_def info_def)
  show "I w s'" if "stable I" "I w s"
    using x by (intro stableD [OF that]) (auto simp: s'_def shrunk_def info_def)
  show "spare_nodes s' ns = spare_nodes s ns - {x}" by (auto simp: s'_def spare_nodes_def split: if_splits)
qed

lemma run_nodes_fold:
  assumes f: "\<And>j. callback_from (I (Suc j)) (I j) f eff" and st: "\<And>j. stable (I j)"
  shows "I (length xs) w s \<Longrightarrow> sl_shape s ns \<Longrightarrow> chain (nxt (s_heap s) 0) (xs @ [0]) \<Longrightarrow> distinct xs \<Longrightarrow>
    0 \<notin> set xs \<Longrightarrow> set xs \<inter> set (s_head s # ns @ [s_tail s]) = {} \<Longrightarrow> 0 \<le> cnt \<Longrightarrow>
    cnt + int (length xs) \<le> 2147483647 \<Longrightarrow>
    \<exists>w' s' ns'. run_nodes f (hd (xs @ [0])) cnt (w, s) = Some (Inr (cnt + int (length xs), w', s')) \<and>
      I 0 w' s' \<and> sl_shape s' ns' \<and> s_head s' = s_head s \<and> s_tail s' = s_tail s \<and>
      (w', entries_of s' ns') = fold eff (map (val (s_heap s)) xs) (w, entries_of s ns) \<and>
      s_length s' - of_nat (length ns') = s_length s - of_nat (length ns) \<and>
      spare_nodes s' ns' = spare_nodes s ns - set xs"
proof (induction xs arbitrary: w s ns cnt)
  case Nil
  then show ?case by (subst run_nodes.simps) auto
next
  case (Cons x xs)
  have x: "x \<noteq> 0" "nxt (s_heap s) 0 x = Some (hd (xs @ [0]))"
    using Cons.prems by (auto simp: chain_Cons)
  obtain n where n: "node_load (s_heap s) x = Inr n" "n_val n = val (s_heap s) x"
    using node_load_info [OF x(1) nxt_Some_height [OF x(2)]] by blast
  have dom: "set (x # xs) \<subseteq> dom (s_heap s)"
    using Cons.prems(3) by (rule chain_dom)
  have I: "I (Suc (length xs)) w s" using Cons.prems(1) by simp
  have cnt: "int32_res (cnt + 1) = Inr (cnt + 1)" using Cons.prems(7,8) by (simp add: int32_res_def)
  obtain w1 s1 ns1 where f1: "f (n_val n) (w, s) = Some (Inr (w1, s1))" "I (length xs) w1 s1" "sl_shape s1 ns1"
    "eff (n_val n) (w, entries_of s ns) = (w1, entries_of s1 ns1)"
    "s_head s1 = s_head s" "s_tail s1 = s_tail s"
    "set (x # xs) \<inter> set (s_head s # ns1 @ [s_tail s]) = {}"
    "\<forall>a \<in> set (x # xs). s_heap s1 a = s_heap s a"
    "s_length s1 - of_nat (length ns1) = s_length s - of_nat (length ns)" "spare_nodes s1 ns1 = spare_nodes s ns"
    using f [unfolded callback_from_def, rule_format, OF I Cons.prems(2,6) dom, of "n_val n"] by metis
  define s2 where "s2 = s1\<lparr>s_heap := (s_heap s1)(x := None)\<rparr>"
  have x1: "x \<notin> set (s_head s1 # ns1 @ [s_tail s1])" using f1(5-7) by auto
  have s2: "sl_shape s2 ns1" "entries_of s2 ns1 = entries_of s1 ns1" "I (length xs) w1 s2"
    "s_head s2 = s_head s" "s_tail s2 = s_tail s" "s_length s2 = s_length s1" "spare_nodes s2 ns1 = spare_nodes s ns - {x}"
    using free_shape [OF f1(3) x1] free_shape(3) [OF f1(3) x1 st f1(2)] f1(5,6,10) by (simp_all add: s2_def)
  have same: "s_heap s2 a = s_heap s a" if "a \<in> set xs" for a
    using that f1(8) Cons.prems(4) by (auto simp: s2_def)
  then have vals: "map (val (s_heap s2)) xs = map (val (s_heap s)) xs"
    by (auto simp: val_def info_def)
  have ch0: "chain (nxt (s_heap s) 0) (xs @ [0])" using Cons.prems(3) by (cases xs) auto
  have "chain (nxt (s_heap s2) 0) (xs @ [0])"
    by (rule chain_cong [OF _ ch0]) (simp add: same nxt_def)
  from Cons.IH [OF s2(3,1) this, of "cnt + 1"] obtain w' s' ns' where
    "run_nodes f (hd (xs @ [0])) (cnt + 1) (w1, s2) = Some (Inr (cnt + 1 + int (length xs), w', s'))"
    "I 0 w' s'" "sl_shape s' ns'" "s_head s' = s_head s2" "s_tail s' = s_tail s2"
    "(w', entries_of s' ns') = fold eff (map (val (s_heap s2)) xs) (w1, entries_of s2 ns1)"
    "s_length s' - of_nat (length ns') = s_length s2 - of_nat (length ns1)"
    "spare_nodes s' ns' = spare_nodes s2 ns1 - set xs"
    using Cons.prems(4,5,7,8) f1(7) s2(4,5) by auto
  then show ?case
    using x n f1 s2 vals cnt level_next_nxt [OF x]
    by (subst run_nodes.simps) (auto simp: s2_def [symmetric] add.assoc)
qed

text \<open>
  \<open>I j\<close> is the invariant with \<open>j\<close> calls to go. The nodes that were popped are freed: what is allocated
  beside the list is the same as before.
\<close>

lemma do_less_eq_then_pop_folds:
  assumes f: "\<And>j. callback_from (I (Suc j)) (I j) f eff" and st: "\<And>j. stable (I j)"
    and I: "I (length (takeWhile (\<lambda>e. fst e \<le> k) (entries_of s ns))) w s"
    and inv: "sl_inv s ns" and k: "k < key (s_heap s) (s_tail s)"
    and few: "length (takeWhile (\<lambda>e. fst e \<le> k) (entries_of s ns)) \<le> 2147483647"
  shows "\<exists>w' s' ns'. do_less_eq_then_pop k f (w, s) = Some (Inr (w', s')) \<and> I 0 w' s' \<and>
    sl_inv s' ns' \<and> s_tail s' = s_tail s \<and> spare_nodes s' ns' = spare_nodes s ns \<and>
    (w', entries_of s' ns') = fold eff (map snd (takeWhile (\<lambda>e. fst e \<le> k) (entries_of s ns)))
       (w, dropWhile (\<lambda>e. fst e \<le> k) (entries_of s ns))"
proof (cases "due s k ns = []")
  case True
  have s: "sl_shape s ns" using inv by (simp add: sl_inv_def)
  have "later s k ns = ns" using True due_later [of s k ns] by simp
  then show ?thesis
    using pop_none_due [OF s k True] True inv I due_entries [of s k ns]
    by (auto simp: do_less_eq_then_pop_def)
next
  case False
  let ?xs = "due s k ns" and ?ys = "later s k ns"
  have s: "sl_shape s ns" using inv by (simp add: sl_inv_def)
  obtain pv h where pv: "find_upper_prevs k s = Some (Inr pv)" "pv ! 0 \<noteq> s_head s"
    and go: "level_next (s_heap s) (s_head s) 0 = Inr (hd (?xs @ [0]))"
    and h: "cut_levels (s_heap s) pv (s_head s) 0 (s_max_level s) = Inr h" "info h = info (s_heap s)"
    and sh: "sl_shape (s\<lparr>s_heap := h\<rparr>) ?ys" and ch: "chain (nxt h 0) (?xs @ [0])"
    using pop_cut [OF s k False] by blast
  note dist = due_apart [OF s, of k]
  let ?s1 = "s\<lparr>s_heap := h\<rparr>"
  have n: "length (takeWhile (\<lambda>e. fst e \<le> k) (entries_of s ns)) = length ?xs"
    using arg_cong [OF due_entries(1) [of s k ns], of length] by (simp add: entries_of_def)
  have "h a = None \<longleftrightarrow> s_heap s a = None" for a using h(2) by (metis info_None)
  then have "dom h = dom (s_heap s)" by (intro set_eqI) (simp only: domIff)
  moreover have "set ns = set ?xs \<union> set ?ys" using arg_cong [OF due_later [of s k ns], of set] by simp
  moreover have "set ?xs \<subseteq> dom (s_heap s)"
    using listed_allocated [OF s] arg_cong [OF due_later [of s k ns], of set] by auto
  ultimately have spare_nodes: "spare_nodes ?s1 ?ys - set ?xs = spare_nodes s ns" by (auto simp: spare_nodes_def)
  have "I (length ?xs) w ?s1" by (rule stableD [OF st I [unfolded n]]) (simp add: shrunk_def h(2))
  moreover have "set ?xs \<inter> set (s_head s # ?ys @ [s_tail s]) = {}" using dist(1) by auto
  ultimately obtain w' s2 ns' where
    run: "run_nodes f (hd (?xs @ [0])) 0 (w, ?s1) = Some (Inr (int (length ?xs), w', s2))"
    and s2: "sl_shape s2 ns'" "s_head s2 = s_head s" "s_tail s2 = s_tail s" "I 0 w' s2" "spare_nodes s2 ns' = spare_nodes s ns"
    and fold: "(w', entries_of s2 ns') = fold eff (map (val h) ?xs) (w, entries_of ?s1 ?ys)"
    and len: "s_length s2 - of_nat (length ns') = s_length s - of_nat (length ?ys)"
    using run_nodes_fold [where I = I, OF f st, of ?xs w ?s1 ?ys 0] sh ch dist few n spare_nodes by auto
  obtain m where m: "trim_level (s_heap s2) (s_head s2) (s_tail s2) (s_max_level s2) = Inr m"
    "sl_shape (s2\<lparr>s_max_level := m\<rparr>) ns'" using trim_shape [OF s2(1)] by blast
  define s' where "s' = s2\<lparr>s_max_level := m, s_length := s_length s2 - of_nat (length ?xs)\<rparr>"
  have "do_less_eq_then_pop k f (w, s) = Some (Inr (w', s'))"
    using pv go h(1) run m(1) by (simp add: do_less_eq_then_pop_def s'_def Let_def)
  moreover have "length ns = length ?xs + length ?ys"
    using arg_cong [OF due_later [of s k ns], of length] by simp
  then have "s_length s - of_nat (length ?ys) = of_nat (length ?xs)"
    using inv by (simp add: sl_inv_def)
  then have "sl_inv s' ns'"
    using m(2) len by (simp add: sl_inv_def s'_def sl_shape_def algebra_simps)
  moreover have "map (val h) ?xs = map snd (entries_of s ?xs)" "entries_of ?s1 ?ys = entries_of s ?ys"
    using h(2) by (simp_all add: entries_of_def val_def key_def)
  moreover have "entries_of s' ns' = entries_of s2 ns'" by (simp add: entries_of_def s'_def)
  moreover have "spare_nodes s' ns' = spare_nodes s ns" using s2(5) by (simp add: s'_def spare_nodes_def)
  moreover have "I 0 w' s'" by (rule stableD [OF st s2(4)]) (simp add: shrunk_def s'_def)
  moreover have "s_tail s' = s_tail s" using s2(3) by (simp add: s'_def)
  ultimately show ?thesis using fold by (auto simp: due_entries)
qed

lemma callback_step:
  assumes f: "callback_ok I f eff" and I: "I w s" and inv: "sl_inv s ns"
  shows "\<exists>w' s' ns'. f v (w, s) = Some (Inr (w', s')) \<and> I w' s' \<and> sl_inv s' ns' \<and>
    eff v (w, entries_of s ns) = (w', entries_of s' ns')"
proof -
  have "sl_shape s ns" using inv by (simp add: sl_inv_def)
  then obtain w' s' ns' where "f v (w, s) = Some (Inr (w', s'))" "I w' s'" "sl_shape s' ns'"
    "eff v (w, entries_of s ns) = (w', entries_of s' ns')"
    "s_length s' - of_nat (length ns') = s_length s - of_nat (length ns)"
    using f [unfolded callback_ok_def callback_from_def, rule_format, of w s ns "{}" v] I by auto
  then show ?thesis using inv by (auto simp: sl_inv_def)
qed

section \<open>A callback that inserts\<close>

text \<open>
  A timer that re-arms itself: the callback inserts its value again under the key \<open>nk v\<close>. The
  state is the next address of a bump allocator.
\<close>

definition rearm :: "(nat \<Rightarrow> bool) \<Rightarrow> ('v \<Rightarrow> 'k::linorder) \<Rightarrow> ('k, 'v, addr) callback" where
  "rearm draws nk v ns =
     ores_bind (emplace (fst ns) draws (nk v) v (snd ns)) (\<lambda>(_, s). Some (Inr (Suc (fst ns), s)))"

definition bump :: "'k \<Rightarrow> addr \<Rightarrow> ('k, 'v) skiplist \<Rightarrow> bool" where
  "bump maxKey n s \<longleftrightarrow> 0 < n \<and> (\<forall>a \<ge> n. s_heap s a = None) \<and> key (s_heap s) (s_tail s) = maxKey"

lemma bump_stable: "stable (bump maxKey)"
  unfolding stable_def bump_def shrunk_def by (auto simp: key_def) (metis info_None)

lemma rearm_ok:
  fixes nk :: "'a \<Rightarrow> 'b::linorder"
  assumes nk: "\<And>v. nk v \<le> maxKey"
  shows "callback_ok (bump maxKey) (rearm draws nk)
    (\<lambda>v (n, es). (Suc n, ins_entry (nk v) v es))"
  unfolding callback_ok_def callback_from_def
proof (intro allI impI)
  fix v :: 'a and n ns D and s :: "('b, 'a) skiplist"
  assume I: "bump maxKey n s" and s: "sl_shape s ns"
    and D: "D \<inter> set (s_head s # ns @ [s_tail s]) = {}" "D \<subseteq> dom (s_heap s)"
  note alloc = listed_allocated [OF s]
  have n: "n \<noteq> 0" "s_heap s n = None" "nk v \<le> key (s_heap s) (s_tail s)"
    using I nk by (auto simp: bump_def)
  then have fresh: "n \<notin> set (s_head s # ns @ [s_tail s])" "n \<notin> D" using alloc D(2) by blast+
  let ?ns = "lower s (nk v) ns @ n # upper s (nk v) ns"
  have len: "length ?ns = Suc (length ns)"
    using arg_cong [OF lower_upper [of s "nk v" ns], of length] by simp
  obtain s' where s': "emplace n draws (nk v) v s = Some (Inr (n, s'))" "sl_shape s' ?ns"
    "insert_frame s ns n (nk v) v s'"
    using emplace_inserts [OF s n(3,1) fresh(1)] by blast
  note fr = s'(3) [unfolded insert_frame_def]
  have "set (s_head s # ?ns @ [s_tail s]) = insert n (set (s_head s # ns @ [s_tail s]))"
    using arg_cong [OF lower_upper [of s "nk v" ns], of set] by auto
  moreover have "D \<inter> insert n X = {}" if "D \<inter> X = {}" for X using that fresh(2) by blast
  note this [OF D(1)]
  ultimately have apart: "D \<inter> set (s_head s # ?ns @ [s_tail s]) = {}" by (simp only:)
  have "s_heap s' a = None \<longleftrightarrow> s_heap s a = None" if "a \<noteq> n" for a using fr that by (metis info_None)
  then have "dom (s_heap s') - {n} = dom (s_heap s)" using n(2)
    by (intro set_eqI) (metis DiffE DiffI domIff singletonD singletonI)
  moreover have "set ?ns = insert n (set ns)" using arg_cong [OF lower_upper [of s "nk v" ns], of set] by auto
  ultimately have spare_nodes: "spare_nodes s' ?ns = spare_nodes s ns" using fr by (auto simp: spare_nodes_def)
  have "rearm draws nk v (n, s) = Some (Inr (Suc n, s'))" using s'(1) by (simp add: rearm_def)
  moreover have "bump maxKey (Suc n) s'"
  proof -
    have "key (s_heap s') (s_tail s') = maxKey"
      using I fr fresh(1) views_info(1) [of "s_heap s'" "s_tail s" "s_heap s"] by (auto simp: bump_def)
    moreover have "s_heap s' a = None" if "Suc n \<le> a" for a
    proof -
      have "info (s_heap s') a = info (s_heap s) a" using fr that by auto
      moreover have "s_heap s a = None" using I that by (simp add: bump_def)
      ultimately show ?thesis by (metis info_None)
    qed
    ultimately show ?thesis by (simp add: bump_def)
  qed
  moreover have "entries_of s' ?ns = ins_entry (nk v) v (entries_of s ns)"
    using insert_frame_entries [OF s'(3)] fresh(1) by auto
  moreover have "\<forall>a \<in> D. s_heap s' a = s_heap s a" using fr D(1) fresh(2) by auto
  ultimately show "\<exists>w' s' ns'. rearm draws nk v (n, s) = Some (Inr (w', s')) \<and> bump maxKey w' s' \<and>
      sl_shape s' ns' \<and>
      (case (n, entries_of s ns) of (n, es) \<Rightarrow> (Suc n, ins_entry (nk v) v es)) = (w', entries_of s' ns') \<and>
      s_head s' = s_head s \<and> s_tail s' = s_tail s \<and> D \<inter> set (s_head s # ns' @ [s_tail s]) = {} \<and>
      (\<forall>a \<in> D. s_heap s' a = s_heap s a) \<and>
      s_length s' - of_nat (length ns') = s_length s - of_nat (length ns) \<and> spare_nodes s' ns' = spare_nodes s ns"
    using s'(2) fr len apart spare_nodes by (intro exI [of _ "Suc n"] exI [of _ s'] exI [of _ ?ns]) simp
qed

text \<open>Well-formed lists with any sorted contents can be built by insertions alone.\<close>

lemma bump_new: "bump maxKey 3 (skiplist_new minKey maxKey v0 1 2)"
  by (simp add: bump_def skiplist_new_def key_def info_def new_node_def)

lemma bump_insert:
  assumes "bump maxKey n s" and "sl_inv s ns" and "k \<le> maxKey"
  shows "\<exists>s' ns'. bump maxKey (Suc n) s' \<and> sl_inv s' ns' \<and>
    entries_of s' ns' = ins_entry k v (entries_of s ns)"
proof -
  obtain w' s' ns' where "bump maxKey w' s'" "sl_inv s' ns'"
    "(Suc n, ins_entry k v (entries_of s ns)) = (w', entries_of s' ns')"
    using callback_step [OF rearm_ok [of "\<lambda>_. k" maxKey "\<lambda>_. False"] assms(1,2), of v] assms(3) by auto
  then show ?thesis by (intro exI [of _ s'] exI [of _ ns']) simp
qed

lemma ins_entry_first:
  "(\<And>e. e \<in> set es \<Longrightarrow> k \<le> fst e) \<Longrightarrow> ins_entry k v es = (k, v) # es"
  by (cases es) (simp_all add: ins_entry_def leD)

lemma bump_exists:
  fixes es :: "('k::linorder \<times> 'v) list"
  assumes "sorted (map fst es)" and "list_all (\<lambda>k. k \<le> maxKey) (map fst es)"
  shows "\<exists>n s ns. bump maxKey n s \<and> sl_inv s ns \<and> entries_of s ns = es"
  using assms
proof (induction es)
  case Nil
  let ?s = "skiplist_new maxKey maxKey undefined 1 2 :: ('k, 'v) skiplist"
  have "sl_inv ?s []" by (rule skiplist_new_inv) simp_all
  then show ?case using bump_new [of maxKey maxKey "undefined :: 'v"]
    by (intro exI [of _ 3] exI [of _ ?s] exI [of _ "[]"]) simp
next
  case (Cons e es)
  have "sorted (map fst es)" "list_all (\<lambda>k. k \<le> maxKey) (map fst es)" using Cons.prems by auto
  from Cons.IH [OF this] obtain n s ns where s: "bump maxKey n s" "sl_inv s ns" "entries_of s ns = es"
    by blast
  have "ins_entry (fst e) (snd e) es = (fst e, snd e) # es"
    using Cons.prems(1) by (intro ins_entry_first) simp
  moreover have "fst e \<le> maxKey" using Cons.prems(2) by simp
  ultimately show ?case
    using bump_insert [OF s(1,2), of "fst e" "snd e"] s(3) by (metis prod.collapse)
qed

end
