(* ===== verification/Skiplist_Map.thy ===== *)
theory Skiplist_Map
  imports Skiplist_Callback
begin

text \<open>
  The skip list as the ordered multimap its users see (\<open>experimental::skiplist_map\<close>), its
  destructor and its self-check.
\<close>

section \<open>The multimap\<close>

definition map_empty :: "('k, 'v) skiplist \<Rightarrow> bool" where
  "map_empty s \<longleftrightarrow> s_length s = 0"

definition map_size :: "('k, 'v) skiplist \<Rightarrow> size_t" where
  "map_size s = s_length s"

text \<open>\<open>insert\<close> hands a copy of the pair to \<open>add\<close>.\<close>

definition map_insert ::
  "addr \<times> (nat \<Rightarrow> bool) \<Rightarrow> 'k::linorder \<Rightarrow> 'v \<Rightarrow> ('k, 'v) skiplist \<Rightarrow> ('k, 'v) skiplist res option" where
  "map_insert r k v s = ores_bind (add (fst r) (snd r) (k, v) s) (\<lambda>(_, s). Some (Inr s))"

definition map_rep :: "'k \<Rightarrow> ('k::linorder, 'v) skiplist \<Rightarrow> ('k \<times> 'v) list \<Rightarrow> bool" where
  "map_rep maxKey s es \<longleftrightarrow>
     (\<exists>ns. sl_inv s ns \<and> entries_of s ns = es) \<and> key (s_heap s) (s_tail s) = maxKey"

text \<open>The allocator returns a block that is not in use.\<close>

definition map_fresh :: "addr \<times> (nat \<Rightarrow> bool) \<Rightarrow> ('k, 'v) skiplist \<Rightarrow> bool" where
  "map_fresh r s \<longleftrightarrow> fst r \<noteq> 0 \<and> s_heap s (fst r) = None"

lemma map_insert_rep:
  assumes rep: "map_rep maxKey s es" and r: "map_fresh r s" and k: "k \<le> maxKey"
  shows "\<exists>s'. map_insert r k v s = Some (Inr s') \<and> map_rep maxKey s' (ins_entry k v es)"
proof -
  obtain ns where inv: "sl_inv s ns" and es: "entries_of s ns = es"
    and mk: "key (s_heap s) (s_tail s) = maxKey" using rep by (auto simp: map_rep_def)
  then have s: "sl_shape s ns" by (simp add: sl_inv_def)
  have p: "fst r \<noteq> 0" "fst r \<notin> set (s_head s # ns @ [s_tail s])"
    using r listed_allocated [OF s, of "fst r"] unfolding map_fresh_def by blast+
  let ?ns = "lower s k ns @ fst r # upper s k ns"
  obtain s' where s': "emplace (fst r) (snd r) k v s = Some (Inr (fst r, s'))" "sl_shape s' ?ns"
    "insert_frame s ns (fst r) k v s'"
    using emplace_inserts [OF s _ p] k mk by blast
  have "length ?ns = Suc (length ns)"
    using arg_cong [OF lower_upper [of s k ns], of length] by simp
  then have "sl_inv s' ?ns" using s'(2,3) inv by (simp add: sl_inv_def insert_frame_def)
  moreover have "entries_of s' ?ns = ins_entry k v es"
    using insert_frame_entries [OF s'(3)] p(2) es by simp
  moreover have "key (s_heap s') (s_tail s') = maxKey"
    using s'(3) p(2) mk views_info(1) [of "s_heap s'" "s_tail s" "s_heap s"]
    by (auto simp: insert_frame_def)
  ultimately show ?thesis
    using s'(1) by (auto simp: map_insert_def add_emplace map_rep_def)
qed

lemma map_pop_rep:
  assumes rep: "map_rep maxKey s es" and k: "k < maxKey"
  shows "\<exists>s'. pop_less_eq k s = Some (Inr (map snd (takeWhile (\<lambda>e. fst e \<le> k) es), s')) \<and>
    map_rep maxKey s' (dropWhile (\<lambda>e. fst e \<le> k) es)"
proof -
  obtain ns where "sl_inv s ns" and "entries_of s ns = es"
    and "key (s_heap s) (s_tail s) = maxKey" using rep by (auto simp: map_rep_def)
  then obtain s' where "pop_less_eq k s = Some (Inr (map snd (takeWhile (\<lambda>e. fst e \<le> k) es), s'))"
    "sl_inv s' (later s k ns)" "entries_of s' (later s k ns) = dropWhile (\<lambda>e. fst e \<le> k) es"
    "shrunk s s'"
    using pop_less_eq_pops [of s ns k] k by blast
  moreover have "key (s_heap s') (s_tail s') = maxKey"
    using \<open>shrunk s s'\<close> \<open>key (s_heap s) (s_tail s) = maxKey\<close>
      views_info(1) [of "s_heap s'" "s_tail s" "s_heap s"] by (simp add: shrunk_def)
  ultimately show ?thesis unfolding map_rep_def by blast
qed

lemma map_rep_sorted: "map_rep maxKey s es \<Longrightarrow> sorted (map fst es)"
  by (auto simp: map_rep_def sl_inv_def entries_of_def o_def dest: sl_shapeD(10))

interpretation skiplist: deadline_queue "map_rep maxKey" maxKey map_fresh map_insert pop_less_eq
  for maxKey :: "'k::linorder"
  by unfold_locales (rule map_rep_sorted map_insert_rep map_pop_rep; assumption)+

lemma map_new_rep:
  fixes minKey maxKey :: "'k::linorder"
  assumes "hd_at \<noteq> 0" and "place \<noteq> 0" and "hd_at \<noteq> place"
  shows "map_rep maxKey (skiplist_new minKey maxKey v0 hd_at place) []"
proof -
  have "s_tail (skiplist_new minKey maxKey v0 hd_at place) = place" by (simp add: skiplist_new_def)
  then show ?thesis
    using skiplist_new_inv [OF assms, of minKey maxKey v0] by (auto simp: map_rep_def)
qed

text \<open>Every sorted list of entries is the contents of some well-formed skip list.\<close>

lemma map_rep_exists:
  assumes "sorted (map fst es)" and "list_all (\<lambda>k. k \<le> maxKey) (map fst es)"
  shows "\<exists>s. map_rep maxKey s es"
  using bump_exists [OF assms] by (auto simp: map_rep_def bump_def)

lemma map_size_rep: "map_rep maxKey s es \<Longrightarrow> map_size s = of_nat (length es)"
  by (auto simp: map_rep_def map_size_def sl_inv_def entries_of_def)

lemma map_contains_rep:
  "map_rep maxKey s es \<Longrightarrow> k < maxKey \<Longrightarrow> contains k s = Some (Inr (k \<in> fst ` set es))"
  by (auto simp: map_rep_def sl_inv_def dest: contains_iff)

section \<open>Erasing\<close>

text \<open>Erasing removes the first entry with the key.\<close>

definition del_entry :: "'k::linorder \<Rightarrow> ('k \<times> 'v) list \<Rightarrow> ('k \<times> 'v) list" where
  "del_entry k es = takeWhile (\<lambda>e. fst e < k) es @ tl (dropWhile (\<lambda>e. fst e < k) es)"

lemma map_erase_rep:
  assumes rep: "map_rep maxKey s es" and k: "k < maxKey"
  shows "\<exists>s'. erase_one k s = Some (Inr (k \<in> fst ` set es, s')) \<and>
    map_rep maxKey s' (if k \<in> fst ` set es then del_entry k es else es)"
proof -
  obtain ns where inv: "sl_inv s ns" and es: "entries_of s ns = es"
    and mk: "key (s_heap s) (s_tail s) = maxKey" using rep by (auto simp: map_rep_def)
  then have s: "sl_shape s ns" by (simp add: sl_inv_def)
  show ?thesis
  proof (cases "k \<in> fst ` set es")
    case False
    then show ?thesis using erase_one_miss [OF s] mk k es rep by simp
  next
    case True
    then have kin: "key (s_heap s) (hd (upper s k ns @ [s_tail s])) = k"
      using hd_upper_key [OF s] mk k es by (auto simp: entries_of_def)
    then obtain d ys where up: "upper s k ns = d # ys" "key (s_heap s) d = k"
      using mk k by (cases "upper s k ns") auto
    obtain s' where s': "erase_one k s = Some (Inr (True, s'))" "sl_shape s' (lower s k ns @ ys)"
      "s_length s' = s_length s - 1" "entries_of s' (lower s k ns @ ys) = entries_of s (lower s k ns @ ys)"
      "s_tail s' = s_tail s" "info (s_heap s') (s_tail s) = info (s_heap s) (s_tail s)"
      using erase_one_hit [OF s _ up] mk k by blast
    have "length ns = Suc (length (lower s k ns @ ys))"
      using arg_cong [OF lower_upper [of s k ns], of length] up by simp
    then have "sl_inv s' (lower s k ns @ ys)" using s' inv by (simp add: sl_inv_def)
    moreover have "entries_of s' (lower s k ns @ ys) = del_entry k es"
      using s'(4) es up(1) entries_of_lower_upper [of s k ns, symmetric] by (simp add: del_entry_def)
    moreover have "key (s_heap s') (s_tail s') = maxKey"
      using s'(5,6) views_info(1) mk by metis
    ultimately show ?thesis using True s'(1) by (auto simp: map_rep_def)
  qed
qed

section \<open>The destructor\<close>

lemma destroy_chain:
  assumes "chain (nxt h 0) (xs @ [0])" and "distinct xs" and "0 \<notin> set xs"
  shows "destroy h (hd (xs @ [0])) = Some (Inr (free_all xs h))"
  using assms
proof (induction xs arbitrary: h)
  case Nil
  then show ?case by (subst destroy.simps) (simp add: free_all_def)
next
  case (Cons x xs)
  have x: "x \<noteq> 0" "nxt h 0 x = Some (hd (xs @ [0]))" using Cons.prems by (auto simp: chain_Cons)
  have d: "distinct xs" "0 \<notin> set xs" using Cons.prems by auto
  have "chain (nxt (h(x := None)) 0) (xs @ [0])"
    using chain_upd_other [of h 0 x "xs @ [0]" None] Cons.prems by auto
  then have "destroy (h(x := None)) (hd (xs @ [0])) = Some (Inr (free_all xs (h(x := None))))"
    by (rule Cons.IH [OF _ d])
  then show ?case using x level_next_nxt [OF x] by (subst destroy.simps) (simp add: free_all_Cons)
qed

lemma level0_chain:
  assumes s: "sl_shape s ns"
  shows "chain (nxt (s_heap s) 0) ((s_head s # ns @ [s_tail s]) @ [0])"
proof -
  have "chain (nxt (s_heap s) 0) (s_head s # ns @ [s_tail s])"
    using sl_shapeD(12) [OF s, of 0] level_zero [OF s, of ns] by (simp add: MAX_LEVEL_def)
  then show ?thesis
    using sl_shapeD(5) [OF s, of 0] chain_append [of "nxt (s_heap s) 0" "s_head s # ns" "s_tail s" "[0]"]
    by (simp add: MAX_LEVEL_def)
qed

lemma skiplist_delete_frees:
  assumes s: "sl_shape s ns"
  shows "skiplist_delete s = Some (Inr (free_all (ns @ [s_tail s]) (s_heap s)))"
proof -
  have ch: "chain (nxt (s_heap s) 0) (s_head s # (ns @ [s_tail s]) @ [0])"
    using level0_chain [OF s] by simp
  have h0: "s_head s \<noteq> 0" by (intro sl_shape_nonnull [OF s]) simp
  have nx: "nxt (s_heap s) 0 (s_head s) = Some (hd ((ns @ [s_tail s]) @ [0]))"
    and ch': "chain (nxt (s_heap s) 0) ((ns @ [s_tail s]) @ [0])"
    using ch by (auto simp: chain_Cons simp del: append_assoc)
  have "distinct (ns @ [s_tail s])" "0 \<notin> set (ns @ [s_tail s])"
    using sl_shapeD(1,2) [OF s] by auto
  from destroy_chain [OF ch' this] show ?thesis
    unfolding skiplist_delete_def level_next_nxt [OF h0 nx] by (simp only: sum.case)
qed

section \<open>The self-check\<close>

lemma check_count_chain:
  assumes "chain (nxt h 0) (xs @ [0])" and "0 \<notin> set xs" and "c + length xs < 100000"
  shows "check_count h (hd (xs @ [0])) c = Inr (Some (c + length xs))"
  using assms
proof (induction xs arbitrary: c)
  case Nil
  then show ?case by (subst check_count.simps) simp
next
  case (Cons x xs)
  have x: "x \<noteq> 0" "nxt h 0 x = Some (hd (xs @ [0]))" using Cons.prems by (auto simp: chain_Cons)
  have "check_count h (hd (xs @ [0])) (Suc c) = Inr (Some (Suc c + length xs))"
    using Cons.prems by (intro Cons.IH) (auto simp: chain_Cons)
  then show ?case
    using x level_next_nxt [OF x] Cons.prems(3) by (subst check_count.simps) simp
qed

lemma check_level_chain:
  assumes "chain (nxt h i) (cur # xs @ [0])" and "0 \<notin> set (cur # xs)"
    and "sorted (map (key h) (cur # xs))" and "c + length xs < 100000"
  shows "check_level h i cur c = Inr (Some (last (cur # xs), c + length xs))"
  using assms
proof (induction xs arbitrary: cur c)
  case Nil
  then have "level_next h cur i = Inr 0" by (intro level_next_nxt) auto
  then show ?case by (subst check_level.simps) simp
next
  case (Cons x xs)
  have nx: "nxt h i cur = Some x" "nxt h i x = Some (hd (xs @ [0]))"
    using Cons.prems(1) by (auto simp: chain_Cons)
  have nz: "cur \<noteq> 0" "x \<noteq> 0" using Cons.prems(2) by auto
  obtain n m where "node_load h cur = Inr n" "n_key n = key h cur" "node_load h x = Inr m" "n_key m = key h x"
    using node_load_info [OF nz(1), of h] node_load_info [OF nz(2), of h]
      nxt_Some_height [OF nx(1)] nxt_Some_height [OF nx(2)] by fastforce
  moreover have "check_level h i x (Suc c) = Inr (Some (last (x # xs), Suc c + length xs))"
    using Cons.prems by (intro Cons.IH) auto
  moreover have "\<not> key h cur > key h x" using Cons.prems(3) by (simp add: not_less)
  ultimately show ?case
    using nz level_next_nxt [OF nz(1) nx(1)] Cons.prems(4) by (subst check_level.simps) simp
qed

lemma check_levels_tail:
  assumes "\<And>i. i \<in> set is \<Longrightarrow> nxt h i a = Some 0" and "a \<noteq> 0"
  shows "check_levels h is a c = Inr True"
  using assms(1)
proof (induction "is")
  case (Cons i "is")
  then have "check_level h i a c = Inr (Some (a, c))"
    using level_next_nxt [OF assms(2), of h i 0] by (subst check_level.simps) simp
  then show ?case using Cons by simp
qed simp

lemma check_correctness_true:
  assumes inv: "sl_inv s ns" and len: "length ns < 99998"
    and mink: "\<And>a. a \<in> set (ns @ [s_tail s]) \<Longrightarrow> key (s_heap s) (s_head s) \<le> key (s_heap s) a"
  shows "check_correctness s = Inr True"
proof -
  have s: "sl_shape s ns" using inv by (simp add: sl_inv_def)
  let ?xs = "ns @ [s_tail s]"
  have ch: "chain (nxt (s_heap s) 0) ((s_head s # ?xs) @ [0])" using level0_chain [OF s] by simp
  have "check_count (s_heap s) (s_head s) 0 = Inr (Some (length ns + 2))"
    using check_count_chain [OF ch, of 0] sl_shapeD(2) [OF s] len by simp
  moreover have "(of_nat (length ns + 2) - 2 :: size_t) = s_length s"
    using inv by (simp add: sl_inv_def)
  moreover have "sorted (map (key (s_heap s)) (s_head s # ?xs))"
    using mink sl_shapeD(10,11) [OF s] by (auto simp: sorted_append)
  then have "check_level (s_heap s) 0 (s_head s) 0 = Inr (Some (s_tail s, length ns + 1))"
    using check_level_chain [of "s_heap s" 0 "s_head s" ?xs 0] ch sl_shapeD(2) [OF s] len by simp
  moreover have "check_levels (s_heap s) [1..<MAX_LEVEL] (s_tail s) (length ns + 1) = Inr True"
    using sl_shapeD(5) [OF s] by (intro check_levels_tail sl_shape_nonnull [OF s]) auto
  moreover have "[0..<MAX_LEVEL] = 0 # [1..<MAX_LEVEL]" by (simp add: MAX_LEVEL_def upt_conv_Cons)
  ultimately show ?thesis by (simp add: check_correctness_def del: upt_Suc)
qed

end
