(* ===== verification/Timer.thy ===== *)
theory Timer
  imports Skiplist_Map "HOL-Library.Signed_Division"
begin

text \<open>
  The timers (\<^verbatim>\<open>include/coring/timer.hpp\<close>, \<^verbatim>\<open>include/coring/detail/time_utils.hpp\<close>): a skip list from
  wake-up times in microseconds to suspended coroutines.

  The system clock is an argument (\<open>now\<close>, in microseconds since the epoch), and so is what a
  resumed coroutine does (\<open>resume\<close>): it changes the rest of the program, whose state is \<open>'w\<close>, and
  may add events to this timer.
\<close>

section \<open>Operations\<close>

text \<open>What resuming a coroutine does to the state; \<open>None\<close> when it never comes back.\<close>

type_synonym ('h, 's) resumption = "'h \<Rightarrow> 's \<Rightarrow> 's res option"

type_synonym timer = "(int, handle) skiplist"

text \<open>\<open>timer_queue_\<close> default constructed, with its head at \<open>hd_at\<close> and its dummy node at \<open>place\<close>.\<close>

definition timer_new :: "addr \<Rightarrow> addr \<Rightarrow> timer" where
  "timer_new hd_at place = skiplist_new LONG_MIN LONG_MAX 0 hd_at place"

record timespec =
  tv_sec :: int
  tv_nsec :: int

text \<open>\<open>make_timespec\<close> for a duration of \<open>ticks\<close> ticks of \<open>tick_ns\<close> nanoseconds.\<close>

definition make_timespec :: "int \<Rightarrow> int \<Rightarrow> timespec res" where
  "make_timespec tick_ns ticks =
     res_bind (long_res (ticks * tick_ns)) (\<lambda>duration_ns.
       Inr \<lparr>tv_sec = duration_ns sdiv 1000000000, tv_nsec = duration_ns smod 1000000000\<rparr>)"

definition has_more_timeouts :: "timer \<Rightarrow> bool" where
  "has_more_timeouts t \<longleftrightarrow> \<not> map_empty t"

definition get_next_expiration :: "int \<Rightarrow> timer \<Rightarrow> timespec res" where
  "get_next_expiration now t =
     res_bind (list_begin t) (\<lambda>it.
     res_bind (node_load (s_heap t) it) (\<lambda>n.
     res_bind (long_res (n_key n - now)) (\<lambda>dur_diff.
     make_timespec 1000 (max 0 dur_diff))))"

fun resume_all ::
  "(handle, 'w \<times> timer) resumption \<Rightarrow> handle list \<Rightarrow> 'w \<times> timer \<Rightarrow> ('w \<times> timer) res option" where
  "resume_all resume [] ws = Some (Inr ws)"
| "resume_all resume (t # ts) ws = ores_bind (resume t ws) (resume_all resume ts)"

text \<open>The lambda passed to \<open>do_less_eq_then_pop\<close>; it counts in \<open>sz\<close>, an \<open>int\<close>.\<close>

definition count_and_resume ::
  "(handle, 'w \<times> timer) resumption \<Rightarrow> (int, handle, int \<times> 'w) callback" where
  "count_and_resume resume t zs =
     (case zs of ((sz, w), s) \<Rightarrow>
        ores_bind (Some (int32_res (sz + 1))) (\<lambda>sz.
        ores_bind (resume t (w, s)) (\<lambda>(w, s). Some (Inr ((sz, w), s)))))"

definition handle_events ::
  "int \<Rightarrow> (handle, 'w \<times> timer) resumption \<Rightarrow> 'w \<times> timer \<Rightarrow> (int \<times> 'w \<times> timer) res option" where
  "handle_events now resume ws =
     (if map_empty (snd ws) then Some (Inr (0, ws))
      else ores_bind (do_less_eq_then_pop now (count_and_resume resume) ((0, fst ws), snd ws))
             (\<lambda>((sz, w), s).
           ores_bind (pop_less_eq now s) (\<lambda>(to_resume, s).
           ores_bind (resume_all resume to_resume (w, s)) (\<lambda>ws. Some (Inr (sz, ws))))))"

definition add_event ::
  "addr \<Rightarrow> (nat \<Rightarrow> bool) \<Rightarrow> int \<Rightarrow> handle \<Rightarrow> int \<Rightarrow> timer \<Rightarrow> timer res option" where
  "add_event place draws now cont timeout t =
     ores_bind (Some (long_res (now + timeout))) (\<lambda>wakeup_point.
     ores_bind (emplace place draws wakeup_point cont t) (\<lambda>(_, t). Some (Inr t)))"

text \<open>\<open>loop_timer\<close>, which counts in unsigned milliseconds.\<close>

definition loop_timer_new :: "u64 \<Rightarrow> u64" where
  "loop_timer_new now_ms = now_ms"

definition ms_passed :: "u64 \<Rightarrow> u64 \<Rightarrow> u64" where
  "ms_passed now_cnt ms_begin = now_cnt - ms_begin"

section \<open>Correctness\<close>

definition timer_rep :: "timer \<Rightarrow> (int \<times> handle) list \<Rightarrow> bool" where
  "timer_rep t es \<longleftrightarrow> map_rep LONG_MAX t es"

lemma timer_new_rep:
  "hd_at \<noteq> 0 \<Longrightarrow> place \<noteq> 0 \<Longrightarrow> hd_at \<noteq> place \<Longrightarrow> timer_rep (timer_new hd_at place) []"
  unfolding timer_rep_def timer_new_def by (rule map_new_rep)

lemma add_event_rep:
  assumes "timer_rep t es" and "place \<noteq> 0" and "s_heap t place = None" and "in_long (now + timeout)"
  shows "\<exists>t'. add_event place draws now cont timeout t = Some (Inr t') \<and>
    timer_rep t' (ins_entry (now + timeout) cont es)"
proof -
  have "now + timeout \<le> LONG_MAX" using assms(4) by (simp add: in_long_def)
  then obtain t' where "map_insert (place, draws) (now + timeout) cont t = Some (Inr t')"
    "map_rep LONG_MAX t' (ins_entry (now + timeout) cont es)"
    using map_insert_rep [of LONG_MAX t es "(place, draws)" "now + timeout" cont] assms
    by (auto simp: timer_rep_def map_fresh_def)
  then show ?thesis
    using assms(4) by (auto simp: add_event_def long_res_def timer_rep_def map_insert_def add_emplace)
qed

lemma add_event_overflow:
  "\<not> in_long (now + timeout) \<Longrightarrow>
    add_event place draws now cont timeout t = Some (Inl Signed_overflow)"
  by (simp add: add_event_def long_res_def)

text \<open>The time to wait is that of the earliest event, zero when it is past, split correctly.\<close>

lemma make_timespec_split:
  assumes "in_long (ticks * tick_ns)" and "0 \<le> ticks * tick_ns"
  shows "\<exists>ts. make_timespec tick_ns ticks = Inr ts \<and> 0 \<le> tv_sec ts \<and> 0 \<le> tv_nsec ts \<and>
    tv_nsec ts < 1000000000 \<and> tv_sec ts * 1000000000 + tv_nsec ts = ticks * tick_ns"
  using assms
  by (auto simp: make_timespec_def long_res_def signed_divide_int_def signed_modulo_int_def sgn_if)

lemma get_next_expiration_first:
  assumes rep: "timer_rep t ((k, c) # es)" and "in_long (k - now)" and "in_long ((k - now) * 1000)"
  shows "\<exists>ts. get_next_expiration now t = Inr ts \<and> 0 \<le> tv_nsec ts \<and> tv_nsec ts < 1000000000 \<and>
    tv_sec ts * 1000000000 + tv_nsec ts = max 0 (k - now) * 1000"
proof -
  obtain ns where s: "sl_shape t ns" and es: "entries_of t ns = (k, c) # es"
    using rep by (auto simp: timer_rep_def map_rep_def sl_inv_def)
  then obtain a as where a: "ns = a # as" "key (s_heap t) a = k" by (cases ns) auto
  have h0: "s_head t \<noteq> 0" by (intro sl_shape_nonnull [OF s]) simp
  have "nxt (s_heap t) 0 (s_head t) = Some a"
    using level0_chain [OF s] a by simp
  then have "list_begin t = Inr a" using h0 by (simp add: list_begin_def level_next_nxt)
  moreover obtain n where "node_load (s_heap t) a = Inr n" "n_key n = k"
    using entry_load [OF s, of a] a by auto
  moreover have "in_long (max 0 (k - now) * 1000)" using assms(3)
    by (auto simp: max_def in_long_def LONG_MIN_def LONG_MAX_def)
  ultimately show ?thesis
    using make_timespec_split [of "max 0 (k - now)" 1000] assms(2)
    by (auto simp: get_next_expiration_def long_res_def)
qed

section \<open>Running the events that are due\<close>

text \<open>
  A resumed coroutine has the effect \<open>eff\<close> on the state of the program and on the pending events.
  The lambda adds one to the counter, so it is a callback with the effect below.
\<close>

definition counted ::
  "(handle \<Rightarrow> 'w \<times> (int \<times> handle) list \<Rightarrow> 'w \<times> (int \<times> handle) list) \<Rightarrow>
   handle \<Rightarrow> (int \<times> 'w) \<times> (int \<times> handle) list \<Rightarrow> (int \<times> 'w) \<times> (int \<times> handle) list" where
  "counted eff h = (\<lambda>((n, w), es). let (w', es') = eff h (w, es) in ((n + 1, w'), es'))"

lemma fold_counted:
  "fold (counted eff) hs ((n, w), es) =
    (let (w', es') = fold eff hs (w, es) in ((n + int (length hs), w'), es'))"
  by (induction hs arbitrary: n w es) (auto simp: counted_def split: prod.splits)

text \<open>With \<open>j\<close> calls to go, the counter has room for them.\<close>

definition counting :: "('w \<Rightarrow> timer \<Rightarrow> bool) \<Rightarrow> nat \<Rightarrow> int \<times> 'w \<Rightarrow> timer \<Rightarrow> bool" where
  "counting I j zw s \<longleftrightarrow> I (snd zw) s \<and> 0 \<le> fst zw \<and> fst zw + int j \<le> 2147483647"

lemma count_and_resume_ok:
  assumes "callback_ok I resume eff"
  shows "callback_from (counting I (Suc j)) (counting I j) (count_and_resume resume) (counted eff)"
  unfolding callback_from_def
proof (intro allI impI)
  fix v and zw :: "int \<times> 'a" and s ns D
  assume I: "counting I (Suc j) zw s" and s: "sl_shape s ns"
    and D: "D \<inter> set (s_head s # ns @ [s_tail s]) = {}" "D \<subseteq> dom (s_heap s)"
  obtain n w where zw: "zw = (n, w)" by (cases zw)
  obtain w' s' ns' where "resume v (w, s) = Some (Inr (w', s'))" "I w' s'" "sl_shape s' ns'"
    "eff v (w, entries_of s ns) = (w', entries_of s' ns')" "s_head s' = s_head s" "s_tail s' = s_tail s"
    "D \<inter> set (s_head s # ns' @ [s_tail s]) = {}" "\<forall>a \<in> D. s_heap s' a = s_heap s a"
    "s_length s' - of_nat (length ns') = s_length s - of_nat (length ns)" "spare_nodes s' ns' = spare_nodes s ns"
    using assms [unfolded callback_ok_def callback_from_def, rule_format, OF _ s D, of w v] I zw
    by (auto simp: counting_def)
  moreover have "int32_res (n + 1) = Inr (n + 1)" using I zw by (simp add: counting_def int32_res_def)
  ultimately show "\<exists>w' s' ns'. count_and_resume resume v (zw, s) = Some (Inr (w', s')) \<and>
      counting I j w' s' \<and> sl_shape s' ns' \<and>
      counted eff v (zw, entries_of s ns) = (w', entries_of s' ns') \<and>
      s_head s' = s_head s \<and> s_tail s' = s_tail s \<and> D \<inter> set (s_head s # ns' @ [s_tail s]) = {} \<and>
      (\<forall>a \<in> D. s_heap s' a = s_heap s a) \<and>
      s_length s' - of_nat (length ns') = s_length s - of_nat (length ns) \<and> spare_nodes s' ns' = spare_nodes s ns"
    using I by (intro exI [of _ "(n + 1, w')"] exI [of _ s'] exI [of _ ns'])
       (simp add: count_and_resume_def counted_def zw counting_def)
qed

lemma counted_stable: "stable I \<Longrightarrow> stable (counting I j)"
  by (auto simp: stable_def counting_def)

lemma resume_all_fold:
  assumes f: "callback_ok I resume eff"
  shows "I w s \<Longrightarrow> sl_inv s ns \<Longrightarrow>
    \<exists>w' s' ns'. resume_all resume hs (w, s) = Some (Inr (w', s')) \<and> sl_inv s' ns' \<and> I w' s' \<and>
      fold eff hs (w, entries_of s ns) = (w', entries_of s' ns')"
proof (induction hs arbitrary: w s ns)
  case (Cons h hs)
  obtain w1 s1 ns1 where s1: "resume h (w, s) = Some (Inr (w1, s1))" "I w1 s1" "sl_inv s1 ns1"
    "eff h (w, entries_of s ns) = (w1, entries_of s1 ns1)"
    using callback_step [OF f Cons.prems, of h] by blast
  then show ?case using Cons.IH [OF s1(2,3)] by simp
qed auto

text \<open>What \<open>handle_events\<close> relies on of the coroutines it resumes.\<close>

definition timer_env ::
  "('w \<Rightarrow> timer \<Rightarrow> bool) \<Rightarrow> (handle, 'w \<times> timer) resumption \<Rightarrow>
   (handle \<Rightarrow> 'w \<times> (int \<times> handle) list \<Rightarrow> 'w \<times> (int \<times> handle) list) \<Rightarrow> bool" where
  "timer_env I resume eff \<longleftrightarrow> callback_ok I resume eff \<and> stable I \<and>
     (\<forall>w t. I w t \<longrightarrow> key (s_heap t) (s_tail t) = LONG_MAX)"

lemma timer_rep_empty:
  assumes "timer_rep t es" and "length es < 18446744073709551616"
  shows "map_empty t \<longleftrightarrow> es = []"
proof -
  have "s_length t = of_nat (length es)"
    using assms(1) map_size_rep by (auto simp: timer_rep_def map_size_def)
  then show ?thesis
    using assms(2) of_nat_less_u64 [of "length es"] by (auto simp: map_empty_def unat_eq_iff_u64)
qed

lemma timer_rep_nodes:
  "timer_rep t es \<longleftrightarrow>
    (\<exists>ns. sl_inv t ns \<and> entries_of t ns = es) \<and> key (s_heap t) (s_tail t) = LONG_MAX"
  by (simp add: timer_rep_def map_rep_def)

definition is_due :: "int \<Rightarrow> int \<times> handle \<Rightarrow> bool" where
  "is_due now e \<longleftrightarrow> fst e \<le> now"

text \<open>The handles that are due, resumed in order, and what becomes of the pending events.\<close>

definition run_due ::
  "(handle \<Rightarrow> 'w \<times> (int \<times> handle) list \<Rightarrow> 'w \<times> (int \<times> handle) list) \<Rightarrow> int \<Rightarrow>
   'w \<times> (int \<times> handle) list \<Rightarrow> 'w \<times> (int \<times> handle) list" where
  "run_due eff now wes =
     fold eff (map snd (filter (is_due now) (snd wes))) (fst wes, filter (\<lambda>e. \<not> is_due now e) (snd wes))"

lemma due_filters:
  assumes "timer_rep t es"
  shows "takeWhile (\<lambda>e. fst e \<le> now) es = filter (is_due now) es"
    and "dropWhile (\<lambda>e. fst e \<le> now) es = filter (\<lambda>e. \<not> is_due now e) es"
  using sorted_takeWhile_filter [OF map_rep_sorted, of LONG_MAX t es now] assms
  by (simp_all add: timer_rep_def is_due_def [abs_def] not_le)

lemma first_pass:
  assumes env: "timer_env I resume eff" and I: "I w t" and rep: "timer_rep t es" and now: "now < LONG_MAX"
    and few: "length (filter (is_due now) es) \<le> 2147483647"
  shows "\<exists>w' t'. do_less_eq_then_pop now (count_and_resume resume) ((0, w), t) =
      Some (Inr ((int (length (filter (is_due now) es)), w'), t')) \<and> I w' t' \<and>
    (\<exists>es'. timer_rep t' es' \<and> run_due eff now (w, es) = (w', es'))"
proof -
  obtain ns where inv: "sl_inv t ns" and es: "entries_of t ns = es"
    and mk: "key (s_heap t) (s_tail t) = LONG_MAX" using rep by (auto simp: timer_rep_nodes)
  have ok: "callback_from (counting I (Suc j)) (counting I j) (count_and_resume resume) (counted eff)"
    and st: "stable (counting I j)" for j
    using env count_and_resume_ok counted_stable unfolding timer_env_def by blast+
  obtain zw t' ns' where res: "do_less_eq_then_pop now (count_and_resume resume) ((0, w), t) = Some (Inr (zw, t'))"
    and I': "counting I 0 zw t'" and inv': "sl_inv t' ns'"
    and fold: "(zw, entries_of t' ns') = fold (counted eff) (map snd (filter (is_due now) es))
      ((0, w), filter (\<lambda>e. \<not> is_due now e) es)"
    using do_less_eq_then_pop_folds [where I = "counting I", OF ok st, of now t ns "(0, w)"] I inv mk now es few
      due_filters [OF rep] by (auto simp: counting_def)
  obtain w' es' where w': "run_due eff now (w, es) = (w', es')" by fastforce
  then have zw: "zw = (int (length (filter (is_due now) es)), w')" "entries_of t' ns' = es'"
    using fold by (simp_all add: fold_counted run_due_def)
  then have "I w' t'" using I' by (simp add: counting_def)
  moreover from this have "timer_rep t' es'"
    using inv' zw(2) env unfolding timer_env_def timer_rep_nodes by blast
  ultimately show ?thesis using res zw(1) w' by blast
qed

lemma second_pass:
  assumes env: "timer_env I resume eff" and I: "I w t" and rep: "timer_rep t es" and now: "now < LONG_MAX"
  shows "\<exists>w' t' es'. ores_bind (pop_less_eq now t) (\<lambda>(to_resume, t). resume_all resume to_resume (w, t)) =
      Some (Inr (w', t')) \<and> timer_rep t' es' \<and> run_due eff now (w, es) = (w', es')"
proof -
  obtain ns where inv: "sl_inv t ns" and es: "entries_of t ns = es"
    and mk: "key (s_heap t) (s_tail t) = LONG_MAX" using rep by (auto simp: timer_rep_nodes)
  have f: "callback_ok I resume eff" and st: "stable I" using env by (simp_all add: timer_env_def)
  obtain t1 where t1: "pop_less_eq now t = Some (Inr (map snd (filter (is_due now) es), t1))"
    "sl_inv t1 (later t now ns)" "entries_of t1 (later t now ns) = filter (\<lambda>e. \<not> is_due now e) es"
    "shrunk t t1"
    using pop_less_eq_pops [OF inv, of now] mk now es due_filters [OF rep] by auto
  have "I w t1" by (rule stableD [OF st I t1(4)])
  obtain w' t' ns' where res: "resume_all resume (map snd (filter (is_due now) es)) (w, t1) = Some (Inr (w', t'))"
    and inv': "sl_inv t' ns'" "I w' t'" and fold: "run_due eff now (w, es) = (w', entries_of t' ns')"
    using resume_all_fold [OF f \<open>I w t1\<close> t1(2), of "map snd (filter (is_due now) es)"] t1(3)
    by (auto simp: run_due_def)
  have "timer_rep t' (entries_of t' ns')"
    using inv' env unfolding timer_env_def timer_rep_nodes by blast
  then show ?thesis using res t1(1) fold by auto
qed

lemma handle_events_runs:
  assumes env: "timer_env I resume eff" and I: "I w t" and rep: "timer_rep t es"
    and len: "length es < 18446744073709551616" and now: "now < LONG_MAX"
    and few: "length (filter (is_due now) es) \<le> 2147483647"
  shows "\<exists>w' t' es'. handle_events now resume (w, t) =
      Some (Inr (int (length (filter (is_due now) es)), w', t')) \<and> timer_rep t' es' \<and>
    (if es = [] then (w', es') = (w, es) else run_due eff now (run_due eff now (w, es)) = (w', es'))"
proof (cases "es = []")
  case True
  then show ?thesis using timer_rep_empty [OF rep len] rep by (auto simp: handle_events_def)
next
  case False
  obtain w1 t1 es1 where p1: "do_less_eq_then_pop now (count_and_resume resume) ((0, w), t) =
      Some (Inr ((int (length (filter (is_due now) es)), w1), t1))" "I w1 t1" "timer_rep t1 es1"
    "run_due eff now (w, es) = (w1, es1)"
    using first_pass [OF env I rep now few] by blast
  obtain w' t' es' where p2: "ores_bind (pop_less_eq now t1) (\<lambda>(to_resume, t). resume_all resume to_resume (w1, t)) =
      Some (Inr (w', t'))" "timer_rep t' es'" "run_due eff now (w1, es1) = (w', es')"
    using second_pass [OF env p1(2,3) now] by blast
  obtain v t2 where v: "pop_less_eq now t1 = Some (Inr (v, t2))"
    using p2(1) by (auto simp: ores_bind_def split: option.splits sum.splits)
  then have "resume_all resume v (w1, t2) = Some (Inr (w', t'))" using p2(1) by simp
  then show ?thesis
    using False p1 p2(2,3) v timer_rep_empty [OF rep len] by (simp add: handle_events_def)
qed

section \<open>Coroutines that leave the timer alone\<close>

lemma timer_env_passive:
  "timer_env (\<lambda>rs t. key (s_heap t) (s_tail t) = LONG_MAX)
    (\<lambda>h (rs, t). Some (Inr (rs @ [h], t))) (\<lambda>h (rs, es). (rs @ [h], es))"
proof -
  have "stable (\<lambda>rs t. key (s_heap t) (s_tail t) = LONG_MAX)"
    by (auto simp: stable_def shrunk_def key_def)
  moreover have "callback_ok (\<lambda>rs t. key (s_heap t) (s_tail t) = LONG_MAX)
      (\<lambda>h (rs, t). Some (Inr (rs @ [h], t))) (\<lambda>h (rs, es). (rs @ [h], es))"
    unfolding callback_ok_def callback_from_def by auto
  ultimately show ?thesis by (simp add: timer_env_def)
qed

lemma fold_passive: "fold (\<lambda>h (rs, es). (rs @ [h], es)) hs (rs, es) = (rs @ hs, es)"
  by (induction hs arbitrary: rs) simp_all

lemma handle_events_passive:
  assumes "timer_rep t es" and "length es < 18446744073709551616" and "now < LONG_MAX"
    and "length (filter (is_due now) es) \<le> 2147483647"
  shows "\<exists>t'. handle_events now (\<lambda>h (rs, t). Some (Inr (rs @ [h], t))) (rs, t) =
      Some (Inr (int (length (filter (is_due now) es)), rs @ map snd (filter (is_due now) es), t')) \<and>
    timer_rep t' (filter (\<lambda>e. \<not> is_due now e) es)"
proof -
  have "key (s_heap t) (s_tail t) = LONG_MAX" using assms(1) by (simp add: timer_rep_nodes)
  then show ?thesis
    using handle_events_runs [OF timer_env_passive _ assms, of rs]
    by (auto simp: run_due_def fold_passive split: if_splits)
qed

end
