(* ===== verification/Io_Uring.thy ===== *)
theory Io_Uring
  imports Timer
begin

text \<open>
  The wrapper of the kernel's submission and completion queues
  (\<^verbatim>\<open>include/coring/detail/io/io_uring_context.hpp\<close>) and the awaitables it returns
  (\<^verbatim>\<open>include/coring/detail/io/io_awaitable.hpp\<close>).

  The queues themselves belong to liburing and to the kernel, which are not part of the
  repository: a \<open>liburing\<close> record of functions on an unknown ring is an argument of every
  operation. Submission entries are identified by their index, completion entries by their
  position in the sequence of all completions posted. What the context relies on is
  \<open>liburing_ok\<close>; it is what the manual pages of liburing say of these functions. A call of a
  function \<open>io_uring_prep_X\<close> is recorded as the value \<open>Prep_X\<close> of its arguments.

  Resuming a coroutine runs code of the program's user; it is an argument too, and has to keep
  \<open>cq_evolves\<close>, as every operation of the context does.
\<close>

section \<open>Helpers\<close>

text \<open>
  \<^verbatim>\<open>include/coring/detail/io_utils.hpp\<close>: \<open>panic\<close>, which throws a \<open>std::system_error\<close>, and the operator
  that applies it to the result of a system call. \<open>errno\<close> is an argument.
\<close>

definition ETIME :: int where
  "ETIME = 62"

definition panic :: "int \<Rightarrow> 'a res" where
  "panic err = Inl (System_error err)"

definition panic_on_err :: "bool \<Rightarrow> int \<Rightarrow> int \<Rightarrow> int res" where
  "panic_on_err use_errno errno ret =
     (if ret < 0
      then if use_errno then panic errno else if ret \<noteq> - ETIME then panic (- ret) else Inr ret
      else Inr ret)"

record iovec =
  iov_base :: addr
  iov_len :: nat

definition to_iov :: "addr \<Rightarrow> nat \<Rightarrow> iovec" where
  "to_iov buf n = \<lparr>iov_base = buf, iov_len = n\<rparr>"

definition dur2ts :: "int \<Rightarrow> timespec" where
  "dur2ts dur =
     (let secs = dur sdiv 1000000000; dur = dur - secs * 1000000000
      in \<lparr>tv_sec = secs, tv_nsec = dur\<rparr>)"

section \<open>Submission entries\<close>

datatype uring_call =
    Prep_link_timeout addr nat
  | Prep_cancel addr int
  | Prep_readv int addr nat int
  | Prep_writev int addr nat int
  | Prep_read int addr nat int
  | Prep_write int addr nat int
  | Prep_read_fixed int addr nat int int
  | Prep_write_fixed int addr nat int int
  | Prep_fsync int nat
  | Prep_rw_sync_file_range int addr int int
  | Prep_recvmsg int addr nat
  | Prep_sendmsg int addr nat
  | Prep_recv int addr nat nat
  | Prep_send int addr nat nat
  | Prep_poll_add int int
  | Prep_nop
  | Prep_accept int addr addr int
  | Prep_connect int addr nat
  | Prep_timeout addr nat nat
  | Prep_openat int addr int nat
  | Prep_close int
  | Prep_statx int addr int nat addr
  | Prep_splice int int int int nat nat
  | Prep_tee int int nat nat
  | Prep_shutdown int int
  | Prep_renameat int addr int addr nat
  | Prep_mkdirat int addr nat
  | Prep_symlinkat addr int addr
  | Prep_linkat int addr int addr int
  | Prep_unlinkat int addr nat
  | Prep_provide_buffers addr int int int int

text \<open>
  The fields of \<open>io_uring_sqe\<close> that the context writes itself, and the call that filled the rest.
\<close>

record sqe =
  sqe_call :: uring_call
  sqe_flags :: u8
  sqe_user_data :: addr
  sqe_buf_group :: u16
  sqe_sync_range_flags :: nat

record cqe =
  cqe_user_data :: addr
  cqe_res :: int
  cqe_flags :: u32

record 'r liburing =
  lib_get_sqe :: "'r \<Rightarrow> (nat \<times> 'r) option"
  lib_prep :: "uring_call \<Rightarrow> sqe \<Rightarrow> sqe"
  lib_submit :: "'r \<Rightarrow> 'r"
  lib_submit_and_wait :: "nat \<Rightarrow> 'r \<Rightarrow> 'r"
  lib_sqring_wait :: "'r \<Rightarrow> 'r"
  lib_cq_advance :: "nat \<Rightarrow> 'r \<Rightarrow> 'r"
  lib_cq_head :: "'r \<Rightarrow> nat"
  lib_cq_tail :: "'r \<Rightarrow> nat"
  lib_cqe :: "'r \<Rightarrow> nat \<Rightarrow> cqe"
  lib_udata_timeout :: addr

section \<open>Tokens and awaitables\<close>

record io_token =
  tk_continuation :: handle
  tk_result :: int
  tk_flags :: u32

text \<open>
  The members of the context. The tokens live in the frames of the suspended coroutines; the ones
  alive are in \<open>uc_tokens\<close>, by address. \<open>cqe_count\<close> is an \<open>unsigned\<close>; a completion queue has at
  most 65536 entries, so it does not wrap.
\<close>

record 'r io_uring_context =
  uc_ring :: 'r
  uc_sqes :: "nat \<Rightarrow> sqe"
  cqe_count :: nat
  uc_tokens :: "addr \<rightharpoonup> io_token"

text \<open>\<open>io_awaitable_base\<close>: the entry and the place of the token, null until it is awaited.\<close>

record io_awaitable =
  aw_sqe :: nat
  aw_token_ptr :: addr

definition sqe_update :: "nat \<Rightarrow> (sqe \<Rightarrow> sqe) \<Rightarrow> ('r, 'm) io_uring_context_scheme \<Rightarrow> ('r, 'm) io_uring_context_scheme" where
  "sqe_update i f c = c\<lparr>uc_sqes := (uc_sqes c)(i := f (uc_sqes c i))\<rparr>"

definition io_awaitable_new ::
  "nat \<Rightarrow> ('r, 'm) io_uring_context_scheme \<Rightarrow> io_awaitable \<times> ('r, 'm) io_uring_context_scheme" where
  "io_awaitable_new i c = (\<lparr>aw_sqe = i, aw_token_ptr = 0\<rparr>, sqe_update i (\<lambda>s. s\<lparr>sqe_user_data := 0\<rparr>) c)"

text \<open>\<open>operator co_await\<close>, with the awaiter's token at \<open>tk\<close>, and \<open>await_suspend\<close>.\<close>

definition co_await_op ::
  "addr \<Rightarrow> io_awaitable \<Rightarrow> ('r, 'm) io_uring_context_scheme \<Rightarrow> io_awaitable \<times> ('r, 'm) io_uring_context_scheme" where
  "co_await_op tk a c =
     (a\<lparr>aw_token_ptr := tk\<rparr>,
      c\<lparr>uc_tokens := (uc_tokens c)(tk \<mapsto> \<lparr>tk_continuation = 0, tk_result = 0, tk_flags = 0\<rparr>)\<rparr>)"

definition io_await_suspend ::
  "handle \<Rightarrow> io_awaitable \<Rightarrow> ('r, 'm) io_uring_context_scheme \<Rightarrow> ('r, 'm) io_uring_context_scheme res" where
  "io_await_suspend continuation a c =
     (case uc_tokens c (aw_token_ptr a) of
        None \<Rightarrow> Inl Undefined_object
      | Some t \<Rightarrow> Inr (sqe_update (aw_sqe a) (\<lambda>s. s\<lparr>sqe_user_data := aw_token_ptr a\<rparr>)
          (c\<lparr>uc_tokens := (uc_tokens c)(aw_token_ptr a \<mapsto> t\<lparr>tk_continuation := continuation\<rparr>)\<rparr>)))"

text \<open>\<open>await_resume\<close> of the three kinds of awaitables; 16 is \<open>IORING_CQE_BUFFER_SHIFT\<close>.\<close>

definition io_await_resume :: "io_token \<Rightarrow> int" where
  "io_await_resume t = tk_result t"

definition io_flag_await_resume :: "io_token \<Rightarrow> int" where
  "io_flag_await_resume t =
     (if tk_result t \<le> 0 then tk_result t else uint (drop_bit 16 (tk_flags t)))"

definition io_res_flag_await_resume :: "io_token \<Rightarrow> int \<times> int" where
  "io_res_flag_await_resume t = (tk_result t, uint (drop_bit 16 (tk_flags t)))"

text \<open>\<open>io_cancel_token\<close>, which reads the place of the token when it is used.\<close>

definition get_cancel_key :: "io_awaitable \<Rightarrow> addr" where
  "get_cancel_key a = aw_token_ptr a"

definition is_cancellable :: "io_awaitable \<Rightarrow> bool" where
  "is_cancellable a \<longleftrightarrow> aw_token_ptr a \<noteq> 0"

definition resolve ::
  "(handle, ('r, 'm) io_uring_context_scheme) resumption \<Rightarrow> addr \<Rightarrow> int \<Rightarrow> u32 \<Rightarrow>
   ('r, 'm) io_uring_context_scheme \<Rightarrow> ('r, 'm) io_uring_context_scheme res option" where
  "resolve resume tk res fl c =
     (case uc_tokens c tk of
        None \<Rightarrow> Some (Inl Undefined_object)
      | Some t \<Rightarrow> resume (tk_continuation t)
          (c\<lparr>uc_tokens := (uc_tokens c)(tk \<mapsto> t\<lparr>tk_result := res, tk_flags := fl\<rparr>)\<rparr>))"

section \<open>Construction and registration\<close>

text \<open>
  The constructors differ in how the parameters of the ring are passed; \<open>init\<close> is
  \<open>io_uring_queue_init_params\<close> with them. The registration functions pass the result of their
  system call \<open>ret\<close> through \<open>panic_on_err\<close>; those that unregister return it as it is.
\<close>

record uring_params =
  up_flags :: u32
  up_wq_fd :: u32

definition io_uring_context_new_params ::
  "(int \<Rightarrow> uring_params \<Rightarrow> int \<times> 'r) \<Rightarrow> int \<Rightarrow> uring_params \<Rightarrow> 'r io_uring_context res" where
  "io_uring_context_new_params init entries p =
     (case init entries p of
        (ret, r) \<Rightarrow> res_bind (panic_on_err False 0 ret) (\<lambda>_.
          Inr \<lparr>uc_ring = r,
               uc_sqes = \<lambda>_. \<lparr>sqe_call = Prep_nop, sqe_flags = 0, sqe_user_data = 0, sqe_buf_group = 0, sqe_sync_range_flags = 0\<rparr>,
               cqe_count = 0, uc_tokens = Map.empty\<rparr>))"

definition io_uring_context_new ::
  "(int \<Rightarrow> uring_params \<Rightarrow> int \<times> 'r) \<Rightarrow> int \<Rightarrow> u32 \<Rightarrow> u32 \<Rightarrow> 'r io_uring_context res" where
  "io_uring_context_new init entries flags wq_fd =
     io_uring_context_new_params init entries \<lparr>up_flags = flags, up_wq_fd = wq_fd\<rparr>"

definition register_files :: "int \<Rightarrow> unit res" where
  "register_files ret = res_bind (panic_on_err False 0 ret) (\<lambda>_. Inr ())"

definition register_files_update :: "int \<Rightarrow> unit res" where
  "register_files_update ret = res_bind (panic_on_err False 0 ret) (\<lambda>_. Inr ())"

definition register_buffers :: "int \<Rightarrow> unit res" where
  "register_buffers ret = res_bind (panic_on_err False 0 ret) (\<lambda>_. Inr ())"

definition unregister_files :: "int \<Rightarrow> int" where
  "unregister_files ret = ret"

definition unregister_buffers :: "int \<Rightarrow> int" where
  "unregister_buffers ret = ret"

section \<open>Getting an entry\<close>

definition uc_cq_advance :: "'r liburing \<Rightarrow> ('r, 'm) io_uring_context_scheme \<Rightarrow> ('r, 'm) io_uring_context_scheme" where
  "uc_cq_advance L c = c\<lparr>uc_ring := lib_cq_advance L (cqe_count c) (uc_ring c), cqe_count := 0\<rparr>"

partial_function (option) get_sqe_spin ::
  "'r liburing \<Rightarrow> ('r, 'm) io_uring_context_scheme \<Rightarrow> (nat \<times> ('r, 'm) io_uring_context_scheme) res option" where
  "get_sqe_spin L c =
     (let c = uc_cq_advance L c; r = lib_sqring_wait L (lib_submit L (uc_ring c))
      in case lib_get_sqe L r of
           Some (i, r) \<Rightarrow> Some (Inr (i, c\<lparr>uc_ring := r\<rparr>))
         | None \<Rightarrow> get_sqe_spin L (c\<lparr>uc_ring := r\<rparr>))"

definition io_uring_get_sqe_safe ::
  "'r liburing \<Rightarrow> ('r, 'm) io_uring_context_scheme \<Rightarrow> (nat \<times> ('r, 'm) io_uring_context_scheme) res option" where
  "io_uring_get_sqe_safe L c =
     (case lib_get_sqe L (uc_ring c) of
        Some (i, r) \<Rightarrow> Some (Inr (i, c\<lparr>uc_ring := r\<rparr>))
      | None \<Rightarrow> get_sqe_spin L c)"

section \<open>Requests\<close>

type_synonym ('r, 'm, 'a) uring_op =
  "('r, 'm) io_uring_context_scheme \<Rightarrow> ('a \<times> ('r, 'm) io_uring_context_scheme) res option"

definition make_awaitable ::
  "nat \<Rightarrow> u8 \<Rightarrow> ('r, 'm) io_uring_context_scheme \<Rightarrow> io_awaitable \<times> ('r, 'm) io_uring_context_scheme" where
  "make_awaitable i iflags c = io_awaitable_new i (sqe_update i (\<lambda>s. s\<lparr>sqe_flags := iflags\<rparr>) c)"

text \<open>The body that the request functions share: an entry, the preparation, the awaitable.\<close>

definition uring_request :: "'r liburing \<Rightarrow> uring_call \<Rightarrow> u8 \<Rightarrow> ('r, 'm, io_awaitable) uring_op" where
  "uring_request L call iflags c =
     ores_bind (io_uring_get_sqe_safe L c) (\<lambda>(i, c).
       Some (Inr (make_awaitable i iflags (sqe_update i (lib_prep L call) c))))"

text \<open>The detached \<open>link_timeout\<close>, and the one that takes and returns the operation it is linked to.\<close>

definition link_timeout :: "'r liburing \<Rightarrow> addr \<Rightarrow> nat \<Rightarrow> u8 \<Rightarrow> ('r, 'm, unit) uring_op" where
  "link_timeout L ts flags iflags c =
     ores_bind (io_uring_get_sqe_safe L c) (\<lambda>(i, c).
       Some (Inr ((), sqe_update i (\<lambda>s. s\<lparr>sqe_user_data := 0\<rparr>)
         (sqe_update i (\<lambda>s. s\<lparr>sqe_flags := iflags\<rparr>)
         (sqe_update i (lib_prep L (Prep_link_timeout ts flags)) c)))))"

definition link_timeout_op :: "'r liburing \<Rightarrow> io_awaitable \<Rightarrow> addr \<Rightarrow> nat \<Rightarrow> u8 \<Rightarrow> ('r, 'm, io_awaitable) uring_op" where
  "link_timeout_op L async_op ts flags iflags c =
     ores_bind (io_uring_get_sqe_safe L c) (\<lambda>(i, c).
       Some (Inr (async_op, sqe_update i (\<lambda>s. s\<lparr>sqe_flags := iflags\<rparr>)
         (sqe_update i (lib_prep L (Prep_link_timeout ts flags)) c))))"

text \<open>\<open>cancel\<close> takes the token of the awaitable to cancel.\<close>

definition uring_cancel :: "'r liburing \<Rightarrow> io_awaitable \<Rightarrow> int \<Rightarrow> u8 \<Rightarrow> ('r, 'm, io_awaitable) uring_op" where
  "uring_cancel L tk flags iflags = uring_request L (Prep_cancel (get_cancel_key tk) flags) iflags"

definition uring_readv :: "'r liburing \<Rightarrow> int \<Rightarrow> addr \<Rightarrow> nat \<Rightarrow> int \<Rightarrow> u8 \<Rightarrow> ('r, 'm, io_awaitable) uring_op" where
  "uring_readv L fd iovecs nr_vecs offset iflags = uring_request L (Prep_readv fd iovecs nr_vecs offset) iflags"

definition uring_writev :: "'r liburing \<Rightarrow> int \<Rightarrow> addr \<Rightarrow> nat \<Rightarrow> int \<Rightarrow> u8 \<Rightarrow> ('r, 'm, io_awaitable) uring_op" where
  "uring_writev L fd iovecs nr_vecs offset iflags = uring_request L (Prep_writev fd iovecs nr_vecs offset) iflags"

definition uring_read :: "'r liburing \<Rightarrow> int \<Rightarrow> addr \<Rightarrow> nat \<Rightarrow> int \<Rightarrow> u8 \<Rightarrow> ('r, 'm, io_awaitable) uring_op" where
  "uring_read L fd buf nbytes offset iflags = uring_request L (Prep_read fd buf nbytes offset) iflags"

definition uring_write :: "'r liburing \<Rightarrow> int \<Rightarrow> addr \<Rightarrow> nat \<Rightarrow> int \<Rightarrow> u8 \<Rightarrow> ('r, 'm, io_awaitable) uring_op" where
  "uring_write L fd buf nbytes offset iflags = uring_request L (Prep_write fd buf nbytes offset) iflags"

definition uring_read_fixed :: "'r liburing \<Rightarrow> int \<Rightarrow> addr \<Rightarrow> nat \<Rightarrow> int \<Rightarrow> int \<Rightarrow> u8 \<Rightarrow> ('r, 'm, io_awaitable) uring_op" where
  "uring_read_fixed L fd buf nbytes offset buf_index iflags = uring_request L (Prep_read_fixed fd buf nbytes offset buf_index) iflags"

definition uring_write_fixed :: "'r liburing \<Rightarrow> int \<Rightarrow> addr \<Rightarrow> nat \<Rightarrow> int \<Rightarrow> int \<Rightarrow> u8 \<Rightarrow> ('r, 'm, io_awaitable) uring_op" where
  "uring_write_fixed L fd buf nbytes offset buf_index iflags = uring_request L (Prep_write_fixed fd buf nbytes offset buf_index) iflags"

definition uring_fsync :: "'r liburing \<Rightarrow> int \<Rightarrow> nat \<Rightarrow> u8 \<Rightarrow> ('r, 'm, io_awaitable) uring_op" where
  "uring_fsync L fd fsync_flags iflags = uring_request L (Prep_fsync fd fsync_flags) iflags"

definition uring_recvmsg :: "'r liburing \<Rightarrow> int \<Rightarrow> addr \<Rightarrow> nat \<Rightarrow> u8 \<Rightarrow> ('r, 'm, io_awaitable) uring_op" where
  "uring_recvmsg L sockfd msg flags iflags = uring_request L (Prep_recvmsg sockfd msg flags) iflags"

definition uring_sendmsg :: "'r liburing \<Rightarrow> int \<Rightarrow> addr \<Rightarrow> nat \<Rightarrow> u8 \<Rightarrow> ('r, 'm, io_awaitable) uring_op" where
  "uring_sendmsg L sockfd msg flags iflags = uring_request L (Prep_sendmsg sockfd msg flags) iflags"

definition uring_recv :: "'r liburing \<Rightarrow> int \<Rightarrow> addr \<Rightarrow> nat \<Rightarrow> nat \<Rightarrow> u8 \<Rightarrow> ('r, 'm, io_awaitable) uring_op" where
  "uring_recv L sockfd buf nbytes flags iflags = uring_request L (Prep_recv sockfd buf nbytes flags) iflags"

definition uring_send :: "'r liburing \<Rightarrow> int \<Rightarrow> addr \<Rightarrow> nat \<Rightarrow> nat \<Rightarrow> u8 \<Rightarrow> ('r, 'm, io_awaitable) uring_op" where
  "uring_send L sockfd buf nbytes flags iflags = uring_request L (Prep_send sockfd buf nbytes flags) iflags"

definition uring_poll :: "'r liburing \<Rightarrow> int \<Rightarrow> int \<Rightarrow> u8 \<Rightarrow> ('r, 'm, io_awaitable) uring_op" where
  "uring_poll L fd poll_mask iflags = uring_request L (Prep_poll_add fd poll_mask) iflags"

definition uring_yield :: "'r liburing \<Rightarrow> u8 \<Rightarrow> ('r, 'm, io_awaitable) uring_op" where
  "uring_yield L iflags = uring_request L Prep_nop iflags"

definition uring_accept :: "'r liburing \<Rightarrow> int \<Rightarrow> addr \<Rightarrow> addr \<Rightarrow> int \<Rightarrow> u8 \<Rightarrow> ('r, 'm, io_awaitable) uring_op" where
  "uring_accept L fd sa addrlen flags iflags = uring_request L (Prep_accept fd sa addrlen flags) iflags"

definition uring_connect :: "'r liburing \<Rightarrow> int \<Rightarrow> addr \<Rightarrow> nat \<Rightarrow> u8 \<Rightarrow> ('r, 'm, io_awaitable) uring_op" where
  "uring_connect L fd sa addrlen iflags = uring_request L (Prep_connect fd sa addrlen) iflags"

definition uring_timeout :: "'r liburing \<Rightarrow> addr \<Rightarrow> nat \<Rightarrow> u8 \<Rightarrow> ('r, 'm, io_awaitable) uring_op" where
  "uring_timeout L ts flags iflags = uring_request L (Prep_timeout ts 0 flags) iflags"

definition uring_openat :: "'r liburing \<Rightarrow> int \<Rightarrow> addr \<Rightarrow> int \<Rightarrow> nat \<Rightarrow> u8 \<Rightarrow> ('r, 'm, io_awaitable) uring_op" where
  "uring_openat L dfd path flags mode iflags = uring_request L (Prep_openat dfd path flags mode) iflags"

definition uring_close :: "'r liburing \<Rightarrow> int \<Rightarrow> u8 \<Rightarrow> ('r, 'm, io_awaitable) uring_op" where
  "uring_close L fd iflags = uring_request L (Prep_close fd) iflags"

definition uring_statx :: "'r liburing \<Rightarrow> int \<Rightarrow> addr \<Rightarrow> int \<Rightarrow> nat \<Rightarrow> addr \<Rightarrow> u8 \<Rightarrow> ('r, 'm, io_awaitable) uring_op" where
  "uring_statx L dfd path flags smask statxbuf iflags = uring_request L (Prep_statx dfd path flags smask statxbuf) iflags"

definition uring_splice :: "'r liburing \<Rightarrow> int \<Rightarrow> int \<Rightarrow> int \<Rightarrow> int \<Rightarrow> nat \<Rightarrow> nat \<Rightarrow> u8 \<Rightarrow> ('r, 'm, io_awaitable) uring_op" where
  "uring_splice L fd_in off_in fd_out off_out nbytes flags iflags = uring_request L (Prep_splice fd_in off_in fd_out off_out nbytes flags) iflags"

definition uring_tee :: "'r liburing \<Rightarrow> int \<Rightarrow> int \<Rightarrow> nat \<Rightarrow> nat \<Rightarrow> u8 \<Rightarrow> ('r, 'm, io_awaitable) uring_op" where
  "uring_tee L fd_in fd_out nbytes flags iflags = uring_request L (Prep_tee fd_in fd_out nbytes flags) iflags"

definition uring_shutdown :: "'r liburing \<Rightarrow> int \<Rightarrow> int \<Rightarrow> u8 \<Rightarrow> ('r, 'm, io_awaitable) uring_op" where
  "uring_shutdown L fd how iflags = uring_request L (Prep_shutdown fd how) iflags"

definition uring_renameat :: "'r liburing \<Rightarrow> int \<Rightarrow> addr \<Rightarrow> int \<Rightarrow> addr \<Rightarrow> nat \<Rightarrow> u8 \<Rightarrow> ('r, 'm, io_awaitable) uring_op" where
  "uring_renameat L olddfd oldpath newdfd newpath flags iflags = uring_request L (Prep_renameat olddfd oldpath newdfd newpath flags) iflags"

definition uring_mkdirat :: "'r liburing \<Rightarrow> int \<Rightarrow> addr \<Rightarrow> nat \<Rightarrow> u8 \<Rightarrow> ('r, 'm, io_awaitable) uring_op" where
  "uring_mkdirat L dirfd pathname mode iflags = uring_request L (Prep_mkdirat dirfd pathname mode) iflags"

definition uring_symlinkat :: "'r liburing \<Rightarrow> addr \<Rightarrow> int \<Rightarrow> addr \<Rightarrow> u8 \<Rightarrow> ('r, 'm, io_awaitable) uring_op" where
  "uring_symlinkat L target newdirfd linkpath iflags = uring_request L (Prep_symlinkat target newdirfd linkpath) iflags"

definition uring_linkat :: "'r liburing \<Rightarrow> int \<Rightarrow> addr \<Rightarrow> int \<Rightarrow> addr \<Rightarrow> int \<Rightarrow> u8 \<Rightarrow> ('r, 'm, io_awaitable) uring_op" where
  "uring_linkat L olddirfd oldpath newdirfd newpath flags iflags = uring_request L (Prep_linkat olddirfd oldpath newdirfd newpath flags) iflags"

definition uring_unlinkat :: "'r liburing \<Rightarrow> int \<Rightarrow> addr \<Rightarrow> nat \<Rightarrow> u8 \<Rightarrow> ('r, 'm, io_awaitable) uring_op" where
  "uring_unlinkat L dfd path flags iflags = uring_request L (Prep_unlinkat dfd path flags) iflags"

text \<open>\<open>timeout\<close> with a duration keeps the time specification in its own frame, at \<open>ks\<close>.\<close>

definition uring_timeout_for :: "'r liburing \<Rightarrow> addr \<Rightarrow> int \<Rightarrow> int \<Rightarrow> nat \<Rightarrow> u8 \<Rightarrow> ('r, 'm, timespec \<times> io_awaitable) uring_op" where
  "uring_timeout_for L ks tick_ns dur flags iflags c =
     ores_bind (Some (make_timespec tick_ns dur)) (\<lambda>ts.
     ores_bind (uring_request L (Prep_timeout ks 0 flags) iflags c) (\<lambda>(a, c). Some (Inr ((ts, a), c))))"

text \<open>
  \<open>provide_buffers\<close> widens the ids, \<open>read_buffer_select\<close> adds \<open>IOSQE_BUFFER_SELECT\<close> (bit 5) and the
  group, \<open>sync_file_range\<close> fills the entry with the generic \<open>io_uring_prep_rw\<close> and adds the flags.
\<close>

definition uring_provide_buffers ::
  "'r liburing \<Rightarrow> addr \<Rightarrow> int \<Rightarrow> int \<Rightarrow> u16 \<Rightarrow> u16 \<Rightarrow> u8 \<Rightarrow> ('r, 'm, io_awaitable) uring_op" where
  "uring_provide_buffers L ad len_buffer how_many group_id first_bid iflags =
     uring_request L (Prep_provide_buffers ad len_buffer how_many (uint group_id) (uint first_bid)) iflags"

definition IOSQE_BUFFER_SELECT :: u8 where
  "IOSQE_BUFFER_SELECT = 32"

definition uring_read_buffer_select ::
  "'r liburing \<Rightarrow> int \<Rightarrow> u16 \<Rightarrow> nat \<Rightarrow> int \<Rightarrow> u8 \<Rightarrow> ('r, 'm, io_awaitable) uring_op" where
  "uring_read_buffer_select L fd gid nbytes offset iflags c =
     ores_bind (io_uring_get_sqe_safe L c) (\<lambda>(i, c).
       Some (Inr (make_awaitable i (or iflags IOSQE_BUFFER_SELECT)
         (sqe_update i (\<lambda>s. s\<lparr>sqe_buf_group := gid\<rparr>)
         (sqe_update i (lib_prep L (Prep_read fd 0 nbytes offset)) c)))))"

definition uring_sync_file_range ::
  "'r liburing \<Rightarrow> int \<Rightarrow> int \<Rightarrow> int \<Rightarrow> nat \<Rightarrow> u8 \<Rightarrow> ('r, 'm, io_awaitable) uring_op" where
  "uring_sync_file_range L fd offset nbytes sync_flags iflags c =
     ores_bind (io_uring_get_sqe_safe L c) (\<lambda>(i, c).
       Some (Inr (make_awaitable i iflags
         (sqe_update i (\<lambda>s. s\<lparr>sqe_sync_range_flags := sync_flags\<rparr>)
         (sqe_update i (lib_prep L (Prep_rw_sync_file_range fd 0 nbytes offset)) c)))))"

section \<open>Completions\<close>

definition wait_for_completions ::
  "'r liburing \<Rightarrow> nat \<Rightarrow> ('r, 'm) io_uring_context_scheme \<Rightarrow> ('r, 'm) io_uring_context_scheme" where
  "wait_for_completions L min_c c = c\<lparr>uc_ring := lib_submit_and_wait L min_c (uc_ring c)\<rparr>"

text \<open>The body of the loop over the completions, and the loop from the position \<open>pos\<close> on.\<close>

definition handle_cqe ::
  "'r liburing \<Rightarrow> (handle, ('r, 'm) io_uring_context_scheme) resumption \<Rightarrow> cqe \<Rightarrow>
   ('r, 'm) io_uring_context_scheme \<Rightarrow> ('r, 'm) io_uring_context_scheme res option" where
  "handle_cqe L resume e c =
     (let c = c\<lparr>cqe_count := Suc (cqe_count c)\<rparr>
      in if cqe_user_data e \<noteq> 0 \<and> cqe_user_data e \<noteq> lib_udata_timeout L
         then resolve resume (cqe_user_data e) (cqe_res e) (cqe_flags e) c
         else Some (Inr c))"

partial_function (option) for_each_cqe ::
  "'r liburing \<Rightarrow> (handle, ('r, 'm) io_uring_context_scheme) resumption \<Rightarrow> nat \<Rightarrow>
   ('r, 'm) io_uring_context_scheme \<Rightarrow> ('r, 'm) io_uring_context_scheme res option" where
  "for_each_cqe L resume pos c =
     (if pos = lib_cq_tail L (uc_ring c) then Some (Inr c)
      else ores_bind (handle_cqe L resume (lib_cqe L (uc_ring c) pos) c) (for_each_cqe L resume (Suc pos)))"

definition handle_completions ::
  "'r liburing \<Rightarrow> (handle, ('r, 'm) io_uring_context_scheme) resumption \<Rightarrow>
   ('r, 'm) io_uring_context_scheme \<Rightarrow> ('r, 'm) io_uring_context_scheme res option" where
  "handle_completions L resume c =
     ores_bind (for_each_cqe L resume (lib_cq_head L (uc_ring c)) c) (\<lambda>c. Some (Inr (uc_cq_advance L c)))"

definition wait_for_completions_then_handle ::
  "'r liburing \<Rightarrow> (handle, ('r, 'm) io_uring_context_scheme) resumption \<Rightarrow>
   ('r, 'm) io_uring_context_scheme \<Rightarrow> ('r, 'm) io_uring_context_scheme res option" where
  "wait_for_completions_then_handle L resume c = handle_completions L resume (wait_for_completions L 1 c)"

section \<open>What each request asks for\<close>

text \<open>The functions that return an \<open>io_awaitable\<close>, with the call that describes each.\<close>

inductive request_of :: "'r liburing \<Rightarrow> u8 \<Rightarrow> uring_call \<Rightarrow> ('r, 'm, io_awaitable) uring_op \<Rightarrow> bool" where
  "request_of L iflags (Prep_cancel (get_cancel_key tk) flags) (uring_cancel L tk flags iflags)"
| "request_of L iflags (Prep_readv fd iovecs nr_vecs offset) (uring_readv L fd iovecs nr_vecs offset iflags)"
| "request_of L iflags (Prep_writev fd iovecs nr_vecs offset) (uring_writev L fd iovecs nr_vecs offset iflags)"
| "request_of L iflags (Prep_read fd buf nbytes offset) (uring_read L fd buf nbytes offset iflags)"
| "request_of L iflags (Prep_write fd buf nbytes offset) (uring_write L fd buf nbytes offset iflags)"
| "request_of L iflags (Prep_read_fixed fd buf nbytes offset buf_index) (uring_read_fixed L fd buf nbytes offset buf_index iflags)"
| "request_of L iflags (Prep_write_fixed fd buf nbytes offset buf_index) (uring_write_fixed L fd buf nbytes offset buf_index iflags)"
| "request_of L iflags (Prep_fsync fd fsync_flags) (uring_fsync L fd fsync_flags iflags)"
| "request_of L iflags (Prep_recvmsg sockfd msg flags) (uring_recvmsg L sockfd msg flags iflags)"
| "request_of L iflags (Prep_sendmsg sockfd msg flags) (uring_sendmsg L sockfd msg flags iflags)"
| "request_of L iflags (Prep_recv sockfd buf nbytes flags) (uring_recv L sockfd buf nbytes flags iflags)"
| "request_of L iflags (Prep_send sockfd buf nbytes flags) (uring_send L sockfd buf nbytes flags iflags)"
| "request_of L iflags (Prep_poll_add fd poll_mask) (uring_poll L fd poll_mask iflags)"
| "request_of L iflags Prep_nop (uring_yield L iflags)"
| "request_of L iflags (Prep_accept fd sa addrlen flags) (uring_accept L fd sa addrlen flags iflags)"
| "request_of L iflags (Prep_connect fd sa addrlen) (uring_connect L fd sa addrlen iflags)"
| "request_of L iflags (Prep_timeout ts 0 flags) (uring_timeout L ts flags iflags)"
| "request_of L iflags (Prep_openat dfd path flags mode) (uring_openat L dfd path flags mode iflags)"
| "request_of L iflags (Prep_close fd) (uring_close L fd iflags)"
| "request_of L iflags (Prep_statx dfd path flags smask statxbuf) (uring_statx L dfd path flags smask statxbuf iflags)"
| "request_of L iflags (Prep_splice fd_in off_in fd_out off_out nbytes flags) (uring_splice L fd_in off_in fd_out off_out nbytes flags iflags)"
| "request_of L iflags (Prep_tee fd_in fd_out nbytes flags) (uring_tee L fd_in fd_out nbytes flags iflags)"
| "request_of L iflags (Prep_shutdown fd how) (uring_shutdown L fd how iflags)"
| "request_of L iflags (Prep_renameat olddfd oldpath newdfd newpath flags) (uring_renameat L olddfd oldpath newdfd newpath flags iflags)"
| "request_of L iflags (Prep_mkdirat dirfd pathname mode) (uring_mkdirat L dirfd pathname mode iflags)"
| "request_of L iflags (Prep_symlinkat target newdirfd linkpath) (uring_symlinkat L target newdirfd linkpath iflags)"
| "request_of L iflags (Prep_linkat olddirfd oldpath newdirfd newpath flags) (uring_linkat L olddirfd oldpath newdirfd newpath flags iflags)"
| "request_of L iflags (Prep_unlinkat dfd path flags) (uring_unlinkat L dfd path flags iflags)"
| "request_of L iflags (Prep_provide_buffers ad len_buffer how_many (uint gid) (uint bid))
    (uring_provide_buffers L ad len_buffer how_many gid bid iflags)"

lemmas request_defs = uring_cancel_def uring_provide_buffers_def uring_readv_def uring_writev_def uring_read_def uring_write_def uring_read_fixed_def uring_write_fixed_def uring_fsync_def uring_recvmsg_def uring_sendmsg_def uring_recv_def uring_send_def uring_poll_def uring_yield_def uring_accept_def uring_connect_def uring_timeout_def uring_openat_def uring_close_def uring_statx_def uring_splice_def uring_tee_def uring_shutdown_def uring_renameat_def uring_mkdirat_def uring_symlinkat_def uring_linkat_def uring_unlinkat_def

lemma request_of_request: "request_of L iflags call f \<Longrightarrow> f = uring_request L call iflags"
  by (cases rule: request_of.cases, assumption) (simp_all add: request_defs)

section \<open>What the context relies on\<close>

text \<open>
  The next completion to look at: those before it are consumed or counted in \<open>cqe_count\<close>. Between
  two states of a context, completions may be posted, and the ones not yet looked at stay.
\<close>

definition cq_pos :: "'r liburing \<Rightarrow> ('r, 'm) io_uring_context_scheme \<Rightarrow> nat" where
  "cq_pos L c = lib_cq_head L (uc_ring c) + cqe_count c"

definition cq_tail :: "'r liburing \<Rightarrow> ('r, 'm) io_uring_context_scheme \<Rightarrow> nat" where
  "cq_tail L c = lib_cq_tail L (uc_ring c)"

definition cq_kept :: "'r liburing \<Rightarrow> nat \<Rightarrow> 'r \<Rightarrow> 'r \<Rightarrow> bool" where
  "cq_kept L p r r' \<longleftrightarrow> lib_cq_tail L r \<le> lib_cq_tail L r' \<and>
     (\<forall>i. p \<le> i \<and> i < lib_cq_tail L r \<longrightarrow> lib_cqe L r' i = lib_cqe L r i)"

definition cq_evolves ::
  "'r liburing \<Rightarrow> ('r, 'm) io_uring_context_scheme \<Rightarrow> ('r, 'm) io_uring_context_scheme \<Rightarrow> bool" where
  "cq_evolves L c c' \<longleftrightarrow> cq_pos L c' = cq_pos L c \<and> cq_kept L (cq_pos L c) (uc_ring c) (uc_ring c')"

definition liburing_ok :: "'r liburing \<Rightarrow> bool" where
  "liburing_ok L \<longleftrightarrow>
     (\<forall>c s. sqe_call (lib_prep L c s) = c) \<and>
     (\<forall>r i r'. lib_get_sqe L r = Some (i, r') \<longrightarrow>
        lib_cq_head L r' = lib_cq_head L r \<and> cq_kept L (lib_cq_head L r) r r') \<and>
     (\<forall>r. lib_cq_head L (lib_submit L r) = lib_cq_head L r \<and> cq_kept L (lib_cq_head L r) r (lib_submit L r)) \<and>
     (\<forall>n r. lib_cq_head L (lib_submit_and_wait L n r) = lib_cq_head L r \<and>
        cq_kept L (lib_cq_head L r) r (lib_submit_and_wait L n r)) \<and>
     (\<forall>r. lib_cq_head L (lib_sqring_wait L r) = lib_cq_head L r \<and>
        cq_kept L (lib_cq_head L r) r (lib_sqring_wait L r)) \<and>
     (\<forall>n r. lib_cq_head L (lib_cq_advance L n r) = lib_cq_head L r + n \<and>
        lib_cq_tail L (lib_cq_advance L n r) = lib_cq_tail L r \<and>
        cq_kept L (lib_cq_head L r + n) r (lib_cq_advance L n r))"

lemma liburing_okD:
  assumes "liburing_ok L"
  shows "sqe_call (lib_prep L call s) = call"
    and "lib_get_sqe L r = Some (i, r') \<Longrightarrow> lib_cq_head L r' = lib_cq_head L r"
    and "lib_get_sqe L r = Some (i, r') \<Longrightarrow> cq_kept L (lib_cq_head L r) r r'"
    and "lib_cq_head L (lib_submit L r) = lib_cq_head L r"
    and "cq_kept L (lib_cq_head L r) r (lib_submit L r)"
    and "lib_cq_head L (lib_submit_and_wait L n r) = lib_cq_head L r"
    and "cq_kept L (lib_cq_head L r) r (lib_submit_and_wait L n r)"
    and "lib_cq_head L (lib_sqring_wait L r) = lib_cq_head L r"
    and "cq_kept L (lib_cq_head L r) r (lib_sqring_wait L r)"
    and "lib_cq_head L (lib_cq_advance L n r) = lib_cq_head L r + n"
    and "lib_cq_tail L (lib_cq_advance L n r) = lib_cq_tail L r"
    and "cq_kept L (lib_cq_head L r + n) r (lib_cq_advance L n r)"
  using assms unfolding liburing_ok_def by blast+

lemma cq_kept_refl [simp]: "cq_kept L p r r"
  by (simp add: cq_kept_def)

lemma cq_kept_trans: "cq_kept L p r r' \<Longrightarrow> cq_kept L p r' r'' \<Longrightarrow> cq_kept L p r r''"
  by (auto simp: cq_kept_def)

lemma cq_kept_mono: "cq_kept L p r r' \<Longrightarrow> p \<le> q \<Longrightarrow> cq_kept L q r r'"
  by (auto simp: cq_kept_def)

lemma cq_evolves_refl [simp]: "cq_evolves L c c"
  by (simp add: cq_evolves_def)

lemma cq_evolves_trans: "cq_evolves L c c' \<Longrightarrow> cq_evolves L c' c'' \<Longrightarrow> cq_evolves L c c''"
  by (auto simp: cq_evolves_def intro: cq_kept_trans)

text \<open>Writing a submission entry or a token leaves the completions alone.\<close>

lemma sqe_update_simps [simp]:
  "uc_ring (sqe_update i f c) = uc_ring c" "cqe_count (sqe_update i f c) = cqe_count c"
  "uc_tokens (sqe_update i f c) = uc_tokens c"
  "uc_sqes (sqe_update i f c) = (uc_sqes c)(i := f (uc_sqes c i))"
  "cq_pos L (sqe_update i f c) = cq_pos L c" "cq_tail L (sqe_update i f c) = cq_tail L c"
  by (simp_all add: sqe_update_def cq_pos_def cq_tail_def)

lemma cq_evolves_sqe_update [simp]: "cq_evolves L c (sqe_update i f c') = cq_evolves L c c'"
  by (simp add: cq_evolves_def)

text \<open>
  An entry is always found when submitting makes room, and looking for it loses no completion:
  those counted so far are given back to the kernel, the count starts again, and the next one to
  look at is the same.
\<close>

lemma spin_pass:
  assumes "liburing_ok L"
  shows "cq_evolves L c ((uc_cq_advance L c)\<lparr>uc_ring := lib_sqring_wait L (lib_submit L (uc_ring (uc_cq_advance L c)))\<rparr>)"
proof -
  let ?r = "lib_cq_advance L (cqe_count c) (uc_ring c)"
  have "cq_kept L (cq_pos L c) (uc_ring c) ?r"
    by (simp add: cq_pos_def liburing_okD [OF assms])
  moreover have "cq_kept L (cq_pos L c) ?r (lib_submit L ?r)"
    "cq_kept L (cq_pos L c) (lib_submit L ?r) (lib_sqring_wait L (lib_submit L ?r))"
    using liburing_okD(5) [OF assms, of ?r] liburing_okD(9) [OF assms, of "lib_submit L ?r"]
    by (simp_all add: cq_pos_def liburing_okD [OF assms])
  ultimately have "cq_kept L (cq_pos L c) (uc_ring c) (lib_sqring_wait L (lib_submit L ?r))"
    by (blast intro: cq_kept_trans)
  then show ?thesis
    by (simp add: cq_evolves_def uc_cq_advance_def cq_pos_def liburing_okD [OF assms])
qed

lemma take_sqe_evolves:
  assumes "liburing_ok L" and "lib_get_sqe L (uc_ring c) = Some (i, r)"
  shows "cq_evolves L c (c\<lparr>uc_ring := r\<rparr>)"
  using liburing_okD(2,3) [OF assms]
  by (auto simp: cq_evolves_def cq_pos_def intro: cq_kept_mono)

text \<open>The members that derived classes add stay.\<close>

definition same_more :: "('r, 'm) io_uring_context_scheme \<Rightarrow> ('r, 'm) io_uring_context_scheme \<Rightarrow> bool" where
  "same_more c c' \<longleftrightarrow> io_uring_context.more c' = io_uring_context.more c"

lemma same_more_simps [simp]:
  "same_more c c" "same_more c (c'\<lparr>uc_ring := r\<rparr>) = same_more c c'" "same_more c (c'\<lparr>cqe_count := n\<rparr>) = same_more c c'"
  "same_more c (c'\<lparr>uc_tokens := tk\<rparr>) = same_more c c'" "same_more c (c'\<lparr>uc_sqes := q\<rparr>) = same_more c c'"
  "same_more c (sqe_update i f c') = same_more c c'" "same_more c (uc_cq_advance L c') = same_more c c'"
  by (simp_all add: same_more_def sqe_update_def uc_cq_advance_def)

definition room_after_submit :: "'r liburing \<Rightarrow> bool" where
  "room_after_submit L \<longleftrightarrow> (\<forall>r. lib_get_sqe L (lib_sqring_wait L (lib_submit L r)) \<noteq> None)"

lemma get_sqe_safe_ok:
  assumes L: "liburing_ok L" and room: "room_after_submit L"
  shows "\<exists>i c'. io_uring_get_sqe_safe L c = Some (Inr (i, c')) \<and> cq_evolves L c c' \<and>
    uc_sqes c' = uc_sqes c \<and> uc_tokens c' = uc_tokens c \<and> same_more c c' \<and>
    (lib_get_sqe L (uc_ring c) = None \<longrightarrow> cqe_count c' = 0)"
proof (cases "lib_get_sqe L (uc_ring c)")
  case (Some ir)
  then show ?thesis using take_sqe_evolves [OF L, of c]
    by (cases ir) (simp add: io_uring_get_sqe_safe_def)
next
  case None
  let ?c = "(uc_cq_advance L c)\<lparr>uc_ring := lib_sqring_wait L (lib_submit L (uc_ring (uc_cq_advance L c)))\<rparr>"
  obtain i r where r: "lib_get_sqe L (uc_ring ?c) = Some (i, r)"
    using room by (force simp: room_after_submit_def)
  have "cq_evolves L c (?c\<lparr>uc_ring := r\<rparr>)"
    using spin_pass [OF L, of c] take_sqe_evolves [OF L r] by (rule cq_evolves_trans)
  then show ?thesis
    using None r by (simp add: io_uring_get_sqe_safe_def get_sqe_spin.simps [of L c] Let_def uc_cq_advance_def)
qed

section \<open>Requests that are awaited\<close>

lemma uring_request_ok:
  assumes "liburing_ok L" and "room_after_submit L"
  shows "\<exists>i c'. uring_request L call iflags c = Some (Inr (\<lparr>aw_sqe = i, aw_token_ptr = 0\<rparr>, c')) \<and>
    cq_evolves L c c' \<and> same_more c c' \<and> uc_tokens c' = uc_tokens c \<and>
    (\<forall>j. j \<noteq> i \<longrightarrow> uc_sqes c' j = uc_sqes c j) \<and>
    sqe_call (uc_sqes c' i) = call \<and> sqe_flags (uc_sqes c' i) = iflags \<and> sqe_user_data (uc_sqes c' i) = 0"
proof -
  obtain i c1 where c1: "io_uring_get_sqe_safe L c = Some (Inr (i, c1))" "cq_evolves L c c1"
    "uc_sqes c1 = uc_sqes c" "uc_tokens c1 = uc_tokens c" "same_more c c1"
    using get_sqe_safe_ok [OF assms] by blast
  then show ?thesis
    by (simp add: uring_request_def make_awaitable_def io_awaitable_new_def liburing_okD [OF assms(1)])
qed

text \<open>
  What \<open>co_await\<close> does with a request: the request itself, the awaiter with its token at \<open>tk\<close>, and its
  \<open>await_suspend\<close> with the coroutine \<open>h\<close>.
\<close>

definition co_await_io ::
  "('r, 'm, io_awaitable) uring_op \<Rightarrow> addr \<Rightarrow> handle \<Rightarrow> ('r, 'm, io_awaitable) uring_op" where
  "co_await_io f tk h c =
     ores_bind (f c) (\<lambda>(a, c).
       case co_await_op tk a c of
         (a, c) \<Rightarrow> ores_bind (Some (io_await_suspend h a c)) (\<lambda>c. Some (Inr (a, c))))"

lemma co_await_io_ok:
  assumes "liburing_ok L" and "room_after_submit L"
  shows "\<exists>i c'. co_await_io (uring_request L call iflags) tk h c = Some (Inr (\<lparr>aw_sqe = i, aw_token_ptr = tk\<rparr>, c')) \<and>
    cq_evolves L c c' \<and> same_more c c' \<and> (\<forall>j. j \<noteq> i \<longrightarrow> uc_sqes c' j = uc_sqes c j) \<and>
    sqe_call (uc_sqes c' i) = call \<and> sqe_flags (uc_sqes c' i) = iflags \<and> sqe_user_data (uc_sqes c' i) = tk \<and>
    uc_tokens c' = (uc_tokens c)(tk \<mapsto> \<lparr>tk_continuation = h, tk_result = 0, tk_flags = 0\<rparr>)"
proof -
  obtain i c1 where c1: "uring_request L call iflags c = Some (Inr (\<lparr>aw_sqe = i, aw_token_ptr = 0\<rparr>, c1))"
    "cq_evolves L c c1" "uc_tokens c1 = uc_tokens c" "\<forall>j. j \<noteq> i \<longrightarrow> uc_sqes c1 j = uc_sqes c j"
    "sqe_call (uc_sqes c1 i) = call" "sqe_flags (uc_sqes c1 i) = iflags" "same_more c c1"
    using uring_request_ok [OF assms] by blast
  have "cq_evolves L c (c1\<lparr>uc_tokens := t\<rparr>)" for t
    using c1(2) by (simp add: cq_evolves_def cq_pos_def)
  then show ?thesis using c1 by (simp add: co_await_io_def co_await_op_def io_await_suspend_def)
qed

section \<open>Every completion is delivered once\<close>

fun deliver ::
  "'r liburing \<Rightarrow> (handle, ('r, 'm) io_uring_context_scheme) resumption \<Rightarrow> cqe list \<Rightarrow>
   ('r, 'm) io_uring_context_scheme \<Rightarrow> ('r, 'm) io_uring_context_scheme res option" where
  "deliver L resume [] c = Some (Inr c)"
| "deliver L resume (e # es) c = ores_bind (handle_cqe L resume e c) (deliver L resume es)"

text \<open>
  What the loop relies on of its clients, with \<open>I\<close> an invariant of theirs: at most \<open>n\<close> completions are
  ever posted, each completion that is not detached finds its token, and its coroutine comes back
  having used the ring only through the context.
\<close>

definition detached :: "'r liburing \<Rightarrow> cqe \<Rightarrow> bool" where
  "detached L e \<longleftrightarrow> cqe_user_data e = 0 \<or> cqe_user_data e = lib_udata_timeout L"

definition clients_ok ::
  "'r liburing \<Rightarrow> nat \<Rightarrow> (('r, 'm) io_uring_context_scheme \<Rightarrow> bool) \<Rightarrow>
   (handle, ('r, 'm) io_uring_context_scheme) resumption \<Rightarrow> bool" where
  "clients_ok L n I resume \<longleftrightarrow>
     (\<forall>c. I c \<longrightarrow> cq_pos L c \<le> cq_tail L c \<and> cq_tail L c \<le> n) \<and>
     (\<forall>c e c1. I c \<and> cq_pos L c < cq_tail L c \<and> e = lib_cqe L (uc_ring c) (cq_pos L c) \<and>
        c1 = c\<lparr>cqe_count := Suc (cqe_count c)\<rparr> \<longrightarrow>
        (if detached L e then I c1
         else \<exists>t c'. uc_tokens c (cqe_user_data e) = Some t \<and>
           resume (tk_continuation t) (c1\<lparr>uc_tokens := (uc_tokens c)
             (cqe_user_data e \<mapsto> t\<lparr>tk_result := cqe_res e, tk_flags := cqe_flags e\<rparr>)\<rparr>) = Some (Inr c') \<and>
           I c' \<and> cq_evolves L c1 c'))"

lemma handle_cqe_step:
  assumes cl: "clients_ok L n I resume" and I: "I c" and lt: "cq_pos L c < cq_tail L c"
  shows "\<exists>c'. handle_cqe L resume (lib_cqe L (uc_ring c) (cq_pos L c)) c = Some (Inr c') \<and> I c' \<and>
    cq_pos L c' = Suc (cq_pos L c) \<and> cq_kept L (Suc (cq_pos L c)) (uc_ring c) (uc_ring c')"
proof -
  let ?e = "lib_cqe L (uc_ring c) (cq_pos L c)" and ?c1 = "c\<lparr>cqe_count := Suc (cqe_count c)\<rparr>"
  have pos: "cq_pos L ?c1 = Suc (cq_pos L c)" by (simp add: cq_pos_def)
  have *: "if detached L ?e then I ?c1
     else \<exists>t c'. uc_tokens c (cqe_user_data ?e) = Some t \<and>
       resume (tk_continuation t) (?c1\<lparr>uc_tokens := (uc_tokens c)
         (cqe_user_data ?e \<mapsto> t\<lparr>tk_result := cqe_res ?e, tk_flags := cqe_flags ?e\<rparr>)\<rparr>) = Some (Inr c') \<and>
       I c' \<and> cq_evolves L ?c1 c'"
    using cl I lt unfolding clients_ok_def by blast
  show ?thesis
  proof (cases "detached L ?e")
    case True
    then show ?thesis using * pos by (auto simp: handle_cqe_def detached_def)
  next
    case False
    then obtain t c' where c': "uc_tokens c (cqe_user_data ?e) = Some t"
      "resume (tk_continuation t) (?c1\<lparr>uc_tokens := (uc_tokens c)
         (cqe_user_data ?e \<mapsto> t\<lparr>tk_result := cqe_res ?e, tk_flags := cqe_flags ?e\<rparr>)\<rparr>) = Some (Inr c')"
      "I c'" "cq_evolves L ?c1 c'" using * by auto
    then have "handle_cqe L resume ?e c = Some (Inr c')"
      using False by (simp add: handle_cqe_def detached_def resolve_def Let_def)
    then show ?thesis using c'(3,4) pos by (auto simp: cq_evolves_def)
  qed
qed

lemma map_cqe_kept:
  "cq_kept L p r r' \<Longrightarrow> map (lib_cqe L r') [p..<lib_cq_tail L r] = map (lib_cqe L r) [p..<lib_cq_tail L r]"
  by (auto simp: cq_kept_def)

lemma take_of_take: "take n es = xs \<Longrightarrow> m \<le> n \<Longrightarrow> take m es = take m xs"
  by auto

lemma kept_take:
  assumes "cq_kept L p r r'"
  shows "lib_cq_tail L r \<le> lib_cq_tail L r'"
    and "take (lib_cq_tail L r - p) (map (lib_cqe L r') [p..<lib_cq_tail L r']) =
      map (lib_cqe L r) [p..<lib_cq_tail L r]"
proof -
  show le: "lib_cq_tail L r \<le> lib_cq_tail L r'" using assms by (simp add: cq_kept_def)
  show "take (lib_cq_tail L r - p) (map (lib_cqe L r') [p..<lib_cq_tail L r']) =
      map (lib_cqe L r) [p..<lib_cq_tail L r]"
    using map_cqe_kept [OF assms] le by (cases "p \<le> lib_cq_tail L r") (simp_all add: take_map)
qed

lemma for_each_cqe_delivers:
  assumes cl: "clients_ok L n I resume"
  shows "I c \<Longrightarrow>
    \<exists>es c'. for_each_cqe L resume (cq_pos L c) c = Some (Inr c') \<and> deliver L resume es c = Some (Inr c') \<and> I c' \<and>
      cq_pos L c' = cq_pos L c + length es \<and> cq_pos L c' = cq_tail L c' \<and>
      take (cq_tail L c - cq_pos L c) es = map (lib_cqe L (uc_ring c)) [cq_pos L c..<cq_tail L c]"
proof (induction "n - cq_pos L c" arbitrary: c rule: less_induct)
  case less
  have le: "cq_pos L c \<le> cq_tail L c" "cq_tail L c \<le> n"
    using cl less.prems by (auto simp: clients_ok_def)
  show ?case
  proof (cases "cq_pos L c = cq_tail L c")
    case True
    then have "for_each_cqe L resume (cq_pos L c) c = Some (Inr c)"
      by (subst for_each_cqe.simps) (simp add: cq_tail_def)
    then show ?thesis using less.prems True by (intro exI [of _ "[]"] exI [of _ c]) simp
  next
    case False
    let ?e = "lib_cqe L (uc_ring c) (cq_pos L c)"
    have lt: "cq_pos L c < cq_tail L c" using le False by simp
    obtain c1 where c1: "handle_cqe L resume ?e c = Some (Inr c1)" "I c1"
      "cq_pos L c1 = Suc (cq_pos L c)" "cq_kept L (Suc (cq_pos L c)) (uc_ring c) (uc_ring c1)"
      using handle_cqe_step [OF cl less.prems lt] by blast
    have "n - cq_pos L c1 < n - cq_pos L c" using lt le c1(3) by simp
    then obtain es c' where IH: "for_each_cqe L resume (cq_pos L c1) c1 = Some (Inr c')"
      "deliver L resume es c1 = Some (Inr c')" "I c'" "cq_pos L c' = cq_pos L c1 + length es"
      "cq_pos L c' = cq_tail L c'"
      "take (cq_tail L c1 - cq_pos L c1) es = map (lib_cqe L (uc_ring c1)) [cq_pos L c1..<cq_tail L c1]"
      using less.hyps [of c1] c1(2) by blast
    have "for_each_cqe L resume (cq_pos L c) c = Some (Inr c')"
      using False IH(1) c1 by (subst for_each_cqe.simps) (simp add: cq_tail_def)
    moreover have "take (cq_tail L c - Suc (cq_pos L c)) es =
        map (lib_cqe L (uc_ring c)) [Suc (cq_pos L c)..<cq_tail L c]"
      using take_of_take [OF IH(6), of "cq_tail L c - Suc (cq_pos L c)"] c1(3) kept_take [OF c1(4)]
      by (simp add: cq_tail_def)
    ultimately show ?thesis
      using IH(2-5) c1 lt
      by (intro exI [of _ "?e # es"] exI [of _ c']) (simp add: take_Cons' upt_conv_Cons)
  qed
qed

lemma handle_completions_delivers:
  assumes L: "liburing_ok L" and cl: "clients_ok L n I resume" and I: "I c" and z: "cqe_count c = 0"
  shows "\<exists>es c1 c'. handle_completions L resume c = Some (Inr c') \<and> deliver L resume es c = Some (Inr c1) \<and>
    I c1 \<and> c' = uc_cq_advance L c1 \<and> cqe_count c' = 0 \<and> lib_cq_head L (uc_ring c') = cq_tail L c' \<and>
    lib_cq_head L (uc_ring c') = lib_cq_head L (uc_ring c) + length es \<and>
    take (cq_tail L c - cq_pos L c) es = map (lib_cqe L (uc_ring c)) [cq_pos L c..<cq_tail L c]"
proof -
  obtain es c1 where c1: "for_each_cqe L resume (cq_pos L c) c = Some (Inr c1)"
    "deliver L resume es c = Some (Inr c1)" "I c1" "cq_pos L c1 = cq_pos L c + length es"
    "cq_pos L c1 = cq_tail L c1"
    "take (cq_tail L c - cq_pos L c) es = map (lib_cqe L (uc_ring c)) [cq_pos L c..<cq_tail L c]"
    using for_each_cqe_delivers [OF cl I] by blast
  have "lib_cq_head L (uc_ring (uc_cq_advance L c1)) = cq_pos L c1"
    "cq_tail L (uc_cq_advance L c1) = cq_tail L c1" "cqe_count (uc_cq_advance L c1) = 0"
    by (simp_all add: uc_cq_advance_def cq_pos_def cq_tail_def liburing_okD [OF L])
  moreover have "cq_pos L c = lib_cq_head L (uc_ring c)" using z by (simp add: cq_pos_def)
  ultimately show ?thesis using c1 by (auto simp: handle_completions_def)
qed

section \<open>Time specifications\<close>

lemma dur2ts_make_timespec: "in_long dur \<Longrightarrow> make_timespec 1 dur = Inr (dur2ts dur)"
  by (simp add: make_timespec_def dur2ts_def long_res_def Let_def minus_sdiv_mult_eq_smod)

section \<open>A ring in memory\<close>

text \<open>
  A ring with \<open>m\<close> submission entries whose completions are a fixed list: the entries taken, the
  completions consumed and the list. It has the behaviour that the context relies on.
\<close>

definition mem_ring :: "nat \<Rightarrow> (nat \<times> nat \<times> cqe list) liburing" where
  "mem_ring m =
     \<lparr>lib_get_sqe = \<lambda>(k, r). if k < m then Some (k, (Suc k, r)) else None,
      lib_prep = \<lambda>call s. s\<lparr>sqe_call := call\<rparr>,
      lib_submit = \<lambda>(k, r). (0, r), lib_submit_and_wait = \<lambda>_ (k, r). (0, r), lib_sqring_wait = \<lambda>r. r,
      lib_cq_advance = \<lambda>n (k, h, log). (k, h + n, log),
      lib_cq_head = \<lambda>(k, h, log). h, lib_cq_tail = \<lambda>(k, h, log). length log,
      lib_cqe = \<lambda>(k, h, log) i. log ! i, lib_udata_timeout = 18446744073709551615\<rparr>"

lemma mem_ring_ok: "liburing_ok (mem_ring m)"
  by (auto simp: liburing_ok_def mem_ring_def cq_kept_def split: prod.splits if_splits)

lemma mem_ring_room: "0 < m \<Longrightarrow> room_after_submit (mem_ring m)"
  by (auto simp: room_after_submit_def mem_ring_def)

lemma mem_ring_log:
  assumes "0 < m" and "uring_request (mem_ring m) call iflags c = Some (Inr (a, c'))"
  shows "snd (snd (uc_ring c')) = snd (snd (uc_ring c))"
  using assms
  by (cases "uc_ring c")
     (auto simp: uring_request_def io_uring_get_sqe_safe_def mem_ring_def get_sqe_spin.simps [of _ c]
       uc_cq_advance_def Let_def make_awaitable_def io_awaitable_new_def split: if_splits)

text \<open>Coroutines that send a request each time they are resumed.\<close>

definition mem_client :: "nat \<Rightarrow> (handle, (nat \<times> nat \<times> cqe list, 'm) io_uring_context_scheme) resumption" where
  "mem_client m h c = ores_bind (uring_send (mem_ring m) (int h) 0 8 0 0 c) (\<lambda>(a, c). Some (Inr c))"

definition mem_client_inv :: "nat \<Rightarrow> cqe list \<Rightarrow> (nat \<times> nat \<times> cqe list, 'm) io_uring_context_scheme \<Rightarrow> bool" where
  "mem_client_inv m log c \<longleftrightarrow> snd (snd (uc_ring c)) = log \<and> cq_pos (mem_ring m) c \<le> length log \<and>
     (\<forall>e \<in> set log. detached (mem_ring m) e \<or> uc_tokens c (cqe_user_data e) \<noteq> None)"

lemma mem_client_step:
  assumes "0 < m"
  shows "\<exists>c'. mem_client m h c = Some (Inr c') \<and> cq_evolves (mem_ring m) c c' \<and>
    uc_tokens c' = uc_tokens c \<and> snd (snd (uc_ring c')) = snd (snd (uc_ring c))"
proof -
  obtain i c' where "uring_request (mem_ring m) (Prep_send (int h) 0 8 0) 0 c =
      Some (Inr (\<lparr>aw_sqe = i, aw_token_ptr = 0\<rparr>, c'))" "cq_evolves (mem_ring m) c c'" "uc_tokens c' = uc_tokens c"
    using uring_request_ok [OF mem_ring_ok mem_ring_room [OF assms]] by blast
  then show ?thesis using mem_ring_log [OF assms] by (auto simp: mem_client_def uring_send_def)
qed

lemma mem_ring_tail: "cq_tail (mem_ring m) c = length (snd (snd (uc_ring c)))"
  "lib_cqe (mem_ring m) (uc_ring c) i = snd (snd (uc_ring c)) ! i"
  by (auto simp: cq_tail_def mem_ring_def split: prod.splits)

lemma mem_clients_ok:
  assumes m: "0 < m"
  shows "clients_ok (mem_ring m) (length log) (mem_client_inv m log)
    (mem_client m :: (handle, (nat \<times> nat \<times> cqe list, 'm) io_uring_context_scheme) resumption)"
  unfolding clients_ok_def
proof (intro conjI allI impI)
  fix c :: "(nat \<times> nat \<times> cqe list, 'm) io_uring_context_scheme"
  assume "mem_client_inv m log c"
  then show "cq_pos (mem_ring m) c \<le> cq_tail (mem_ring m) c" "cq_tail (mem_ring m) c \<le> length log"
    by (auto simp: mem_client_inv_def mem_ring_tail)
next
  fix c c1 :: "(nat \<times> nat \<times> cqe list, 'm) io_uring_context_scheme" and e
  assume "mem_client_inv m log c \<and> cq_pos (mem_ring m) c < cq_tail (mem_ring m) c \<and>
    e = lib_cqe (mem_ring m) (uc_ring c) (cq_pos (mem_ring m) c) \<and> c1 = c\<lparr>cqe_count := Suc (cqe_count c)\<rparr>"
  then have inv: "mem_client_inv m log c" and lt: "cq_pos (mem_ring m) c < length log"
    and e: "e \<in> set log" and c1: "c1 = c\<lparr>cqe_count := Suc (cqe_count c)\<rparr>"
    by (auto simp: mem_ring_tail mem_client_inv_def)
  have pos: "cq_pos (mem_ring m) (c1\<lparr>uc_tokens := tk\<rparr>) = Suc (cq_pos (mem_ring m) c)" for tk
    by (simp add: cq_pos_def c1)
  show "if detached (mem_ring m) e then mem_client_inv m log c1
    else \<exists>t c'. uc_tokens c (cqe_user_data e) = Some t \<and>
      mem_client m (tk_continuation t) (c1\<lparr>uc_tokens := (uc_tokens c)
        (cqe_user_data e \<mapsto> t\<lparr>tk_result := cqe_res e, tk_flags := cqe_flags e\<rparr>)\<rparr>) = Some (Inr c') \<and>
      mem_client_inv m log c' \<and> cq_evolves (mem_ring m) c1 c'"
  proof (cases "detached (mem_ring m) e")
    case True
    then show ?thesis using inv lt c1 by (simp add: mem_client_inv_def cq_pos_def)
  next
    case False
    then obtain t where t: "uc_tokens c (cqe_user_data e) = Some t"
      using inv e by (auto simp: mem_client_inv_def)
    let ?tk = "(uc_tokens c)(cqe_user_data e \<mapsto> t\<lparr>tk_result := cqe_res e, tk_flags := cqe_flags e\<rparr>)"
    obtain c' where c': "mem_client m (tk_continuation t) (c1\<lparr>uc_tokens := ?tk\<rparr>) = Some (Inr c')"
      "cq_evolves (mem_ring m) (c1\<lparr>uc_tokens := ?tk\<rparr>) c'" "uc_tokens c' = ?tk"
      "snd (snd (uc_ring c')) = snd (snd (uc_ring c))"
      using mem_client_step [OF m, of "tk_continuation t" "c1\<lparr>uc_tokens := ?tk\<rparr>"] c1 by auto
    have ev: "cq_evolves (mem_ring m) c1 c'"
      using c'(2) by (simp add: cq_evolves_def cq_pos_def)
    have "mem_client_inv m log c'"
      using c' inv lt pos [of ?tk] by (auto simp: mem_client_inv_def cq_evolves_def)
    then show ?thesis using False t c'(1) ev by auto
  qed
qed

end
