(* ===== verification/Io_Context.thy ===== *)
theory Io_Context
  imports Io_Uring Async_Events Tasks
begin

text \<open>
  The event loop (\<^verbatim>\<open>include/coring/io_context.hpp\<close>, \<^verbatim>\<open>include/coring/timeout_awaitable.hpp\<close>,
  \<^verbatim>\<open>include/coring/timeout.hpp\<close>). The class derives from \<open>io_uring_context\<close>, and its record extends
  that one.

  Its three internal coroutines are modelled by the code between their suspension points. Where
  their frames are, and what the kernel has stored in their buffers and says of the time, are
  arguments: \<open>loop_env\<close> holds the handles and addresses, the parameter of the signal coroutine, which it was given
  by value when it started, and reads the message, the signal and the clock. What a task of the user does when it is spawned or resumed is an argument as well.
\<close>

section \<open>State\<close>

record 'r io_context = "'r io_uring_context" +
  internal_event_fd :: int
  internal_signal_fd :: int
  stopped :: bool
  todo_list :: "handle list"
  my_scope :: async_scope
  ic_timer :: timer
  timer_event :: ar_state
  signal_func :: "nat option"
  signal_calls :: "(nat \<times> nat) list"
  timeout_tmp :: timespec

text \<open>
  \<open>signal_calls\<close> records the calls of the signal function (which function, which signal); \<open>timeout_tmp\<close> is
  the local variable of the timer's coroutine that the kernel reads.
\<close>

record 'r loop_env =
  le_event :: handle
  le_event_tk :: addr
  le_event_msg :: addr
  le_signal :: handle
  le_signal_tk :: addr
  le_signal_info :: addr
  le_signal_func :: "nat option"
  le_timeout :: handle
  le_timeout_tk :: addr
  le_timeout_ts :: addr
  le_msg :: "'r \<Rightarrow> u64"
  le_signo :: "'r \<Rightarrow> nat"
  le_now :: "'r \<Rightarrow> int"

definition EV_STOP_MSG :: u64 where
  "EV_STOP_MSG = 0x1fffffffffffffff"

definition EV_WAKEUP_MSG :: u64 where
  "EV_WAKEUP_MSG = 1"

definition SIGINT :: nat where
  "SIGINT = 2"

section \<open>Construction\<close>

text \<open>\<open>fd\<close> is what \<open>eventfd\<close> or \<open>signalfd\<close> returns.\<close>

definition create_eventfd :: "int \<Rightarrow> ('r, 'm) io_context_scheme \<Rightarrow> ('r, 'm) io_context_scheme res" where
  "create_eventfd fd c =
     (let c = c\<lparr>internal_event_fd := fd\<rparr>
      in if internal_event_fd c = -1 then Inl (Runtime_error ''o/s fails to allocate more fd'') else Inr c)"

definition create_signalfd :: "int \<Rightarrow> ('r, 'm) io_context_scheme \<Rightarrow> ('r, 'm) io_context_scheme res" where
  "create_signalfd fd c =
     (let c = c\<lparr>internal_signal_fd := fd\<rparr>
      in if internal_signal_fd c = -1 then Inl (Runtime_error ''o/s fails to allocate more fd'') else Inr c)"

definition io_context_new ::
  "(int \<Rightarrow> uring_params \<Rightarrow> int \<times> 'r) \<Rightarrow> int \<Rightarrow> timer \<Rightarrow> int \<Rightarrow> u32 \<Rightarrow> u32 \<Rightarrow> 'r io_context res" where
  "io_context_new init fd t entries flags wq_fd =
     res_bind (io_uring_context_new init entries flags wq_fd) (\<lambda>u.
     create_eventfd fd
       (io_uring_context.extend u
         (io_context.fields (- 1) (- 1) True [] async_scope_new t (auto_reset_event_new False) None []
           \<lparr>tv_sec = 0, tv_nsec = 0\<rparr>)))"

definition IORING_SETUP_SQPOLL :: u32 where
  "IORING_SETUP_SQPOLL = 2"

definition IORING_SETUP_ATTACH_WQ :: u32 where
  "IORING_SETUP_ATTACH_WQ = 32"

text \<open>\<open>bro_flags\<close> and \<open>bro_fd\<close> are the flags and the descriptor of the other context's ring.\<close>

definition dup_from_big_brother ::
  "(int \<Rightarrow> uring_params \<Rightarrow> int \<times> 'r) \<Rightarrow> int \<Rightarrow> timer \<Rightarrow> u32 \<Rightarrow> u32 \<Rightarrow> int \<Rightarrow> 'r io_context res" where
  "dup_from_big_brother init fd t bro_flags bro_fd entries =
     (if and bro_flags IORING_SETUP_SQPOLL \<noteq> 0
      then io_context_new init fd t entries (or bro_flags IORING_SETUP_ATTACH_WQ) bro_fd
      else io_context_new init fd t entries bro_flags 0)"

definition register_signals ::
  "int \<Rightarrow> nat option \<Rightarrow> ('r, 'm) io_context_scheme \<Rightarrow> ('r, 'm) io_context_scheme res" where
  "register_signals fd func c = res_bind (create_signalfd fd c) (\<lambda>c. Inr (c\<lparr>signal_func := func\<rparr>))"

text \<open>The descriptors that the destructor closes.\<close>

definition io_context_closes :: "('r, 'm) io_context_scheme \<Rightarrow> int list" where
  "io_context_closes c =
     internal_event_fd c # (if internal_signal_fd c \<noteq> -1 then [internal_signal_fd c] else [])"

section \<open>The coroutine of the event descriptor\<close>

text \<open>
  A step of a coroutine ends at its next suspension or with the coroutine; the boolean says whether it
  is suspended.
\<close>

type_synonym ('r, 'm) coro_step =
  "('r, 'm) io_context_scheme \<Rightarrow> (bool \<times> ('r, 'm) io_context_scheme) res option"

definition suspend_on ::
  "('r, 'm io_context_ext, io_awaitable) uring_op \<Rightarrow> addr \<Rightarrow> handle \<Rightarrow> ('r, 'm) coro_step" where
  "suspend_on f tk h c = ores_bind (co_await_io f tk h c) (\<lambda>(_, c). Some (Inr (True, c)))"

text \<open>\<open>init_eventfd\<close> from the head of its loop, and from the point where the read has completed.\<close>

definition eventfd_loop :: "'r liburing \<Rightarrow> 'r loop_env \<Rightarrow> ('r, 'm) coro_step" where
  "eventfd_loop L E c =
     (if \<not> stopped c
      then suspend_on (uring_read L (internal_event_fd c) (le_event_msg E) 8 0 0) (le_event_tk E) (le_event E) c
      else Some (Inr (False, c)))"

definition init_eventfd :: "'r liburing \<Rightarrow> 'r loop_env \<Rightarrow> ('r, 'm) coro_step" where
  "init_eventfd L E c = eventfd_loop L E c"

definition eventfd_resume :: "'r liburing \<Rightarrow> 'r loop_env \<Rightarrow> ('r, 'm) coro_step" where
  "eventfd_resume L E c =
     eventfd_loop L E (if EV_STOP_MSG \<le> le_msg E (uc_ring c) then c\<lparr>stopped := True\<rparr> else c)"

section \<open>The coroutine of the signal descriptor\<close>

definition signalfd_read :: "'r liburing \<Rightarrow> 'r loop_env \<Rightarrow> ('r, 'm) coro_step" where
  "signalfd_read L E c =
     suspend_on (uring_read L (internal_signal_fd c) (le_signal_info E) 128 0 0) (le_signal_tk E) (le_signal E) c"

definition init_signalfd :: "'r liburing \<Rightarrow> 'r loop_env \<Rightarrow> ('r, 'm) coro_step" where
  "init_signalfd L E c = signalfd_read L E c"

definition signalfd_resume :: "'r liburing \<Rightarrow> 'r loop_env \<Rightarrow> nat option \<Rightarrow> ('r, 'm) coro_step" where
  "signalfd_resume L E func c =
     (let signo = le_signo E (uc_ring c);
          c = (case func of None \<Rightarrow> c | Some f \<Rightarrow> c\<lparr>signal_calls := signal_calls c @ [(f, signo)]\<rparr>);
          c = (if signo = SIGINT then c\<lparr>stopped := True\<rparr> else c)
      in if \<not> stopped c then signalfd_read L E c else Some (Inr (False, c)))"

section \<open>The coroutine of the timer\<close>

text \<open>Both loops of \<open>init_timeout_callback\<close>, from the head of the outer one (\<open>True\<close>) or of the inner one.\<close>

partial_function (option) timeout_loop ::
  "'r liburing \<Rightarrow> 'r loop_env \<Rightarrow> bool \<Rightarrow> ('r, 'm) io_context_scheme \<Rightarrow>
   (bool \<times> ('r, 'm) io_context_scheme) res option" where
  "timeout_loop L E outer c =
     (if outer \<and> stopped c then Some (Inr (False, c))
      else if has_more_timeouts (ic_timer c)
      then ores_bind (Some (get_next_expiration (le_now E (uc_ring c)) (ic_timer c))) (\<lambda>tmp.
             suspend_on (uring_timeout L (le_timeout_ts E) 0 0) (le_timeout_tk E) (le_timeout E)
               (c\<lparr>timeout_tmp := tmp\<rparr>))
      else ores_bind (Some (ar_await_suspend (le_timeout E) (timer_event c))) (\<lambda>(b, evt).
             let c = c\<lparr>timer_event := evt\<rparr>
             in if b then Some (Inr (True, c)) else timeout_loop L E True c))"

definition init_timeout_callback :: "'r liburing \<Rightarrow> 'r loop_env \<Rightarrow> ('r, 'm) coro_step" where
  "init_timeout_callback L E c = timeout_loop L E True c"

text \<open>
  Resumed by the timeout, it runs the events that are due, which may change the whole state; resumed
  by the event, it goes on with the outer loop.
\<close>

definition on_timer ::
  "(handle, ('r, 'm) io_context_scheme) resumption \<Rightarrow> (handle, ('r, 'm) io_context_scheme \<times> timer) resumption" where
  "on_timer resume h ct =
     ores_bind (resume h ((fst ct)\<lparr>ic_timer := snd ct\<rparr>)) (\<lambda>c. Some (Inr (c, ic_timer c)))"

definition timeout_resume ::
  "'r liburing \<Rightarrow> 'r loop_env \<Rightarrow> (handle, ('r, 'm) io_context_scheme) resumption \<Rightarrow> ('r, 'm) coro_step" where
  "timeout_resume L E resume c =
     ores_bind (handle_events (le_now E (uc_ring c)) (on_timer resume) (c, ic_timer c)) (\<lambda>(_, c, t).
       timeout_loop L E False (c\<lparr>ic_timer := t\<rparr>))"

definition timer_event_resume :: "'r liburing \<Rightarrow> 'r loop_env \<Rightarrow> ('r, 'm) coro_step" where
  "timer_event_resume L E c = timeout_loop L E True c"

section \<open>Tasks and timeouts of the user\<close>

text \<open>\<open>execute\<close> spawns a task in the scope; \<open>work\<close> runs it up to its first suspension or its end.\<close>

definition execute ::
  "(handle, ('r, 'm) io_context_scheme) resumption \<Rightarrow> handle \<Rightarrow> ('r, 'm) io_context_scheme \<Rightarrow>
   ('r, 'm) io_context_scheme res option" where
  "execute work t c = ores_bind (Some (spawn_begin (my_scope c))) (\<lambda>s. work t (c\<lparr>my_scope := s\<rparr>))"

definition spawn ::
  "(handle, ('r, 'm) io_context_scheme) resumption \<Rightarrow> handle \<Rightarrow> ('r, 'm) io_context_scheme \<Rightarrow>
   ('r, 'm) io_context_scheme res option" where
  "spawn work t c = execute work t c"

fun execute_all ::
  "(handle, ('r, 'm) io_context_scheme) resumption \<Rightarrow> handle list \<Rightarrow> ('r, 'm) io_context_scheme \<Rightarrow>
   ('r, 'm) io_context_scheme res option" where
  "execute_all work [] c = Some (Inr c)"
| "execute_all work (t # ts) c = ores_bind (execute work t c) (execute_all work ts)"

definition do_todo_list ::
  "(handle, ('r, 'm) io_context_scheme) resumption \<Rightarrow> ('r, 'm) io_context_scheme \<Rightarrow>
   ('r, 'm) io_context_scheme res option" where
  "do_todo_list work c = (let local_copy = todo_list c in execute_all work local_copy (c\<lparr>todo_list := []\<rparr>))"

definition do_cancel_list :: "unit res" where
  "do_cancel_list = Inl (Runtime_error ''not available in this channel'')"

definition schedule :: "handle \<Rightarrow> ('r, 'm) io_context_scheme \<Rightarrow> ('r, 'm) io_context_scheme" where
  "schedule t c = c\<lparr>todo_list := todo_list c @ [t]\<rparr>"

text \<open>The overload for a list: the context and what is left in the caller's list.\<close>

definition schedule_list ::
  "handle list \<Rightarrow> ('r, 'm) io_context_scheme \<Rightarrow> handle list \<times> ('r, 'm) io_context_scheme" where
  "schedule_list ts c =
     (if todo_list c = [] then (todo_list c, c\<lparr>todo_list := ts\<rparr>)
      else ([], c\<lparr>todo_list := todo_list c @ ts\<rparr>))"

text \<open>
  \<open>register_timeout\<close>: \<open>place\<close> and \<open>draws\<close> are the new node and the random numbers of the skip list, and \<open>now\<close> is the
  time that \<open>add_event\<close> reads. Setting the event resumes the coroutine that waits for it, which reads the clock again.
\<close>

definition register_timeout ::
  "(handle, ('r, 'm) io_context_scheme) resumption \<Rightarrow> addr \<Rightarrow> (nat \<Rightarrow> bool) \<Rightarrow> int \<Rightarrow> handle \<Rightarrow> int \<Rightarrow>
   ('r, 'm) io_context_scheme \<Rightarrow> ('r, 'm) io_context_scheme res option" where
  "register_timeout resume place draws now cont expr c =
     ores_bind (add_event place draws now cont expr (ic_timer c)) (\<lambda>t.
       case ar_set (timer_event c) of
         (w, evt) \<Rightarrow>
           let c = c\<lparr>ic_timer := t, timer_event := evt\<rparr>
           in case w of None \<Rightarrow> Some (Inr c) | Some h \<Rightarrow> resume h c)"

definition timeout_await_suspend ::
  "(handle, ('r, 'm) io_context_scheme) resumption \<Rightarrow> addr \<Rightarrow> (nat \<Rightarrow> bool) \<Rightarrow> int \<Rightarrow> handle \<Rightarrow> int \<Rightarrow>
   ('r, 'm) io_context_scheme \<Rightarrow> ('r, 'm) io_context_scheme res option" where
  "timeout_await_suspend resume place draws now continuation t c =
     register_timeout resume place draws now continuation t c"

text \<open>\<open>until\<close> is not supported.\<close>

definition coring_until :: "unit res" where
  "coring_until = Inl (Runtime_error ''NOT SUPPORTED YET, reported by coring::until task'')"

section \<open>The loop\<close>

text \<open>
  What the completion of a request resumes: the coroutines of the loop by their own code, the others
  by \<open>user\<close>. The timeout coroutine is resumed here by its request only.
\<close>

definition dispatch ::
  "'r liburing \<Rightarrow> 'r loop_env \<Rightarrow> (handle, ('r, 'm) io_context_scheme) resumption \<Rightarrow>
   (handle, ('r, 'm) io_context_scheme) resumption" where
  "dispatch L E user h c =
     (if h = le_event E then ores_bind (eventfd_resume L E c) (\<lambda>(_, c). Some (Inr c))
      else if h = le_signal E then ores_bind (signalfd_resume L E (le_signal_func E) c) (\<lambda>(_, c). Some (Inr c))
      else if h = le_timeout E then ores_bind (timeout_resume L E user c) (\<lambda>(_, c). Some (Inr c))
      else user h c)"

partial_function (option) run_loop ::
  "'r liburing \<Rightarrow> 'r loop_env \<Rightarrow> (handle, ('r, 'm) io_context_scheme) resumption \<Rightarrow>
   (handle, ('r, 'm) io_context_scheme) resumption \<Rightarrow> ('r, 'm) io_context_scheme \<Rightarrow>
   ('r, 'm) io_context_scheme res option" where
  "run_loop L E user work c =
     (if \<not> stopped c
      then ores_bind (wait_for_completions_then_handle L (dispatch L E user) c) (\<lambda>c.
           ores_bind (do_todo_list work c) (run_loop L E user work))
      else Some (Inr c))"

definition do_run ::
  "'r liburing \<Rightarrow> 'r loop_env \<Rightarrow> (handle, ('r, 'm) io_context_scheme) resumption \<Rightarrow>
   (handle, ('r, 'm) io_context_scheme) resumption \<Rightarrow> ('r, 'm) io_context_scheme \<Rightarrow>
   ('r, 'm) io_context_scheme res option" where
  "do_run L E user work c =
     ores_bind (init_eventfd L E (c\<lparr>stopped := False\<rparr>)) (\<lambda>(_, c).
     let func = signal_func c in
     ores_bind (if internal_signal_fd c \<noteq> -1 then init_signalfd L E c else Some (Inr (False, c))) (\<lambda>(_, c).
     ores_bind (do_todo_list work c) (\<lambda>c.
     ores_bind (init_timeout_callback L E c) (\<lambda>(_, c).
     run_loop L (E\<lparr>le_signal_func := func\<rparr>) user work c))))"

text \<open>
  The context bound to the thread is a pointer, null outside of \<open>run\<close>. \<open>notify\<close> writes a message to the
  event descriptor and ignores the result; \<open>stop\<close> returns the message it sends, if any.
\<close>

definition get_io_context_ref :: "addr \<Rightarrow> addr res" where
  "get_io_context_ref ptr = (if ptr = 0 then Inl (Runtime_error ''no io_context bind'') else Inr ptr)"

definition on_this_thread :: "addr \<Rightarrow> addr \<Rightarrow> bool" where
  "on_this_thread self bound \<longleftrightarrow> bound = self"

definition notify :: "u64 \<Rightarrow> u64 list" where
  "notify msg = [msg]"

definition wakeup :: "u64 list" where
  "wakeup = notify EV_WAKEUP_MSG"

definition submit :: "u64 list" where
  "submit = wakeup"

definition stop_context ::
  "addr \<Rightarrow> addr \<Rightarrow> ('r, 'm) io_context_scheme \<Rightarrow> u64 list \<times> ('r, 'm) io_context_scheme" where
  "stop_context self bound c =
     (if bound = self then ([], c\<lparr>stopped := True\<rparr>) else (notify EV_STOP_MSG, c))"

definition run_context ::
  "addr \<Rightarrow> 'r liburing \<Rightarrow> 'r loop_env \<Rightarrow> (handle, ('r, 'm) io_context_scheme) resumption \<Rightarrow>
   (handle, ('r, 'm) io_context_scheme) resumption \<Rightarrow> ('r, 'm) io_context_scheme \<Rightarrow>
   (addr \<times> ('r, 'm) io_context_scheme) res option" where
  "run_context self L E user work c = ores_bind (do_run L E user work c) (\<lambda>c. Some (Inr (0, c)))"

definition co_spawn ::
  "addr \<Rightarrow> (handle, ('r, 'm) io_context_scheme) resumption \<Rightarrow> handle \<Rightarrow> ('r, 'm) io_context_scheme \<Rightarrow>
   ('r, 'm) io_context_scheme res option" where
  "co_spawn bound work t c = ores_bind (Some (get_io_context_ref bound)) (\<lambda>_. spawn work t c)"

section \<open>Suspending on a request\<close>

lemma same_more_fields:
  assumes "same_more c c'"
  shows "stopped c' = stopped c" "timeout_tmp c' = timeout_tmp c" "ic_timer c' = ic_timer c"
    "timer_event c' = timer_event c" "todo_list c' = todo_list c"
  using assms by (cases c; cases c'; simp add: same_more_def)+

lemma suspend_on_ok:
  assumes "liburing_ok L" and "room_after_submit L"
  shows "\<exists>i c'. suspend_on (uring_request L call iflags) tk h c = Some (Inr (True, c')) \<and> same_more c c' \<and>
    sqe_call (uc_sqes c' i) = call \<and> sqe_user_data (uc_sqes c' i) = tk \<and>
    map_option tk_continuation (uc_tokens c' tk) = Some h"
proof -
  obtain i c' where "co_await_io (uring_request L call iflags) tk h c = Some (Inr (\<lparr>aw_sqe = i, aw_token_ptr = tk\<rparr>, c'))"
    "same_more c c'" "sqe_call (uc_sqes c' i) = call" "sqe_user_data (uc_sqes c' i) = tk"
    "uc_tokens c' = (uc_tokens c)(tk \<mapsto> \<lparr>tk_continuation = h, tk_result = 0, tk_flags = 0\<rparr>)"
    using co_await_io_ok [OF assms] by blast
  then show ?thesis by (auto simp: suspend_on_def)
qed

section \<open>Stopping from another thread\<close>

text \<open>
  Reading an event descriptor returns the sum of the messages written since the last read. Fewer
  wake-ups than the value of a stop message never look like one.
\<close>

lemma stop_in_sum:
  fixes msgs :: "u64 list"
  assumes "set msgs \<subseteq> {EV_WAKEUP_MSG, EV_STOP_MSG}" and "length msgs < unat EV_STOP_MSG"
    and "unat msg = sum_list (map unat msgs)"
  shows "EV_STOP_MSG \<le> msg \<longleftrightarrow> EV_STOP_MSG \<in> set msgs"
proof
  assume "EV_STOP_MSG \<in> set msgs"
  then have "unat EV_STOP_MSG \<le> sum_list (map unat msgs)"
    by (intro member_le_sum_list) auto
  then show "EV_STOP_MSG \<le> msg" using assms(3) by (simp add: word_le_nat_alt)
next
  assume le: "EV_STOP_MSG \<le> msg"
  show "EV_STOP_MSG \<in> set msgs"
  proof (rule ccontr)
    assume "EV_STOP_MSG \<notin> set msgs"
    then have "map unat msgs = replicate (length msgs) 1"
      using assms(1) by (intro replicate_eqI) (auto simp: EV_WAKEUP_MSG_def)
    then have "unat msg = length msgs" using assms(3) by (simp add: sum_list_replicate)
    then show False using le assms(2) by (simp add: word_le_nat_alt)
  qed
qed

lemma eventfd_resume_rearms:
  assumes "liburing_ok L" and "room_after_submit L" and "\<not> stopped c" and "\<not> EV_STOP_MSG \<le> le_msg E (uc_ring c)"
  shows "\<exists>i c'. eventfd_resume L E c = Some (Inr (True, c')) \<and> \<not> stopped c' \<and>
    sqe_call (uc_sqes c' i) = Prep_read (internal_event_fd c) (le_event_msg E) 8 0 \<and>
    sqe_user_data (uc_sqes c' i) = le_event_tk E"
proof -
  obtain i c' where "suspend_on (uring_request L (Prep_read (internal_event_fd c) (le_event_msg E) 8 0) 0)
      (le_event_tk E) (le_event E) c = Some (Inr (True, c'))" "same_more c c'"
    "sqe_call (uc_sqes c' i) = Prep_read (internal_event_fd c) (le_event_msg E) 8 0"
    "sqe_user_data (uc_sqes c' i) = le_event_tk E"
    using suspend_on_ok [OF assms(1,2)] by blast
  then show ?thesis
    using assms(3,4) same_more_fields(1) by (auto simp: eventfd_resume_def eventfd_loop_def uring_read_def)
qed

lemma run_loop_round:
  assumes "\<not> stopped c" and "wait_for_completions_then_handle L (dispatch L E user) c = Some (Inr c1)"
    and "do_todo_list work c1 = Some (Inr c2)"
  shows "run_loop L E user work c = run_loop L E user work c2"
  using assms by (subst run_loop.simps) simp

lemma run_loop_stops: "stopped c \<Longrightarrow> run_loop L E user work c = Some (Inr c)"
  by (subst run_loop.simps) simp

section \<open>Scheduled tasks\<close>

text \<open>A task that writes its name into a log behind the members and schedules further tasks.\<close>

definition logging_work ::
  "(handle \<Rightarrow> handle list) \<Rightarrow> (handle, ('r, handle list) io_context_scheme) resumption" where
  "logging_work adds t c =
     Some (Inr (snd (schedule_list (adds t) (c\<lparr>io_context.more := io_context.more c @ [t]\<rparr>))))"

lemma schedule_list_appends:
  "schedule_list ts c = ([], c\<lparr>todo_list := todo_list c @ ts\<rparr>)"
  by (simp add: schedule_list_def)

lemma execute_all_log:
  "0 < unat (sc_count (my_scope c)) \<Longrightarrow> unat (sc_count (my_scope c)) + length ts < 18446744073709551616 \<Longrightarrow>
    \<exists>c'. execute_all (logging_work adds) ts c = Some (Inr c') \<and> io_context.more c' = io_context.more c @ ts \<and>
      todo_list c' = todo_list c @ concat (map adds ts) \<and>
      unat (sc_count (my_scope c')) = unat (sc_count (my_scope c)) + length ts"
proof (induction ts arbitrary: c)
  case (Cons t ts)
  obtain s where s: "on_work_started (my_scope c) = Inr s" "unat (sc_count s) = Suc (unat (sc_count (my_scope c)))"
    using scope.start_counts [of "my_scope c"] Cons.prems by auto
  let ?c = "snd (schedule_list (adds t) ((c\<lparr>my_scope := s\<rparr>)\<lparr>io_context.more := io_context.more (c\<lparr>my_scope := s\<rparr>) @ [t]\<rparr>))"
  have "my_scope ?c = s" by (simp add: schedule_list_appends)
  then obtain c' where "execute_all (logging_work adds) ts ?c = Some (Inr c')"
    "io_context.more c' = io_context.more ?c @ ts" "todo_list c' = todo_list ?c @ concat (map adds ts)"
    "unat (sc_count (my_scope c')) = unat (sc_count (my_scope c)) + Suc (length ts)"
    using Cons.IH [of ?c] s(2) Cons.prems by auto
  moreover have "execute (logging_work adds) t c = Some (Inr ?c)"
    by (simp add: execute_def spawn_begin_def s(1) logging_work_def)
  ultimately show ?case by (simp add: schedule_list_appends)
qed simp

section \<open>Timeouts\<close>

lemma timeout_loop_arms:
  assumes L: "liburing_ok L" "room_after_submit L" and st: "\<not> stopped c"
    and rep: "timer_rep (ic_timer c) ((k, h) # es)" and len: "Suc (length es) < 18446744073709551616"
    and now: "in_long (k - le_now E (uc_ring c))" "in_long ((k - le_now E (uc_ring c)) * 1000)"
  shows "\<exists>i c'. timeout_loop L E True c = Some (Inr (True, c')) \<and>
    sqe_call (uc_sqes c' i) = Prep_timeout (le_timeout_ts E) 0 0 \<and> sqe_user_data (uc_sqes c' i) = le_timeout_tk E \<and>
    map_option tk_continuation (uc_tokens c' (le_timeout_tk E)) = Some (le_timeout E) \<and>
    ic_timer c' = ic_timer c \<and> stopped c' = stopped c \<and> todo_list c' = todo_list c \<and>
    tv_sec (timeout_tmp c') * 1000000000 + tv_nsec (timeout_tmp c') = max 0 (k - le_now E (uc_ring c)) * 1000"
proof -
  have more: "has_more_timeouts (ic_timer c)"
    using timer_rep_empty [OF rep] len by (simp add: has_more_timeouts_def)
  obtain ts where ts: "get_next_expiration (le_now E (uc_ring c)) (ic_timer c) = Inr ts"
    "tv_sec ts * 1000000000 + tv_nsec ts = max 0 (k - le_now E (uc_ring c)) * 1000"
    using get_next_expiration_first [OF rep now] by blast
  obtain i c' where c': "suspend_on (uring_request L (Prep_timeout (le_timeout_ts E) 0 0) 0) (le_timeout_tk E) (le_timeout E)
      (c\<lparr>timeout_tmp := ts\<rparr>) = Some (Inr (True, c'))" "same_more (c\<lparr>timeout_tmp := ts\<rparr>) c'"
    "sqe_call (uc_sqes c' i) = Prep_timeout (le_timeout_ts E) 0 0" "sqe_user_data (uc_sqes c' i) = le_timeout_tk E"
    "map_option tk_continuation (uc_tokens c' (le_timeout_tk E)) = Some (le_timeout E)"
    using suspend_on_ok [OF L] by blast
  have "timeout_loop L E True c = Some (Inr (True, c'))"
    using st more ts(1) c'(1) by (subst timeout_loop.simps) (simp add: uring_timeout_def)
  then show ?thesis using c' ts(2) same_more_fields [OF c'(2)] by auto
qed

text \<open>The loop's own resumption of its timer coroutine when the event is set.\<close>

definition resume_timer ::
  "'r liburing \<Rightarrow> 'r loop_env \<Rightarrow> (handle, ('r, 'm) io_context_scheme) resumption \<Rightarrow>
   (handle, ('r, 'm) io_context_scheme) resumption" where
  "resume_timer L E user h c =
     (if h = le_timeout E then ores_bind (timer_event_resume L E c) (\<lambda>(_, c). Some (Inr c)) else user h c)"

lemma register_timeout_arms:
  assumes L: "liburing_ok L" "room_after_submit L" and st: "\<not> stopped c"
    and rep: "timer_rep (ic_timer c) es" and wait: "timer_event c = ar_waiter (le_timeout E)"
    and place: "place \<noteq> 0" "s_heap (ic_timer c) place = None"
    and later: "now' = le_now E (uc_ring c)" and len: "Suc (length es) < 18446744073709551616"
    and long: "in_long (now + expr)" "\<forall>k \<in> insert (now + expr) (fst ` set es). in_long ((k - now') * 1000)"
  shows "\<exists>i c' k. register_timeout (resume_timer L E user) place draws now cont expr c = Some (Inr c') \<and>
    k = Min (insert (now + expr) (fst ` set es)) \<and>
    sqe_call (uc_sqes c' i) = Prep_timeout (le_timeout_ts E) 0 0 \<and> sqe_user_data (uc_sqes c' i) = le_timeout_tk E \<and>
    map_option tk_continuation (uc_tokens c' (le_timeout_tk E)) = Some (le_timeout E) \<and>
    timer_rep (ic_timer c') (ins_entry (now + expr) cont es) \<and>
    tv_sec (timeout_tmp c') * 1000000000 + tv_nsec (timeout_tmp c') = max 0 (k - now') * 1000"
proof -
  obtain t where t: "add_event place draws now cont expr (ic_timer c) = Some (Inr t)"
    "timer_rep t (ins_entry (now + expr) cont es)"
    using add_event_rep [OF rep place long(1)] by blast
  obtain k h es' where es': "ins_entry (now + expr) cont es = (k, h) # es'"
    by (cases "ins_entry (now + expr) cont es") (auto simp: ins_entry_def)
  have keys: "fst ` set ((k, h) # es') = insert (now + expr) (fst ` set es)"
    using mset_ins_entry [of "now + expr" cont es] unfolding es'
    by (metis image_insert fst_conv set_mset_add_mset_insert set_mset_mset)
  have "sorted (map fst ((k, h) # es'))"
    using map_rep_sorted [of LONG_MAX t] t(2) unfolding timer_rep_def es' by blast
  then have k: "k = Min (insert (now + expr) (fst ` set es))"
    unfolding keys [symmetric] by (intro Min_eqI [symmetric]) auto
  have "k \<in> insert (now + expr) (fst ` set es)" unfolding keys [symmetric] by simp
  then have kl: "in_long ((k - now') * 1000)" "in_long (k - now')"
    using long(2) by (auto simp: in_long_def LONG_MIN_def LONG_MAX_def)
  let ?c = "c\<lparr>ic_timer := t, timer_event := ar_null\<rparr>"
  have n: "le_now E (uc_ring ?c) = now'" and r: "timer_rep t ((k, h) # es')" using later t(2) es' by simp_all
  have le: "Suc (length es') < 18446744073709551616"
    using length_ins_entry [of "now + expr" cont es] len unfolding es' by simp
  obtain i c' where "timeout_loop L E True ?c = Some (Inr (True, c'))"
    "sqe_call (uc_sqes c' i) = Prep_timeout (le_timeout_ts E) 0 0" "sqe_user_data (uc_sqes c' i) = le_timeout_tk E"
    "map_option tk_continuation (uc_tokens c' (le_timeout_tk E)) = Some (le_timeout E)" "ic_timer c' = t"
    "tv_sec (timeout_tmp c') * 1000000000 + tv_nsec (timeout_tmp c') = max 0 (k - now') * 1000"
    using timeout_loop_arms [OF L _ _ le, of ?c k h E, unfolded n, OF _ _ kl(2,1)] st r by auto
  then show ?thesis
    using t es' wait k
    by (intro exI [of _ i] exI [of _ c'] exI [of _ k])
       (simp add: register_timeout_def ar_set_def ar_set_exchange_def resume_timer_def timer_event_resume_def)
qed

end
