(* ===== verification/File_Io.thy ===== *)
theory File_Io
  imports Io_Context Endpoint
begin

text \<open>
  Descriptors and files (\<^verbatim>\<open>include/coring/file_descriptor.hpp\<close>, \<^verbatim>\<open>include/coring/file.hpp\<close>).

  Functions that only start a request and return its awaitable are operations of the ring context.
  Coroutines that await their requests and functions that call the system directly are functions of
  the state \<open>'w\<close> of the system, with the system's calls in a record of functions; they return their
  result or exception together with the state, which an exception does not undo.
\<close>

section \<open>The system's calls\<close>

text \<open>
  The fields \<open>aw_\<dots>\<close> are requests to the ring that are awaited, the others are direct calls; \<open>os_errno\<close> is
  the error of the last one that failed. Calls that return an address give it with their result. A
  time limit is that of the linked timeout. \<open>os_spawn_close\<close> starts a coroutine that closes a descriptor.
\<close>

record ('w, 'st) os =
  os_errno :: "'w \<Rightarrow> int"
  os_socket :: "int \<Rightarrow> 'w \<Rightarrow> int \<times> 'w"
  os_bind :: "int \<Rightarrow> endpoint \<Rightarrow> 'w \<Rightarrow> int \<times> 'w"
  os_listen :: "int \<Rightarrow> int \<Rightarrow> 'w \<Rightarrow> int \<times> 'w"
  os_accept :: "int \<Rightarrow> 'w \<Rightarrow> int \<times> endpoint \<times> 'w"
  os_close :: "int \<Rightarrow> 'w \<Rightarrow> int \<times> 'w"
  os_openat :: "int \<Rightarrow> string \<Rightarrow> int \<Rightarrow> nat \<Rightarrow> 'w \<Rightarrow> int \<times> 'w"
  os_fcntl :: "int \<Rightarrow> int \<Rightarrow> int \<Rightarrow> 'w \<Rightarrow> int \<times> 'w"
  os_setsockopt :: "int \<Rightarrow> int \<Rightarrow> int \<Rightarrow> int list \<Rightarrow> 'w \<Rightarrow> int \<times> 'w"
  os_getsockopt :: "int \<Rightarrow> int \<Rightarrow> int \<Rightarrow> 'w \<Rightarrow> int \<times> int \<times> 'w"
  os_getsockname :: "int \<Rightarrow> 'w \<Rightarrow> int \<times> endpoint \<times> 'w"
  os_getpeername :: "int \<Rightarrow> 'w \<Rightarrow> int \<times> endpoint \<times> 'w"
  os_spawn_close :: "int \<Rightarrow> 'w \<Rightarrow> 'w"
  aw_connect :: "int \<Rightarrow> endpoint \<Rightarrow> timespec option \<Rightarrow> 'w \<Rightarrow> int \<times> 'w"
  aw_accept :: "int \<Rightarrow> 'w \<Rightarrow> int \<times> endpoint \<times> 'w"
  aw_close :: "int \<Rightarrow> 'w \<Rightarrow> int \<times> 'w"
  aw_openat :: "int \<Rightarrow> string \<Rightarrow> int \<Rightarrow> nat \<Rightarrow> 'w \<Rightarrow> int \<times> 'w"
  aw_statx :: "int \<Rightarrow> string \<Rightarrow> int \<Rightarrow> nat \<Rightarrow> 'w \<Rightarrow> int \<times> 'st \<times> 'w"

definition sys_bind :: "'a res \<times> 's \<Rightarrow> ('a \<Rightarrow> 's \<Rightarrow> 'b res \<times> 's) \<Rightarrow> 'b res \<times> 's" where
  "sys_bind m k = (case m of (Inl e, s) \<Rightarrow> (Inl e, s) | (Inr a, s) \<Rightarrow> k a s)"

lemma sys_bind_simps [simp]:
  "sys_bind (Inl e, s) k = (Inl e, s)"
  "sys_bind (Inr a, s) k = k a s"
  by (simp_all add: sys_bind_def)

definition AT_FDCWD :: int where
  "AT_FDCWD = - 100"

definition AT_EMPTY_PATH :: int where
  "AT_EMPTY_PATH = 4096"

definition O_CLOEXEC :: nat where
  "O_CLOEXEC = 524288"

section \<open>file_descriptor\<close>

record file_descriptor =
  fd_no :: int

definition file_descriptor_new :: "int \<Rightarrow> file_descriptor" where
  "file_descriptor_new fd = \<lparr>fd_no = fd\<rparr>"

definition make_invalid :: "('m) file_descriptor_scheme \<Rightarrow> ('m) file_descriptor_scheme" where
  "make_invalid f = f\<lparr>fd_no := - 1\<rparr>"

text \<open>The move constructor: the new object, and the old one as it is left.\<close>

definition fd_move :: "('m) file_descriptor_scheme \<Rightarrow> file_descriptor \<times> ('m) file_descriptor_scheme" where
  "fd_move rhs = (\<lparr>fd_no = fd_no rhs\<rparr>, rhs\<lparr>fd_no := - 1\<rparr>)"

definition fd_close ::
  "'r liburing \<Rightarrow> ('m) file_descriptor_scheme \<Rightarrow>
   ('r, 'n, io_awaitable \<times> ('m) file_descriptor_scheme) uring_op" where
  "fd_close L f c = ores_bind (uring_close L (fd_no f) 0 c) (\<lambda>(res, c). Some (Inr ((res, make_invalid f), c)))"

definition fd_invalid :: "('m) file_descriptor_scheme \<Rightarrow> bool" where
  "fd_invalid f \<longleftrightarrow> fd_no f < 0"

definition fd_destroy :: "('w, 'st) os \<Rightarrow> ('m) file_descriptor_scheme \<Rightarrow> 'w \<Rightarrow> 'w" where
  "fd_destroy S f w = (if \<not> fd_invalid f then os_spawn_close S (fd_no f) w else w)"

text \<open>The coroutine that the destructor spawns awaits a request to close the descriptor.\<close>

definition fd_destroy_request :: "'r liburing \<Rightarrow> int \<Rightarrow> ('r, 'n, io_awaitable) uring_op" where
  "fd_destroy_request L fd = uring_close L fd 0"

section \<open>full_status\<close>

text \<open>The owned buffer: none, or one whose contents may not be initialised.\<close>

type_synonym 'st full_status = "'st option option"

definition status_view :: "'st full_status \<Rightarrow> 'st full_status" where
  "status_view s = s"

definition status_copy :: "'st full_status \<Rightarrow> 'st full_status" where
  "status_copy src = (case src of None \<Rightarrow> None | Some content \<Rightarrow> Some content)"

definition status_move :: "'st full_status \<Rightarrow> 'st full_status \<times> 'st full_status" where
  "status_move src = (src, None)"

definition status_init :: "'st full_status \<Rightarrow> 'st full_status" where
  "status_init s = Some None"

section \<open>file_base\<close>

record 'st file_base = file_descriptor +
  fl_status :: "'st full_status"

definition file_base_new :: "int \<Rightarrow> 'st file_base" where
  "file_base_new ffd = \<lparr>fd_no = ffd, fl_status = None\<rparr>"

definition file_move :: "'st file_base \<Rightarrow> 'st file_base \<times> 'st file_base" where
  "file_move rhs =
     (case fd_move rhs of
        (base, rhs) \<Rightarrow> (case status_move (fl_status rhs) of
          (s, old) \<Rightarrow> (\<lparr>fd_no = fd_no base, fl_status = s\<rparr>, rhs\<lparr>fl_status := old\<rparr>)))"

text \<open>\<open>get_statx\<close> gives the contents of the buffer it returns a pointer to.\<close>

definition get_statx ::
  "('w, 'st) os \<Rightarrow> nat \<Rightarrow> 'st file_base \<times> 'w \<Rightarrow> 'st full_status res \<times> ('st file_base \<times> 'w)" where
  "get_statx S want fw =
     (case fw of
        (f, w) \<Rightarrow>
          if status_view (fl_status f) = None
          then let f = f\<lparr>fl_status := status_init (fl_status f)\<rparr>
               in (case aw_statx S (fd_no f) [] AT_EMPTY_PATH want w of
                     (ret, st, w) \<Rightarrow>
                       if ret < 0 then (Inl (System_error (- ret)), (f, w))
                       else let f = f\<lparr>fl_status := Some (Some st)\<rparr> in (Inr (status_view (fl_status f)), (f, w)))
          else (Inr (status_view (fl_status f)), (f, w)))"

definition file_read ::
  "'r liburing \<Rightarrow> ('m) file_descriptor_scheme \<Rightarrow> addr \<Rightarrow> size_t \<Rightarrow> int \<Rightarrow> ('r, 'n, io_awaitable) uring_op" where
  "file_read L f dst nbytes off = uring_read L (fd_no f) dst (unat (ucast nbytes :: u32)) off 0"

definition file_write ::
  "'r liburing \<Rightarrow> ('m) file_descriptor_scheme \<Rightarrow> addr \<Rightarrow> size_t \<Rightarrow> int \<Rightarrow> ('r, 'n, io_awaitable) uring_op" where
  "file_write L f src nbytes off = uring_write L (fd_no f) src (unat (ucast nbytes :: u32)) off 0"

text \<open>\<open>openat\<close>, with or without exceptions.\<close>

definition openat ::
  "('w, 'st) os \<Rightarrow> bool \<Rightarrow> string \<Rightarrow> int \<Rightarrow> nat \<Rightarrow> int \<Rightarrow> 'w \<Rightarrow> 'st file_base res \<times> 'w" where
  "openat S use_exception path flags mode dirfd w =
     (case aw_openat S dirfd path flags mode w of
        (ffd, w) \<Rightarrow>
          if use_exception \<and> ffd < 0 then (Inl (System_error (- ffd)), w)
          else (Inr (file_base_new ffd), w))"

section \<open>Ownership\<close>

text \<open>Moving a descriptor leaves one owner: the two objects together close it once.\<close>

lemma fd_move_one_owner:
  assumes "fd_move f = (f1, f2)"
  shows "fd_destroy S f1 (fd_destroy S f2 w) = fd_destroy S f w" "fd_invalid f2"
  using assms by (auto simp: fd_move_def fd_destroy_def fd_invalid_def)

text \<open>
  A status that was obtained stays; but when the request fails, the buffer stays allocated without
  contents, and the next call takes it for a result.
\<close>

lemma get_statx_cached:
  assumes "get_statx S want (f, w) = (Inr st, (f', w'))"
  shows "get_statx S want' (f', w'') = (Inr st, (f', w''))"
  using assms by (auto simp: get_statx_def status_view_def Let_def split: if_splits prod.splits)

lemma get_statx_after_error:
  assumes "get_statx S want (f, w) = (Inl e, (f', w'))"
  shows "get_statx S want' (f', w'') = (Inr (Some None), (f', w''))"
  using assms by (auto simp: get_statx_def status_view_def status_init_def Let_def split: if_splits prod.splits)

end
