(* ===== verification/Sockets.thy ===== *)
theory Sockets
  imports File_Io Stream_Io
begin

text \<open>
  Sockets, connections and the acceptor (\<^verbatim>\<open>include/coring/socket.hpp\<close>,
  \<^verbatim>\<open>include/coring/tcp_connection.hpp\<close>, \<^verbatim>\<open>include/coring/acceptor.hpp\<close>), over the system's calls of
  \<open>File_Io\<close>. The destructors that run at the end of a scope are written out where they do something,
  that is where a descriptor is still valid.
\<close>

section \<open>Constants of the system\<close>

definition SOCK_STREAM :: int where
  "SOCK_STREAM = 1"

definition SOCK_DGRAM :: int where
  "SOCK_DGRAM = 2"

definition SOL_SOCKET :: int where
  "SOL_SOCKET = 1"

definition IPPROTO_TCP :: int where
  "IPPROTO_TCP = 6"

definition ECANCELED :: int where
  "ECANCELED = 125"

definition ENFILE :: int where
  "ENFILE = 23"

definition IOSQE_IO_LINK :: u8 where
  "IOSQE_IO_LINK = 4"

section \<open>socket\<close>

type_synonym socket = file_descriptor

definition socket_new :: "int \<Rightarrow> socket" where
  "socket_new fd = file_descriptor_new fd"

definition socket_error :: "('w, 'st) os \<Rightarrow> ('m) file_descriptor_scheme \<Rightarrow> 'w \<Rightarrow> int \<times> 'w" where
  "socket_error S s w =
     (case os_getsockopt S (fd_no s) SOL_SOCKET 4 w of
        (ret, optval, w) \<Rightarrow> if ret < 0 then (os_errno S w, w) else (optval, w))"

definition local_endpoint :: "('w, 'st) os \<Rightarrow> ('m) file_descriptor_scheme \<Rightarrow> 'w \<Rightarrow> endpoint res \<times> 'w" where
  "local_endpoint S s w =
     (case os_getsockname S (fd_no s) w of
        (ret, ep, w) \<Rightarrow> if ret < 0 then (Inl (System_error (os_errno S w)), w) else (Inr ep, w))"

definition peer_endpoint :: "('w, 'st) os \<Rightarrow> ('m) file_descriptor_scheme \<Rightarrow> 'w \<Rightarrow> endpoint res \<times> 'w" where
  "peer_endpoint S s w =
     (case os_getpeername S (fd_no s) w of
        (ret, ep, w) \<Rightarrow> if ret < 0 then (Inl (System_error (os_errno S w)), w) else (Inr ep, w))"

definition is_self_connect :: "('w, 'st) os \<Rightarrow> ('m) file_descriptor_scheme \<Rightarrow> 'w \<Rightarrow> bool res \<times> 'w" where
  "is_self_connect S s w =
     sys_bind (local_endpoint S s w) (\<lambda>l w.
     sys_bind (peer_endpoint S s w) (\<lambda>peer w.
       if family l = AF_INET
       then (Inr (port l = port peer \<and> sin_addr l = sin_addr peer), w)
       else (Inr False, w)))"

definition socket_setsockopt ::
  "('w, 'st) os \<Rightarrow> ('m) file_descriptor_scheme \<Rightarrow> int \<Rightarrow> int \<Rightarrow> int list \<Rightarrow> 'w \<Rightarrow> unit res \<times> 'w" where
  "socket_setsockopt S s lev optname optval w =
     (case os_setsockopt S (fd_no s) lev optname optval w of
        (ret, w) \<Rightarrow> if ret < 0 then (Inl (System_error (os_errno S w)), w) else (Inr (), w))"

definition socket_shutdown ::
  "'r liburing \<Rightarrow> ('m) file_descriptor_scheme \<Rightarrow> int \<Rightarrow> ('r, 'n, io_awaitable) uring_op" where
  "socket_shutdown L s how = uring_shutdown L (fd_no s) how 0"

definition socket_shutdown_rdwr ::
  "'r liburing \<Rightarrow> ('m) file_descriptor_scheme \<Rightarrow> ('r, 'n, io_awaitable) uring_op" where
  "socket_shutdown_rdwr L s = socket_shutdown L s 2"

definition shutdown_write ::
  "'r liburing \<Rightarrow> ('m) file_descriptor_scheme \<Rightarrow> ('r, 'n, io_awaitable) uring_op" where
  "shutdown_write L s = socket_shutdown L s 1"

definition shutdown_read ::
  "'r liburing \<Rightarrow> ('m) file_descriptor_scheme \<Rightarrow> ('r, 'n, io_awaitable) uring_op" where
  "shutdown_read L s = socket_shutdown L s 0"

text \<open>The options that are switched on and off: a failure to switch one off is ignored.\<close>

definition set_switch ::
  "('w, 'st) os \<Rightarrow> int \<Rightarrow> int \<Rightarrow> ('m) file_descriptor_scheme \<Rightarrow> bool \<Rightarrow> 'w \<Rightarrow> unit res \<times> 'w" where
  "set_switch S lev optname s on w =
     (let optval = if on then 1 else 0
      in case os_setsockopt S (fd_no s) lev optname [optval] w of
           (ret, w) \<Rightarrow> if ret < 0 \<and> on then (Inl (System_error (os_errno S w)), w) else (Inr (), w))"

definition set_reuse_port ::
  "('w, 'st) os \<Rightarrow> ('m) file_descriptor_scheme \<Rightarrow> bool \<Rightarrow> 'w \<Rightarrow> unit res \<times> 'w" where
  "set_reuse_port S s on w = set_switch S SOL_SOCKET 15 s on w"

text \<open>\<open>new_udp_socket_safe\<close> and the two functions that wrap a new descriptor.\<close>

definition socket_or_throw :: "('w, 'st) os \<Rightarrow> int \<Rightarrow> 'w \<Rightarrow> int res \<times> 'w" where
  "socket_or_throw S typ w =
     (case os_socket S typ w of
        (fd, w) \<Rightarrow>
          if fd < 0 then (Inl (Runtime_error ''no resource available for socket allocation''), w)
          else (Inr fd, w))"

definition new_udp_socket_safe :: "('w, 'st) os \<Rightarrow> 'w \<Rightarrow> int res \<times> 'w" where
  "new_udp_socket_safe S w = socket_or_throw S SOCK_DGRAM w"

definition safe_bind_socket :: "('w, 'st) os \<Rightarrow> int \<Rightarrow> endpoint \<Rightarrow> 'w \<Rightarrow> unit res \<times> 'w" where
  "safe_bind_socket S fd ad w =
     (case os_bind S fd ad w of
        (ret, w) \<Rightarrow> if ret < 0 then (Inl (System_error (os_errno S w)), w) else (Inr (), w))"

definition make_udp_socket :: "('w, 'st) os \<Rightarrow> 'w \<Rightarrow> socket res \<times> 'w" where
  "make_udp_socket S w = sys_bind (socket_or_throw S SOCK_DGRAM w) (\<lambda>fd w. (Inr (socket_new fd), w))"

definition make_shared_udp_socket :: "('w, 'st) os \<Rightarrow> 'w \<Rightarrow> socket res \<times> 'w" where
  "make_shared_udp_socket S w = sys_bind (socket_or_throw S SOCK_DGRAM w) (\<lambda>fd w. (Inr (socket_new fd), w))"

section \<open>Connections\<close>

text \<open>The two overloads of \<open>handle_connect_error\<close>; the second closes the descriptor first.\<close>

definition handle_connect_error :: "int \<Rightarrow> unit res" where
  "handle_connect_error ret_code =
     (if ret_code = 0 then Inr ()
      else if ret_code = ECANCELED then Inl (Runtime_error ''try connect to peer timeout, canceled'')
      else Inl (System_error ret_code))"

definition handle_connect_error_close ::
  "('w, 'st) os \<Rightarrow> int \<Rightarrow> int \<Rightarrow> 'w \<Rightarrow> unit res \<times> 'w" where
  "handle_connect_error_close S ret_code tempfd_to_close w =
     (if ret_code = 0 then (Inr (), w)
      else let w = snd (os_close S tempfd_to_close w)
           in if ret_code = ECANCELED
              then (Inl (Runtime_error ''try connect to peer timeout, canceled''), w)
              else (Inl (System_error ret_code), w))"

definition new_socket_safe :: "('w, 'st) os \<Rightarrow> 'w \<Rightarrow> int res \<times> 'w" where
  "new_socket_safe S w = socket_or_throw S SOCK_STREAM w"

definition make_socket :: "('w, 'st) os \<Rightarrow> 'w \<Rightarrow> socket res \<times> 'w" where
  "make_socket S w = sys_bind (new_socket_safe S w) (\<lambda>fd w. (Inr (socket_new fd), w))"

text \<open>
  The template parameter \<open>AddrOption\<close>: the class, its objects, and its constructors from one endpoint,
  from a socket and from two endpoints. \<open>socket_endpoints\<close> has the last one only.
\<close>

datatype addr_class = Empty_class | Peer_class | Local_class | Both_class

datatype addr_option =
    No_endpoint
  | Peer_endpoint endpoint
  | Local_endpoint endpoint
  | Socket_endpoints endpoint endpoint

fun addr_option_of_endpoint :: "addr_class \<Rightarrow> endpoint \<Rightarrow> addr_option option" where
  "addr_option_of_endpoint Empty_class ep = Some No_endpoint"
| "addr_option_of_endpoint Peer_class ep = Some (Peer_endpoint ep)"
| "addr_option_of_endpoint Local_class ep = Some (Local_endpoint ep)"
| "addr_option_of_endpoint Both_class ep = None"

fun addr_option_of_socket ::
  "('w, 'st) os \<Rightarrow> addr_class \<Rightarrow> socket \<Rightarrow> 'w \<Rightarrow> (addr_option res \<times> 'w) option" where
  "addr_option_of_socket S Empty_class s w = Some (Inr No_endpoint, w)"
| "addr_option_of_socket S Peer_class s w =
     Some (sys_bind (peer_endpoint S s w) (\<lambda>ep w. (Inr (Peer_endpoint ep), w)))"
| "addr_option_of_socket S Local_class s w =
     Some (sys_bind (local_endpoint S s w) (\<lambda>ep w. (Inr (Local_endpoint ep), w)))"
| "addr_option_of_socket S Both_class s w = None"

fun addr_option_of_endpoints :: "addr_class \<Rightarrow> endpoint \<Rightarrow> endpoint \<Rightarrow> addr_option" where
  "addr_option_of_endpoints Empty_class l p = No_endpoint"
| "addr_option_of_endpoints Peer_class l p = Peer_endpoint p"
| "addr_option_of_endpoints Local_class l p = Local_endpoint l"
| "addr_option_of_endpoints Both_class l p = Socket_endpoints l p"

record connection_base = file_descriptor +
  cn_addr :: addr_option

text \<open>
  The constructor from a descriptor initialises \<open>AddrOption\<close> with \<open>fd_\<close>, an \<open>int\<close>. The classes have no
  constructor from an \<open>int\<close>: a temporary \<open>socket\<close> is made of it, and its destructor closes the
  descriptor. \<open>None\<close> stands for a program that does not compile.
\<close>

definition connection_of_fd ::
  "('w, 'st) os \<Rightarrow> addr_class \<Rightarrow> int \<Rightarrow> 'w \<Rightarrow> (connection_base res \<times> 'w) option" where
  "connection_of_fd S cls fd w =
     (let so = socket_new fd; tmp = socket_new fd
      in map_option (\<lambda>(r, w).
           let w = fd_destroy S tmp w
           in case r of
                Inl e \<Rightarrow> (Inl e, fd_destroy S so w)
              | Inr opt \<Rightarrow> (Inr \<lparr>fd_no = fd_no so, cn_addr = opt\<rparr>, w))
         (addr_option_of_socket S cls tmp w))"

definition connection_of_endpoints :: "addr_class \<Rightarrow> socket \<Rightarrow> endpoint \<Rightarrow> endpoint \<Rightarrow> connection_base" where
  "connection_of_endpoints cls so l peer =
     \<lparr>fd_no = fd_no (fst (fd_move so)), cn_addr = addr_option_of_endpoints cls l peer\<rparr>"

definition connection_of_endpoint :: "addr_class \<Rightarrow> socket \<Rightarrow> endpoint \<Rightarrow> connection_base option" where
  "connection_of_endpoint cls so ep =
     map_option (\<lambda>opt. \<lparr>fd_no = fd_no (fst (fd_move so)), cn_addr = opt\<rparr>) (addr_option_of_endpoint cls ep)"

definition connection_move :: "connection_base \<Rightarrow> connection_base \<times> connection_base" where
  "connection_move rhs =
     (case fd_move rhs of (base, rhs) \<Rightarrow> (\<lparr>fd_no = fd_no base, cn_addr = cn_addr rhs\<rparr>, rhs))"

text \<open>Requests. The count is cut to an \<open>unsigned\<close>.\<close>

definition recv_some ::
  "'r liburing \<Rightarrow> ('m) file_descriptor_scheme \<Rightarrow> addr \<Rightarrow> size_t \<Rightarrow> u32 \<Rightarrow> ('r, 'n, io_awaitable) uring_op" where
  "recv_some L s dst nbytes fl = uring_recv L (fd_no s) dst (unat (ucast nbytes :: u32)) (unat fl) 0"

definition send_some ::
  "'r liburing \<Rightarrow> ('m) file_descriptor_scheme \<Rightarrow> addr \<Rightarrow> size_t \<Rightarrow> u32 \<Rightarrow> ('r, 'n, io_awaitable) uring_op" where
  "send_some L s dst nbytes fl = uring_send L (fd_no s) dst (unat (ucast nbytes :: u32)) (unat fl) 0"

definition conn_read_some ::
  "'r liburing \<Rightarrow> ('m) file_descriptor_scheme \<Rightarrow> addr \<Rightarrow> size_t \<Rightarrow> ('r, 'n, io_awaitable) uring_op" where
  "conn_read_some L s dst nbytes = uring_read L (fd_no s) dst (unat (ucast nbytes :: u32)) 0 0"

definition conn_write_some ::
  "'r liburing \<Rightarrow> ('m) file_descriptor_scheme \<Rightarrow> addr \<Rightarrow> size_t \<Rightarrow> ('r, 'n, io_awaitable) uring_op" where
  "conn_write_some L s dst nbytes = uring_write L (fd_no s) dst (unat (ucast nbytes :: u32)) 0 0"

text \<open>
  The coroutines with a time limit, up to their suspension: the request with the link flag, the time
  specification \<open>k\<close> in their frame, the linked timeout, and the await with the token at \<open>tk\<close> and the
  handle \<open>h\<close>.
\<close>

definition with_link_timeout ::
  "'r liburing \<Rightarrow> ('r, 'n, io_awaitable) uring_op \<Rightarrow> addr \<Rightarrow> int \<Rightarrow> int \<Rightarrow> addr \<Rightarrow> handle \<Rightarrow>
   ('r, 'n, timespec \<times> io_awaitable) uring_op" where
  "with_link_timeout L request k tick_ns dur tk h c =
     ores_bind (request c) (\<lambda>(a, c).
     ores_bind (Some (make_timespec tick_ns dur)) (\<lambda>ts.
     ores_bind (link_timeout L k 0 0 c) (\<lambda>(_, c).
     ores_bind (co_await_io (\<lambda>c. Some (Inr (a, c))) tk h c) (\<lambda>(a, c).
     Some (Inr ((ts, a), c))))))"

definition recv_some_for ::
  "'r liburing \<Rightarrow> ('m) file_descriptor_scheme \<Rightarrow> addr \<Rightarrow> size_t \<Rightarrow> addr \<Rightarrow> int \<Rightarrow> int \<Rightarrow> u32 \<Rightarrow> addr \<Rightarrow> handle \<Rightarrow>
   ('r, 'n, timespec \<times> io_awaitable) uring_op" where
  "recv_some_for L s dst nbytes k tick_ns dur fl tk h =
     with_link_timeout L (uring_recv L (fd_no s) dst (unat (ucast nbytes :: u32)) (unat fl) IOSQE_IO_LINK)
       k tick_ns dur tk h"

definition send_some_for ::
  "'r liburing \<Rightarrow> ('m) file_descriptor_scheme \<Rightarrow> addr \<Rightarrow> size_t \<Rightarrow> addr \<Rightarrow> int \<Rightarrow> int \<Rightarrow> u32 \<Rightarrow> addr \<Rightarrow> handle \<Rightarrow>
   ('r, 'n, timespec \<times> io_awaitable) uring_op" where
  "send_some_for L s dst nbytes k tick_ns dur fl tk h =
     with_link_timeout L (uring_send L (fd_no s) dst (unat (ucast nbytes :: u32)) (unat fl) IOSQE_IO_LINK)
       k tick_ns dur tk h"

text \<open>Options.\<close>

definition set_linger ::
  "('w, 'st) os \<Rightarrow> ('m) file_descriptor_scheme \<Rightarrow> u16 \<Rightarrow> u16 \<Rightarrow> 'w \<Rightarrow> unit res \<times> 'w" where
  "set_linger S s onoff secs w = socket_setsockopt S s SOL_SOCKET 13 [uint onoff, uint secs] w"

definition set_tcp_no_delay ::
  "('w, 'st) os \<Rightarrow> ('m) file_descriptor_scheme \<Rightarrow> bool \<Rightarrow> 'w \<Rightarrow> unit res \<times> 'w" where
  "set_tcp_no_delay S s on w = set_switch S IPPROTO_TCP 1 s on w"

definition set_reuse_addr ::
  "('w, 'st) os \<Rightarrow> ('m) file_descriptor_scheme \<Rightarrow> bool \<Rightarrow> 'w \<Rightarrow> unit res \<times> 'w" where
  "set_reuse_addr S s on w = set_switch S SOL_SOCKET 2 s on w"

definition set_keep_alive ::
  "('w, 'st) os \<Rightarrow> ('m) file_descriptor_scheme \<Rightarrow> bool \<Rightarrow> 'w \<Rightarrow> unit res \<times> 'w" where
  "set_keep_alive S s on w = set_switch S SOL_SOCKET 9 s on w"

section \<open>Connecting\<close>

text \<open>The four overloads of \<open>connect_to\<close>.\<close>

definition connect_to ::
  "('w, 'st) os \<Rightarrow> addr_class \<Rightarrow> endpoint \<Rightarrow> 'w \<Rightarrow> (connection_base res \<times> 'w) option" where
  "connect_to S cls peer w =
     (case new_socket_safe S w of
        (Inl e, w) \<Rightarrow> Some (Inl e, w)
      | (Inr fd, w) \<Rightarrow>
          (case aw_connect S fd peer None w of
             (ret, w) \<Rightarrow>
               (case handle_connect_error_close S (- ret) fd w of
                  (Inl e, w) \<Rightarrow> Some (Inl e, w)
                | (Inr _, w) \<Rightarrow> connection_of_fd S cls fd w)))"

definition connect_to_for ::
  "('w, 'st) os \<Rightarrow> addr_class \<Rightarrow> endpoint \<Rightarrow> int \<Rightarrow> int \<Rightarrow> 'w \<Rightarrow> (connection_base res \<times> 'w) option" where
  "connect_to_for S cls peer tick_ns dur w =
     (case new_socket_safe S w of
        (Inl e, w) \<Rightarrow> Some (Inl e, w)
      | (Inr fd, w) \<Rightarrow>
          (case make_timespec tick_ns dur of
             Inl e \<Rightarrow> Some (Inl e, w)
           | Inr k \<Rightarrow>
               (case aw_connect S fd peer (Some k) w of
                  (ret, w) \<Rightarrow>
                    (case handle_connect_error_close S (- ret) fd w of
                       (Inl e, w) \<Rightarrow> Some (Inl e, w)
                     | (Inr _, w) \<Rightarrow> connection_of_fd S cls fd w))))"

definition connect_to_from ::
  "('w, 'st) os \<Rightarrow> addr_class \<Rightarrow> endpoint \<Rightarrow> endpoint \<Rightarrow> int \<Rightarrow> int \<Rightarrow> 'w \<Rightarrow> connection_base res \<times> 'w" where
  "connect_to_from S cls l peer tick_ns dur w =
     sys_bind (new_socket_safe S w) (\<lambda>fd w.
     sys_bind (safe_bind_socket S fd l w) (\<lambda>_ w.
     sys_bind (make_timespec tick_ns dur, w) (\<lambda>k w.
       case aw_connect S fd peer (Some k) w of
         (ret, w) \<Rightarrow>
           sys_bind (handle_connect_error_close S (- ret) fd w) (\<lambda>_ w.
           (Inr (connection_of_endpoints cls (socket_new fd) l peer), w)))))"

definition connect_to_fd ::
  "('w, 'st) os \<Rightarrow> addr_class \<Rightarrow> int \<Rightarrow> endpoint \<Rightarrow> int \<Rightarrow> int \<Rightarrow> 'w \<Rightarrow> (connection_base res \<times> 'w) option" where
  "connect_to_fd S cls fd peer tick_ns dur w =
     (case make_timespec tick_ns dur of
        Inl e \<Rightarrow> Some (Inl e, w)
      | Inr k \<Rightarrow>
          (case aw_connect S fd peer (Some k) w of
             (ret, w) \<Rightarrow>
               (case handle_connect_error (- ret) of
                  Inl e \<Rightarrow> Some (Inl e, w)
                | Inr _ \<Rightarrow> connection_of_fd S cls fd w)))"

section \<open>acceptor\<close>

text \<open>Members that no constructor initialises are \<open>None\<close>.\<close>

record acceptor =
  ac_local_addr :: endpoint
  ac_backlog :: int
  ac_listenfd :: "int option"
  ac_backupfd :: "int option"

definition create_new_fd ::
  "('w, 'st) os \<Rightarrow> endpoint \<Rightarrow> acceptor \<Rightarrow> 'w \<Rightarrow> acceptor res \<times> 'w" where
  "create_new_fd S ad ac w =
     (case os_socket S SOCK_STREAM w of
        (fd, w) \<Rightarrow>
          if fd < 0 then (Inl (Runtime_error ''no resource available for socket allocation''), w)
          else (case os_bind S fd ad w of
                  (ret, w) \<Rightarrow>
                    if ret < 0
                    then (Inl (Runtime_error ''cannot bind port or sth wrong with the socket fd''), w)
                    else (Inr (ac\<lparr>ac_listenfd := Some fd\<rparr>), w)))"

definition acceptor_members :: "endpoint \<Rightarrow> int \<Rightarrow> acceptor" where
  "acceptor_members ad backlog =
     \<lparr>ac_local_addr = ad, ac_backlog = backlog, ac_listenfd = None, ac_backupfd = None\<rparr>"

definition acceptor_new ::
  "byte_order \<Rightarrow> ('w, 'st) os \<Rightarrow> string \<Rightarrow> u16 \<Rightarrow> int \<Rightarrow> 'w \<Rightarrow> acceptor res \<times> 'w" where
  "acceptor_new order S ip p backlog w =
     sys_bind (endpoint_new order ip p, w) (\<lambda>ad w.
     create_new_fd S ad (acceptor_members ad backlog) w)"

definition acceptor_new_ctx :: "('w, 'st) os \<Rightarrow> endpoint \<Rightarrow> int \<Rightarrow> 'w \<Rightarrow> acceptor res \<times> 'w" where
  "acceptor_new_ctx S ad backlog w = create_new_fd S ad (acceptor_members ad backlog) w"

definition acceptor_new_ctx_ip ::
  "byte_order \<Rightarrow> ('w, 'st) os \<Rightarrow> string \<Rightarrow> u16 \<Rightarrow> int \<Rightarrow> int \<Rightarrow> 'w \<Rightarrow> acceptor res \<times> 'w" where
  "acceptor_new_ctx_ip order S ip p max_connection backlog w =
     sys_bind (endpoint_new order ip p, w) (\<lambda>ad w.
     create_new_fd S ad (acceptor_members ad backlog) w)"

text \<open>The constructor from an endpoint does not use it: the member is a default endpoint.\<close>

definition acceptor_new_endpoint ::
  "byte_order \<Rightarrow> ('w, 'st) os \<Rightarrow> endpoint \<Rightarrow> int \<Rightarrow> 'w \<Rightarrow> acceptor res \<times> 'w" where
  "acceptor_new_endpoint order S ad backlog w =
     create_new_fd S (endpoint_of_port order 0) (acceptor_members (endpoint_of_port order 0) backlog) w"

text \<open>Reading a member that may not be initialised.\<close>

definition get_fd :: "int option \<Rightarrow> 'w \<Rightarrow> int res \<times> 'w" where
  "get_fd m w = (case m of None \<Rightarrow> (Inl Undefined_object, w) | Some fd \<Rightarrow> (Inr fd, w))"

definition get_local_endpoint :: "acceptor \<Rightarrow> endpoint" where
  "get_local_endpoint ac = ac_local_addr ac"

definition set_nonblock :: "('w, 'st) os \<Rightarrow> acceptor \<Rightarrow> 'w \<Rightarrow> unit res \<times> 'w" where
  "set_nonblock S ac w = sys_bind (get_fd (ac_listenfd ac) w) (\<lambda>fd w. (Inr (), snd (os_fcntl S fd 4 2048 w)))"

definition enable :: "('w, 'st) os \<Rightarrow> acceptor \<Rightarrow> 'w \<Rightarrow> unit res \<times> 'w" where
  "enable S ac w = sys_bind (get_fd (ac_listenfd ac) w) (\<lambda>fd w. (Inr (), snd (os_listen S fd (ac_backlog ac) w)))"

definition better_enable :: "('w, 'st) os \<Rightarrow> acceptor \<times> 'w \<Rightarrow> unit res \<times> (acceptor \<times> 'w)" where
  "better_enable S aw =
     (case aw of
        (ac, w) \<Rightarrow>
          (case get_fd (ac_listenfd ac) w of
             (Inl e, w) \<Rightarrow> (Inl e, (ac, w))
           | (Inr fd, w) \<Rightarrow>
               (case aw_openat S AT_FDCWD ''/dev/null'' 0 O_CLOEXEC (snd (os_listen S fd (ac_backlog ac) w)) of
                  (b, w) \<Rightarrow> (Inr (), (ac\<lparr>ac_backupfd := Some b\<rparr>, w)))))"

text \<open>
  The handling of \<open>ENFILE\<close> in \<open>accept\<close>: the spare descriptor is closed to make the accept possible, the
  connection is closed at once, and the spare is opened again.
\<close>

definition accept_with_spare ::
  "('w, 'st) os \<Rightarrow> int \<Rightarrow> acceptor \<times> 'w \<Rightarrow> (int \<times> endpoint) res \<times> (acceptor \<times> 'w)" where
  "accept_with_spare S lfd aw =
     (case aw of
        (ac, w) \<Rightarrow>
          (case ac_backupfd ac of
             None \<Rightarrow> (Inl Undefined_object, (ac, w))
           | Some spare \<Rightarrow>
               (case aw_accept S lfd (snd (aw_close S spare w)) of
                  (connfd, peer, w) \<Rightarrow>
                    if 0 < connfd
                    then (case aw_openat S AT_FDCWD ''/dev/null'' 0 O_CLOEXEC (snd (aw_close S connfd w)) of
                            (b, w) \<Rightarrow> (Inr (connfd, peer), (ac\<lparr>ac_backupfd := Some b\<rparr>, w)))
                    else (Inr (connfd, peer), (ac, w)))))"

definition accept ::
  "('w, 'st) os \<Rightarrow> addr_class \<Rightarrow> acceptor \<times> 'w \<Rightarrow> connection_base option res \<times> (acceptor \<times> 'w)" where
  "accept S cls aw =
     (case aw of
        (ac, w) \<Rightarrow>
          (case ac_listenfd ac of
             None \<Rightarrow> (Inl Undefined_object, (ac, w))
           | Some lfd \<Rightarrow>
               (case aw_accept S lfd w of
                  (connfd, peer, w) \<Rightarrow>
                    sys_bind
                      (if connfd = - ENFILE then accept_with_spare S lfd (ac, w)
                       else (Inr (connfd, peer), (ac, w)))
                      (\<lambda>(connfd, peer) aw.
                         if connfd < 0 \<and> connfd \<noteq> - EINTR then (Inl (System_error (- connfd)), aw)
                         else (Inr (connection_of_endpoint cls (socket_new connfd) peer), aw)))))"

text \<open>
  \<open>sync_accept\<close> calls the system directly and tries again; it throws the negated result of the call,
  which is 1 for every error.
\<close>

partial_function (option) sync_accept_loop ::
  "('w, 'st) os \<Rightarrow> int \<Rightarrow> acceptor \<Rightarrow> 'w \<Rightarrow> ((int \<times> endpoint) \<times> (acceptor \<times> 'w)) res option" where
  "sync_accept_loop S lfd ac w =
     (case os_accept S lfd w of
        (connfd, peer, w) \<Rightarrow>
          if 0 \<le> connfd then Some (Inr ((connfd, peer), (ac, w)))
          else if os_errno S w = ENFILE
          then (case ac_backupfd ac of
                  None \<Rightarrow> Some (Inl Undefined_object)
                | Some spare \<Rightarrow>
                    (case os_accept S lfd (snd (os_close S spare w)) of
                       (connfd, peer, w) \<Rightarrow>
                         if 0 < connfd
                         then (case os_openat S AT_FDCWD ''/dev/null'' 0 O_CLOEXEC (snd (os_close S connfd w)) of
                                 (b, w) \<Rightarrow> sync_accept_loop S lfd (ac\<lparr>ac_backupfd := Some b\<rparr>) w)
                         else sync_accept_loop S lfd ac w))
          else if os_errno S w \<noteq> EINTR then Some (Inl (System_error (- connfd)))
          else sync_accept_loop S lfd ac w)"

definition sync_accept ::
  "('w, 'st) os \<Rightarrow> addr_class \<Rightarrow> acceptor \<Rightarrow> 'w \<Rightarrow> (connection_base \<times> (acceptor \<times> 'w)) res option" where
  "sync_accept S cls ac w =
     (case ac_listenfd ac of
        None \<Rightarrow> Some (Inl Undefined_object)
      | Some lfd \<Rightarrow>
          ores_bind (sync_accept_loop S lfd ac w) (\<lambda>((connfd, peer), aw).
            Some (Inr (connection_of_endpoints cls (socket_new connfd) (ac_local_addr ac) peer, aw))))"

definition acceptor_stop :: "acceptor \<Rightarrow> acceptor" where
  "acceptor_stop ac = ac"

definition acceptor_delete :: "('w, 'st) os \<Rightarrow> acceptor \<Rightarrow> 'w \<Rightarrow> unit res \<times> 'w" where
  "acceptor_delete S ac w = sys_bind (get_fd (ac_listenfd ac) w) (\<lambda>fd w. (Inr (), snd (os_close S fd w)))"

section \<open>Time limits\<close>

text \<open>
  The queue gives out another entry each time until it is submitted. With room for two entries the
  limit follows the request it is linked to; when the queue is full after the request,
  \<open>io_uring_get_sqe_safe\<close> submits the request alone and the limit is linked to nothing.
\<close>

definition distinct_entries :: "'r liburing \<Rightarrow> bool" where
  "distinct_entries L \<longleftrightarrow>
     (\<forall>r i r1 j r2. lib_get_sqe L r = Some (i, r1) \<and> lib_get_sqe L r1 = Some (j, r2) \<longrightarrow> i \<noteq> j)"

lemma with_link_timeout_linked:
  assumes L: "liburing_ok L" and d: "distinct_entries L" and g: "lib_get_sqe L (uc_ring c) = Some (i, r1)"
    "lib_get_sqe L r1 = Some (j, r2)" and ts: "make_timespec tick_ns dur = Inr ts"
  shows "\<exists>a c'. with_link_timeout L (uring_request L call IOSQE_IO_LINK) k tick_ns dur tk h c = Some (Inr ((ts, a), c')) \<and>
    a = \<lparr>aw_sqe = i, aw_token_ptr = tk\<rparr> \<and> i \<noteq> j \<and> uc_ring c' = r2 \<and>
    sqe_call (uc_sqes c' i) = call \<and> sqe_flags (uc_sqes c' i) = IOSQE_IO_LINK \<and> sqe_user_data (uc_sqes c' i) = tk \<and>
    sqe_call (uc_sqes c' j) = Prep_link_timeout k 0 \<and> sqe_flags (uc_sqes c' j) = 0 \<and> sqe_user_data (uc_sqes c' j) = 0 \<and>
    uc_tokens c' = (uc_tokens c)(tk \<mapsto> \<lparr>tk_continuation = h, tk_result = 0, tk_flags = 0\<rparr>)"
proof -
  have "i \<noteq> j" using d g unfolding distinct_entries_def by blast
  then show ?thesis
    using g ts
    by (simp add: with_link_timeout_def uring_request_def io_uring_get_sqe_safe_def make_awaitable_def
        io_awaitable_new_def link_timeout_def co_await_io_def co_await_op_def io_await_suspend_def
        liburing_okD [OF L] sqe_update_def)
qed

text \<open>
  When the request takes the last free entry, getting one for the timeout submits the request alone
  first; the token is written into its entry afterwards, which by then may be the timeout's.
\<close>

lemma with_link_timeout_full:
  assumes L: "liburing_ok L" and g: "lib_get_sqe L (uc_ring c) = Some (i, r1)" "lib_get_sqe L r1 = None"
    and s: "lib_get_sqe L (lib_sqring_wait L (lib_submit L (lib_cq_advance L (cqe_count c) r1))) = Some (j, r2)"
    and ts: "make_timespec tick_ns dur = Inr ts"
  shows "\<exists>a c'. with_link_timeout L (uring_request L call IOSQE_IO_LINK) k tick_ns dur tk h c = Some (Inr ((ts, a), c')) \<and>
    a = \<lparr>aw_sqe = i, aw_token_ptr = tk\<rparr> \<and> uc_ring c' = r2 \<and> cqe_count c' = 0 \<and>
    sqe_call (uc_sqes c' j) = Prep_link_timeout k 0 \<and> sqe_user_data (uc_sqes c' i) = tk"
  using g s ts
  by (simp add: with_link_timeout_def uring_request_def io_uring_get_sqe_safe_def make_awaitable_def
      io_awaitable_new_def link_timeout_def co_await_io_def co_await_op_def io_await_suspend_def
      liburing_okD [OF L] sqe_update_def get_sqe_spin.simps uc_cq_advance_def Let_def)

lemma mem_ring_distinct: "distinct_entries (mem_ring m)"
  by (auto simp: distinct_entries_def mem_ring_def split: prod.splits if_splits)

section \<open>Who owns a descriptor\<close>

text \<open>
  The descriptors opened so far and those closed so far, or about to be closed by a coroutine that was
  spawned for it; each call of the system changes them as its manual page says.
\<close>

definition opens :: "('w \<Rightarrow> int list) \<Rightarrow> ('w \<Rightarrow> int list) \<Rightarrow> int \<Rightarrow> 'w \<Rightarrow> 'w \<Rightarrow> bool" where
  "opens opened closed fd w w' \<longleftrightarrow>
     opened w' = opened w @ (if 0 \<le> fd then [fd] else []) \<and> closed w' = closed w"

definition closes :: "('w \<Rightarrow> int list) \<Rightarrow> ('w \<Rightarrow> int list) \<Rightarrow> int \<Rightarrow> 'w \<Rightarrow> 'w \<Rightarrow> bool" where
  "closes opened closed fd w w' \<longleftrightarrow> opened w' = opened w \<and> closed w' = closed w @ [fd]"

definition os_accounts :: "('w \<Rightarrow> int list) \<Rightarrow> ('w \<Rightarrow> int list) \<Rightarrow> ('w, 'st) os \<Rightarrow> bool" where
  "os_accounts opened closed S \<longleftrightarrow>
     (\<forall>t w fd w'. os_socket S t w = (fd, w') \<longrightarrow> opens opened closed fd w w') \<and>
     (\<forall>l w fd ep w'. aw_accept S l w = (fd, ep, w') \<longrightarrow> opens opened closed fd w w') \<and>
     (\<forall>d p f m w fd w'. aw_openat S d p f m w = (fd, w') \<longrightarrow> opens opened closed fd w w') \<and>
     (\<forall>fd w. closes opened closed fd w (snd (os_close S fd w))) \<and>
     (\<forall>fd w. closes opened closed fd w (snd (aw_close S fd w))) \<and>
     (\<forall>fd w. closes opened closed fd w (os_spawn_close S fd w)) \<and>
     (\<forall>fd ep w. opens opened closed (- 1) w (snd (os_bind S fd ep w))) \<and>
     (\<forall>fd ep k w. opens opened closed (- 1) w (snd (aw_connect S fd ep k w)))"

lemma os_accountsD:
  assumes "os_accounts opened closed S"
  shows "os_socket S t w = (fd, w') \<Longrightarrow> opens opened closed fd w w'"
    and "aw_accept S l w = (fd, ep, w') \<Longrightarrow> opens opened closed fd w w'"
    and "aw_openat S d p f m w = (fd, w') \<Longrightarrow> opens opened closed fd w w'"
    and "closes opened closed fd w (snd (os_close S fd w))"
    and "closes opened closed fd w (snd (aw_close S fd w))"
    and "closes opened closed fd w (os_spawn_close S fd w)"
    and "os_bind S fd ep0 w = (ret, w') \<Longrightarrow> opens opened closed (- 1) w w'"
    and "aw_connect S fd ep0 k w = (ret, w') \<Longrightarrow> opens opened closed (- 1) w w'"
  using assms unfolding os_accounts_def by (blast | metis snd_conv)+

text \<open>
  \<open>connect_to\<close> without addresses opens at most one descriptor and, however it ends, has that descriptor
  closed, also when it returns it in a connection.
\<close>

lemma connect_to_accounts:
  assumes acc: "os_accounts opened closed S" and r: "connect_to S Empty_class peer w = Some (r, w')"
  shows "(case r of
      Inr cn \<Rightarrow> opened w' = opened w @ [fd_no cn] \<and> closed w' = closed w @ [fd_no cn]
    | Inl e \<Rightarrow> opened w' = opened w \<and> closed w' = closed w \<or>
        (\<exists>fd. opened w' = opened w @ [fd] \<and> closed w' = closed w @ [fd]))"
proof -
  obtain fd w1 where s: "os_socket S SOCK_STREAM w = (fd, w1)" by fastforce
  note o1 = os_accountsD(1) [OF acc s]
  show ?thesis
  proof (cases "fd < 0")
    case True
    then show ?thesis using r s o1
      by (auto simp: connect_to_def new_socket_safe_def socket_or_throw_def opens_def)
  next
    case False
    obtain ret w2 where c: "aw_connect S fd peer None w1 = (ret, w2)" by fastforce
    note o2 = os_accountsD(8) [OF acc c]
    note cl = os_accountsD(4) [OF acc, of fd w2] os_accountsD(6) [OF acc, of fd w2]
    show ?thesis
      using r s c o1 o2 cl False
      by (auto simp: connect_to_def new_socket_safe_def socket_or_throw_def handle_connect_error_close_def Let_def
          connection_of_fd_def socket_new_def file_descriptor_new_def fd_destroy_def fd_invalid_def
          opens_def closes_def split: if_splits)
  qed
qed

text \<open>
  With a local address the connection owns its descriptor. A failed connect closes the descriptor, a
  failed bind leaves it open.
\<close>

lemma connect_to_from_accounts:
  assumes acc: "os_accounts opened closed S" and ts: "make_timespec tick_ns dur = Inr k"
    and s: "os_socket S SOCK_STREAM w = (fd, w1)" and bd: "os_bind S fd l w1 = (b, w2)"
    and r: "connect_to_from S cls l peer tick_ns dur w = (r, w')"
  shows "(case r of
      Inr cn \<Rightarrow> fd_no cn = fd \<and> opened w' = opened w @ [fd] \<and> closed w' = closed w
    | Inl e \<Rightarrow> opened w' = opened w @ (if 0 \<le> fd then [fd] else []) \<and>
        closed w' = closed w @ (if 0 \<le> fd \<and> 0 \<le> b then [fd] else []))"
proof -
  obtain ret w3 where c: "aw_connect S fd peer (Some k) w2 = (ret, w3)" by fastforce
  note os = os_accountsD(1) [OF acc s] os_accountsD(7) [OF acc bd] os_accountsD(8) [OF acc c]
    os_accountsD(4) [OF acc, of fd w3]
  show ?thesis
    using r s bd c ts os
    by (auto simp: connect_to_from_def new_socket_safe_def socket_or_throw_def safe_bind_socket_def
        handle_connect_error_close_def Let_def connection_of_endpoints_def fd_move_def socket_new_def
        file_descriptor_new_def opens_def closes_def split: if_splits)
qed

text \<open>
  \<open>accept\<close> hands over an open descriptor, except after \<open>ENFILE\<close>: the connection it returns then has been
  closed, and only the spare descriptor is open again.
\<close>

lemma accept_accounts:
  assumes acc: "os_accounts opened closed S" and fd: "ac_listenfd ac = Some lfd" "ac_backupfd ac = Some spare"
    and first: "aw_accept S lfd w = (r1, peer1, w1)"
    and r: "accept S Peer_class (ac, w) = (r, (ac', w'))"
  shows "(0 \<le> r1 \<longrightarrow> r = Inr (Some \<lparr>fd_no = r1, cn_addr = Peer_endpoint peer1\<rparr>) \<and> ac' = ac \<and>
      opened w' = opened w @ [r1] \<and> closed w' = closed w) \<and>
    (r1 < 0 \<and> r1 \<noteq> - ENFILE \<and> r1 \<noteq> - EINTR \<longrightarrow> r = Inl (System_error (- r1)) \<and> ac' = ac \<and>
      opened w' = opened w \<and> closed w' = closed w) \<and>
    (r1 = - EINTR \<longrightarrow> (\<exists>cn. r = Inr (Some cn) \<and> fd_invalid cn)) \<and>
    (r1 = - ENFILE \<longrightarrow>
      (\<forall>cn. r = Inr (Some cn) \<and> 0 < fd_no cn \<longrightarrow> closed w' = closed w @ [spare, fd_no cn]))"
proof -
  note o1 = os_accountsD(2) [OF acc first]
  obtain r2 peer2 w2 where second: "aw_accept S lfd (snd (aw_close S spare w1)) = (r2, peer2, w2)"
    by (metis prod_cases3)
  obtain b w3 where op: "aw_openat S AT_FDCWD ''/dev/null'' 0 O_CLOEXEC (snd (aw_close S r2 w2)) = (b, w3)"
    by fastforce
  note o2 = os_accountsD(5) [OF acc, of spare w1] os_accountsD(2) [OF acc second]
    os_accountsD(5) [OF acc, of r2 w2] os_accountsD(3) [OF acc op]
  note defs = accept_def connection_of_endpoint_def fd_move_def socket_new_def file_descriptor_new_def
  consider "0 \<le> r1" | "r1 = - ENFILE" | "r1 < 0" "r1 \<noteq> - ENFILE" by linarith
  then show ?thesis
  proof cases
    case 1
    then show ?thesis using r fd first o1 by (simp add: defs ENFILE_def EINTR_def opens_def split: if_splits)
  next
    case 2
    then show ?thesis using r fd first second op o1 o2
      by (auto simp: defs accept_with_spare_def opens_def closes_def ENFILE_def EINTR_def split: if_splits)
  next
    case 3
    then show ?thesis using r fd first o1
      by (auto simp: defs opens_def fd_invalid_def ENFILE_def EINTR_def split: if_splits)
  qed
qed

text \<open>A system that opens descriptors 5 and 6 and records what is opened and closed.\<close>

definition account_os :: "(int list \<times> int list, unit) os" where
  "account_os =
     \<lparr>os_errno = (\<lambda>w. 0), os_socket = (\<lambda>t w. (5, (fst w @ [5], snd w))), os_bind = (\<lambda>fd ep w. (0, w)),
      os_listen = (\<lambda>fd k w. (0, w)), os_accept = (\<lambda>fd w. (6, endpoint_of_port Little 0, (fst w @ [6], snd w))),
      os_close = (\<lambda>fd w. (0, (fst w, snd w @ [fd]))), os_openat = (\<lambda>d p f k w. (- 1, w)),
      os_fcntl = (\<lambda>fd a b w. (0, w)), os_setsockopt = (\<lambda>fd a b v w. (0, w)), os_getsockopt = (\<lambda>fd a b w. (0, 0, w)),
      os_getsockname = (\<lambda>fd w. (0, endpoint_of_port Little 0, w)),
      os_getpeername = (\<lambda>fd w. (0, endpoint_of_port Little 0, w)),
      os_spawn_close = (\<lambda>fd w. (fst w, snd w @ [fd])), aw_connect = (\<lambda>fd ep k w. (0, w)),
      aw_accept = (\<lambda>fd w. (6, endpoint_of_port Little 0, (fst w @ [6], snd w))),
      aw_close = (\<lambda>fd w. (0, (fst w, snd w @ [fd]))), aw_openat = (\<lambda>d p f k w. (- 1, w)),
      aw_statx = (\<lambda>fd p f k w. (0, (), w))\<rparr>"

lemma account_os_accounts: "os_accounts fst snd account_os"
  by (auto simp: os_accounts_def opens_def closes_def account_os_def)

end
