(* ===== verification/Buffer_Pool.thy ===== *)
theory Buffer_Pool
  imports Sockets
begin

text \<open>
  Buffers that the kernel selects (\<^verbatim>\<open>include/coring/buffer_pool.hpp\<close>). A pool keeps groups of blocks
  by their 16-bit name; the memory of a block belongs to the caller, and a block here is its address,
  its contents with the indices of a \<open>fixed_buffer\<close>, and the ids the kernel knows it by. A resource is
  the group and the position of the block it refers to.

  The requests that are awaited are arguments: \<open>provide\<close> gives blocks to the kernel, \<open>select\<close> reads into
  one of them and gives the token as the completion filled it, and the bytes that were stored in the
  block; the result and the id of the block are taken from the token by the awaitable.
\<close>

section \<open>Ids, blocks and groups\<close>

text \<open>An id from two characters, as the host loads them; a string of fewer ends with its zero.\<close>

definition buffer_id_of_chars :: "byte_order \<Rightarrow> char \<Rightarrow> char \<Rightarrow> u16" where
  "buffer_id_of_chars order a b = load_word order [a, b]"

record selected_buffer =
  sb_data :: addr
  sb_buf :: buffer_base
  sb_group_id :: u16
  sb_buf_id :: u16

definition selected_buffer_new :: "addr \<Rightarrow> char list \<Rightarrow> size_t \<Rightarrow> u16 \<Rightarrow> u16 \<Rightarrow> selected_buffer" where
  "selected_buffer_new s mem len group_id buf_id =
     \<lparr>sb_data = s, sb_buf = fixed_buffer mem len, sb_group_id = group_id, sb_buf_id = buf_id\<rparr>"

record provided_buffer_group =
  bg_group_id :: u16
  bg_start_buf_id :: u16
  bg_nbytes_per_block :: int
  bg_blocks :: "selected_buffer list"

type_synonym buffer_pool = "u16 \<rightharpoonup> provided_buffer_group"

definition group_new :: provided_buffer_group where
  "group_new = \<lparr>bg_group_id = 0, bg_start_buf_id = 0, bg_nbytes_per_block = 0, bg_blocks = []\<rparr>"

definition get_or_create_group_by_id :: "u16 \<Rightarrow> buffer_pool \<Rightarrow> provided_buffer_group \<times> buffer_pool" where
  "get_or_create_group_by_id gid m =
     (case m gid of Some g \<Rightarrow> (g, m) | None \<Rightarrow> (group_new, m(gid \<mapsto> group_new)))"

definition find_group :: "u16 \<Rightarrow> buffer_pool \<Rightarrow> provided_buffer_group res" where
  "find_group gid m =
     (case m gid of Some g \<Rightarrow> Inr g | None \<Rightarrow> Inl (Runtime_error ''wrong group id for buffer selection''))"

section \<open>Providing blocks\<close>

text \<open>
  The loop over the blocks: \<open>memory\<close> gives the contents of the caller's array from an address on, and the
  id \<open>i\<close> is a 16-bit number that wraps around.
\<close>

partial_function (option) provide_loop ::
  "(addr \<Rightarrow> char list) \<Rightarrow> u16 \<Rightarrow> u16 \<Rightarrow> addr \<Rightarrow> addr \<Rightarrow> u16 \<Rightarrow> selected_buffer list \<Rightarrow> selected_buffer list option" where
  "provide_loop memory nbytes g_name fin cur i blocks =
     (if cur < fin
      then provide_loop memory nbytes g_name fin (cur + unat nbytes) (i + 1)
             (blocks @ [selected_buffer_new cur (memory cur) (ucast nbytes) g_name i])
      else Some blocks)"

definition provide_group_contiguous ::
  "(addr \<Rightarrow> int \<Rightarrow> int \<Rightarrow> u16 \<Rightarrow> u16 \<Rightarrow> 'w \<Rightarrow> int \<times> 'w) \<Rightarrow> (addr \<Rightarrow> char list) \<Rightarrow> addr \<Rightarrow> u16 \<Rightarrow> int \<Rightarrow> u16 \<Rightarrow>
   buffer_pool \<Rightarrow> 'w \<Rightarrow> (buffer_pool \<times> 'w) res option" where
  "provide_group_contiguous provide memory base nbytes how_many g_name m w =
     (case provide base (uint nbytes) how_many g_name 0 w of
        (ret, w) \<Rightarrow>
          if ret < 0 then Some (Inl (System_error (- ret)))
          else (case get_or_create_group_by_id g_name m of
                  (g, m) \<Rightarrow>
                    (case int32_res (uint nbytes * how_many) of
                       Inl e \<Rightarrow> Some (Inl e)
                     | Inr total_len \<Rightarrow>
                         map_option (\<lambda>blocks.
                           Inr (m(g_name \<mapsto> g\<lparr>bg_group_id := g_name, bg_nbytes_per_block := uint nbytes,
                                                bg_blocks := blocks\<rparr>), w))
                         (provide_loop memory nbytes g_name (nat (int base + total_len)) base 0 (bg_blocks g)))))"

section \<open>Reading\<close>

definition block_update ::
  "u16 \<Rightarrow> nat \<Rightarrow> (selected_buffer \<Rightarrow> selected_buffer) \<Rightarrow> buffer_pool \<Rightarrow> buffer_pool" where
  "block_update gid i f m =
     (case m gid of
        None \<Rightarrow> m
      | Some g \<Rightarrow> m(gid \<mapsto> g\<lparr>bg_blocks := (bg_blocks g)[i := f (bg_blocks g ! i)]\<rparr>))"

text \<open>
  \<open>read\<close>, with the bytes that the kernel stored in the block it selected. A read that fails throws, and
  what the request changed stays changed.
\<close>

type_synonym 'w select_fn = "int \<Rightarrow> u16 \<Rightarrow> int \<Rightarrow> int \<Rightarrow> 'w \<Rightarrow> io_token \<times> char list \<times> 'w"

definition pool_read_run ::
  "'w select_fn \<Rightarrow> int \<Rightarrow> u16 \<Rightarrow> int \<Rightarrow> buffer_pool \<Rightarrow> 'w \<Rightarrow> (u16 \<times> nat) res \<times> buffer_pool \<times> 'w" where
  "pool_read_run select fd g_name offset m w =
     (case find_group g_name m of
        Inl e \<Rightarrow> (Inl e, m, w)
      | Inr g \<Rightarrow>
          (case select fd g_name (bg_nbytes_per_block g) offset w of
             (token, bytes, w) \<Rightarrow>
               (case io_res_flag_await_resume token of
                  (r, flag) \<Rightarrow>
                    if r \<le> 0 then (Inl (System_error (- r)), m, w)
                    else if int (length (bg_blocks g)) \<le> flag then (Inl Out_of_bounds, m, w)
                    else (case mem_write (b_container (sb_buf (bg_blocks g ! nat flag))) 0 bytes of
                            Inl e \<Rightarrow> (Inl e, m, w)
                          | Inr mem \<Rightarrow>
                              (Inr (g_name, nat flag),
                               block_update g_name (nat flag)
                                 (\<lambda>b. b\<lparr>sb_buf := has_written (of_int r) (sb_buf b\<lparr>b_container := mem\<rparr>)\<rparr>) m, w)))))"

definition pool_read ::
  "'w select_fn \<Rightarrow> int \<Rightarrow> u16 \<Rightarrow> int \<Rightarrow> buffer_pool \<Rightarrow> 'w \<Rightarrow> ((u16 \<times> nat) \<times> buffer_pool \<times> 'w) res" where
  "pool_read select fd g_name offset m w =
     (case pool_read_run select fd g_name offset m w of
        (Inl e, m, w) \<Rightarrow> Inl e
      | (Inr r, m, w) \<Rightarrow> Inr (r, m, w))"

section \<open>Giving blocks back\<close>

text \<open>
  The move constructor and the destructor of a resource, \<open>return_back\<close> and the request of
  \<open>returned_back\<close>, which awaits it. A resource that was moved from refers to nothing.
\<close>

type_synonym buffer_resource = "(u16 \<times> nat) option"

definition resource_move :: "buffer_resource \<Rightarrow> buffer_resource \<times> buffer_resource" where
  "resource_move rhs = (rhs, None)"

definition get_block :: "u16 \<times> nat \<Rightarrow> buffer_pool \<Rightarrow> selected_buffer res" where
  "get_block r m =
     (case m (fst r) of
        None \<Rightarrow> Inl Undefined_object
      | Some g \<Rightarrow> if snd r < length (bg_blocks g) then Inr (bg_blocks g ! snd r) else Inl Undefined_object)"

definition provide_block :: "'r liburing \<Rightarrow> selected_buffer \<Rightarrow> ('r, 'n, io_awaitable) uring_op" where
  "provide_block L b =
     uring_provide_buffers L (sb_data b) (sint (ucast (buf_size (sb_buf b)) :: u32)) 1 (sb_group_id b) (sb_buf_id b) 0"

definition clear_block :: "u16 \<times> nat \<Rightarrow> buffer_pool \<Rightarrow> buffer_pool" where
  "clear_block r m = block_update (fst r) (snd r) (\<lambda>b. b\<lparr>sb_buf := clear (sb_buf b)\<rparr>) m"

definition resource_delete ::
  "'r liburing \<Rightarrow> buffer_resource \<Rightarrow> buffer_pool \<Rightarrow> ('r, 'n, buffer_pool) uring_op" where
  "resource_delete L r m c =
     (case r of
        None \<Rightarrow> Some (Inr (m, c))
      | Some r \<Rightarrow>
          ores_bind (Some (get_block r m)) (\<lambda>b.
          ores_bind (provide_block L b c) (\<lambda>(_, c). Some (Inr (clear_block r m, c)))))"

definition return_back ::
  "'r liburing \<Rightarrow> u16 \<times> nat \<Rightarrow> buffer_pool \<Rightarrow> ('r, 'n, buffer_pool) uring_op" where
  "return_back L r m c =
     (let m = clear_block r m
      in ores_bind (Some (get_block r m)) (\<lambda>b. ores_bind (provide_block L b c) (\<lambda>(_, c). Some (Inr (m, c)))))"

definition returned_back ::
  "'r liburing \<Rightarrow> addr \<Rightarrow> handle \<Rightarrow> u16 \<times> nat \<Rightarrow> buffer_pool \<Rightarrow> ('r, 'n, io_awaitable \<times> buffer_pool) uring_op" where
  "returned_back L tk h r m c =
     (let m = clear_block r m
      in ores_bind (Some (get_block r m)) (\<lambda>b.
         ores_bind (co_await_io (provide_block L b) tk h c) (\<lambda>(a, c). Some (Inr ((a, m), c)))))"

section \<open>What is in a group\<close>

text \<open>
  The blocks of a group that was provided once: the block at a position is known to the kernel by that
  position.
\<close>

definition block_at :: "(addr \<Rightarrow> char list) \<Rightarrow> addr \<Rightarrow> u16 \<Rightarrow> u16 \<Rightarrow> nat \<Rightarrow> selected_buffer" where
  "block_at memory base nbytes gid i =
     selected_buffer_new (base + i * unat nbytes) (memory (base + i * unat nbytes)) (ucast nbytes) gid (of_nat i)"

lemma provide_loop_blocks:
  assumes "0 < nbytes"
  shows "provide_loop memory nbytes gid (base + n * unat nbytes) (base + j * unat nbytes) (of_nat j) bs =
    Some (bs @ map (block_at memory base nbytes gid) [j..<n])"
proof (induction "n - j" arbitrary: j bs)
  case 0
  then show ?case by (subst provide_loop.simps) simp
next
  case (Suc d)
  have pos: "0 < unat nbytes" using assms by (simp add: word_less_nat_alt)
  have IH: "provide_loop memory nbytes gid (base + n * unat nbytes) (base + Suc j * unat nbytes) (of_nat (Suc j)) bs' =
      Some (bs' @ map (block_at memory base nbytes gid) [Suc j..<n])" for bs'
    using Suc.hyps(2) by (intro Suc.hyps(1)) simp
  have "j < n" using Suc.hyps(2) by simp
  then have upt: "[j..<n] = j # [Suc j..<n]" by (rule upt_conv_Cons)
  have "provide_loop memory nbytes gid (base + n * unat nbytes) (base + j * unat nbytes) (of_nat j) bs =
      provide_loop memory nbytes gid (base + n * unat nbytes) (base + Suc j * unat nbytes) (of_nat (Suc j))
        (bs @ [block_at memory base nbytes gid j])"
    using \<open>j < n\<close> pos by (subst provide_loop.simps) (simp add: block_at_def algebra_simps)
  then show ?case using IH [of "bs @ [block_at memory base nbytes gid j]"] by (simp add: upt)
qed

definition block_free :: "selected_buffer \<Rightarrow> bool" where
  "block_free b \<longleftrightarrow> buf_inv (sb_buf b) \<and> b_index_read (sb_buf b) = 0 \<and> b_index_write (sb_buf b) = 0"

lemma block_at_free:
  assumes "unat nbytes \<le> length (memory (base + i * unat nbytes))"
  shows "block_free (block_at memory base nbytes gid i)"
    "sb_group_id (block_at memory base nbytes gid i) = gid"
    "sb_buf_id (block_at memory base nbytes gid i) = of_nat i"
    "length (b_container (sb_buf (block_at memory base nbytes gid i))) = unat nbytes"
proof -
  have small: "unat nbytes < 65536" using unsigned_less [of nbytes, where 'a = nat] by simp
  moreover from small have "unat (ucast nbytes :: size_t) = unat nbytes"
    by (simp only: unsigned_ucast_eq) (simp add: take_bit_nat_eq_self)
  ultimately show "block_free (block_at memory base nbytes gid i)"
    "sb_group_id (block_at memory base nbytes gid i) = gid"
    "sb_buf_id (block_at memory base nbytes gid i) = of_nat i"
    "length (b_container (sb_buf (block_at memory base nbytes gid i))) = unat nbytes"
    using assms
    by (simp_all add: block_free_def block_at_def selected_buffer_new_def fixed_buffer_def buffer_base_new_def
        buf_inv_def vector_max_size_def)
qed

text \<open>
  What a selecting read promises: on success it stored as many bytes as it returns at the start of a
  block of the group that it was given, and no more than a block holds.
\<close>

definition selects ::
  "provided_buffer_group \<Rightarrow> int \<Rightarrow> nat \<Rightarrow> char list \<Rightarrow> bool" where
  "selects g r flag bytes \<longleftrightarrow>
     r \<le> 2147483647 \<and> flag < length (bg_blocks g) \<and> block_free (bg_blocks g ! flag) \<and>
     length bytes = nat r \<and> length bytes \<le> length (b_container (sb_buf (bg_blocks g ! flag)))"

text \<open>The block with the bytes stored at its start.\<close>

definition stored :: "char list \<Rightarrow> int \<Rightarrow> selected_buffer \<Rightarrow> selected_buffer" where
  "stored bytes r b =
     b\<lparr>sb_buf := has_written (of_int r)
        (sb_buf b\<lparr>b_container := bytes @ drop (length bytes) (b_container (sb_buf b))\<rparr>)\<rparr>"

lemma stored_bytes:
  assumes "0 < r" and "block_free b" and "length bytes = nat r" and "length bytes \<le> length (b_container (sb_buf b))"
    and "r \<le> 2147483647"
  shows "buf_inv (sb_buf (stored bytes r b))" "buf_bytes (sb_buf (stored bytes r b)) = bytes"
    "length (b_container (sb_buf (stored bytes r b))) = length (b_container (sb_buf b))"
proof -
  have "unat (of_int r :: u64) = length bytes" using assms by (simp add: unat_of_int_u64)
  then show "buf_inv (sb_buf (stored bytes r b))" "buf_bytes (sb_buf (stored bytes r b)) = bytes"
    "length (b_container (sb_buf (stored bytes r b))) = length (b_container (sb_buf b))"
    using assms by (simp_all add: stored_def block_free_def buf_inv_def buf_bytes_def has_written_def)
qed

lemma pool_read_exact:
  assumes g: "m gid = Some g" and sel: "select fd gid (bg_nbytes_per_block g) offset w = (token, bytes, w')"
    and tk: "io_res_flag_await_resume token = (r, int flag)"
    and r: "0 < r" and ok: "selects g r flag bytes"
  shows "pool_read_run select fd gid offset m w = (Inr (gid, flag), block_update gid flag (stored bytes r) m, w')"
    and "pool_read select fd gid offset m w = Inr ((gid, flag), block_update gid flag (stored bytes r) m, w')"
proof -
  show "pool_read_run select fd gid offset m w = (Inr (gid, flag), block_update gid flag (stored bytes r) m, w')"
    using assms
    by (simp add: pool_read_run_def find_group_def mem_write_def selects_def block_update_def stored_def)
  then show "pool_read select fd gid offset m w = Inr ((gid, flag), block_update gid flag (stored bytes r) m, w')"
    by (simp add: pool_read_def)
qed

lemma get_block_update:
  assumes "m gid = Some g" and "i < length (bg_blocks g)"
  shows "get_block (gid, i) (block_update gid i f m) = Inr (f (bg_blocks g ! i))"
    and "q \<noteq> (gid, i) \<Longrightarrow> get_block q (block_update gid i f m) = get_block q m"
  using assms by (cases q; auto simp: get_block_def block_update_def nth_list_update)+

lemma pool_read_bytes:
  assumes g: "m gid = Some g" and sel: "select fd gid (bg_nbytes_per_block g) offset w = (token, bytes, w')"
    and tk: "io_res_flag_await_resume token = (r, int flag)"
    and r: "0 < r" and ok: "selects g r flag bytes"
  shows "\<exists>m' b'. pool_read select fd gid offset m w = Inr ((gid, flag), m', w') \<and>
    get_block (gid, flag) m' = Inr b' \<and> buf_inv (sb_buf b') \<and> buf_bytes (sb_buf b') = bytes \<and>
    sb_buf_id b' = sb_buf_id (bg_blocks g ! flag) \<and> sb_group_id b' = sb_group_id (bg_blocks g ! flag) \<and>
    (\<forall>q. q \<noteq> (gid, flag) \<longrightarrow> get_block q m' = get_block q m) \<and>
    length (b_container (sb_buf b')) = length (b_container (sb_buf (bg_blocks g ! flag)))"
proof -
  have f: "flag < length (bg_blocks g)" using ok by (simp add: selects_def)
  have "buf_inv (sb_buf (stored bytes r (bg_blocks g ! flag)))"
    "buf_bytes (sb_buf (stored bytes r (bg_blocks g ! flag))) = bytes"
    "length (b_container (sb_buf (stored bytes r (bg_blocks g ! flag)))) = length (b_container (sb_buf (bg_blocks g ! flag)))"
    using ok stored_bytes [OF r, of "bg_blocks g ! flag" bytes] by (simp_all add: selects_def)
  moreover have "sb_buf_id (stored bytes r b) = sb_buf_id b" "sb_group_id (stored bytes r b) = sb_group_id b" for b
    by (simp_all add: stored_def)
  ultimately show ?thesis
    using pool_read_exact(2) [of m gid g select fd offset w token bytes w' r flag, OF assms] get_block_update(1) [of m gid g flag "stored bytes r", OF g f]
      get_block_update(2) [of m gid g flag _ "stored bytes r", OF g f] by simp
qed

text \<open>Releasing a resource gives the block back to the kernel under its own id and leaves it free.\<close>

lemma resource_delete_returns:
  assumes L: "liburing_ok L" "room_after_submit L" and b: "get_block (gid, flag) m = Inr b"
    and inv: "buf_inv (sb_buf b)" and small: "length (b_container (sb_buf b)) \<le> 2147483647"
  shows "\<exists>i m' c'. resource_delete L (Some (gid, flag)) m c = Some (Inr (m', c')) \<and>
    sqe_call (uc_sqes c' i) = Prep_provide_buffers (sb_data b) (int (length (b_container (sb_buf b)))) 1
      (uint (sb_group_id b)) (uint (sb_buf_id b)) \<and> sqe_user_data (uc_sqes c' i) = 0 \<and>
    (\<exists>b'. get_block (gid, flag) m' = Inr b' \<and> block_free b' \<and> sb_buf_id b' = sb_buf_id b)"
proof -
  let ?n = "length (b_container (sb_buf b))"
  have "uint (buf_size (sb_buf b)) = int ?n" using unat_buf_size [OF inv] by (metis of_nat_unat)
  then have "uint (ucast (buf_size (sb_buf b)) :: u32) = int ?n"
    using small by (simp only: unsigned_ucast_eq) (simp add: take_bit_int_eq_self)
  then have "sint (ucast (buf_size (sb_buf b)) :: u32) = int ?n"
    using small by (simp only: sint_u32) simp
  moreover obtain i c' where "uring_request L (Prep_provide_buffers (sb_data b) (int ?n) 1 (uint (sb_group_id b))
      (uint (sb_buf_id b))) 0 c = Some (Inr (\<lparr>aw_sqe = i, aw_token_ptr = 0\<rparr>, c'))"
    "sqe_call (uc_sqes c' i) = Prep_provide_buffers (sb_data b) (int ?n) 1 (uint (sb_group_id b)) (uint (sb_buf_id b))"
    "sqe_user_data (uc_sqes c' i) = 0"
    using uring_request_ok [OF L] by blast
  moreover have "\<exists>b'. get_block (gid, flag) (clear_block (gid, flag) m) = Inr b' \<and> block_free b' \<and> sb_buf_id b' = sb_buf_id b"
    using b inv by (auto simp: get_block_def clear_block_def block_update_def block_free_def clear_def buf_inv_def
        split: option.splits if_splits)
  ultimately show ?thesis
    using b by (simp add: resource_delete_def provide_block_def uring_provide_buffers_def) blast
qed

section \<open>A pool at rest\<close>

text \<open>Every block of the group is free and holds \<open>n\<close> bytes.\<close>

definition pool_ready :: "u16 \<Rightarrow> nat \<Rightarrow> nat \<Rightarrow> buffer_pool \<Rightarrow> bool" where
  "pool_ready gid N n m \<longleftrightarrow>
     (\<exists>g. m gid = Some g \<and> bg_nbytes_per_block g = int n \<and> length (bg_blocks g) = N \<and>
        (\<forall>b \<in> set (bg_blocks g). block_free b \<and> length (b_container (sb_buf b)) = n))"

lemma pool_ready_update:
  assumes "pool_ready gid N n m" and "i < N"
    and "\<And>b. block_free b \<Longrightarrow> length (b_container (sb_buf b)) = n \<Longrightarrow>
      block_free (f b) \<and> length (b_container (sb_buf (f b))) = n"
  shows "pool_ready gid N n (block_update gid i f m)"
proof -
  obtain g where g: "m gid = Some g" "bg_nbytes_per_block g = int n" "length (bg_blocks g) = N"
    "\<forall>b \<in> set (bg_blocks g). block_free b \<and> length (b_container (sb_buf b)) = n"
    using assms(1) by (auto simp: pool_ready_def)
  have "block_free (f (bg_blocks g ! i)) \<and> length (b_container (sb_buf (f (bg_blocks g ! i)))) = n"
    using g assms(2,3) by simp
  then have "\<forall>b \<in> set ((bg_blocks g)[i := f (bg_blocks g ! i)]). block_free b \<and> length (b_container (sb_buf b)) = n"
    using g(4) set_update_subset_insert [of "bg_blocks g" i] by blast
  then show ?thesis using g by (simp add: pool_ready_def block_update_def)
qed

lemma block_update_twice:
  assumes "m gid = Some g" and "i < length (bg_blocks g)"
  shows "block_update gid i h (block_update gid i f m) = block_update gid i (\<lambda>b. h (f b)) m"
  using assms by (simp add: block_update_def fun_eq_iff)

text \<open>Storing into a block and clearing it later leaves the pool at rest.\<close>

lemma clear_stored_ready:
  assumes "pool_ready gid N n m" and "flag < N" and "0 < r" and "length bytes = nat r" and "length bytes \<le> n"
    and "r \<le> 2147483647"
  shows "pool_ready gid N n (clear_block (gid, flag) (block_update gid flag (stored bytes r) m))"
proof -
  obtain g where g: "m gid = Some g" "length (bg_blocks g) = N"
    using assms(1) by (auto simp: pool_ready_def)
  have "pool_ready gid N n (block_update gid flag
      (\<lambda>b. stored bytes r b\<lparr>sb_buf := clear (sb_buf (stored bytes r b))\<rparr>) m)"
  proof (rule pool_ready_update [OF assms(1,2)])
    fix b
    assume "block_free b" "length (b_container (sb_buf b)) = n"
    then show "block_free (stored bytes r b\<lparr>sb_buf := clear (sb_buf (stored bytes r b))\<rparr>) \<and>
        length (b_container (sb_buf (stored bytes r b\<lparr>sb_buf := clear (sb_buf (stored bytes r b))\<rparr>))) = n"
      using stored_bytes [OF assms(3), of b bytes] assms(4-6) clear_inv
      by (simp add: block_free_def) (simp add: clear_def)
  qed
  then show ?thesis using g assms(2) by (simp add: clear_block_def block_update_twice)
qed

end
