(* ===== verification/Http_Server.thy ===== *)
theory Http_Server
  imports Http Buffer_Pool
begin

text \<open>
  The coroutines of the HTTP server (\<^verbatim>\<open>examples/http_server.cpp\<close>): the header, the file and the loop of a
  connection. They use the connection through \<open>write_all\<close> and \<open>read_some\<close>, files through \<open>openat\<close> and
  \<open>get_statx\<close>, and the buffer pool; the system behind all of these is the state \<open>'w\<close>. An exception that
  leaves a coroutine ends it with \<open>Inl\<close>.
\<close>

section \<open>Exceptions\<close>

text \<open>The faults that are C++ exceptions, which \<open>catch (std::exception &)\<close> catches.\<close>

fun is_exception :: "fault \<Rightarrow> bool" where
  "is_exception (Runtime_error s) = True"
| "is_exception (System_error n) = True"
| "is_exception Eof_error = True"
| "is_exception Broken_promise = True"
| "is_exception _ = False"

section \<open>The system\<close>

record statx =
  stx_mode :: u16
  stx_size :: u64

definition S_ISDIR :: "u16 \<Rightarrow> bool" where
  "S_ISDIR mode \<longleftrightarrow> and mode 61440 = 16384"

definition STATX_BASIC_STATS :: nat where
  "STATX_BASIC_STATS = 2047"

text \<open>\<open>sv_select\<close> and \<open>sv_provide\<close> are the requests of the buffer pool.\<close>

record 'w server =
  sv_conn :: "('w, unit) stream_connection"
  sv_os :: "('w, statx) os"
  sv_select :: "'w select_fn"
  sv_provide :: "selected_buffer \<Rightarrow> 'w \<Rightarrow> 'w"
  sv_gid :: u16

definition BUFFER_BLOCK_SIZE :: nat where
  "BUFFER_BLOCK_SIZE = 2048"

section \<open>Sending\<close>

definition send_header :: "'w server \<Rightarrow> http_response \<Rightarrow> 'w \<Rightarrow> 'w res option" where
  "send_header sv rs w =
     ores_bind (Some (res_bind (flex_buffer_new 512) (appendToBuffer rs))) (\<lambda>header_buf.
     ores_bind (write_all (sv_conn sv) header_buf w) (\<lambda>(_, w). Some (Inr w)))"

definition send_bad_request :: "'w server \<Rightarrow> http_response \<Rightarrow> 'w \<Rightarrow> 'w res option" where
  "send_bad_request sv rs w = send_header sv (setStatusCode k400BadRequest rs) w"

text \<open>The loop over the file; at the end of its body the resource gives the block back.\<close>

definition send_block ::
  "'w server \<Rightarrow> int \<Rightarrow> int \<Rightarrow> buffer_pool \<Rightarrow> 'w \<Rightarrow> (int \<times> buffer_pool \<times> 'w) res option" where
  "send_block sv fd sent_bytes m w =
     ores_bind (Some (pool_read (sv_select sv) fd (sv_gid sv) sent_bytes m w)) (\<lambda>(r, m, w).
     ores_bind (Some (get_block r m)) (\<lambda>bf.
     let sent_bytes = sent_bytes + sint (readable (sb_buf bf))
     in ores_bind (write_all (sv_conn sv) (sb_buf bf) w) (\<lambda>(b, w).
        Some (Inr (sent_bytes, clear_block r m, sv_provide sv (bf\<lparr>sb_buf := b\<rparr>) w)))))"

partial_function (option) send_file_loop ::
  "'w server \<Rightarrow> int \<Rightarrow> int \<Rightarrow> int \<Rightarrow> buffer_pool \<Rightarrow> 'w \<Rightarrow> (buffer_pool \<times> 'w) res option" where
  "send_file_loop sv fd total_size sent_bytes m w =
     (if sent_bytes < total_size
      then ores_bind (send_block sv fd sent_bytes m w) (\<lambda>(sent_bytes, m, w).
           send_file_loop sv fd total_size sent_bytes m w)
      else Some (Inr (m, w)))"

text \<open>\<open>send_file\<close>. A \<open>bad_file\<close>, which only \<open>openat\<close> and \<open>get_statx\<close> throw, is caught: the status of the response is set,
  and the response is not sent.\<close>

definition file_response :: "statx \<Rightarrow> string \<Rightarrow> http_response \<Rightarrow> (int \<times> http_response) res" where
  "file_response detail path rs =
     (let total_size = (if S_ISDIR (stx_mode detail) then 0 else sint (stx_size detail));
          rs = setStatusCode (if S_ISDIR (stx_mode detail) then k404NotFound else k200Ok) rs
      in if 0 < total_size
         then res_bind (setContentTypeByPath path rs) (\<lambda>rs. Inr (total_size, setContentLength (of_int total_size) rs))
         else Inr (total_size, rs))"

definition send_file ::
  "'w server \<Rightarrow> http_response \<Rightarrow> string \<Rightarrow> buffer_pool \<Rightarrow> 'w \<Rightarrow> (buffer_pool \<times> 'w) res option" where
  "send_file sv rs path m w =
     (if path = ''public/bench''
      then ores_bind (send_header sv (setStatusCode k404NotFound rs) w) (\<lambda>w. Some (Inr (m, w)))
      else (case openat (sv_os sv) True (c_str path) 0 0 AT_FDCWD w of
              (Inl e, w) \<Rightarrow> Some (Inr (m, w))
            | (Inr file, w) \<Rightarrow>
                (case get_statx (sv_os sv) STATX_BASIC_STATS (file, w) of
                   (Inl e, (file, w)) \<Rightarrow> Some (Inr (m, fd_destroy (sv_os sv) file w))
                 | (Inr (Some (Some detail)), (file, w)) \<Rightarrow>
                     ores_bind (Some (file_response detail path rs)) (\<lambda>(total_size, rs).
                     ores_bind (send_header sv rs w) (\<lambda>w.
                       if total_size = 0 then Some (Inr (m, fd_destroy (sv_os sv) file w))
                       else ores_bind (send_file_loop sv (fd_no file) total_size 0 m w) (\<lambda>(m, w).
                            Some (Inr (m, fd_destroy (sv_os sv) file w)))))
                 | (Inr _, _) \<Rightarrow> Some (Inl Undefined_object))))"

section \<open>The loop of a connection\<close>

definition http_round ::
  "'w server \<Rightarrow> http_context \<Rightarrow> buffer_base \<Rightarrow> buffer_pool \<Rightarrow> 'w \<Rightarrow>
   (bool \<times> http_context \<times> buffer_base \<times> buffer_pool \<times> 'w) res option" where
  "http_round sv cx read_buffer m w =
     (let rs = http_response_new False
      in ores_bind (Some (read_some (sv_conn sv) flex_make_room read_buffer w)) (\<lambda>(_, read_buffer, w).
         ores_bind (parseRequest cx read_buffer) (\<lambda>(ok, cx, read_buffer).
           if \<not> ok
           then ores_bind (send_bad_request sv (setCloseConnection True rs) w) (\<lambda>w.
                Some (Inr (True, cx_reset cx, read_buffer, m, w)))
           else if gotAll cx
           then let close = keepalive (cx_request cx)
                in ores_bind (send_file sv (setCloseConnection close rs) (rq_path (cx_request cx)) m w) (\<lambda>(m, w).
                   Some (Inr (close, cx_reset cx, read_buffer, m, w)))
           else Some (Inr (False, cx_reset cx, read_buffer, m, w)))))"

partial_function (option) do_http_loop ::
  "'w server \<Rightarrow> bool \<Rightarrow> http_context \<Rightarrow> buffer_base \<Rightarrow> buffer_pool \<Rightarrow> 'w \<Rightarrow> (buffer_pool \<times> 'w) res option" where
  "do_http_loop sv close cx read_buffer m w =
     (if \<not> close
      then ores_bind (http_round sv cx read_buffer m w) (\<lambda>(close, cx, read_buffer, m, w).
           do_http_loop sv close cx read_buffer m w)
      else Some (Inr (m, w)))"

text \<open>
  The coroutine with its handler. It ends when the connection is to be closed, or by an exception \<open>e\<close> that the
  handler catches, \<open>Inl e\<close>; a fault says nothing of the state that the call left which threw it.
\<close>

definition do_http ::
  "'w server \<Rightarrow> connection_base \<Rightarrow> buffer_pool \<Rightarrow> 'w \<Rightarrow> (fault + buffer_pool \<times> 'w) res option" where
  "do_http sv conn m w =
     (case ores_bind (Some (flex_buffer_new (int BUFFER_BLOCK_SIZE))) (\<lambda>read_buffer.
             do_http_loop sv False http_context_new read_buffer m w) of
        None \<Rightarrow> None
      | Some (Inl e) \<Rightarrow> Some (if is_exception e then Inr (Inl e) else Inl e)
      | Some (Inr (m, w)) \<Rightarrow> Some (Inr (Inr (m, fd_destroy (sv_os sv) conn w))))"

section \<open>What is sent\<close>

lemma write_all_sends:
  assumes "send_ok log (sc_send_some sock)" and "send_progress (sc_send_some sock)" and "buf_inv b"
  shows "\<exists>b' w'. write_all sock b w = Some (Inr (b', w')) \<and> buf_inv b' \<and> buf_bytes b' = [] \<and>
    log w' = log w @ buf_bytes b"
proof -
  have "\<not> (k < length (buf_bytes b) \<and> sc_send_some sock (drop k (buf_bytes b)) w1 = (n, w2) \<and> n \<le> 0)" for k w1 n w2
  proof
    assume *: "k < length (buf_bytes b) \<and> sc_send_some sock (drop k (buf_bytes b)) w1 = (n, w2) \<and> n \<le> 0"
    then have "0 < fst (sc_send_some sock (drop k (buf_bytes b)) w1)"
      using assms(2) unfolding send_progress_def by (metis drop_eq_Nil2 not_le)
    then show False using * by simp
  qed
  then show ?thesis using write_all_loop_complete [OF assms(1,3), of w] unfolding write_all_def by blast
qed

lemma send_header_sends:
  assumes "send_ok log (sc_send_some (sv_conn sv))" and "send_progress (sc_send_some (sv_conn sv))"
    and "length (response_text rs) \<le> vector_max_size"
  shows "\<exists>w'. send_header sv rs w = Some (Inr w') \<and> log w' = log w @ response_text rs"
proof -
  have "(512 :: nat) \<le> vector_max_size" by (simp add: vector_max_size_def)
  from appendToBuffer_text [OF this assms(3)] obtain b where b: "appendToBuffer rs (flex_buffer 512) = Inr b"
    "buf_inv b" "buf_bytes b = response_text rs" by blast
  obtain b' w' where "write_all (sv_conn sv) b w = Some (Inr (b', w'))" "log w' = log w @ buf_bytes b"
    using write_all_sends [OF assms(1,2) b(2)] by blast
  then show ?thesis using b flex_buffer_new_result [of 512] by (simp add: send_header_def)
qed

text \<open>
  What the server relies on of the system to send a file: a selecting read of the descriptor at an
  offset within the contents stores a part of them, of at most \<open>n\<close> bytes, in one of the \<open>N\<close> blocks; and
  the requests other than sends send nothing.
\<close>

definition file_readable :: "('w \<Rightarrow> char list) \<Rightarrow> 'w server \<Rightarrow> int \<Rightarrow> nat \<Rightarrow> nat \<Rightarrow> char list \<Rightarrow> bool" where
  "file_readable log sv fd N n content \<longleftrightarrow>
     (\<forall>off w. off < length content \<longrightarrow>
        (\<exists>k token flag w'. sv_select sv fd (sv_gid sv) (int n) (int off) w =
            (token, take k (drop off content), w') \<and> io_res_flag_await_resume token = (int k, int flag) \<and>
          0 < k \<and> k \<le> n \<and> off + k \<le> length content \<and> flag < N \<and> log w' = log w)) \<and>
     (\<forall>b w. log (sv_provide sv b w) = log w) \<and> (\<forall>fd w. log (os_spawn_close (sv_os sv) fd w) = log w)"

text \<open>A block from the pool and back: what was read into it is sent, and the pool is at rest again.\<close>

lemma pool_block_sent:
  assumes ok: "send_ok log (sc_send_some sock)" "send_progress (sc_send_some sock)"
    and n: "n \<le> 65535" and m: "pool_ready gid N n m"
    and sel: "select fd gid (int n) off w = (token, bs, w1)"
      "io_res_flag_await_resume token = (int (length bs), int flag)"
    and bs: "bs \<noteq> []" "length bs \<le> n" "flag < N"
  shows "\<exists>m1 blk b' w2. pool_read select fd gid off m w = Inr ((gid, flag), m1, w1) \<and>
    get_block (gid, flag) m1 = Inr blk \<and> unat (readable (sb_buf blk)) = length bs \<and>
    write_all sock (sb_buf blk) w1 = Some (Inr (b', w2)) \<and> log w2 = log w1 @ bs \<and>
    pool_ready gid N n (clear_block (gid, flag) m1)"
proof -
  let ?r = "int (length bs)"
  obtain g where g: "m gid = Some g" "bg_nbytes_per_block g = int n" "length (bg_blocks g) = N"
    "\<forall>b \<in> set (bg_blocks g). block_free b \<and> length (b_container (sb_buf b)) = n"
    using m by (auto simp: pool_ready_def)
  let ?b = "bg_blocks g ! flag"
  have free: "block_free ?b" "length (b_container (sb_buf ?b)) = n" using g bs(3) by simp_all
  have r: "0 < ?r" "length bs = nat ?r" "?r \<le> 2147483647" "length bs \<le> length (b_container (sb_buf ?b))"
    using bs(1,2) n free(2) by simp_all
  have sels: "selects g ?r flag bs" using free r bs(3) g(3) by (simp add: selects_def)
  have read: "pool_read select fd gid off m w = Inr ((gid, flag), block_update gid flag (stored bs ?r) m, w1)"
    using pool_read_exact(2) [of m gid g select fd off w token bs w1 ?r flag] g sel r(1) sels by simp
  have blk: "get_block (gid, flag) (block_update gid flag (stored bs ?r) m) = Inr (stored bs ?r ?b)"
    using get_block_update(1) [of m gid g flag] g bs(3) by simp
  note st = stored_bytes [OF r(1) free(1) r(2,4,3)]
  obtain b' w2 where wr: "write_all sock (sb_buf (stored bs ?r ?b)) w1 = Some (Inr (b', w2))" "log w2 = log w1 @ bs"
    using write_all_sends [OF ok st(1), of w1] st(2) by auto
  have "pool_ready gid N n (clear_block (gid, flag) (block_update gid flag (stored bs ?r) m))"
    by (rule clear_stored_ready [OF m bs(3) r(1,2) bs(2) r(3)])
  then show ?thesis using read blk wr length_buf_bytes [OF st(1)] st(2) by auto
qed

lemma send_block_sends:
  assumes ok: "send_ok log (sc_send_some (sv_conn sv))" "send_progress (sc_send_some (sv_conn sv))"
    and fl: "file_readable log sv fd N n content" and n: "n \<le> 65535" and m: "pool_ready (sv_gid sv) N n m"
    and off: "off < length content"
  shows "\<exists>k m' w'. send_block sv fd (int off) m w = Some (Inr (int (off + k), m', w')) \<and> 0 < k \<and>
    off + k \<le> length content \<and> pool_ready (sv_gid sv) N n m' \<and> log w' = log w @ take k (drop off content)"
proof -
  let ?gid = "sv_gid sv"
  obtain k token flag w1 where sel: "sv_select sv fd ?gid (int n) (int off) w = (token, take k (drop off content), w1)"
      "io_res_flag_await_resume token = (int k, int flag)"
    and k: "0 < k" "k \<le> n" "off + k \<le> length content" "flag < N" "log w1 = log w"
    using fl off unfolding file_readable_def by blast
  let ?bs = "take k (drop off content)"
  have len: "length ?bs = k" "?bs \<noteq> []" using k(1,3) by auto
  obtain m1 blk b' w2 where r: "pool_read (sv_select sv) fd ?gid (int off) m w = Inr ((?gid, flag), m1, w1)"
      "get_block (?gid, flag) m1 = Inr blk" "unat (readable (sb_buf blk)) = length ?bs"
      "write_all (sv_conn sv) (sb_buf blk) w1 = Some (Inr (b', w2))" "log w2 = log w1 @ ?bs"
      "pool_ready ?gid N n (clear_block (?gid, flag) m1)"
    using pool_block_sent [where log = log and sock = "sv_conn sv" and bs = ?bs and select = "sv_select sv",
        OF ok n m sel(1) _ len(2) _ k(4)] sel(2) len(1) k(2) by metis
  have "uint (readable (sb_buf blk)) = int k" using r(3) len(1) by (metis of_nat_unat)
  then have "sint (readable (sb_buf blk)) = int k"
    using k(2) n by (simp add: sint_uint signed_take_bit_int_eq_self)
  moreover have "log (sv_provide sv (blk\<lparr>sb_buf := b'\<rparr>) w2) = log w @ ?bs"
    using fl r(5) k(5) unfolding file_readable_def by simp
  ultimately show ?thesis using k(1,3) r(1,2,4,6) by (simp add: send_block_def)
qed

lemma send_file_loop_sends:
  assumes ok: "send_ok log (sc_send_some (sv_conn sv))" "send_progress (sc_send_some (sv_conn sv))"
    and fl: "file_readable log sv fd N n content" and n: "n \<le> 65535"
  shows "pool_ready (sv_gid sv) N n m \<Longrightarrow> off \<le> length content \<Longrightarrow>
    \<exists>m' w'. send_file_loop sv fd (int (length content)) (int off) m w = Some (Inr (m', w')) \<and>
      pool_ready (sv_gid sv) N n m' \<and> log w' = log w @ drop off content"
proof (induction "length content - off" arbitrary: off m w rule: less_induct)
  case less
  show ?case
  proof (cases "off < length content")
    case False
    then show ?thesis using less.prems by (subst send_file_loop.simps) simp
  next
    case True
    obtain k m1 w1 where s: "send_block sv fd (int off) m w = Some (Inr (int (off + k), m1, w1))" "0 < k"
      "off + k \<le> length content" "pool_ready (sv_gid sv) N n m1" "log w1 = log w @ take k (drop off content)"
      using send_block_sends [OF ok fl n less.prems(1) True] by blast
    have "length content - (off + k) < length content - off" using s(2,3) by simp
    from less.hyps [OF this s(4,3), of w1] obtain m' w' where r:
      "send_file_loop sv fd (int (length content)) (int (off + k)) m1 w1 = Some (Inr (m', w'))"
      "pool_ready (sv_gid sv) N n m'" "log w' = log w1 @ drop (off + k) content" by blast
    have "take k (drop off content) @ drop (off + k) content = drop off content"
      by (metis add.commute append_take_drop_id drop_drop)
    moreover have "send_file_loop sv fd (int (length content)) (int off) m w = Some (Inr (m', w'))"
      using True s(1) r(1) by (subst send_file_loop.simps) simp
    ultimately show ?thesis using r(2,3) s(5) by simp
  qed
qed

text \<open>The whole of \<open>send_file\<close>, for a file that is there.\<close>

lemma send_file_sends:
  assumes ok: "send_ok log (sc_send_some (sv_conn sv))" "send_progress (sc_send_some (sv_conn sv))"
    and fl: "file_readable log sv fd N n content" and n: "n \<le> 65535" and m: "pool_ready (sv_gid sv) N n m"
    and path: "path \<noteq> ''public/bench''" "length (c_str path) < 1024"
    and op: "aw_openat (sv_os sv) AT_FDCWD (c_str path) 0 0 w = (fd, w1)" "0 \<le> fd" "log w1 = log w"
    and st: "aw_statx (sv_os sv) fd [] AT_EMPTY_PATH STATX_BASIC_STATS w1 = (ret, detail, w2)" "0 \<le> ret"
      "log w2 = log w" "\<not> S_ISDIR (stx_mode detail)" "sint (stx_size detail) = int (length content)" "content \<noteq> []"
    and rs: "file_response detail path rs = Inr (int (length content), rs')"
      "length (response_text rs') \<le> vector_max_size"
  shows "\<exists>m' w'. send_file sv rs path m w = Some (Inr (m', w')) \<and> pool_ready (sv_gid sv) N n m' \<and>
    log w' = log w @ response_text rs' @ content"
proof -
  obtain w3 where h: "send_header sv rs' w2 = Some (Inr w3)" "log w3 = log w2 @ response_text rs'"
    using send_header_sends [OF ok rs(2)] by blast
  obtain m' w4 where l: "send_file_loop sv fd (int (length content)) 0 m w3 = Some (Inr (m', w4))"
    "pool_ready (sv_gid sv) N n m'" "log w4 = log w3 @ content"
    using send_file_loop_sends [OF ok fl n m, of 0 w3] by auto
  have "log (fd_destroy (sv_os sv) f w4) = log w4" for f :: "statx file_base"
    using fl by (simp add: file_readable_def fd_destroy_def)
  then show ?thesis
    using path(1) op(1,2) st(1,2,3,6) rs(1) h l
    by (simp add: send_file_def openat_def file_base_new_def get_statx_def status_view_def status_init_def)
qed

text \<open>A file that cannot be opened: nothing is sent.\<close>

lemma send_file_missing:
  assumes "path \<noteq> ''public/bench''" and "aw_openat (sv_os sv) AT_FDCWD (c_str path) 0 0 w = (fd, w1)" and "fd < 0"
  shows "send_file sv rs path m w = Some (Inr (m, w1))"
  using assms by (simp add: send_file_def openat_def)

section \<open>From request to response\<close>

text \<open>The header that decides whether the connection is closed.\<close>

definition asks_close :: "char \<Rightarrow> (string \<times> string) list \<Rightarrow> bool" where
  "asks_close digit hs \<longleftrightarrow>
     (let v = (case map_of (rev hs) ''Connection'' of None \<Rightarrow> [] | Some v \<Rightarrow> v)
      in v = ''close'' \<or> digit = CHR ''0'' \<and> v \<noteq> ''Keep-Alive'')"

lemma read_whole_request:
  assumes recv: "recv_ok incoming (sc_recv_some sock)" and len: "0 < length req"
    and all: "\<And>space. 128 \<le> space \<Longrightarrow> sc_recv_some sock space w = (int (length req), req, w0)"
  shows "\<exists>b. read_some sock flex_make_room (flex_buffer BUFFER_BLOCK_SIZE) w = Inr (int (length req), b, w0) \<and>
    buf_inv b \<and> buf_compact b \<and> buf_bytes b = req"
proof -
  have "BUFFER_BLOCK_SIZE \<le> vector_max_size" by (simp add: BUFFER_BLOCK_SIZE_def vector_max_size_def)
  note e = flex_buffer_empty [OF this]
  have f: "flex_fits 128 (flex_buffer BUFFER_BLOCK_SIZE)" using e(3) by (simp add: flex_fits_def vector_max_size_def)
  obtain space ret bs w' where r: "128 \<le> space" "sc_recv_some sock space w = (ret, bs, w')"
    "if ret = 0 then read_some_with flex_make_room (sc_recv_some sock) (flex_buffer BUFFER_BLOCK_SIZE) w = Inl Eof_error
     else if ret < 0 then read_some_with flex_make_room (sc_recv_some sock) (flex_buffer BUFFER_BLOCK_SIZE) w =
       Inl (System_error (- ret))
     else \<exists>b'. read_some_with flex_make_room (sc_recv_some sock) (flex_buffer BUFFER_BLOCK_SIZE) w = Inr (ret, b', w') \<and>
       buf_inv b' \<and> buf_compact b' \<and> buf_bytes b' = buf_bytes (flex_buffer BUFFER_BLOCK_SIZE) @ bs \<and> int (length bs) = ret"
    using flex_room.read_some_outcome [OF e(1,2) f recv, of w] by blast
  have "(ret, bs, w') = (int (length req), req, w0)"
    by (rule trans [OF r(2) [symmetric] all [OF r(1)]])
  then have eq: "ret = int (length req)" "bs = req" "w' = w0" by blast+
  have "ret \<noteq> 0" "\<not> ret < 0" using eq(1) len by auto
  then show ?thesis using r(3) by (simp add: eq e(3) read_some_def)
qed

lemma http_round_serves:
  assumes recv: "recv_ok incoming (sc_recv_some (sv_conn sv))"
    and req: "method_of meth \<noteq> kInvalid" "CHR '' '' \<notin> set target" "CHR 0x0D \<notin> set target"
      "digit \<in> {CHR ''0'', CHR ''1''}" "\<forall>kv \<in> set hs. header_ok kv"
    and all: "\<And>space. 128 \<le> space \<Longrightarrow> sc_recv_some (sv_conn sv) space w =
      (int (length (request_text meth target digit hs)), request_text meth target digit hs, w0)"
    and sent: "send_file sv (setCloseConnection (asks_close digit hs) (http_response_new False))
      (target_path target) m w0 = Some (Inr (m', w'))"
  shows "\<exists>b'. http_round sv http_context_new (flex_buffer BUFFER_BLOCK_SIZE) m w =
      Some (Inr (asks_close digit hs, http_context_new, b', m', w')) \<and> buf_bytes b' = []"
proof -
  let ?req = "request_text meth target digit hs"
  have len: "0 < length ?req" by (simp add: request_text_def)
  obtain b where b: "read_some (sv_conn sv) flex_make_room (flex_buffer BUFFER_BLOCK_SIZE) w = Inr (int (length ?req), b, w0)"
    "buf_inv b" "buf_bytes b = ?req"
    using read_whole_request [OF recv len all] by blast
  obtain rq where rq: "parse_bytes http_context_new (?req @ []) = (True, \<lparr>cx_state = kGotAll, cx_request = rq\<rparr>, [])"
    "rq_version rq = (if digit = CHR ''1'' then kHttp11 else kHttp10)" "rq_path rq = target_path target"
    "\<forall>k. getHeader k rq = (case map_of (rev hs) k of None \<Rightarrow> [] | Some v \<Rightarrow> v)"
    using parse_request_text [OF req, of "[]"] by blast
  have st: "cx_state http_context_new \<in> {kExpectRequestLine, kExpectHeaders}" by (simp add: http_context_new_def)
  obtain b' where b': "parseRequest http_context_new b = Some (Inr (True, \<lparr>cx_state = kGotAll, cx_request = rq\<rparr>, b'))"
    "buf_bytes b' = []"
    using parse_loop_refines [OF b(2) st] rq(1) b(3) by (auto simp: parseRequest_def)
  have close: "keepalive rq = asks_close digit hs"
    using rq(2,4) req(4) by (auto simp: keepalive_def asks_close_def getVersion_def Let_def)
  have "cx_reset \<lparr>cx_state = kGotAll, cx_request = rq\<rparr> = http_context_new"
    by (simp add: cx_reset_def http_context_new_def)
  then show ?thesis
    using b(1) b' rq(3) close sent by (simp add: http_round_def gotAll_def)
qed

text \<open>The same, together with what \<open>send_file\<close> does for a file that is there.\<close>

lemma file_response_ok:
  assumes "\<not> S_ISDIR (stx_mode detail)" and "sint (stx_size detail) = int (length content)" and "content \<noteq> []"
    and "length (c_str path) < 1024"
  shows "\<exists>rs'. file_response detail path rs = Inr (int (length content), rs')"
  using assms by (auto simp: file_response_def setContentTypeByPath_def Let_def)

section \<open>A server\<close>

text \<open>
  A system with one file, which descriptor 3 is opened to; its selecting reads fill the first block, and
  its other calls do nothing.
\<close>

definition mem_os :: "statx \<Rightarrow> ('w, statx) os" where
  "mem_os detail =
     \<lparr>os_errno = (\<lambda>w. 0), os_socket = (\<lambda>t w. (- 1, w)), os_bind = (\<lambda>fd ep w. (0, w)), os_listen = (\<lambda>fd k w. (0, w)),
      os_accept = (\<lambda>fd w. (- 1, endpoint_of_port Little 0, w)), os_close = (\<lambda>fd w. (0, w)),
      os_openat = (\<lambda>d p f k w. (- 1, w)), os_fcntl = (\<lambda>fd a b w. (0, w)), os_setsockopt = (\<lambda>fd a b v w. (0, w)),
      os_getsockopt = (\<lambda>fd a b w. (0, 0, w)), os_getsockname = (\<lambda>fd w. (0, endpoint_of_port Little 0, w)),
      os_getpeername = (\<lambda>fd w. (0, endpoint_of_port Little 0, w)), os_spawn_close = (\<lambda>fd w. w),
      aw_connect = (\<lambda>fd ep k w. (0, w)), aw_accept = (\<lambda>fd w. (4, endpoint_of_port Little 0, w)),
      aw_close = (\<lambda>fd w. (0, w)), aw_openat = (\<lambda>d p f k w. (3, w)), aw_statx = (\<lambda>fd p f k w. (0, detail, w))\<rparr>"

definition mem_server :: "string \<Rightarrow> (char list \<times> char list) server" where
  "mem_server content =
     \<lparr>sv_conn = mem_connection 1000,
      sv_os = mem_os \<lparr>stx_mode = 33188, stx_size = of_nat (length content)\<rparr>,
      sv_select = (\<lambda>fd gid k off w.
        let bs = take (nat k) (drop (nat off) content) in (\<lparr>tk_continuation = 0, tk_result = int (length bs), tk_flags = 0\<rparr>, bs, w)),
      sv_provide = (\<lambda>b w. w), sv_gid = 7\<rparr>"

lemma mem_server_ok:
  "send_ok snd (sc_send_some (sv_conn (mem_server content)))"
  "send_progress (sc_send_some (sv_conn (mem_server content)))"
  "recv_ok fst (sc_recv_some (sv_conn (mem_server content)))"
  using mem_connection_ok [of 1000]
  by (simp_all add: mem_server_def) (auto simp: send_progress_def mem_connection_def mem_send_def)

lemma mem_server_file:
  assumes "0 < n" and "0 < N"
  shows "file_readable snd (mem_server content) 3 N n content"
  unfolding file_readable_def
proof (intro conjI allI impI)
  fix off and w :: "char list \<times> char list"
  assume off: "off < length content"
  let ?k = "min n (length content - off)"
  have "take n (drop off content) = take ?k (drop off content)"
    by (simp add: min_def)
  then show "\<exists>k token flag w'. sv_select (mem_server content) 3 (sv_gid (mem_server content)) (int n) (int off) w =
      (token, take k (drop off content), w') \<and> io_res_flag_await_resume token = (int k, int flag) \<and>
      0 < k \<and> k \<le> n \<and> off + k \<le> length content \<and> flag < N \<and> snd w' = snd w"
    using assms off
    by - (rule exI [of _ ?k], rule exI [of _ "\<lparr>tk_continuation = 0, tk_result = int ?k, tk_flags = 0\<rparr>"],
        rule exI [of _ 0], rule exI [of _ w], simp add: mem_server_def io_res_flag_await_resume_def Let_def, linarith)
qed (simp_all add: mem_server_def mem_os_def)

end
