(* ===== verification/Echo_Server.thy ===== *)
theory Echo_Server
  imports Http_Server
begin

text \<open>
  The echo server (\<^verbatim>\<open>examples/echo_server.cpp\<close>) and the accept loops of both servers. A connection is echoed
  block by block: the pool reads into a block that the kernel selects, the block is sent, and the end of
  the pass gives it back. The loop only ends by a pass that throws; what that pass has done stays done:
  the request of the read has happened, some bytes may have been sent, and the destructor of the
  resource, which unwinding runs, has given the block back. A failed assertion ends the program instead,
  without unwinding.
\<close>

section \<open>The echo loop\<close>

definition MAX_MESSAGE_LEN :: nat where
  "MAX_MESSAGE_LEN = 2048"

definition BUFFERS_COUNT :: nat where
  "BUFFERS_COUNT = 4096"

text \<open>The destructor of the resource: the block is provided again and cleared.\<close>

definition release_block ::
  "'w server \<Rightarrow> u16 \<times> nat \<Rightarrow> selected_buffer \<Rightarrow> buffer_pool \<Rightarrow> 'w \<Rightarrow> buffer_pool \<times> 'w" where
  "release_block sv r bf m w = (clear_block r m, sv_provide sv bf w)"

definition echo_round ::
  "'w server \<Rightarrow> int \<Rightarrow> buffer_pool \<Rightarrow> 'w \<Rightarrow> (unit res \<times> buffer_pool \<times> 'w) option" where
  "echo_round sv fd m w =
     (case pool_read_run (sv_select sv) fd (sv_gid sv) 0 m w of
        (Inl e, m, w) \<Rightarrow> Some (Inl e, m, w)
      | (Inr r, m, w) \<Rightarrow>
          (case get_block r m of
             Inl e \<Rightarrow> Some (Inl e, m, w)
           | Inr bf \<Rightarrow>
               (case write_all_run (sc_send_some (sv_conn sv)) (readable (sb_buf bf)) (sb_buf bf) w of
                  None \<Rightarrow> None
                | Some (Inl e, b, w) \<Rightarrow>
                    if is_exception e then Some (Inl e, release_block sv r (bf\<lparr>sb_buf := b\<rparr>) m w)
                    else Some (Inl e, m, w)
                | Some (Inr _, b, w) \<Rightarrow> Some (Inr (), release_block sv r (bf\<lparr>sb_buf := b\<rparr>) m w))))"

partial_function (option) echo_rounds ::
  "'w server \<Rightarrow> int \<Rightarrow> buffer_pool \<Rightarrow> 'w \<Rightarrow> (fault \<times> buffer_pool \<times> 'w) option" where
  "echo_rounds sv fd m w =
     (case echo_round sv fd m w of
        None \<Rightarrow> None
      | Some (Inl e, m, w) \<Rightarrow> Some (e, m, w)
      | Some (Inr _, m, w) \<Rightarrow> echo_rounds sv fd m w)"

text \<open>The coroutine with its handler; at its end the connection, its parameter, is destroyed.\<close>

definition echo_loop :: "'w server \<Rightarrow> connection_base \<Rightarrow> buffer_pool \<Rightarrow> 'w \<Rightarrow> (buffer_pool \<times> 'w) res option" where
  "echo_loop sv conn m w =
     (case echo_rounds sv (fd_no conn) m w of
        None \<Rightarrow> None
      | Some (e, m, w) \<Rightarrow>
          Some (if is_exception e then Inr (m, fd_destroy (sv_os sv) conn w) else Inl e))"

section \<open>Accepting\<close>

text \<open>
  The loop of both servers, until \<open>halt\<close> holds or \<open>accept\<close> throws. \<open>start\<close> starts the coroutine of a
  connection, which takes the connection over.
\<close>

partial_function (option) accept_loop ::
  "('w \<Rightarrow> bool) \<Rightarrow> ('w, 'st) os \<Rightarrow> addr_class \<Rightarrow> (connection_base \<Rightarrow> 'w \<Rightarrow> 'w) \<Rightarrow> acceptor \<times> 'w \<Rightarrow>
   (fault option \<times> acceptor \<times> 'w) option" where
  "accept_loop halt S cls start aw =
     (if halt (snd aw) then Some (None, aw)
      else (case accept S cls aw of
              (Inl e, aw) \<Rightarrow> Some (Some e, aw)
            | (Inr None, aw) \<Rightarrow> Some (Some Undefined_object, aw)
            | (Inr (Some conn), (ac, w)) \<Rightarrow> accept_loop halt S cls start (ac, start conn w)))"

text \<open>\<open>event_loop\<close> of the echo server, after the pool has been filled, and \<open>server\<close> of the HTTP server.\<close>

definition event_loop ::
  "('w, 'st) os \<Rightarrow> (connection_base \<Rightarrow> 'w \<Rightarrow> 'w) \<Rightarrow> acceptor \<times> 'w \<Rightarrow> (acceptor \<times> 'w) res option" where
  "event_loop S start aw =
     (case accept_loop (\<lambda>_. False) S Empty_class start aw of
        None \<Rightarrow> None
      | Some (None, aw) \<Rightarrow> Some (Inr aw)
      | Some (Some e, aw) \<Rightarrow> Some (if is_exception e then Inr aw else Inl e))"

definition http_accept ::
  "('w, 'st) os \<Rightarrow> ('w \<Rightarrow> bool) \<Rightarrow> ('w \<Rightarrow> 'w) \<Rightarrow> (connection_base \<Rightarrow> 'w \<Rightarrow> 'w) \<Rightarrow> acceptor \<times> 'w \<Rightarrow>
   (acceptor \<times> 'w) res option" where
  "http_accept S stop_requested stop_ctx start aw =
     (case accept_loop stop_requested S Empty_class start aw of
        None \<Rightarrow> None
      | Some (None, aw) \<Rightarrow> Some (Inr aw)
      | Some (Some e, (ac, w)) \<Rightarrow> Some (if is_exception e then Inr (ac, stop_ctx w) else Inl e))"

section \<open>What is echoed\<close>

text \<open>
  The peer: \<open>incoming\<close> are the pieces that selecting reads of the descriptor will still give, each of at
  most \<open>n\<close> bytes, and after the last one a read gives 0. Sending does not change them, and only sending
  sends.
\<close>

definition peer_gives :: "('w \<Rightarrow> char list) \<Rightarrow> ('w \<Rightarrow> char list list) \<Rightarrow> nat \<Rightarrow> 'w \<Rightarrow> io_token \<times> char list \<times> 'w \<Rightarrow> bool" where
  "peer_gives log incoming N w r \<longleftrightarrow>
     (case r of
        (token, bytes, w') \<Rightarrow>
          log w' = log w \<and>
          (case incoming w of
             [] \<Rightarrow> fst (io_res_flag_await_resume token) = 0 \<and> incoming w' = []
           | c # cs \<Rightarrow> bytes = c \<and> incoming w' = cs \<and>
               (\<exists>flag < N. io_res_flag_await_resume token = (int (length c), int flag))))"

definition peer_sends :: "('w \<Rightarrow> char list) \<Rightarrow> ('w \<Rightarrow> char list list) \<Rightarrow> 'w server \<Rightarrow> int \<Rightarrow> nat \<Rightarrow> nat \<Rightarrow> bool" where
  "peer_sends log incoming sv fd N n \<longleftrightarrow>
     (\<forall>w. peer_gives log incoming N w (sv_select sv fd (sv_gid sv) (int n) 0 w)) \<and>
     (\<forall>bs w. incoming (snd (sc_send_some (sv_conn sv) bs w)) = incoming w) \<and>
     (\<forall>b w. log (sv_provide sv b w) = log w \<and> incoming (sv_provide sv b w) = incoming w)"

lemma peer_sendsD:
  assumes "peer_sends log incoming sv fd N n"
  shows "incoming w = [] \<Longrightarrow> \<exists>token bytes w'. sv_select sv fd (sv_gid sv) (int n) 0 w = (token, bytes, w') \<and>
      fst (io_res_flag_await_resume token) = 0 \<and> log w' = log w \<and> incoming w' = []"
    and "incoming w = c # cs \<Longrightarrow> \<exists>token flag w'. sv_select sv fd (sv_gid sv) (int n) 0 w = (token, c, w') \<and>
      io_res_flag_await_resume token = (int (length c), int flag) \<and> flag < N \<and> log w' = log w \<and> incoming w' = cs"
    and "incoming (snd (sc_send_some (sv_conn sv) bs w)) = incoming w"
    and "log (sv_provide sv b w) = log w" and "incoming (sv_provide sv b w) = incoming w"
proof -
  obtain token bytes w' where s: "sv_select sv fd (sv_gid sv) (int n) 0 w = (token, bytes, w')" by (metis prod_cases3)
  moreover from this have "peer_gives log incoming N w (token, bytes, w')"
    using assms unfolding peer_sends_def by metis
  ultimately show "incoming w = [] \<Longrightarrow> \<exists>token bytes w'. sv_select sv fd (sv_gid sv) (int n) 0 w = (token, bytes, w') \<and>
      fst (io_res_flag_await_resume token) = 0 \<and> log w' = log w \<and> incoming w' = []"
    "incoming w = c # cs \<Longrightarrow> \<exists>token flag w'. sv_select sv fd (sv_gid sv) (int n) 0 w = (token, c, w') \<and>
      io_res_flag_await_resume token = (int (length c), int flag) \<and> flag < N \<and> log w' = log w \<and> incoming w' = cs"
    by (auto simp: peer_gives_def)
  show "incoming (snd (sc_send_some (sv_conn sv) bs w)) = incoming w" "log (sv_provide sv b w) = log w"
    "incoming (sv_provide sv b w) = incoming w"
    using assms unfolding peer_sends_def by blast+
qed

text \<open>
  A pass over one piece: it is echoed and the pool is at rest again; or a send fails after some of its
  bytes, and then the pass throws, with the pool at rest, unless an interrupted send fails the assertion.
\<close>

lemma echo_round_echoes:
  assumes ok: "send_ok log (sc_send_some (sv_conn sv))"
    and peer: "peer_sends log incoming sv fd N n" and n: "n \<le> 65535" and m: "pool_ready (sv_gid sv) N n m"
    and c: "incoming w = c # cs" "c \<noteq> []" "length c \<le> n"
  shows "\<exists>r m' w'. echo_round sv fd m w = Some (r, m', w') \<and>
    (r = Inr () \<and> pool_ready (sv_gid sv) N n m' \<and> log w' = log w @ c \<and> incoming w' = cs \<or>
     (\<exists>k w1 q w2. k < length c \<and> log w1 = log w @ take k c \<and> log w' = log w1 \<and>
        sc_send_some (sv_conn sv) (drop k c) w1 = (q, w2) \<and> q \<le> 0 \<and> r = Inl (send_fault q) \<and>
        (q \<noteq> - EINTR \<longrightarrow> pool_ready (sv_gid sv) N n m')))"
proof -
  let ?gid = "sv_gid sv" and ?r = "int (length c)"
  obtain token flag w1 where s: "sv_select sv fd ?gid (int n) 0 w = (token, c, w1)"
      "io_res_flag_await_resume token = (?r, int flag)" "flag < N" "log w1 = log w" "incoming w1 = cs"
    using peer_sendsD(2) [OF peer c(1)] by blast
  obtain g where g: "m ?gid = Some g" "bg_nbytes_per_block g = int n" "length (bg_blocks g) = N"
    "\<forall>b \<in> set (bg_blocks g). block_free b \<and> length (b_container (sb_buf b)) = n"
    using m by (auto simp: pool_ready_def)
  let ?b = "bg_blocks g ! flag" and ?m1 = "block_update ?gid flag (stored c ?r) m"
  have free: "block_free ?b" "length (b_container (sb_buf ?b)) = n" using g s(3) by simp_all
  have r: "0 < ?r" "length c = nat ?r" "?r \<le> 2147483647" "length c \<le> length (b_container (sb_buf ?b))"
    using c(2,3) n free(2) by simp_all
  have "selects g ?r flag c" using free r s(3) g(3) by (simp add: selects_def)
  then have read: "pool_read_run (sv_select sv) fd ?gid 0 m w = (Inr (?gid, flag), ?m1, w1)"
    using pool_read_exact(1) [of m ?gid g "sv_select sv" fd 0 w token c w1 ?r flag] g s(1,2) r(1) by simp
  have blk: "get_block (?gid, flag) ?m1 = Inr (stored c ?r ?b)"
    using get_block_update(1) [of m ?gid g flag] g s(3) by simp
  note st = stored_bytes [OF r(1) free(1) r(2,4,3)]
  have rest: "pool_ready ?gid N n (clear_block (?gid, flag) ?m1)"
    by (rule clear_stored_ready [OF m s(3) r(1,2) c(3) r(3)])
  obtain y b' w2 where wr: "write_all_run (sc_send_some (sv_conn sv)) (readable (sb_buf (stored c ?r ?b)))
      (sb_buf (stored c ?r ?b)) w1 = Some (y, b', w2)"
    and o: "y = Inr () \<and> log w2 = log w1 @ c \<or>
      (\<exists>k v q. k < length c \<and> log v = log w1 @ take k c \<and> log w2 = log v \<and>
        sc_send_some (sv_conn sv) (drop k c) v = (q, w2) \<and> q \<le> 0 \<and> y = Inl (send_fault q))"
    using write_all_run_complete [OF ok st(1), of w1] unfolding st(2) by blast
  have inc: "incoming w2 = cs"
    using write_all_run_keeps [where f = incoming, OF peer_sendsD(3) [OF peer] wr] s(5) by simp
  from o show ?thesis
  proof (elim disjE exE conjE)
    assume "y = Inr ()" "log w2 = log w1 @ c"
    then show ?thesis
      using read blk wr rest inc s(4) peer_sendsD(4,5) [OF peer] by (simp add: echo_round_def release_block_def)
  next
    fix k v q
    assume f: "k < length c" "log v = log w1 @ take k c" "log w2 = log v"
      "sc_send_some (sv_conn sv) (drop k c) v = (q, w2)" "q \<le> 0" "y = Inl (send_fault q)"
    show ?thesis
    proof (cases "is_exception (send_fault q)")
      case True
      let ?m2 = "clear_block (?gid, flag) ?m1" and ?w3 = "sv_provide sv (stored c ?r ?b\<lparr>sb_buf := b'\<rparr>) w2"
      have "echo_round sv fd m w = Some (Inl (send_fault q), ?m2, ?w3)"
        using True read blk wr f(6) by (simp add: echo_round_def release_block_def)
      then show ?thesis
        using rest f s(4) peer_sendsD(4) [OF peer]
        by - (rule exI [of _ "Inl (send_fault q)"], rule exI [of _ ?m2], rule exI [of _ ?w3], rule conjI, assumption,
            rule disjI2, rule exI [of _ k], rule exI [of _ v], rule exI [of _ q], rule exI [of _ w2], simp)
    next
      case False
      then have "q = - EINTR" by (auto simp: send_fault_def split: if_splits)
      moreover have "echo_round sv fd m w = Some (Inl (send_fault q), ?m1, w2)"
        using False read blk wr f(6) by (simp add: echo_round_def)
      ultimately show ?thesis
        using f s(4)
        by - (rule exI [of _ "Inl (send_fault q)"], rule exI [of _ ?m1], rule exI [of _ w2], rule conjI, assumption,
            rule disjI2, rule exI [of _ k], rule exI [of _ v], rule exI [of _ q], rule exI [of _ w2], simp)
    qed
  qed
qed

lemma echo_round_end:
  assumes peer: "peer_sends log incoming sv fd N n" and m: "pool_ready (sv_gid sv) N n m" and w: "incoming w = []"
  shows "\<exists>w'. echo_round sv fd m w = Some (Inl (System_error 0), m, w') \<and> log w' = log w"
proof -
  obtain g where g: "m (sv_gid sv) = Some g" "bg_nbytes_per_block g = int n" using m by (auto simp: pool_ready_def)
  obtain token bytes w' where "sv_select sv fd (sv_gid sv) (int n) 0 w = (token, bytes, w')"
      "fst (io_res_flag_await_resume token) = 0" "log w' = log w"
    using peer_sendsD(1) [OF peer w] by blast
  then show ?thesis
    using g by (cases "io_res_flag_await_resume token") (simp add: echo_round_def pool_read_run_def find_group_def)
qed

text \<open>
  The whole loop: it ends at the end of the stream, everything echoed; or at the first send that fails,
  with a prefix sent.
\<close>

lemma echo_rounds_echo:
  assumes ok: "send_ok log (sc_send_some (sv_conn sv))"
    and peer: "peer_sends log incoming sv fd N n" and n: "n \<le> 65535"
  shows "pool_ready (sv_gid sv) N n m \<Longrightarrow> \<forall>c \<in> set (incoming w). c \<noteq> [] \<and> length c \<le> n \<Longrightarrow>
    \<exists>e m' w'. echo_rounds sv fd m w = Some (e, m', w') \<and>
      (e = System_error 0 \<and> pool_ready (sv_gid sv) N n m' \<and> log w' = log w @ concat (incoming w) \<or>
       (\<exists>k bs w1 q w2. k < length (concat (incoming w)) \<and> log w' = log w @ take k (concat (incoming w)) \<and>
          log w1 = log w' \<and> bs \<noteq> [] \<and> sc_send_some (sv_conn sv) bs w1 = (q, w2) \<and> q \<le> 0 \<and> e = send_fault q \<and>
          (q \<noteq> - EINTR \<longrightarrow> pool_ready (sv_gid sv) N n m')))"
proof (induction "incoming w" arbitrary: m w)
  case Nil
  then obtain w' where r: "echo_round sv fd m w = Some (Inl (System_error 0), m, w')" "log w' = log w"
    using echo_round_end [OF peer Nil.prems(1)] by metis
  then have "echo_rounds sv fd m w = Some (System_error 0, m, w')" by (subst echo_rounds.simps) simp
  then show ?case using Nil.prems(1) r(2) Nil.hyps [symmetric] by simp
next
  case (Cons c cs)
  note cs = Cons.hyps(2) [symmetric]
  have c: "c \<noteq> []" "length c \<le> n" using Cons.prems(2) cs by auto
  obtain r m1 w1 where r: "echo_round sv fd m w = Some (r, m1, w1)"
    and o: "r = Inr () \<and> pool_ready (sv_gid sv) N n m1 \<and> log w1 = log w @ c \<and> incoming w1 = cs \<or>
     (\<exists>k v q v2. k < length c \<and> log v = log w @ take k c \<and> log w1 = log v \<and>
        sc_send_some (sv_conn sv) (drop k c) v = (q, v2) \<and> q \<le> 0 \<and> r = Inl (send_fault q) \<and>
        (q \<noteq> - EINTR \<longrightarrow> pool_ready (sv_gid sv) N n m1))"
    using echo_round_echoes [OF ok peer n Cons.prems(1) cs c] by blast
  from o show ?case
  proof (elim disjE exE conjE)
    assume i: "r = Inr ()" "pool_ready (sv_gid sv) N n m1" "log w1 = log w @ c" "incoming w1 = cs"
    have "\<forall>c \<in> set (incoming w1). c \<noteq> [] \<and> length c \<le> n" using Cons.prems(2) cs i(4) by simp
    from Cons.hyps(1) [OF i(4) [symmetric] i(2) this] obtain e m' w' where
      e: "echo_rounds sv fd m1 w1 = Some (e, m', w')"
      and o: "e = System_error 0 \<and> pool_ready (sv_gid sv) N n m' \<and> log w' = log w1 @ concat cs \<or>
       (\<exists>k bs v1 q v2. k < length (concat cs) \<and> log w' = log w1 @ take k (concat cs) \<and>
          log v1 = log w' \<and> bs \<noteq> [] \<and> sc_send_some (sv_conn sv) bs v1 = (q, v2) \<and> q \<le> 0 \<and> e = send_fault q \<and>
          (q \<noteq> - EINTR \<longrightarrow> pool_ready (sv_gid sv) N n m'))" unfolding i(4) by blast
    have "echo_rounds sv fd m w = Some (e, m', w')" using r i(1) e by (subst echo_rounds.simps) simp
    moreover from o have "e = System_error 0 \<and> pool_ready (sv_gid sv) N n m' \<and> log w' = log w @ concat (incoming w) \<or>
       (\<exists>k bs v1 q v2. k < length (concat (incoming w)) \<and> log w' = log w @ take k (concat (incoming w)) \<and>
          log v1 = log w' \<and> bs \<noteq> [] \<and> sc_send_some (sv_conn sv) bs v1 = (q, v2) \<and> q \<le> 0 \<and> e = send_fault q \<and>
          (q \<noteq> - EINTR \<longrightarrow> pool_ready (sv_gid sv) N n m'))"
    proof (elim disjE exE conjE)
      fix k bs v1 q v2
      assume "k < length (concat cs)" "log w' = log w1 @ take k (concat cs)" "log v1 = log w'" "bs \<noteq> []"
        "sc_send_some (sv_conn sv) bs v1 = (q, v2)" "q \<le> 0" "e = send_fault q"
        "q \<noteq> - EINTR \<longrightarrow> pool_ready (sv_gid sv) N n m'"
      then show ?thesis
        using i(3) cs
        by - (rule disjI2, rule exI [of _ "length c + k"], rule exI [of _ bs], rule exI [of _ v1], rule exI [of _ q],
            rule exI [of _ v2], simp)
    qed (use i(3) cs in simp)
    ultimately show ?thesis by blast
  next
    fix k v q v2
    assume f: "k < length c" "log v = log w @ take k c" "log w1 = log v" "sc_send_some (sv_conn sv) (drop k c) v = (q, v2)"
      "q \<le> 0" "r = Inl (send_fault q)" "q \<noteq> - EINTR \<longrightarrow> pool_ready (sv_gid sv) N n m1"
    then have "echo_rounds sv fd m w = Some (send_fault q, m1, w1)" using r by (subst echo_rounds.simps) simp
    then show ?thesis
      using f cs
      by - (rule exI [of _ "send_fault q"], rule exI [of _ m1], rule exI [of _ w1], rule conjI, assumption, rule disjI2,
          rule exI [of _ k], rule exI [of _ "drop k c"], rule exI [of _ v], rule exI [of _ q], rule exI [of _ v2], simp)
  qed
qed

section \<open>Accepting in order\<close>

text \<open>An acceptor whose next accepts give the descriptors \<open>fds\<close> and then fail; spawning notes the connection.\<close>

lemma accept_loop_spawns:
  assumes next': "\<And>ac w fd fds. queue w = fd # fds \<Longrightarrow>
      \<exists>conn ac' w'. accept S cls (ac, w) = (Inr (Some conn), (ac', w')) \<and> fd_no conn = fd \<and> queue w' = fds \<and> spawned w' = spawned w"
    and last': "\<And>ac w. queue w = [] \<Longrightarrow> \<exists>ac' w'. accept S cls (ac, w) = (Inl e, (ac', w')) \<and> spawned w' = spawned w"
    and start: "\<And>conn w. queue (start conn w) = queue w \<and> spawned (start conn w) = spawned w @ [fd_no conn]"
    and run: "\<And>w. \<not> halt w"
  shows "\<exists>ac' w'. accept_loop halt S cls start (ac, w) = Some (Some e, (ac', w')) \<and> spawned w' = spawned w @ queue w"
proof (induction "queue w" arbitrary: ac w)
  case Nil
  obtain ac' w' where "accept S cls (ac, w) = (Inl e, (ac', w'))" "spawned w' = spawned w" using last' Nil by metis
  then have "accept_loop halt S cls start (ac, w) = Some (Some e, (ac', w'))" using run by (subst accept_loop.simps) simp
  then show ?case using \<open>spawned w' = spawned w\<close> Nil by auto
next
  case (Cons fd fds)
  obtain conn ac1 w1 where a: "accept S cls (ac, w) = (Inr (Some conn), (ac1, w1))" "fd_no conn = fd" "queue w1 = fds"
      "spawned w1 = spawned w"
    using next' [of w fd fds ac] Cons.hyps(2) by metis
  have "fds = queue (start conn w1)" using start a(3) by simp
  from Cons.hyps(1) [OF this, of ac1] obtain ac' w' where
    r: "accept_loop halt S cls start (ac1, start conn w1) = Some (Some e, (ac', w'))"
      "spawned w' = spawned (start conn w1) @ queue (start conn w1)" by blast
  have "accept_loop halt S cls start (ac, w) = accept_loop halt S cls start (ac1, start conn w1)"
    using a(1) run by (subst accept_loop.simps) simp
  then show ?case using r start a(2-4) Cons.hyps(2) by auto
qed

section \<open>A connection in memory\<close>

definition mem_echo :: "(char list list \<times> char list) server" where
  "mem_echo =
     \<lparr>sv_conn = \<lparr>sc_recv_some = (\<lambda>_ w. (0, [], w)), sc_recv_some_for = (\<lambda>_ _ w. (0, [], w)),
                 sc_send_some = (\<lambda>bs w. (int (length (take 2 bs)), (fst w, snd w @ take 2 bs))),
                 sc_send_some_for = (\<lambda>_ bs w. (int (length (take 2 bs)), (fst w, snd w @ take 2 bs)))\<rparr>,
      sv_os = mem_os \<lparr>stx_mode = 0, stx_size = 0\<rparr>,
      sv_select = (\<lambda>fd gid k off w.
        case fst w of
          [] \<Rightarrow> (\<lparr>tk_continuation = 0, tk_result = 0, tk_flags = 0\<rparr>, [], w)
        | c # cs \<Rightarrow> (\<lparr>tk_continuation = 0, tk_result = int (length c), tk_flags = 0\<rparr>, c, (cs, snd w))),
      sv_provide = (\<lambda>b w. w), sv_gid = 7\<rparr>"

lemma mem_echo_ok:
  "send_ok snd (sc_send_some (sv_conn mem_echo))" "send_progress (sc_send_some (sv_conn mem_echo))"
  "peer_sends snd fst mem_echo fd 1 n"
  by (auto simp: send_ok_def send_progress_def peer_sends_def peer_gives_def io_res_flag_await_resume_def mem_echo_def
      min_def split: list.splits)

end
