(* ===== verification/Scope_Guard.thy ===== *)
theory Scope_Guard
  imports Coring_Prelude "HOL-Library.Multiset"
begin

text \<open>
  Scope guards (\<^verbatim>\<open>include/coring/on_scope_exit.hpp\<close>), objects with a manual lifetime
  (\<^verbatim>\<open>include/coring/detail/async/manual_lifetime.hpp\<close>) and sets of signals (\<^verbatim>\<open>include/coring/signals.hpp\<close>).

  The function of a guard acts on the state \<open>'w\<close>. A guard that is moved leaves an object behind, whose
  destructor runs as well. \<open>std::uncaught_exceptions ()\<close> is an argument of the operations that call it.
\<close>

section \<open>scoped_lambda\<close>

record 'w scoped_lambda =
  sl_func :: "'w \<Rightarrow> 'w"
  sl_cancelled :: bool

definition scoped_lambda_new :: "('w \<Rightarrow> 'w) \<Rightarrow> 'w scoped_lambda" where
  "scoped_lambda_new f = \<lparr>sl_func = f, sl_cancelled = False\<rparr>"

definition sl_cancel :: "'w scoped_lambda \<Rightarrow> 'w scoped_lambda" where
  "sl_cancel g = g\<lparr>sl_cancelled := True\<rparr>"

text \<open>The move constructor: the new object and the old one as it is left.\<close>

definition scoped_lambda_move :: "'w scoped_lambda \<Rightarrow> 'w scoped_lambda \<times> 'w scoped_lambda" where
  "scoped_lambda_move g = (\<lparr>sl_func = sl_func g, sl_cancelled = sl_cancelled g\<rparr>, sl_cancel g)"

definition scoped_lambda_delete :: "'w scoped_lambda \<Rightarrow> 'w \<Rightarrow> 'w" where
  "scoped_lambda_delete g w = (if \<not> sl_cancelled g then sl_func g w else w)"

definition sl_call_now :: "'w scoped_lambda \<Rightarrow> 'w \<Rightarrow> 'w scoped_lambda \<times> 'w" where
  "sl_call_now g w = (let g = g\<lparr>sl_cancelled := True\<rparr> in (g, sl_func g w))"

definition on_scope_exit :: "('w \<Rightarrow> 'w) \<Rightarrow> 'w scoped_lambda" where
  "on_scope_exit f = scoped_lambda_new f"

section \<open>conditional_scoped_lambda\<close>

record 'w conditional_scoped_lambda =
  cl_func :: "'w \<Rightarrow> 'w"
  cl_uncaughtExceptionCount :: int
  cl_cancelled :: bool

definition conditional_new :: "('w \<Rightarrow> 'w) \<Rightarrow> int \<Rightarrow> 'w conditional_scoped_lambda" where
  "conditional_new f uncaught = \<lparr>cl_func = f, cl_uncaughtExceptionCount = uncaught, cl_cancelled = False\<rparr>"

definition cl_cancel :: "'w conditional_scoped_lambda \<Rightarrow> 'w conditional_scoped_lambda" where
  "cl_cancel g = g\<lparr>cl_cancelled := True\<rparr>"

definition conditional_move ::
  "'w conditional_scoped_lambda \<Rightarrow> 'w conditional_scoped_lambda \<times> 'w conditional_scoped_lambda" where
  "conditional_move g =
     (\<lparr>cl_func = cl_func g, cl_uncaughtExceptionCount = cl_uncaughtExceptionCount g, cl_cancelled = cl_cancelled g\<rparr>,
      cl_cancel g)"

definition is_unwinding_due_to_exception :: "int \<Rightarrow> 'w conditional_scoped_lambda \<Rightarrow> bool" where
  "is_unwinding_due_to_exception uncaught g \<longleftrightarrow> cl_uncaughtExceptionCount g < uncaught"

definition conditional_delete :: "bool \<Rightarrow> int \<Rightarrow> 'w conditional_scoped_lambda \<Rightarrow> 'w \<Rightarrow> 'w" where
  "conditional_delete CALL_ON_FAILURE uncaught g w =
     (if \<not> cl_cancelled g \<and> is_unwinding_due_to_exception uncaught g = CALL_ON_FAILURE then cl_func g w else w)"

section \<open>manual_lifetime\<close>

text \<open>Storage for an object: \<open>None\<close> when none lives in it. References are kept as addresses.\<close>

record 'a manual_lifetime =
  ml_value :: "'a option"

definition manual_lifetime_new :: "'a manual_lifetime" where
  "manual_lifetime_new = \<lparr>ml_value = None\<rparr>"

definition ml_construct :: "'a \<Rightarrow> 'a manual_lifetime \<Rightarrow> 'a manual_lifetime" where
  "ml_construct v l = l\<lparr>ml_value := Some v\<rparr>"

definition ml_destruct :: "'a manual_lifetime \<Rightarrow> 'a manual_lifetime res" where
  "ml_destruct l = (case ml_value l of None \<Rightarrow> Inl Undefined_object | Some _ \<Rightarrow> Inr (l\<lparr>ml_value := None\<rparr>))"

definition ml_deref :: "'a manual_lifetime \<Rightarrow> 'a res" where
  "ml_deref l = (case ml_value l of None \<Rightarrow> Inl Undefined_object | Some v \<Rightarrow> Inr v)"

text \<open>For a reference the destructor does nothing.\<close>

definition ml_destruct_ref :: "'a manual_lifetime \<Rightarrow> 'a manual_lifetime" where
  "ml_destruct_ref l = l"

section \<open>signal_set\<close>

record signal_set =
  set_signals :: "nat set"

definition signal_set_new :: signal_set where
  "signal_set_new = \<lparr>set_signals = {}\<rparr>"

definition signal_add :: "nat list \<Rightarrow> signal_set \<Rightarrow> signal_set" where
  "signal_add args s = fold (\<lambda>a s. s\<lparr>set_signals := insert a (set_signals s)\<rparr>) args s"

definition signal_remove :: "nat \<Rightarrow> signal_set \<Rightarrow> signal_set" where
  "signal_remove signo s = s\<lparr>set_signals := set_signals s - {signo}\<rparr>"

definition signal_del :: "nat \<Rightarrow> signal_set \<Rightarrow> signal_set" where
  "signal_del signo s = s\<lparr>set_signals := set_signals s - {signo}\<rparr>"

text \<open>Blocking adds the set to the mask of the process or of the thread.\<close>

definition block_on_proc :: "signal_set \<Rightarrow> nat set \<Rightarrow> nat set" where
  "block_on_proc s blocked = blocked \<union> set_signals s"

definition block_on_thread :: "signal_set \<Rightarrow> nat set \<Rightarrow> nat set" where
  "block_on_thread s blocked = blocked \<union> set_signals s"

definition sigint_for_context :: "nat set \<Rightarrow> signal_set \<times> nat set" where
  "sigint_for_context blocked =
     (let s = signal_add [2] signal_set_new in (s, block_on_proc s blocked))"

section \<open>A guard that moves\<close>

text \<open>
  A guard that is moved \<open>n\<close> times, each time from its present owner: the objects, the owner first. They
  are destroyed in some order.
\<close>

fun move_guard :: "nat \<Rightarrow> 'w scoped_lambda \<Rightarrow> 'w scoped_lambda list" where
  "move_guard 0 g = [g]"
| "move_guard (Suc n) g =
     (case move_guard n g of
        [] \<Rightarrow> []
      | owner # others \<Rightarrow> (case scoped_lambda_move owner of (g, left) \<Rightarrow> g # left # others))"

fun move_conditional :: "nat \<Rightarrow> 'w conditional_scoped_lambda \<Rightarrow> 'w conditional_scoped_lambda list" where
  "move_conditional 0 g = [g]"
| "move_conditional (Suc n) g =
     (case move_conditional n g of
        [] \<Rightarrow> []
      | owner # others \<Rightarrow> (case conditional_move owner of (g, left) \<Rightarrow> g # left # others))"

text \<open>The owner is as it was made, and the objects left behind do nothing.\<close>

lemma move_guard_shape:
  "\<exists>others. move_guard n g = \<lparr>sl_func = sl_func g, sl_cancelled = sl_cancelled g\<rparr> # others \<and>
    length others = n \<and> (\<forall>x \<in> set others. sl_cancelled x)"
proof (induction n)
  case 0
  then show ?case by simp
next
  case (Suc n)
  then obtain others where "move_guard n g = \<lparr>sl_func = sl_func g, sl_cancelled = sl_cancelled g\<rparr> # others"
      "length others = n" "\<forall>x \<in> set others. sl_cancelled x" by blast
  then show ?case by (simp add: scoped_lambda_move_def sl_cancel_def)
qed

lemma move_conditional_shape:
  "\<exists>others. move_conditional n g = \<lparr>cl_func = cl_func g, cl_uncaughtExceptionCount = cl_uncaughtExceptionCount g,
      cl_cancelled = cl_cancelled g\<rparr> # others \<and> length others = n \<and> (\<forall>x \<in> set others. cl_cancelled x)"
proof (induction n)
  case 0
  then show ?case by simp
next
  case (Suc n)
  then obtain others where "move_conditional n g = \<lparr>cl_func = cl_func g,
      cl_uncaughtExceptionCount = cl_uncaughtExceptionCount g, cl_cancelled = cl_cancelled g\<rparr> # others"
      "length others = n" "\<forall>x \<in> set others. cl_cancelled x" by blast
  then show ?case by (simp add: conditional_move_def cl_cancel_def)
qed

text \<open>Destroying objects of which all but one do nothing, in any order.\<close>

lemma fold_idle: "(\<And>x w. x \<in> set xs \<Longrightarrow> del x w = w) \<Longrightarrow> fold del xs w = w"
  by (induction xs) simp_all

lemma fold_one_acts:
  assumes "mset xs = mset (x # others)" and "\<And>y w. y \<in> set others \<Longrightarrow> del y w = w"
  shows "fold del xs w = del x w"
proof -
  have "x \<in># mset xs" using assms(1) by simp
  then obtain us vs where xs: "xs = us @ x # vs" by (meson in_set_conv_decomp set_mset_mset set_mset_mset in_multiset_in_set)
  then have "mset (us @ vs) = mset others" using assms(1) by simp
  then have "set (us @ vs) = set others" by (metis set_mset_mset)
  then have "\<And>y w. y \<in> set us \<Longrightarrow> del y w = w" "\<And>y w. y \<in> set vs \<Longrightarrow> del y w = w" using assms(2) by auto
  then show ?thesis using xs fold_idle [of us del] fold_idle [of vs del] by simp
qed

end
