(* ===== verification/Timestamp.thy ===== *)
theory Timestamp
  imports Buffer Str_Utils
begin

text \<open>
  Time stamps and their text (\<^verbatim>\<open>include/coring/timestamp.hpp\<close>,
  \<^verbatim>\<open>include/coring/detail/logging/log_timestamp.hpp\<close>).

  A time point of the system clock is a number of nanoseconds since the epoch. \<open>floor\<close> rounds down and
  \<open>duration_cast\<close> towards zero. The calendar of \<open>std::chrono\<close> is the Gregorian one, in which 400 years
  have 146097 days. \<open>snprintf\<close> with a size of \<open>n\<close> writes at most \<open>n - 1\<close> characters and a zero, and
  returns the length the text would have had.
\<close>

section \<open>Dates\<close>

definition leap :: "int \<Rightarrow> bool" where
  "leap y \<longleftrightarrow> 4 dvd y \<and> (\<not> 100 dvd y \<or> 400 dvd y)"

definition month_lengths :: "int \<Rightarrow> nat list" where
  "month_lengths y = [31, if leap y then 29 else 28, 31, 30, 31, 30, 31, 31, 30, 31, 30, 31]"

definition year_length :: "int \<Rightarrow> nat" where
  "year_length y = (if leap y then 366 else 365)"

text \<open>The year and the day in it, of a number of days since the first of January of the year \<open>y\<close>.\<close>

function find_year :: "int \<Rightarrow> nat \<Rightarrow> int \<times> nat" where
  "find_year y n = (if n < year_length y then (y, n) else find_year (y + 1) (n - year_length y))"
  by pat_completeness auto
termination
  by (relation "measure snd") (auto simp: year_length_def)

declare find_year.simps [simp del]

fun find_month :: "nat \<Rightarrow> nat list \<Rightarrow> nat \<Rightarrow> nat \<times> nat" where
  "find_month m [] n = (m, n)"
| "find_month m (l # ls) n = (if n < l then (m, Suc n) else find_month (Suc m) ls (n - l))"

definition civil_from_days :: "int \<Rightarrow> int \<times> nat \<times> nat" where
  "civil_from_days z =
     (case find_year (1970 + 400 * (z div 146097)) (nat (z mod 146097)) of
        (y, doy) \<Rightarrow> (y, find_month 1 (month_lengths y) doy))"

section \<open>timestamp\<close>

definition day_ns :: int where
  "day_ns = 86400000000000"

record timestamp =
  sys_timestamp :: int
  ymd_data :: "int \<times> nat \<times> nat"
  hms_data :: int

text \<open>The constructor from a time point, which that for the current time repeats.\<close>

definition timestamp_new :: "int \<Rightarrow> timestamp" where
  "timestamp_new t =
     \<lparr>sys_timestamp = t, ymd_data = civil_from_days (t div day_ns),
      hms_data = (t - (t sdiv day_ns) * day_ns) sdiv 1000\<rparr>"

definition ts_year :: "timestamp \<Rightarrow> int" where
  "ts_year ts = fst (ymd_data ts)"

definition ts_month :: "timestamp \<Rightarrow> nat" where
  "ts_month ts = fst (snd (ymd_data ts))"

definition ts_day :: "timestamp \<Rightarrow> nat" where
  "ts_day ts = snd (snd (ymd_data ts))"

text \<open>\<open>hh_mm_ss\<close> keeps the sign apart.\<close>

definition ts_hour :: "timestamp \<Rightarrow> int" where
  "ts_hour ts = \<bar>hms_data ts\<bar> div 3600000000"

definition ts_minute :: "timestamp \<Rightarrow> int" where
  "ts_minute ts = \<bar>hms_data ts\<bar> div 60000000 mod 60"

definition ts_second :: "timestamp \<Rightarrow> int" where
  "ts_second ts = \<bar>hms_data ts\<bar> div 1000000 mod 60"

definition ts_microsecond :: "timestamp \<Rightarrow> int" where
  "ts_microsecond ts = \<bar>hms_data ts\<bar> mod 1000000"

definition same_date :: "timestamp \<Rightarrow> timestamp \<Rightarrow> bool" where
  "same_date a b \<longleftrightarrow> sys_timestamp a div day_ns = sys_timestamp b div day_ns"

definition same_second :: "timestamp \<Rightarrow> timestamp \<Rightarrow> bool" where
  "same_second a b \<longleftrightarrow> sys_timestamp a div 1000000000 = sys_timestamp b div 1000000000"

definition ts_minus :: "timestamp \<Rightarrow> timestamp \<Rightarrow> int" where
  "ts_minus a b = (sys_timestamp a - sys_timestamp b) sdiv 1000"

text \<open>The member \<open>swap\<close> exchanges the date of its argument with itself.\<close>

definition ts_swap :: "timestamp \<Rightarrow> timestamp \<Rightarrow> timestamp \<times> timestamp" where
  "ts_swap a b =
     (a\<lparr>sys_timestamp := sys_timestamp b, hms_data := hms_data b\<rparr>,
      b\<lparr>sys_timestamp := sys_timestamp a, hms_data := hms_data a\<rparr>)"

section \<open>log_timestamp\<close>

definition fmt_date_len :: nat where
  "fmt_date_len = 11"

definition fmt_base_time_len :: nat where
  "fmt_base_time_len = 9"

definition fmt_micro_second_len :: nat where
  "fmt_micro_second_len = 8"

definition time_string_len :: nat where
  "time_string_len = fmt_date_len + fmt_base_time_len + fmt_micro_second_len"

definition pad_left :: "char \<Rightarrow> nat \<Rightarrow> string \<Rightarrow> string" where
  "pad_left c n s = replicate (n - length s) c @ s"

definition date_text :: "timestamp \<Rightarrow> string" where
  "date_text ts =
     pad_left (CHR '' '') 4 (itoad (ts_year ts)) @ ''-'' @ pad_left (CHR ''0'') 2 (itoad (int (ts_month ts))) @ ''-'' @
     pad_left (CHR ''0'') 2 (itoad (int (ts_day ts))) @ '' ''"

definition base_time_text :: "timestamp \<Rightarrow> string" where
  "base_time_text ts =
     pad_left (CHR ''0'') 2 (itoad (ts_hour ts)) @ '':'' @ pad_left (CHR ''0'') 2 (itoad (ts_minute ts)) @ '':'' @
     pad_left (CHR ''0'') 2 (itoad (ts_second ts)) @ '' ''"

definition micro_text :: "timestamp \<Rightarrow> string" where
  "micro_text ts = ''.'' @ pad_left (CHR ''0'') 6 (itoad (ts_microsecond ts)) @ '' ''"

text \<open>\<open>snprintf\<close> at a position of an array, and the position behind the text.\<close>

definition snprintf_at :: "char list \<Rightarrow> nat \<Rightarrow> nat \<Rightarrow> string \<Rightarrow> (nat \<times> char list) res" where
  "snprintf_at buf pos n s =
     res_bind (mem_write buf pos (take (n - 1) s @ [CHR 0x00])) (\<lambda>buf. Inr (pos + length s, buf))"

definition format_date_to :: "timestamp \<Rightarrow> char list \<Rightarrow> nat \<Rightarrow> (nat \<times> char list) res" where
  "format_date_to ts buf pos = snprintf_at buf pos (fmt_date_len + 1) (date_text ts)"

definition format_base_time_to :: "timestamp \<Rightarrow> char list \<Rightarrow> nat \<Rightarrow> (nat \<times> char list) res" where
  "format_base_time_to ts buf pos = snprintf_at buf pos (fmt_base_time_len + 1) (base_time_text ts)"

definition format_micro_to :: "timestamp \<Rightarrow> char list \<Rightarrow> nat \<Rightarrow> (nat \<times> char list) res" where
  "format_micro_to ts buf pos = snprintf_at buf pos (fmt_micro_second_len + 1) (micro_text ts)"

definition format_time_to :: "timestamp \<Rightarrow> char list \<Rightarrow> nat \<Rightarrow> (nat \<times> char list) res" where
  "format_time_to ts buf pos =
     res_bind (format_base_time_to ts buf pos) (\<lambda>(n, buf). format_micro_to ts buf n)"

definition format_to :: "timestamp \<Rightarrow> char list \<Rightarrow> nat \<Rightarrow> (nat \<times> char list) res" where
  "format_to ts buf pos =
     res_bind (format_date_to ts buf pos) (\<lambda>(n, buf). format_time_to ts buf n)"

definition to_formatted_string :: "timestamp \<Rightarrow> string res" where
  "to_formatted_string ts =
     res_bind (format_to ts (replicate 40 (CHR 0x00)) 0) (\<lambda>(_, buf).
     Inr (takeWhile (\<lambda>c. c \<noteq> CHR 0x00) buf))"

section \<open>The length of the text\<close>

lemma itoad_nat_length:
  assumes "n < 10 ^ k" and "0 < k"
  shows "length (itoad (int n)) \<le> k"
proof -
  have "int n < 10 ^ k" using assms(1) by (metis of_nat_less_iff of_nat_numeral of_nat_power)
  then have "\<bar>int n\<bar> < 10 ^ k" by simp
  then have "length (itoad_loop (int n) []) \<le> length ([] :: string) + k" using assms(2) by (rule itoad_loop_length)
  then show ?thesis by (simp add: itoad_def Let_def)
qed

lemma pad_left_length:
  assumes "0 \<le> v" and "v < 10 ^ k" and "0 < k"
  shows "length (pad_left c k (itoad v)) = k"
proof -
  have v: "int (nat v) = v" using assms(1) by simp
  have "int (nat v) < int (10 ^ k)" using assms(2) v by simp
  then have "nat v < 10 ^ k" by (simp only: of_nat_less_iff)
  then show ?thesis using itoad_nat_length [of "nat v" k] assms(3) v by (simp add: pad_left_def)
qed

text \<open>Years of four digits.\<close>

definition ts_ok :: "timestamp \<Rightarrow> bool" where
  "ts_ok ts \<longleftrightarrow> (\<exists>t. ts = timestamp_new t) \<and> 0 \<le> ts_year ts \<and> ts_year ts \<le> 9999"

lemma find_year_length: "find_year y n = (y', d) \<Longrightarrow> d < year_length y'"
proof (induction y n rule: find_year.induct)
  case (1 y n)
  show ?case
  proof (cases "n < year_length y")
    case True
    then show ?thesis using "1.prems" by (subst (asm) find_year.simps) simp
  next
    case False
    then have "find_year (y + 1) (n - year_length y) = (y', d)"
      using "1.prems" by (subst (asm) find_year.simps) simp
    then show ?thesis using "1.IH" False by blast
  qed
qed

lemma find_month_bounds:
  "n < sum_list ls \<Longrightarrow> \<forall>l \<in> set ls. l \<le> k \<Longrightarrow> find_month m ls n = (m', d) \<Longrightarrow>
    m \<le> m' \<and> m' < m + length ls \<and> 1 \<le> d \<and> d \<le> k"
proof (induction m ls n rule: find_month.induct)
  case (2 m l ls n)
  then show ?case by (cases "n < l") fastforce+
qed simp

lemma sum_month_lengths: "sum_list (month_lengths y) = year_length y"
  by (simp add: month_lengths_def year_length_def)

lemma civil_bounds:
  assumes "civil_from_days z = (y, m, d)"
  shows "1 \<le> m" "m \<le> 12" "1 \<le> d" "d \<le> 31"
proof -
  obtain y' doy where y: "find_year (1970 + 400 * (z div 146097)) (nat (z mod 146097)) = (y', doy)" by fastforce
  have "find_month 1 (month_lengths y') doy = (m, d)" using assms y by (auto simp: civil_from_days_def)
  moreover have "doy < sum_list (month_lengths y')" using find_year_length [OF y] by (simp add: sum_month_lengths)
  moreover have "\<forall>l \<in> set (month_lengths y'). l \<le> 31" by (simp add: month_lengths_def)
  ultimately have "1 \<le> m \<and> m < 1 + length (month_lengths y') \<and> 1 \<le> d \<and> d \<le> 31" by (rule find_month_bounds [rotated 2])
  then show "1 \<le> m" "m \<le> 12" "1 \<le> d" "d \<le> 31" by (auto simp: month_lengths_def)
qed

lemma hms_bounds: "\<bar>hms_data (timestamp_new t)\<bar> < 86400000000"
proof -
  have "\<bar>t - (t sdiv day_ns) * day_ns\<bar> < day_ns"
    by (auto simp: signed_divide_int_def day_ns_def sgn_if)
  then show ?thesis by (auto simp: timestamp_new_def day_ns_def signed_divide_int_def sgn_if)
qed

lemma text_lengths:
  assumes "ts_ok ts"
  shows "length (date_text ts) = 11" "length (base_time_text ts) = 9" "length (micro_text ts) = 8"
proof -
  obtain t where t: "ts = timestamp_new t" and y: "0 \<le> ts_year ts" "ts_year ts < 10 ^ 4"
    using assms by (auto simp: ts_ok_def)
  obtain yy m d where c: "civil_from_days (t div day_ns) = (yy, m, d)" by (metis prod_cases3)
  have md: "ts_month ts = m" "ts_day ts = d" using c t by (simp_all add: ts_month_def ts_day_def timestamp_new_def)
  have "int m < 10 ^ 2" "int d < 10 ^ 2" using civil_bounds [OF c] by simp_all
  then show "length (date_text ts) = 11"
    using y by (simp add: date_text_def md pad_left_length)
  have "ts_hour ts < 10 ^ 2" "0 \<le> ts_hour ts" using hms_bounds [of t] t by (auto simp: ts_hour_def)
  moreover have "ts_minute ts < 10 ^ 2" "0 \<le> ts_minute ts" "ts_second ts < 10 ^ 2" "0 \<le> ts_second ts"
    by (auto simp: ts_minute_def ts_second_def intro: order_less_trans [OF pos_mod_bound])
  ultimately show "length (base_time_text ts) = 9" by (simp add: base_time_text_def pad_left_length)
  have "ts_microsecond ts < 10 ^ 6" "0 \<le> ts_microsecond ts" by (simp_all add: ts_microsecond_def)
  then show "length (micro_text ts) = 8" by (simp add: micro_text_def pad_left_length)
qed

section \<open>Which parts of the text change\<close>

definition time_text :: "timestamp \<Rightarrow> string" where
  "time_text ts = date_text ts @ base_time_text ts @ micro_text ts"

text \<open>The time points from the epoch on, of a clock that counts nanoseconds in 64 bits.\<close>

definition log_time_ok :: "int \<Rightarrow> bool" where
  "log_time_ok t \<longleftrightarrow> 0 \<le> t \<and> in_long t"

lemma find_year_le: "find_year y n = (y', d) \<Longrightarrow> y \<le> y' \<and> 365 * (y' - y) \<le> int n"
proof (induction y n rule: find_year.induct)
  case (1 y n)
  show ?case
  proof (cases "n < year_length y")
    case True
    then show ?thesis using "1.prems" by (subst (asm) find_year.simps) simp
  next
    case False
    then have "find_year (y + 1) (n - year_length y) = (y', d)"
      using "1.prems" by (subst (asm) find_year.simps) simp
    then have "y + 1 \<le> y' \<and> 365 * (y' - (y + 1)) \<le> int (n - year_length y)" using "1.IH" False by blast
    moreover have "365 \<le> year_length y" by (simp add: year_length_def)
    ultimately show ?thesis using False by (simp add: of_nat_diff)
  qed
qed

lemma log_time_ts_ok:
  assumes "log_time_ok t"
  shows "ts_ok (timestamp_new t)"
proof -
  obtain y d where y: "find_year (1970 + 400 * (t div day_ns div 146097)) (nat (t div day_ns mod 146097)) = (y, d)"
    by fastforce
  have "0 \<le> t div day_ns" "t div day_ns < 146097"
    using assms by (auto simp: log_time_ok_def in_long_def LONG_MAX_def day_ns_def)
  then have "1970 \<le> y" "365 * (y - 1970) \<le> 146097"
    using find_year_le [OF y] by (auto simp: div_pos_pos_trivial mod_pos_pos_trivial)
  then show ?thesis
    using y by (auto simp: ts_ok_def ts_year_def timestamp_new_def civil_from_days_def split: prod.splits)
qed

lemma same_date_text:
  "same_date (timestamp_new t) (timestamp_new t') \<Longrightarrow> date_text (timestamp_new t) = date_text (timestamp_new t')"
  by (simp add: same_date_def date_text_def ts_year_def ts_month_def ts_day_def timestamp_new_def)

lemma hms_seconds:
  assumes "0 \<le> t"
  shows "\<bar>hms_data (timestamp_new t)\<bar> div 1000000 = t div 1000000000 mod 86400"
proof -
  have day: "t - (t sdiv day_ns) * day_ns = t mod day_ns"
    using assms by (simp add: signed_divide_int_def sgn_if day_ns_def minus_div_mult_eq_mod)
  moreover have "0 \<le> t mod day_ns" by (simp add: day_ns_def)
  ultimately have "hms_data (timestamp_new t) = t mod day_ns div 1000"
    by (simp add: timestamp_new_def signed_divide_int_def sgn_if)
  moreover have "0 \<le> t mod day_ns div 1000" by (simp add: day_ns_def)
  then have "\<bar>t mod day_ns div 1000\<bar> = t mod day_ns div 1000" by simp
  moreover have "t mod day_ns div 1000 div 1000000 = t mod day_ns div 1000000000"
    by (simp add: div_mult2_eq [symmetric] zdiv_zmult2_eq [symmetric])
  moreover have "t mod day_ns div 1000000000 = t div 1000000000 mod 86400"
    using zmod_zmult2_eq [of 86400 t 1000000000] by (simp add: day_ns_def)
  ultimately show ?thesis by simp
qed

lemma clock_of_seconds:
  "ts_hour ts = \<bar>hms_data ts\<bar> div 1000000 div 3600"
  "ts_minute ts = \<bar>hms_data ts\<bar> div 1000000 div 60 mod 60"
  by (simp_all add: ts_hour_def ts_minute_def zdiv_zmult2_eq [symmetric])

lemma same_second_text:
  assumes "0 \<le> t" and "0 \<le> t'" and "same_second (timestamp_new t) (timestamp_new t')"
  shows "base_time_text (timestamp_new t) = base_time_text (timestamp_new t')"
proof -
  have "t div 1000000000 = t' div 1000000000" using assms(3) by (simp add: same_second_def timestamp_new_def)
  then show ?thesis
    using hms_seconds [OF assms(1)] hms_seconds [OF assms(2)]
    by (simp add: base_time_text_def clock_of_seconds ts_second_def)
qed

text \<open>A text that fits is written as it is, and the rest of the array is kept.\<close>

lemma snprintf_at_fits:
  "length s = n \<Longrightarrow> pos + n + 1 \<le> length buf \<Longrightarrow>
    snprintf_at buf pos (n + 1) s = Inr (pos + n, take pos buf @ s @ [CHR 0x00] @ drop (pos + n + 1) buf)"
  by (simp add: snprintf_at_def mem_write_def)

end
