(* ===== verification/Logging.thy ===== *)
theory Logging
  imports Timestamp Endpoint Spsc_Ring
begin

text \<open>
  The logging module: the front end (\<^verbatim>\<open>include/coring/logging.hpp\<close>, \<^verbatim>\<open>source/logging/logging.cpp\<close>,
  \<^verbatim>\<open>include/coring/detail/logging/logging-inl.hpp\<close>, \<^verbatim>\<open>include/coring/detail/thread.hpp\<close>), the output
  (\<^verbatim>\<open>source/logging/log_file.cpp\<close>, in the configuration of \<^verbatim>\<open>coring_config.hpp\<close>, which writes to the
  standard output) and the back end (\<^verbatim>\<open>include/coring/async_logger.hpp\<close>,
  \<^verbatim>\<open>source/logging/async_logger.cpp\<close>).

  A thread is known by its kernel id. A \<open>char *\<close> that a message refers to is an address, and the
  argument \<open>m\<close> of the operations is the text that memory has at the addresses at that moment. The
  rings are shared objects: they live in a heap of rings, to which the logger and the thread-local
  pointers refer. The formatting of a message, \<open>fmt::vformat_to\<close>, is the argument \<open>vformat\<close>.
  Messages of other threads come between two rounds of the back end, not within one.
\<close>

section \<open>Levels and file names\<close>

datatype log_level = TRACE | DEBUG | INFO | WARN | ERROR | FATAL | LOG_LEVEL_CNT

fun log_level_num :: "log_level \<Rightarrow> nat" where
  "log_level_num TRACE = 0"
| "log_level_num DEBUG = 1"
| "log_level_num INFO = 2"
| "log_level_num WARN = 3"
| "log_level_num ERROR = 4"
| "log_level_num FATAL = 5"
| "log_level_num LOG_LEVEL_CNT = 6"

definition log_level_map :: "string list" where
  "log_level_map = [''TRACE'', ''DEBUG'', ''INFO '', ''WARN '', ''ERROR'', ''FATAL'']"

record file_name_converter =
  fn_data :: string
  fn_size :: int

text \<open>The constructor from an array of \<open>N\<close> characters, \<open>N - 1\<close> of them the text, and that from a pointer.\<close>

definition file_name_of_array :: "string \<Rightarrow> file_name_converter" where
  "file_name_of_array arr =
     (case strrchr arr (CHR ''/'') of
        None \<Rightarrow> \<lparr>fn_data = arr, fn_size = int (length arr)\<rparr>
      | Some i \<Rightarrow> \<lparr>fn_data = drop (i + 1) arr, fn_size = int (length arr) - int (i + 1)\<rparr>)"

definition file_name_of_pointer :: "string \<Rightarrow> file_name_converter" where
  "file_name_of_pointer filename =
     (let d = (case strrchr filename (CHR ''/'') of None \<Rightarrow> filename | Some i \<Rightarrow> drop (i + 1) filename)
      in \<lparr>fn_data = d, fn_size = int (length d)\<rparr>)"

section \<open>The id of the thread\<close>

record thread_tls =
  t_cached_tid :: int
  t_tid_string_ptr :: string
  t_tid_string_length :: int

definition thread_tls_init :: thread_tls where
  "thread_tls_init = \<lparr>t_cached_tid = 0, t_tid_string_ptr = [], t_tid_string_length = 6\<rparr>"

definition cache_tid :: "int \<Rightarrow> thread_tls \<Rightarrow> thread_tls" where
  "cache_tid gettid tls =
     (if t_cached_tid tls = 0
      then (let s = pad_left (CHR '' '') 5 (itoad gettid) @ '' '' in
            tls\<lparr>t_cached_tid := gettid, t_tid_string_ptr := take 31 s, t_tid_string_length := int (length s)\<rparr>)
      else tls)"

definition thread_tid :: "int \<Rightarrow> thread_tls \<Rightarrow> int \<times> thread_tls" where
  "thread_tid gettid tls =
     (let tls = (if t_cached_tid tls = 0 then cache_tid gettid tls else tls) in (t_cached_tid tls, tls))"

definition tid_string :: "int \<Rightarrow> thread_tls \<Rightarrow> string \<times> thread_tls" where
  "tid_string gettid tls =
     (let tls = (if t_cached_tid tls = 0 then cache_tid gettid tls else tls) in (t_tid_string_ptr tls, tls))"

definition is_main_thread :: "int \<Rightarrow> int \<Rightarrow> thread_tls \<Rightarrow> bool \<times> thread_tls" where
  "is_main_thread getpid gettid tls = (case thread_tid gettid tls of (t, tls) \<Rightarrow> (t = getpid, tls))"

section \<open>The arguments of a message\<close>

text \<open>
  \<open>Char_ptr\<close> is a \<open>char *\<close> or \<open>const char *\<close>, \<open>Literal\<close> an array of constant characters, \<open>Char_array\<close>
  one of characters that may change, \<open>Value\<close> anything that a copy keeps.
\<close>

datatype log_arg = Char_ptr nat | Literal string | Char_array nat | Value int

text \<open>What the tuple keeps: a string of its own, a reference to the literal, a pointer, a copy.\<close>

datatype kept_arg = Kept_string string | Kept_ref string | Kept_ptr nat | Kept_value int

datatype fmt_arg = Fmt_text string | Fmt_int int

fun should_copy :: "log_arg \<Rightarrow> bool" where
  "should_copy (Literal s) = False"
| "should_copy a = True"

fun should_trans :: "log_arg \<Rightarrow> bool" where
  "should_trans (Char_ptr p) = True"
| "should_trans a = False"

fun make_args_tuple :: "(nat \<Rightarrow> string) \<Rightarrow> log_arg list \<Rightarrow> kept_arg list" where
  "make_args_tuple m [] = []"
| "make_args_tuple m (a # as) =
     (if should_copy a
      then (if should_trans a
            then (case a of Char_ptr p \<Rightarrow> [Kept_string (m p)] | _ \<Rightarrow> [])
            else (case a of Char_array p \<Rightarrow> [Kept_ptr p] | Value v \<Rightarrow> [Kept_value v] | _ \<Rightarrow> []))
      else (case a of Literal s \<Rightarrow> [Kept_ref s] | _ \<Rightarrow> [])) @ make_args_tuple m as"

fun kept_text :: "(nat \<Rightarrow> string) \<Rightarrow> kept_arg \<Rightarrow> fmt_arg" where
  "kept_text m (Kept_string s) = Fmt_text s"
| "kept_text m (Kept_ref s) = Fmt_text s"
| "kept_text m (Kept_ptr p) = Fmt_text (m p)"
| "kept_text m (Kept_value v) = Fmt_int v"

type_synonym log_task = "(nat \<Rightarrow> string) \<Rightarrow> string"

definition make_log_task ::
  "(string \<Rightarrow> fmt_arg list \<Rightarrow> string) \<Rightarrow> string \<Rightarrow> log_arg list \<Rightarrow> (nat \<Rightarrow> string) \<Rightarrow> log_task" where
  "make_log_task vformat fmt args m =
     (let t = make_args_tuple m args in (\<lambda>m'. vformat fmt (map (kept_text m') t)))"

section \<open>The output\<close>

text \<open>
  \<open>lf_stdout\<close> is what was written to the standard output, of which \<open>fflush\<close> has passed on the first
  \<open>lf_flushed\<close> characters. The constructor prints its argument after it has moved it away, when its value
  is not specified: it is the argument \<open>moved\<close>.
\<close>

record log_file =
  lf_name :: string
  lf_roll_size :: int
  lf_stdout :: string
  lf_flushed :: nat

definition k_file_roll_size :: int where
  "k_file_roll_size = 40 * 1024 * 1024"

definition log_file_banner :: "string \<Rightarrow> string" where
  "log_file_banner moved =
     ''Async Logger started, using stdout as output, log name: '' @ [CHR 0x00] @ moved @ [CHR 0x0A]"

definition log_file_new :: "string \<Rightarrow> string \<Rightarrow> log_file" where
  "log_file_new moved name =
     \<lparr>lf_name = name, lf_roll_size = k_file_roll_size, lf_stdout = log_file_banner moved, lf_flushed = 0\<rparr>"

definition roll_file :: "log_file \<Rightarrow> log_file" where
  "roll_file f = f"

definition log_file_append :: "string \<Rightarrow> log_file \<Rightarrow> log_file" where
  "log_file_append s f = f\<lparr>lf_stdout := lf_stdout f @ s\<rparr>"

definition log_file_force_flush :: "log_file \<Rightarrow> log_file" where
  "log_file_force_flush f = f\<lparr>lf_flushed := length (lf_stdout f)\<rparr>"

section \<open>The back end: entries and lines\<close>

record log_entry =
  lge_file :: file_name_converter
  lge_line :: int
  lge_lv :: log_level
  lge_ts :: int
  lge_pid_string :: string

type_synonym log_ring_entry = "log_task \<times> log_entry"

definition pid_string_len :: nat where
  "pid_string_len = 6"

definition log_entry_new :: "file_name_converter \<Rightarrow> int \<Rightarrow> log_level \<Rightarrow> string \<Rightarrow> int \<Rightarrow> log_entry" where
  "log_entry_new f line lv pid now =
     \<lparr>lge_file = f, lge_line = line, lge_lv = lv, lge_ts = now, lge_pid_string = pid\<rparr>"

text \<open>A default-constructed element of the vector that \<open>batch_out\<close> fills.\<close>

definition log_ring_entry_default :: log_ring_entry where
  "log_ring_entry_default = (\<lambda>_. [], log_entry_new \<lparr>fn_data = [], fn_size = 0\<rparr> 0 TRACE [] 0)"

definition k_max_buffer :: nat where
  "k_max_buffer = 1000 * 4000"

definition suggested_single_log_max_len :: nat where
  "suggested_single_log_max_len = 500"

definition ring_buffer_size :: size_t where
  "ring_buffer_size = 8192"

text \<open>The size of an element: a \<open>std::function\<close> and the entry.\<close>

definition sizeof_log_ring_entry :: nat where
  "sizeof_log_ring_entry = 72"

record async_logger =
  al_stop_requested :: bool
  al_signal :: bool
  al_force_flush :: bool
  al_log_rings :: "nat list"
  al_writing_buffer :: string
  al_last_time :: timestamp
  al_time_buffer :: "char list"
  al_output_file :: log_file

definition time_end :: "(nat \<times> char list) res \<Rightarrow> async_logger \<Rightarrow> async_logger res" where
  "time_end r a =
     res_bind r (\<lambda>(end', buf).
     if end' = time_string_len then Inr (a\<lparr>al_time_buffer := buf\<rparr>) else Inl Assert_failed)"

definition update_datetime_all :: "async_logger \<Rightarrow> async_logger res" where
  "update_datetime_all a = time_end (format_to (al_last_time a) (al_time_buffer a) 0) a"

definition update_datetime_time :: "async_logger \<Rightarrow> async_logger res" where
  "update_datetime_time a = time_end (format_time_to (al_last_time a) (al_time_buffer a) fmt_date_len) a"

definition update_datetime_micro :: "async_logger \<Rightarrow> async_logger res" where
  "update_datetime_micro a =
     time_end (format_micro_to (al_last_time a) (al_time_buffer a) (fmt_date_len + fmt_base_time_len)) a"

definition update_datetime :: "timestamp \<Rightarrow> async_logger \<Rightarrow> async_logger res" where
  "update_datetime ts a =
     (let ts' = al_last_time a; a = a\<lparr>al_last_time := ts\<rparr> in
      if same_date ts' (al_last_time a)
      then (if same_second ts' (al_last_time a) then update_datetime_micro a else update_datetime_time a)
      else update_datetime_all a)"

definition write_chars :: "string res \<Rightarrow> async_logger \<Rightarrow> async_logger res" where
  "write_chars r a = res_bind r (\<lambda>s. Inr (a\<lparr>al_writing_buffer := al_writing_buffer a @ s\<rparr>))"

definition write_datetime :: "async_logger \<Rightarrow> async_logger res" where
  "write_datetime a = write_chars (mem_read (al_time_buffer a) 0 time_string_len) a"

definition write_pid :: "log_entry \<Rightarrow> async_logger \<Rightarrow> async_logger res" where
  "write_pid e = write_chars (mem_read (lge_pid_string e) 0 pid_string_len)"

definition write_level :: "log_entry \<Rightarrow> async_logger \<Rightarrow> async_logger res" where
  "write_level e =
     (let i = log_level_num (lge_lv e) in
      write_chars (if i < length log_level_map then mem_read (log_level_map ! i) 0 5 else Inl Out_of_bounds))"

definition write_prefix :: "log_entry \<Rightarrow> async_logger \<Rightarrow> async_logger res" where
  "write_prefix e a =
     res_bind (write_datetime a) (\<lambda>a. res_bind (write_pid e a) (write_level e))"

definition write_space :: "async_logger \<Rightarrow> async_logger res" where
  "write_space = write_chars (Inr '' '')"

definition write_filename :: "log_entry \<Rightarrow> async_logger \<Rightarrow> async_logger res" where
  "write_filename e =
     write_chars (if fn_size (lge_file e) < 0 then Inl Out_of_bounds
                  else mem_read (fn_data (lge_file e)) 0 (nat (fn_size (lge_file e))))"

text \<open>One pass of the loop over the backlog.\<close>

definition write_backlog :: "(nat \<Rightarrow> string) \<Rightarrow> log_ring_entry \<Rightarrow> async_logger \<Rightarrow> async_logger res" where
  "write_backlog m h a =
     res_bind (update_datetime (timestamp_new (lge_ts (snd h))) a) (\<lambda>a.
     res_bind (write_prefix (snd h) a) (\<lambda>a.
     res_bind (write_space a) (\<lambda>a.
     res_bind (write_filename (snd h) a) (\<lambda>a.
     res_bind (write_chars (Inr ('':'' @ itoad (lge_line (snd h)) @ '' '')) a) (\<lambda>a.
     write_chars (Inr (fst h m)) a)))))"

fun write_backlogs :: "(nat \<Rightarrow> string) \<Rightarrow> log_ring_entry list \<Rightarrow> async_logger \<Rightarrow> async_logger res" where
  "write_backlogs m [] a = Inr a"
| "write_backlogs m (h # hs) a = res_bind (write_backlog m h a) (write_backlogs m hs)"

section \<open>The back end: rounds\<close>

text \<open>The inner loop of \<open>poll\<close>, over the rings.\<close>

fun sweep_rings ::
  "nat list \<Rightarrow> log_ring_entry spsc_ring list \<Rightarrow> log_ring_entry list \<Rightarrow> bool \<Rightarrow>
   (bool \<times> log_ring_entry list \<times> log_ring_entry spsc_ring list) res" where
  "sweep_rings [] rs backlogs nothing = Inr (nothing, backlogs, rs)"
| "sweep_rings (p # ps) rs backlogs nothing =
     (if p < length rs
      then res_bind (batch_out log_ring_entry_default backlogs (rs ! p)) (\<lambda>(got, backlogs, r).
           sweep_rings ps (rs[p := r]) backlogs (if got then False else nothing))
      else Inl Undefined_object)"

partial_function (option) poll_loop ::
  "log_ring_entry spsc_ring list \<Rightarrow> log_ring_entry list \<Rightarrow> async_logger \<Rightarrow>
   (log_ring_entry list \<times> log_ring_entry spsc_ring list \<times> async_logger) res option" where
  "poll_loop rs backlogs a =
     ores_bind (Some (sweep_rings (al_log_rings a) rs backlogs True)) (\<lambda>(nothing, backlogs, rs).
     if nothing \<or> al_signal a \<or> al_force_flush a then Some (Inr (backlogs, rs, a\<lparr>al_signal := False\<rparr>))
     else if al_stop_requested a then Some (Inr (backlogs, rs, a))
     else poll_loop rs backlogs a)"

text \<open>The writing to the file at the end of \<open>poll\<close>.\<close>

definition poll_flush :: "async_logger \<Rightarrow> async_logger" where
  "poll_flush a =
     (if al_force_flush a \<or> k_max_buffer - suggested_single_log_max_len \<le> length (al_writing_buffer a)
      then (let a = a\<lparr>al_output_file := log_file_append (al_writing_buffer a) (al_output_file a)\<rparr>;
                a = (if al_force_flush a
                     then a\<lparr>al_output_file := log_file_force_flush (al_output_file a), al_force_flush := False\<rparr>
                     else a)
            in a\<lparr>al_writing_buffer := []\<rparr>)
      else a)"

definition poll ::
  "(nat \<Rightarrow> string) \<Rightarrow> log_ring_entry spsc_ring list \<Rightarrow> async_logger \<Rightarrow>
   (log_ring_entry spsc_ring list \<times> async_logger) res option" where
  "poll m rs a =
     ores_bind (poll_loop rs [] a) (\<lambda>(backlogs, rs, a).
     if backlogs = [] \<and> al_writing_buffer a = [] then Some (Inr (rs, a))
     else Some (res_bind (write_backlogs m backlogs a) (\<lambda>a. Inr (rs, poll_flush a))))"

section \<open>The program with its logger\<close>

record log_world =
  LOG_LEVEL :: log_level
  lw_tls :: "int \<Rightarrow> thread_tls"
  lw_rings :: "log_ring_entry spsc_ring list"
  lw_local_ring :: "int \<Rightarrow> nat option"
  lw_logger :: "async_logger option"

definition log_world_init :: log_world where
  "log_world_init =
     \<lparr>LOG_LEVEL = LOG_LEVEL_CNT, lw_tls = (\<lambda>_. thread_tls_init), lw_rings = [], lw_local_ring = (\<lambda>_. None),
      lw_logger = None\<rparr>"

definition set_log_level :: "log_level \<Rightarrow> log_world \<Rightarrow> log_world" where
  "set_log_level l w = w\<lparr>LOG_LEVEL := l\<rparr>"

definition SHOULD_EMIT :: "log_level \<Rightarrow> log_world \<Rightarrow> bool" where
  "SHOULD_EMIT x w = (if log_level_num (LOG_LEVEL w) \<le> log_level_num x then True else False)"

text \<open>The constructor of \<open>async_logger\<close>, which becomes the one logger of the program.\<close>

definition async_logger_new :: "int \<Rightarrow> string \<Rightarrow> string \<Rightarrow> log_world \<Rightarrow> log_world res" where
  "async_logger_new now moved file_name w =
     (let a = \<lparr>al_stop_requested = False, al_signal = False, al_force_flush = False, al_log_rings = [],
               al_writing_buffer = [], al_last_time = timestamp_new now,
               al_time_buffer = replicate (time_string_len + 1) (CHR 0x00),
               al_output_file = log_file_new moved file_name\<rparr>
      in res_bind (update_datetime_all a) (\<lambda>a.
         Inr (w\<lparr>lw_logger := Some (a\<lparr>al_time_buffer := (al_time_buffer a)[time_string_len - 1 := CHR 0x00]\<rparr>)\<rparr>)))"

text \<open>\<open>append\<close> by the thread \<open>t\<close>; a full ring makes it wait, for the values of the read index in \<open>views\<close>.\<close>

definition log_ring_of :: "int \<Rightarrow> async_logger \<Rightarrow> log_world \<Rightarrow> (nat \<times> log_world) res" where
  "log_ring_of t a w =
     (case lw_local_ring w t of
        Some p \<Rightarrow> Inr (p, w)
      | None \<Rightarrow>
          res_bind (spsc_ring_new sizeof_log_ring_entry ring_buffer_size) (\<lambda>r.
          let p = length (lw_rings w) in
          Inr (p, w\<lparr>lw_rings := lw_rings w @ [r], lw_local_ring := (lw_local_ring w)(t \<mapsto> p),
                    lw_logger := Some (a\<lparr>al_log_rings := al_log_rings a @ [p], al_signal := True\<rparr>)\<rparr>)))"

definition async_logger_append ::
  "size_t list \<Rightarrow> int \<Rightarrow> log_ring_entry \<Rightarrow> log_world \<Rightarrow> log_world res option" where
  "async_logger_append views t h w =
     (case lw_logger w of
        None \<Rightarrow> Some (Inl Null_deref)
      | Some a \<Rightarrow>
          ores_bind (Some (log_ring_of t a w)) (\<lambda>(p, w).
          if p < length (lw_rings w)
          then ores_bind (Spsc_Ring.emplace_back views h (lw_rings w ! p)) (\<lambda>r.
               Some (Inr (w\<lparr>lw_rings := (lw_rings w)[p := r]\<rparr>)))
          else Some (Inl Undefined_object)))"

text \<open>The statement that \<open>LOG_INFO\<close> and its like expand to, in the thread \<open>t\<close>.\<close>

record log_call =
  lc_thread :: int
  lc_level :: log_level
  lc_file :: string
  lc_line :: int
  lc_fmt :: string
  lc_args :: "log_arg list"
  lc_now :: int

definition log_call_entry ::
  "(string \<Rightarrow> fmt_arg list \<Rightarrow> string) \<Rightarrow> (nat \<Rightarrow> string) \<Rightarrow> log_call \<Rightarrow> string \<Rightarrow> log_ring_entry" where
  "log_call_entry vformat m c pid =
     (make_log_task vformat (lc_fmt c @ [CHR 0x0A]) (lc_args c) m,
      log_entry_new (file_name_of_array (lc_file c)) (lc_line c) (lc_level c) pid (lc_now c))"

definition log_emit ::
  "(string \<Rightarrow> fmt_arg list \<Rightarrow> string) \<Rightarrow> (nat \<Rightarrow> string) \<Rightarrow> size_t list \<Rightarrow> log_call \<Rightarrow> log_world \<Rightarrow>
   log_world res option" where
  "log_emit vformat m views c w =
     (if SHOULD_EMIT (lc_level c) w
      then (case tid_string (lc_thread c) (lw_tls w (lc_thread c)) of (pid, tls) \<Rightarrow>
            async_logger_append views (lc_thread c) (log_call_entry vformat m c pid)
              (w\<lparr>lw_tls := (lw_tls w)(lc_thread c := tls)\<rparr>))
      else Some (Inr w))"

text \<open>\<open>stop\<close> up to the point where it waits for the thread of the back end.\<close>

definition async_logger_stop :: "async_logger \<Rightarrow> async_logger" where
  "async_logger_stop a = a\<lparr>al_stop_requested := True, al_force_flush := True\<rparr>"

definition world_poll :: "(nat \<Rightarrow> string) \<Rightarrow> log_world \<Rightarrow> log_world res option" where
  "world_poll m w =
     (case lw_logger w of
        None \<Rightarrow> Some (Inl Null_deref)
      | Some a \<Rightarrow>
          ores_bind (poll m (lw_rings w) a) (\<lambda>(rs, a). Some (Inr (w\<lparr>lw_rings := rs, lw_logger := Some a\<rparr>))))"

definition on_logger :: "(async_logger \<Rightarrow> async_logger) \<Rightarrow> log_world \<Rightarrow> log_world res option" where
  "on_logger f w =
     (case lw_logger w of None \<Rightarrow> Some (Inl Null_deref) | Some a \<Rightarrow> Some (Inr (w\<lparr>lw_logger := Some (f a)\<rparr>)))"

text \<open>
  What the other threads do while the back end waits: they log, each looking at the read index of its
  ring once, or stop the logger.
\<close>

datatype log_act = Log_call "nat \<Rightarrow> string" log_call | Log_stop

definition local_views :: "int \<Rightarrow> log_world \<Rightarrow> size_t list" where
  "local_views t w = (case lw_local_ring w t of None \<Rightarrow> [0] | Some p \<Rightarrow> [r_index_read (lw_rings w ! p)])"

fun log_acts ::
  "(string \<Rightarrow> fmt_arg list \<Rightarrow> string) \<Rightarrow> log_act list \<Rightarrow> log_world \<Rightarrow> log_world res option" where
  "log_acts vformat [] w = Some (Inr w)"
| "log_acts vformat (Log_call m c # as) w =
     ores_bind (log_emit vformat m (local_views (lc_thread c) w) c w) (log_acts vformat as)"
| "log_acts vformat (Log_stop # as) w = ores_bind (on_logger async_logger_stop w) (log_acts vformat as)"

text \<open>
  \<open>logging_loop\<close>: in every round \<open>poll\<close> with the memory \<open>m\<close> of that moment, then the wait, in which the
  other threads act. \<open>None\<close> means that it still runs after the last of the given rounds.
\<close>

definition logging_finish :: "(nat \<Rightarrow> string) \<Rightarrow> log_world \<Rightarrow> log_world res option" where
  "logging_finish m w =
     ores_bind (on_logger (\<lambda>a. a\<lparr>al_force_flush := True\<rparr>) w) (\<lambda>w.
     ores_bind (world_poll m w)
       (on_logger (\<lambda>a. a\<lparr>al_output_file := log_file_force_flush (al_output_file a)\<rparr>)))"

fun logging_loop ::
  "(string \<Rightarrow> fmt_arg list \<Rightarrow> string) \<Rightarrow> (nat \<Rightarrow> string) \<Rightarrow> ((nat \<Rightarrow> string) \<times> log_act list) list \<Rightarrow> log_world \<Rightarrow>
   log_world res option" where
  "logging_loop vformat mf [] w =
     (case lw_logger w of
        Some a \<Rightarrow> (if al_stop_requested a then logging_finish mf w else None)
      | None \<Rightarrow> Some (Inl Null_deref))"
| "logging_loop vformat mf ((m, acts) # rounds) w =
     (case lw_logger w of
        Some a \<Rightarrow>
          (if al_stop_requested a then logging_finish mf w
           else ores_bind (world_poll m w) (\<lambda>w.
                ores_bind (log_acts vformat acts w) (\<lambda>w.
                ores_bind (on_logger (\<lambda>a. a\<lparr>al_force_flush := True\<rparr>) w) (logging_loop vformat mf rounds))))
      | None \<Rightarrow> Some (Inl Null_deref))"

text \<open>The destructor, after the thread has ended.\<close>

definition async_logger_delete :: "log_world \<Rightarrow> (string \<times> log_world) res option" where
  "async_logger_delete w =
     (case lw_logger w of
        None \<Rightarrow> Some (Inl Null_deref)
      | Some a \<Rightarrow>
          Some (Inr (lf_stdout (log_file_force_flush (al_output_file a)), w\<lparr>lw_logger := None\<rparr>)))"

section \<open>The time of a line\<close>

text \<open>
  What the time buffer keeps from one line to the next: the date and the time of the last line, up to the
  second.
\<close>

definition time_inv :: "async_logger \<Rightarrow> bool" where
  "time_inv a \<longleftrightarrow>
     (\<exists>t. log_time_ok t \<and> al_last_time a = timestamp_new t) \<and> length (al_time_buffer a) = time_string_len + 1 \<and>
     take 20 (al_time_buffer a) = date_text (al_last_time a) @ base_time_text (al_last_time a)"

lemmas time_lens = time_string_len_def fmt_date_len_def fmt_base_time_len_def fmt_micro_second_len_def

lemma format_micro_all:
  assumes "length buf = 29" and "ts_ok ts" and "take 20 buf = date_text ts @ base_time_text ts"
  shows "format_micro_to ts buf 20 = Inr (28, time_text ts @ [CHR 0x00])"
  using snprintf_at_fits [of "micro_text ts" 8 20 buf] assms text_lengths [OF assms(2)]
  by (simp add: format_micro_to_def time_text_def time_lens)

lemma format_time_all:
  assumes "length buf = 29" and "ts_ok ts" and "take 11 buf = date_text ts"
  shows "format_time_to ts buf 11 = Inr (28, time_text ts @ [CHR 0x00])"
  using snprintf_at_fits [of "base_time_text ts" 9 11 buf] assms text_lengths [OF assms(2)]
  by (simp add: format_time_to_def format_base_time_to_def time_lens format_micro_all)

lemma format_all:
  assumes "length buf = 29" and "ts_ok ts"
  shows "format_to ts buf 0 = Inr (28, time_text ts @ [CHR 0x00])"
  using snprintf_at_fits [of "date_text ts" 11 0 buf] assms text_lengths [OF assms(2)]
  by (simp add: format_to_def format_date_to_def time_lens format_time_all)

lemma time_inv_written:
  assumes "log_time_ok t"
  shows "time_inv (a\<lparr>al_last_time := timestamp_new t, al_time_buffer := time_text (timestamp_new t) @ [CHR 0x00]\<rparr>)"
  using assms text_lengths [OF log_time_ts_ok [OF assms]] by (auto simp: time_inv_def time_text_def time_lens)

lemma time_inv_frame [simp]:
  "time_inv (a\<lparr>al_writing_buffer := b\<rparr>) = time_inv a"
  "time_inv (a\<lparr>al_signal := c\<rparr>) = time_inv a"
  "time_inv (a\<lparr>al_force_flush := c\<rparr>) = time_inv a"
  "time_inv (a\<lparr>al_stop_requested := c\<rparr>) = time_inv a"
  "time_inv (a\<lparr>al_output_file := f\<rparr>) = time_inv a"
  "time_inv (a\<lparr>al_log_rings := ps\<rparr>) = time_inv a"
  by (simp_all add: time_inv_def)

text \<open>Rewriting only what has changed gives the text that formatting everything gives.\<close>

lemma update_datetime_time_text:
  assumes inv: "time_inv a" and t: "log_time_ok t"
  shows "update_datetime (timestamp_new t) a =
    Inr (a\<lparr>al_last_time := timestamp_new t, al_time_buffer := time_text (timestamp_new t) @ [CHR 0x00]\<rparr>)"
proof -
  let ?ts = "timestamp_new t" and ?buf = "al_time_buffer a"
  obtain t' where t': "log_time_ok t'" "al_last_time a = timestamp_new t'" and len: "length ?buf = 29"
    and pre: "take 20 ?buf = date_text (timestamp_new t') @ base_time_text (timestamp_new t')"
    using inv by (auto simp: time_inv_def time_lens)
  note ok = log_time_ts_ok [OF t] and lens = text_lengths [OF log_time_ts_ok [OF t'(1)]]
  have pos: "0 \<le> t" "0 \<le> t'" using t t'(1) by (simp_all add: log_time_ok_def)
  have "take 11 ?buf = take 11 (take 20 ?buf)" by simp
  also have "\<dots> = date_text (timestamp_new t')" using pre lens by simp
  finally have date: "take 11 ?buf = date_text (timestamp_new t')" .
  show ?thesis
  proof (cases "same_date (timestamp_new t') ?ts")
    case True
    note d = same_date_text [OF True]
    show ?thesis
    proof (cases "same_second (timestamp_new t') ?ts")
      case s: True
      have "take 20 ?buf = date_text ?ts @ base_time_text ?ts" using pre d same_second_text [OF pos(2,1) s] by simp
      then show ?thesis
        using True s t' format_micro_all [OF len ok]
        by (simp add: update_datetime_def update_datetime_micro_def time_end_def time_lens)
    next
      case s: False
      then show ?thesis
        using True t' format_time_all [OF len ok] date d
        by (simp add: update_datetime_def update_datetime_time_def time_end_def time_lens)
    qed
  next
    case False
    then show ?thesis
      using t' format_all [OF len ok]
      by (simp add: update_datetime_def update_datetime_all_def time_end_def time_lens)
  qed
qed

section \<open>The text of a line\<close>

definition entry_ok :: "log_entry \<Rightarrow> bool" where
  "entry_ok e \<longleftrightarrow>
     lge_lv e \<noteq> LOG_LEVEL_CNT \<and> log_time_ok (lge_ts e) \<and> pid_string_len \<le> length (lge_pid_string e) \<and>
     0 \<le> fn_size (lge_file e) \<and> fn_size (lge_file e) \<le> int (length (fn_data (lge_file e)))"

definition log_line :: "(nat \<Rightarrow> string) \<Rightarrow> log_ring_entry \<Rightarrow> string" where
  "log_line m h =
     time_text (timestamp_new (lge_ts (snd h))) @ take 6 (lge_pid_string (snd h)) @
     log_level_map ! log_level_num (lge_lv (snd h)) @ '' '' @
     take (nat (fn_size (lge_file (snd h)))) (fn_data (lge_file (snd h))) @ '':'' @ itoad (lge_line (snd h)) @ '' '' @
     fst h m"

lemma log_level_text:
  "l \<noteq> LOG_LEVEL_CNT \<Longrightarrow> log_level_num l < length log_level_map \<and> length (log_level_map ! log_level_num l) = 5"
  by (cases l) (simp_all add: log_level_map_def)

lemma write_backlog_line:
  assumes "time_inv a" and "entry_ok (snd h)"
  shows "write_backlog m h a =
    Inr (a\<lparr>al_last_time := timestamp_new (lge_ts (snd h)),
           al_time_buffer := time_text (timestamp_new (lge_ts (snd h))) @ [CHR 0x00],
           al_writing_buffer := al_writing_buffer a @ log_line m h\<rparr>)"
proof -
  let ?e = "snd h" and ?t = "lge_ts (snd h)"
  have t: "log_time_ok ?t" and lv: "lge_lv ?e \<noteq> LOG_LEVEL_CNT" using assms(2) by (simp_all add: entry_ok_def)
  have len: "length (time_text (timestamp_new ?t)) = time_string_len"
    using text_lengths [OF log_time_ts_ok [OF t]] by (simp add: time_text_def time_lens)
  have "update_datetime (timestamp_new ?t) a =
      Inr (a\<lparr>al_last_time := timestamp_new ?t, al_time_buffer := time_text (timestamp_new ?t) @ [CHR 0x00]\<rparr>)"
    by (rule update_datetime_time_text [OF assms(1) t])
  then show ?thesis
    using assms(2) log_level_text [OF lv] len
    by (simp add: write_backlog_def write_prefix_def write_datetime_def write_pid_def write_level_def
        write_space_def write_filename_def write_chars_def mem_read_def entry_ok_def pid_string_len_def
        log_line_def nat_le_iff)
qed

lemma write_backlogs_lines:
  "time_inv a \<Longrightarrow> \<forall>h \<in> set hs. entry_ok (snd h) \<Longrightarrow>
    \<exists>t buf. write_backlogs m hs a =
      Inr (a\<lparr>al_last_time := t, al_time_buffer := buf,
             al_writing_buffer := al_writing_buffer a @ concat (map (log_line m) hs)\<rparr>) \<and>
      time_inv (a\<lparr>al_last_time := t, al_time_buffer := buf\<rparr>)"
proof (induction hs arbitrary: a)
  case Nil
  show ?case by (rule exI [of _ "al_last_time a"], rule exI [of _ "al_time_buffer a"]) (simp add: Nil)
next
  case (Cons h hs)
  let ?a = "a\<lparr>al_last_time := timestamp_new (lge_ts (snd h)),
    al_time_buffer := time_text (timestamp_new (lge_ts (snd h))) @ [CHR 0x00],
    al_writing_buffer := al_writing_buffer a @ log_line m h\<rparr>"
  have "time_inv ?a" using time_inv_written [of "lge_ts (snd h)" a] Cons.prems by (simp add: entry_ok_def)
  then obtain t buf where "write_backlogs m hs ?a =
      Inr (?a\<lparr>al_last_time := t, al_time_buffer := buf,
             al_writing_buffer := al_writing_buffer ?a @ concat (map (log_line m) hs)\<rparr>)"
    "time_inv (?a\<lparr>al_last_time := t, al_time_buffer := buf\<rparr>)"
    using Cons.IH [of ?a] Cons.prems by auto
  moreover from this(2) have "time_inv (a\<lparr>al_last_time := t, al_time_buffer := buf\<rparr>)" by (simp add: time_inv_def)
  ultimately show ?case
    using write_backlog_line [of a h m] Cons.prems
    by - (rule exI [of _ t], rule exI [of _ buf], simp)
qed

section \<open>A round of the back end\<close>

text \<open>The rings that the back end reads: distinct, alive, of the size the logger gives them.\<close>

definition log_ring_ok :: "log_ring_entry spsc_ring \<Rightarrow> bool" where
  "log_ring_ok r \<longleftrightarrow>
     ring_inv r \<and> unat (r_mask r) = 8191 \<and> (\<forall>h \<in> set (items r). entry_ok (snd h) \<and> (\<forall>m m'. fst h m = fst h m'))"

definition rings_ok :: "nat list \<Rightarrow> log_ring_entry spsc_ring list \<Rightarrow> bool" where
  "rings_ok ps rs \<longleftrightarrow> distinct ps \<and> (\<forall>p \<in> set ps. p < length rs \<and> log_ring_ok (rs ! p))"

definition waiting :: "nat list \<Rightarrow> log_ring_entry spsc_ring list \<Rightarrow> log_ring_entry list" where
  "waiting ps rs = concat (map (\<lambda>p. items (rs ! p)) ps)"

lemma log_ring_out:
  assumes "log_ring_ok r"
  obtains r' where "batch_out log_ring_entry_default v r = Inr (items r \<noteq> [], v @ items r, r')"
    and "log_ring_ok r'" and "items r' = []"
proof -
  obtain r' where r': "batch_out log_ring_entry_default v r = Inr (items r \<noteq> [], v @ items r, r')"
      "ring_inv r'" "items r' = []"
    using batch_out_all [of r log_ring_entry_default v] assms by (auto simp: log_ring_ok_def)
  then have "log_ring_ok r'" using batch_out_mask [OF r'(1)] assms by (simp add: log_ring_ok_def)
  then show ?thesis using that r' by blast
qed

lemma waiting_cong: "(\<And>p. p \<in> set ps \<Longrightarrow> rs ! p = rs' ! p) \<Longrightarrow> waiting ps rs = waiting ps rs'"
  by (simp add: waiting_def cong: map_cong)

lemma sweep_rings_all:
  "rings_ok ps rs \<Longrightarrow>
    \<exists>rs'. sweep_rings ps rs v e = Inr (e \<and> waiting ps rs = [], v @ waiting ps rs, rs') \<and>
      length rs' = length rs \<and> rings_ok ps rs' \<and> (\<forall>p \<in> set ps. items (rs' ! p) = []) \<and>
      (\<forall>p. p \<notin> set ps \<longrightarrow> rs' ! p = rs ! p)"
proof (induction ps arbitrary: rs v e)
  case Nil
  then show ?case by (simp add: waiting_def)
next
  case (Cons p ps)
  have p: "p < length rs" "p \<notin> set ps" "log_ring_ok (rs ! p)" using Cons.prems by (simp_all add: rings_ok_def)
  obtain r where r: "batch_out log_ring_entry_default v (rs ! p) = Inr (items (rs ! p) \<noteq> [], v @ items (rs ! p), r)"
      "log_ring_ok r" "items r = []"
    using log_ring_out [OF p(3)] by blast
  let ?rs = "rs[p := r]" and ?e = "e \<and> items (rs ! p) = []"
  have ok: "rings_ok ps ?rs" using Cons.prems p(2) by (auto simp: rings_ok_def nth_list_update)
  have w: "waiting ps ?rs = waiting ps rs" using p(2) by (intro waiting_cong) (metis nth_list_update_neq)
  obtain rs' where rs': "sweep_rings ps ?rs (v @ items (rs ! p)) ?e =
      Inr (?e \<and> waiting ps rs = [], (v @ items (rs ! p)) @ waiting ps rs, rs')"
      "length rs' = length ?rs" "rings_ok ps rs'" "\<forall>q \<in> set ps. items (rs' ! q) = []"
      "\<forall>q. q \<notin> set ps \<longrightarrow> rs' ! q = ?rs ! q"
    using Cons.IH [OF ok, of "v @ items (rs ! p)" ?e] w by auto
  have "sweep_rings (p # ps) rs v e = sweep_rings ps ?rs (v @ items (rs ! p)) ?e"
    using p(1) r(1) by (cases "items (rs ! p) = []") simp_all
  moreover have "rs' ! p = r" using rs'(5) p by simp
  ultimately show ?case
    using rs' p r(2,3) Cons.prems
    by (intro exI [of _ rs']) (auto simp: waiting_def rings_ok_def nth_list_update)
qed

lemma waiting_empty: "\<forall>p \<in> set ps. items (rs ! p) = [] \<Longrightarrow> waiting ps rs = []"
  by (simp add: waiting_def)

text \<open>The loop ends after at most two sweeps, with everything that was waiting.\<close>

lemma poll_loop_all:
  assumes "rings_ok (al_log_rings a) rs"
  shows "\<exists>rs'. poll_loop rs v a = Some (Inr (v @ waiting (al_log_rings a) rs, rs', a\<lparr>al_signal := False\<rparr>)) \<and>
    length rs' = length rs \<and> rings_ok (al_log_rings a) rs' \<and> (\<forall>p \<in> set (al_log_rings a). items (rs' ! p) = []) \<and>
    (\<forall>p. p \<notin> set (al_log_rings a) \<longrightarrow> rs' ! p = rs ! p)"
proof -
  let ?ps = "al_log_rings a"
  obtain r1 where r1: "sweep_rings ?ps rs v True = Inr (waiting ?ps rs = [], v @ waiting ?ps rs, r1)"
      "length r1 = length rs" "rings_ok ?ps r1" "\<forall>p \<in> set ?ps. items (r1 ! p) = []"
      "\<forall>p. p \<notin> set ?ps \<longrightarrow> r1 ! p = rs ! p"
    using sweep_rings_all [OF assms, of v True] by auto
  obtain r2 where r2: "sweep_rings ?ps r1 (v @ waiting ?ps rs) True = Inr (True, v @ waiting ?ps rs, r2)"
      "length r2 = length r1" "rings_ok ?ps r2" "\<forall>p \<in> set ?ps. items (r2 ! p) = []"
      "\<forall>p. p \<notin> set ?ps \<longrightarrow> r2 ! p = r1 ! p"
    using sweep_rings_all [OF r1(3), of "v @ waiting ?ps rs" True] waiting_empty [OF r1(4)] by auto
  have two: "poll_loop r1 (v @ waiting ?ps rs) a = Some (Inr (v @ waiting ?ps rs, r2, a\<lparr>al_signal := False\<rparr>))"
    using r2(1) by (subst poll_loop.simps) simp
  show ?thesis
  proof (cases "waiting ?ps rs = [] \<or> al_signal a \<or> al_force_flush a \<or> al_stop_requested a")
    case True
    then have "poll_loop rs v a = Some (Inr (v @ waiting ?ps rs, r1, a\<lparr>al_signal := False\<rparr>))"
      using r1(1) by (subst poll_loop.simps) (auto intro: async_logger.equality)
    then show ?thesis using r1 by blast
  next
    case False
    then have "poll_loop rs v a = Some (Inr (v @ waiting ?ps rs, r2, a\<lparr>al_signal := False\<rparr>))"
      using r1(1) two by (subst poll_loop.simps) simp
    then show ?thesis using r1 r2 by simp
  qed
qed

text \<open>What the logger has written, to the file or to its buffer.\<close>

definition written :: "async_logger \<Rightarrow> string" where
  "written a = lf_stdout (al_output_file a) @ al_writing_buffer a"

lemma poll_flush_facts:
  "written (poll_flush a) = written a"
  "al_force_flush a \<Longrightarrow> al_writing_buffer (poll_flush a) = []"
  "time_inv (poll_flush a) = time_inv a"
  "al_log_rings (poll_flush a) = al_log_rings a"
  "al_stop_requested (poll_flush a) = al_stop_requested a"
  by (simp_all add: poll_flush_def Let_def written_def log_file_append_def log_file_force_flush_def)

lemma poll_writes:
  assumes rings: "rings_ok (al_log_rings a) rs" and inv: "time_inv a"
  shows "\<exists>rs' a'. poll m rs a = Some (Inr (rs', a')) \<and> time_inv a' \<and>
    written a' = written a @ concat (map (log_line m) (waiting (al_log_rings a) rs)) \<and>
    (al_force_flush a \<longrightarrow> al_writing_buffer a' = []) \<and>
    al_log_rings a' = al_log_rings a \<and> al_stop_requested a' = al_stop_requested a \<and>
    length rs' = length rs \<and> rings_ok (al_log_rings a) rs' \<and> (\<forall>p \<in> set (al_log_rings a). items (rs' ! p) = [])"
proof -
  let ?w = "waiting (al_log_rings a) rs" and ?a = "a\<lparr>al_signal := False\<rparr>"
  obtain rs' where rs': "poll_loop rs [] a = Some (Inr (?w, rs', ?a))"
      "length rs' = length rs" "rings_ok (al_log_rings a) rs'" "\<forall>p \<in> set (al_log_rings a). items (rs' ! p) = []"
    using poll_loop_all [OF rings, of "[]"] by auto
  have ok: "\<forall>h \<in> set ?w. entry_ok (snd h)"
    using rings by (auto simp: waiting_def rings_ok_def log_ring_ok_def)
  obtain t buf where w: "write_backlogs m ?w ?a =
      Inr (?a\<lparr>al_last_time := t, al_time_buffer := buf,
             al_writing_buffer := al_writing_buffer ?a @ concat (map (log_line m) ?w)\<rparr>)"
      "time_inv (?a\<lparr>al_last_time := t, al_time_buffer := buf\<rparr>)"
    using write_backlogs_lines [OF _ ok, of ?a m] inv by auto
  show ?thesis
  proof (cases "?w = [] \<and> al_writing_buffer a = []")
    case True
    then have "poll m rs a = Some (Inr (rs', ?a))" using rs'(1) by (simp add: poll_def)
    then show ?thesis using True rs' inv by (simp add: written_def)
  next
    case False
    let ?b = "?a\<lparr>al_last_time := t, al_time_buffer := buf,
      al_writing_buffer := al_writing_buffer ?a @ concat (map (log_line m) ?w)\<rparr>"
    have "poll m rs a = Some (Inr (rs', poll_flush ?b))" using False rs'(1) w(1) by (auto simp: poll_def)
    moreover have "time_inv ?b" using w(2) by simp
    ultimately show ?thesis
      using rs' poll_flush_facts [of ?b] by (simp add: written_def)
  qed
qed

section \<open>Appending to a ring\<close>

lemma emplace_room:
  assumes "ring_inv r" and "entries r < unat (r_mask r)"
  shows "\<exists>r'. emplace [r_index_read r] v r = Some (Inr r') \<and> try_emplace v r = Inr (True, r')"
proof -
  have "r_mask r \<noteq> 0" using assms(2) by auto
  moreover have "free_entries r (r_index_read r) (r_index_write r) \<noteq> 0"
    using assms by (simp add: free_entries_zero_iff)
  ultimately show ?thesis
    using construct_at_write [OF ring_inv_shape [OF assms(1)]]
    by (simp add: emplace_def try_emplace_def Let_def)
qed

lemma log_ring_push:
  assumes ok: "log_ring_ok r" and room: "length (items r) < 8191"
    and h: "entry_ok (snd h)" "\<forall>m m'. fst h m = fst h m'"
  obtains r' where "Spsc_Ring.emplace_back [r_index_read r] h r = Some (Inr r')" "log_ring_ok r'" "items r' = items r @ [h]"
proof -
  have inv: "ring_inv r" "entries r < unat (r_mask r)" using ok room by (simp_all add: log_ring_ok_def)
  obtain r' where r': "emplace [r_index_read r] h r = Some (Inr r')" "try_emplace h r = Inr (True, r')"
    using emplace_room [OF inv] by blast
  moreover have "ring_inv r'" "items r' = items r @ [h]" using try_emplace_room [OF inv, of h] r'(2) by auto
  moreover have "log_ring_ok r'"
    using calculation(3,4) try_emplace_mask [OF r'(2)] ok h by (auto simp: log_ring_ok_def)
  ultimately show ?thesis using that by (simp add: Spsc_Ring.emplace_back_def)
qed

lemma log_ring_new:
  obtains r where "spsc_ring_new sizeof_log_ring_entry ring_buffer_size = Inr r" "log_ring_ok r" "items r = []"
    "r_index_read r = 0"
proof -
  obtain r :: "log_ring_entry spsc_ring" where r: "spsc_ring_new 72 (2 ^ 13) = Inr r" "ring_inv r" "items r = []"
      "unat (ring_capacity r) = 2 ^ 13 - 1"
    using spsc_ring_new_pow2 [of 13 72] by (auto simp: k_padding_def k_cache_line_size_def)
  moreover have "r_index_read r = 0" using r(1) by (auto simp: spsc_ring_new_def Let_def split: if_splits)
  ultimately show ?thesis
    using that [of r] by (simp add: sizeof_log_ring_entry_def ring_buffer_size_def log_ring_ok_def ring_capacity_def)
qed

section \<open>The program\<close>

definition tid_text :: "int \<Rightarrow> string" where
  "tid_text t = take 31 (pad_left (CHR '' '') 5 (itoad t) @ '' '')"

lemma tid_text_length: "pid_string_len \<le> length (tid_text t)"
  by (simp add: tid_text_def pad_left_def pid_string_len_def)

definition tls_ok :: "int \<Rightarrow> thread_tls \<Rightarrow> bool" where
  "tls_ok t tls \<longleftrightarrow> t_cached_tid tls = 0 \<or> t_cached_tid tls = t \<and> t_tid_string_ptr tls = tid_text t"

lemma tid_string_ok:
  "tls_ok t tls \<Longrightarrow> fst (tid_string t tls) = tid_text t"
  "tls_ok t tls \<Longrightarrow> tls_ok t (snd (tid_string t tls))"
  by (auto simp: tls_ok_def tid_string_def cache_tid_def tid_text_def Let_def)

definition logger_inv :: "async_logger \<Rightarrow> log_world \<Rightarrow> bool" where
  "logger_inv a w \<longleftrightarrow>
     lw_logger w = Some a \<and> time_inv a \<and> rings_ok (al_log_rings a) (lw_rings w) \<and> (\<forall>t. tls_ok t (lw_tls w t)) \<and>
     (\<forall>t p. lw_local_ring w t = Some p \<longrightarrow> p \<in> set (al_log_rings a)) \<and>
     (\<forall>p \<in> set (al_log_rings a). \<exists>t. lw_local_ring w t = Some p) \<and>
     (\<forall>t t' p. lw_local_ring w t = Some p \<longrightarrow> lw_local_ring w t' = Some p \<longrightarrow> t = t')"

definition unread :: "log_world \<Rightarrow> int \<Rightarrow> log_ring_entry list" where
  "unread w t = (case lw_local_ring w t of None \<Rightarrow> [] | Some p \<Rightarrow> items (lw_rings w ! p))"

definition of_thread :: "int \<Rightarrow> (int \<times> 'a) list \<Rightarrow> (int \<times> 'a) list" where
  "of_thread t ds = filter (\<lambda>d. fst d = t) ds"

lemma of_thread_append [simp]: "of_thread t (xs @ ys) = of_thread t xs @ of_thread t ys"
  by (simp add: of_thread_def)

definition no_memory :: "nat \<Rightarrow> string" where
  "no_memory = (\<lambda>_. [])"

text \<open>
  The books: \<open>cs\<close> are the lines that were logged, with their threads. What was written are such lines,
  in an order in which those of each thread are its first ones; the others wait in its ring.
\<close>

definition accounts :: "string \<Rightarrow> log_world \<Rightarrow> (int \<times> string) list \<Rightarrow> bool" where
  "accounts out w cs \<longleftrightarrow>
     (\<exists>a ds. logger_inv a w \<and> written a = out @ concat (map snd ds) \<and>
        (\<forall>t. of_thread t ds @ map (\<lambda>h. (t, log_line no_memory h)) (unread w t) = of_thread t cs))"

lemma accountsI:
  assumes "logger_inv a w" and "written a = out @ concat (map snd ds)"
    and "\<And>t. of_thread t ds @ map (\<lambda>h. (t, log_line no_memory h)) (unread w t) = of_thread t cs"
  shows "accounts out w cs"
  using assms unfolding accounts_def by blast

lemma of_thread_owner:
  assumes "distinct ps" and "\<forall>p \<in> set ps. \<forall>t. owner p = t \<longleftrightarrow> loc t = Some p"
  shows "of_thread t (concat (map (\<lambda>p. map (\<lambda>h. (owner p, f h)) (g p)) ps)) =
    (case loc t of Some p \<Rightarrow> if p \<in> set ps then map (\<lambda>h. (t, f h)) (g p) else [] | None \<Rightarrow> [])"
  using assms
proof (induction ps)
  case Nil
  then show ?case by (simp add: of_thread_def split: option.splits)
next
  case (Cons p ps)
  have "of_thread t (map (\<lambda>h. (owner p, f h)) (g p)) = (if loc t = Some p then map (\<lambda>h. (t, f h)) (g p) else [])"
    using Cons.prems(2) by (auto simp: of_thread_def filter_map comp_def)
  then show ?case using Cons by (auto split: option.splits)
qed

text \<open>A line that does not depend on memory is the same whenever it is written.\<close>

lemma waiting_lines:
  assumes "rings_ok ps rs"
  shows "map (log_line m) (waiting ps rs) = map (log_line no_memory) (waiting ps rs)"
proof (rule map_cong [OF refl])
  fix h
  assume "h \<in> set (waiting ps rs)"
  then have "fst h m = fst h no_memory" using assms by (auto simp: waiting_def rings_ok_def log_ring_ok_def)
  then show "log_line m h = log_line no_memory h" by (simp add: log_line_def)
qed

lemma accounts_poll:
  assumes "accounts out w cs"
  shows "\<exists>w' a a'. lw_logger w = Some a \<and> world_poll m w = Some (Inr w') \<and> accounts out w' cs \<and>
    lw_logger w' = Some a' \<and> LOG_LEVEL w' = LOG_LEVEL w \<and> al_stop_requested a' = al_stop_requested a \<and>
    (al_force_flush a \<longrightarrow> al_writing_buffer a' = []) \<and> (\<forall>t. unread w' t = [])"
proof -
  obtain a ds where a: "logger_inv a w" "written a = out @ concat (map snd ds)"
      "\<And>t. of_thread t ds @ map (\<lambda>h. (t, log_line no_memory h)) (unread w t) = of_thread t cs"
    using assms by (auto simp: accounts_def)
  let ?ps = "al_log_rings a" and ?loc = "lw_local_ring w"
  have inv: "lw_logger w = Some a" "time_inv a" "rings_ok ?ps (lw_rings w)" "\<forall>p \<in> set ?ps. \<exists>t. ?loc t = Some p"
      "\<forall>t t' p. ?loc t = Some p \<longrightarrow> ?loc t' = Some p \<longrightarrow> t = t'" "\<forall>t p. ?loc t = Some p \<longrightarrow> p \<in> set ?ps"
    using a(1) by (simp_all add: logger_inv_def)
  obtain rs' a' where p: "poll m (lw_rings w) a = Some (Inr (rs', a'))" "time_inv a'"
      "written a' = written a @ concat (map (log_line m) (waiting ?ps (lw_rings w)))"
      "al_force_flush a \<longrightarrow> al_writing_buffer a' = []" "al_log_rings a' = ?ps"
      "al_stop_requested a' = al_stop_requested a" "rings_ok ?ps rs'" "\<forall>p \<in> set ?ps. items (rs' ! p) = []"
    using poll_writes [OF inv(3,2), of m] by blast
  let ?w = "w\<lparr>lw_rings := rs', lw_logger := Some a'\<rparr>"
  obtain owner where owner: "\<forall>p \<in> set ?ps. ?loc (owner p) = Some p" using bchoice [OF inv(4)] by blast
  let ?new = "concat (map (\<lambda>p. map (\<lambda>h. (owner p, log_line no_memory h)) (items (lw_rings w ! p))) ?ps)"
  have "map snd ?new = map (log_line no_memory) (waiting ?ps (lw_rings w))"
    by (simp add: waiting_def map_concat comp_def)
  then have out: "written a' = out @ concat (map snd (ds @ ?new))"
    using p(3) a(2) waiting_lines [OF inv(3), of m] by simp
  have dist: "distinct ?ps" using inv(3) by (simp add: rings_ok_def)
  have own: "\<forall>p \<in> set ?ps. \<forall>t. owner p = t \<longleftrightarrow> ?loc t = Some p" using owner inv(5) by blast
  have "of_thread t ?new = map (\<lambda>h. (t, log_line no_memory h)) (unread w t)" for t
    using of_thread_owner [OF dist own, of t "log_line no_memory" "\<lambda>p. items (lw_rings w ! p)"] inv(6)
    by (auto simp: unread_def split: option.splits)
  then have all: "of_thread t (ds @ ?new) = of_thread t cs" for t using a(3) [of t] by simp
  have un: "unread ?w t = []" for t using inv(6) p(8) by (auto simp: unread_def split: option.splits)
  have "logger_inv a' ?w" using a(1) p(2,5,7) by (simp add: logger_inv_def)
  then have "accounts out ?w cs" by (rule accountsI [OF _ out]) (simp only: all un list.map append_Nil2)
  then show ?thesis
    using p inv(1) un by (intro exI [of _ ?w] exI [of _ a] exI [of _ a']) (simp add: world_poll_def)
qed

lemma accounts_on_logger:
  assumes "accounts out w cs" and "\<And>a. written (f a) = written a" and "\<And>a. time_inv (f a) = time_inv a"
    and "\<And>a. al_log_rings (f a) = al_log_rings a"
  shows "\<exists>w' a. lw_logger w = Some a \<and> on_logger f w = Some (Inr w') \<and> accounts out w' cs \<and>
    lw_logger w' = Some (f a) \<and> LOG_LEVEL w' = LOG_LEVEL w \<and> unread w' = unread w"
proof -
  obtain a ds where a: "logger_inv a w" "written a = out @ concat (map snd ds)"
      "\<forall>t. of_thread t ds @ map (\<lambda>h. (t, log_line no_memory h)) (unread w t) = of_thread t cs"
    using assms(1) by (auto simp: accounts_def)
  let ?w = "w\<lparr>lw_logger := Some (f a)\<rparr>"
  have un: "unread ?w = unread w" by (rule ext) (simp add: unread_def split: option.split)
  have "logger_inv (f a) ?w" using a(1) assms(3,4) by (simp add: logger_inv_def)
  then have "accounts out ?w cs" by (rule accountsI [where ds = ds]) (simp_all add: a(2,3) assms(2) un)
  then show ?thesis using a(1) un by (intro exI [of _ ?w] exI [of _ a]) (simp add: on_logger_def logger_inv_def)
qed

section \<open>Logging a message\<close>

text \<open>A call whose arguments the tuple keeps, at a level and a time that a line can have.\<close>

definition call_ok :: "log_call \<Rightarrow> bool" where
  "call_ok c \<longleftrightarrow>
     lc_level c \<noteq> LOG_LEVEL_CNT \<and> log_time_ok (lc_now c) \<and>
     list_all (\<lambda>a. case a of Char_array p \<Rightarrow> False | _ \<Rightarrow> True) (lc_args c)"

fun arg_text :: "(nat \<Rightarrow> string) \<Rightarrow> log_arg \<Rightarrow> fmt_arg" where
  "arg_text m (Char_ptr p) = Fmt_text (m p)"
| "arg_text m (Literal s) = Fmt_text s"
| "arg_text m (Char_array p) = Fmt_text (m p)"
| "arg_text m (Value v) = Fmt_int v"

text \<open>The part of a path behind its last slash.\<close>

definition base_name :: "string \<Rightarrow> string" where
  "base_name s = rev (takeWhile (\<lambda>c. c \<noteq> CHR ''/'') (rev s))"

text \<open>The line that a call stands for, with the arguments as they are when it is made.\<close>

definition call_line ::
  "(string \<Rightarrow> fmt_arg list \<Rightarrow> string) \<Rightarrow> (nat \<Rightarrow> string) \<Rightarrow> log_call \<Rightarrow> string" where
  "call_line vformat m c =
     time_text (timestamp_new (lc_now c)) @ take 6 (tid_text (lc_thread c)) @
     log_level_map ! log_level_num (lc_level c) @ '' '' @ base_name (lc_file c) @ '':'' @ itoad (lc_line c) @ '' '' @
     vformat (lc_fmt c @ [CHR 0x0A]) (map (arg_text m) (lc_args c))"

lemma strrchr_base_name:
  "base_name s = (case strrchr s (CHR ''/'') of None \<Rightarrow> s | Some i \<Rightarrow> drop (i + 1) s)"
proof (induction s)
  case (Cons x s)
  have n: "strrchr s (CHR ''/'') = None \<longleftrightarrow> CHR ''/'' \<notin> set s"
    by (induction s) (auto split: option.splits)
  show ?case
  proof (cases "strrchr s (CHR ''/'')")
    case None
    then have "CHR ''/'' \<notin> set s" using n by simp
    then have "takeWhile (\<lambda>c. c \<noteq> CHR ''/'') (rev s @ [x]) = rev s @ takeWhile (\<lambda>c. c \<noteq> CHR ''/'') [x]"
      by (intro takeWhile_append2) auto
    then show ?thesis using None by (auto simp: base_name_def)
  next
    case (Some i)
    then have "CHR ''/'' \<in> set (rev s)" using n by auto
    then have "takeWhile (\<lambda>c. c \<noteq> CHR ''/'') (rev s @ [x]) = takeWhile (\<lambda>c. c \<noteq> CHR ''/'') (rev s)"
      by (intro takeWhile_append1) auto
    then show ?thesis using Some Cons.IH by (simp add: base_name_def)
  qed
qed (simp add: base_name_def)

lemma file_name_of_array_base:
  "fn_data (file_name_of_array s) = base_name s" "fn_size (file_name_of_array s) = int (length (base_name s))"
proof -
  have lt: "i < length s" if "strrchr s c = Some i" for i c
    using that by (induction s arbitrary: i) (auto split: option.splits if_splits)
  show "fn_data (file_name_of_array s) = base_name s" "fn_size (file_name_of_array s) = int (length (base_name s))"
    by (auto simp: file_name_of_array_def strrchr_base_name of_nat_diff Suc_le_eq split: option.splits dest: lt)
qed

lemma make_args_tuple_text:
  "list_all (\<lambda>a. case a of Char_array p \<Rightarrow> False | _ \<Rightarrow> True) args \<Longrightarrow>
    map (kept_text m') (make_args_tuple m args) = map (arg_text m) args"
proof (induction args)
  case (Cons a args)
  then show ?case by (cases a) simp_all
qed simp

lemma log_call_entry_ok:
  assumes "call_ok c"
  shows "entry_ok (snd (log_call_entry vformat m c (tid_text (lc_thread c))))"
    "\<forall>m1 m2. fst (log_call_entry vformat m c (tid_text (lc_thread c))) m1 =
      fst (log_call_entry vformat m c (tid_text (lc_thread c))) m2"
    "log_line m' (log_call_entry vformat m c (tid_text (lc_thread c))) = call_line vformat m c"
  using assms tid_text_length [of "lc_thread c"]
  by (simp_all add: call_ok_def entry_ok_def log_call_entry_def log_entry_new_def file_name_of_array_base
      make_log_task_def Let_def make_args_tuple_text log_line_def call_line_def)

lemma rings_ok_update:
  "rings_ok ps rs \<Longrightarrow> log_ring_ok r \<Longrightarrow> rings_ok ps (rs[p := r])"
  by (auto simp: rings_ok_def) (metis nth_list_update nth_list_update_neq)

lemma logger_inv_push:
  assumes inv: "logger_inv a w" and t: "lw_local_ring w t = Some p" and room: "length (unread w t) < 8191"
    and h: "entry_ok (snd h)" "\<forall>m m'. fst h m = fst h m'"
  shows "\<exists>r. p < length (lw_rings w) \<and>
    Spsc_Ring.emplace_back [r_index_read (lw_rings w ! p)] h (lw_rings w ! p) = Some (Inr r) \<and>
    logger_inv a (w\<lparr>lw_rings := (lw_rings w)[p := r]\<rparr>) \<and>
    unread (w\<lparr>lw_rings := (lw_rings w)[p := r]\<rparr>) = (unread w)(t := unread w t @ [h])"
proof -
  have p: "p < length (lw_rings w)" "log_ring_ok (lw_rings w ! p)"
    using inv t by (auto simp: logger_inv_def rings_ok_def)
  have "length (items (lw_rings w ! p)) < 8191" using room t by (simp add: unread_def)
  then obtain r where r: "Spsc_Ring.emplace_back [r_index_read (lw_rings w ! p)] h (lw_rings w ! p) = Some (Inr r)"
      "log_ring_ok r" "items r = items (lw_rings w ! p) @ [h]"
    using log_ring_push [OF p(2) _ h] by blast
  let ?w = "w\<lparr>lw_rings := (lw_rings w)[p := r]\<rparr>"
  have "logger_inv a ?w" using inv r(2) by (simp add: logger_inv_def rings_ok_update)
  moreover have "unread ?w = (unread w)(t := unread w t @ [h])"
  proof (rule ext)
    fix t'
    show "unread ?w t' = ((unread w)(t := unread w t @ [h])) t'"
    proof (cases "lw_local_ring w t'")
      case (Some q)
      then have "q = p \<longleftrightarrow> t' = t" using inv t by (auto simp: logger_inv_def)
      then show ?thesis using Some t p(1) r(3) by (cases "t' = t") (simp_all add: unread_def)
    next
      case None
      then show ?thesis using t by (auto simp: unread_def)
    qed
  qed
  ultimately show ?thesis using p(1) r(1) by blast
qed

lemma log_ring_of_new:
  assumes inv: "logger_inv a w" and t: "lw_local_ring w t = None"
  shows "\<exists>p w' a'. log_ring_of t a w = Inr (p, w') \<and> logger_inv a' w' \<and> lw_local_ring w' t = Some p \<and>
    unread w' = unread w \<and> written a' = written a \<and> LOG_LEVEL w' = LOG_LEVEL w \<and> r_index_read (lw_rings w' ! p) = 0 \<and>
    al_stop_requested a' = al_stop_requested a"
proof -
  obtain r where r: "spsc_ring_new sizeof_log_ring_entry ring_buffer_size = Inr r" "log_ring_ok r" "items r = []"
      "r_index_read r = 0" by (rule log_ring_new)
  let ?p = "length (lw_rings w)" and ?a = "a\<lparr>al_log_rings := al_log_rings a @ [length (lw_rings w)], al_signal := True\<rparr>"
  let ?w = "w\<lparr>lw_rings := lw_rings w @ [r], lw_local_ring := (lw_local_ring w)(t \<mapsto> ?p), lw_logger := Some ?a\<rparr>"
  have lt: "p < ?p" if "lw_local_ring w t' = Some p" for p t' using inv that by (auto simp: logger_inv_def rings_ok_def)
  have loc: "p < ?p" if "p \<in> set (al_log_rings a)" for p using inv that by (simp add: logger_inv_def rings_ok_def)
  have old: "\<forall>p \<in> set (al_log_rings a). \<exists>t. lw_local_ring w t = Some p"
      "\<forall>t p. lw_local_ring w t = Some p \<longrightarrow> p \<in> set (al_log_rings a)"
      "rings_ok (al_log_rings a) (lw_rings w)" "time_inv a" "\<forall>t. tls_ok t (lw_tls w t)"
    using inv unfolding logger_inv_def by blast+
  have inj: "\<forall>t t' p. lw_local_ring w t = Some p \<longrightarrow> lw_local_ring w t' = Some p \<longrightarrow> t = t'"
    using inv unfolding logger_inv_def by blast
  have "logger_inv ?a ?w"
    unfolding logger_inv_def
  proof (intro conjI allI ballI impI)
    show "rings_ok (al_log_rings ?a) (lw_rings ?w)"
      using old(3) r(2) loc by (auto simp: rings_ok_def nth_append less_Suc_eq)
  next
    fix t1 t2 p
    assume "lw_local_ring ?w t1 = Some p" and "lw_local_ring ?w t2 = Some p"
    then have "t1 = t \<and> p = ?p \<or> lw_local_ring w t1 = Some p" and "t2 = t \<and> p = ?p \<or> lw_local_ring w t2 = Some p"
      by (auto split: if_splits)
    then show "t1 = t2" using lt inj by (metis less_irrefl)
  next
    fix p
    assume "p \<in> set (al_log_rings ?a)"
    then show "\<exists>t'. lw_local_ring ?w t' = Some p" using old(1) t by (cases "p = ?p") (auto, metis option.distinct(1))
  next
    fix t' p
    assume "lw_local_ring ?w t' = Some p"
    then show "p \<in> set (al_log_rings ?a)" using old(2) by (cases "t' = t") auto
  qed (use old(4,5) in simp_all)
  moreover have "unread ?w t' = unread w t'" for t'
    using lt [of t'] t r(3) by (cases "lw_local_ring w t'") (auto simp: unread_def nth_append)
  then have "unread ?w = unread w" by (rule ext)
  moreover have "log_ring_of t a w = Inr (?p, ?w)" using t r(1) by (simp add: log_ring_of_def Let_def)
  ultimately show ?thesis
    using r(4) by (intro exI [of _ ?p] exI [of _ ?w] exI [of _ ?a]) (simp add: written_def)
qed

lemma log_ring_of_any:
  assumes inv: "logger_inv a w"
  shows "\<exists>p w' a'. log_ring_of t a w = Inr (p, w') \<and> logger_inv a' w' \<and> lw_local_ring w' t = Some p \<and>
    unread w' = unread w \<and> written a' = written a \<and> LOG_LEVEL w' = LOG_LEVEL w \<and>
    local_views t w = [r_index_read (lw_rings w' ! p)] \<and> al_stop_requested a' = al_stop_requested a"
proof (cases "lw_local_ring w t")
  case None
  then show ?thesis using log_ring_of_new [OF inv None] by (simp add: local_views_def)
next
  case (Some p)
  then show ?thesis
    using inv by (intro exI [of _ p] exI [of _ w] exI [of _ a]) (simp add: log_ring_of_def local_views_def)
qed

lemma append_accounts:
  assumes inv: "logger_inv a w" and room: "length (unread w t) < 8191"
    and h: "entry_ok (snd h)" "\<forall>m m'. fst h m = fst h m'"
  shows "\<exists>w' a'. async_logger_append (local_views t w) t h w = Some (Inr w') \<and> logger_inv a' w' \<and>
    unread w' = (unread w)(t := unread w t @ [h]) \<and> written a' = written a \<and> LOG_LEVEL w' = LOG_LEVEL w \<and>
    al_stop_requested a' = al_stop_requested a"
proof -
  obtain p w1 a' where w1: "log_ring_of t a w = Inr (p, w1)" "logger_inv a' w1" "lw_local_ring w1 t = Some p"
      "unread w1 = unread w" "written a' = written a" "LOG_LEVEL w1 = LOG_LEVEL w"
      "local_views t w = [r_index_read (lw_rings w1 ! p)]" "al_stop_requested a' = al_stop_requested a"
    using log_ring_of_any [OF inv] by blast
  have "length (unread w1 t) < 8191" using room w1(4) by simp
  then obtain r where r: "p < length (lw_rings w1)"
      "Spsc_Ring.emplace_back [r_index_read (lw_rings w1 ! p)] h (lw_rings w1 ! p) = Some (Inr r)"
      "logger_inv a' (w1\<lparr>lw_rings := (lw_rings w1)[p := r]\<rparr>)"
      "unread (w1\<lparr>lw_rings := (lw_rings w1)[p := r]\<rparr>) = (unread w1)(t := unread w1 t @ [h])"
    using logger_inv_push [OF w1(2,3) _ h] by blast
  moreover have "lw_logger w = Some a" using inv by (simp add: logger_inv_def)
  ultimately show ?thesis
    using w1 by (intro exI [of _ "w1\<lparr>lw_rings := (lw_rings w1)[p := r]\<rparr>"] exI [of _ a'])
      (simp add: async_logger_append_def)
qed

lemma logger_inv_tls:
  "logger_inv a w \<Longrightarrow> tls_ok t tls \<Longrightarrow> logger_inv a (w\<lparr>lw_tls := (lw_tls w)(t := tls)\<rparr>)"
  by (auto simp: logger_inv_def)

text \<open>The lines of the calls that the level lets through.\<close>

definition emitted ::
  "(string \<Rightarrow> fmt_arg list \<Rightarrow> string) \<Rightarrow> log_level \<Rightarrow> ((nat \<Rightarrow> string) \<times> log_call) list \<Rightarrow> (int \<times> string) list" where
  "emitted vformat l cs =
     map (\<lambda>(m, c). (lc_thread c, call_line vformat m c))
       (filter (\<lambda>(m, c). log_level_num l \<le> log_level_num (lc_level c)) cs)"

abbreviation stopping :: "log_world \<Rightarrow> bool" where
  "stopping w \<equiv> al_stop_requested (the (lw_logger w))"

lemma accounts_emit:
  assumes acc: "accounts out w cs" and c: "call_ok c" and room: "length (unread w (lc_thread c)) < 8191"
  shows "\<exists>w'. log_emit vformat m (local_views (lc_thread c) w) c w = Some (Inr w') \<and>
    accounts out w' (cs @ emitted vformat (LOG_LEVEL w) [(m, c)]) \<and> LOG_LEVEL w' = LOG_LEVEL w \<and>
    stopping w' = stopping w \<and>
    (\<forall>t. length (unread w' t) \<le> length (unread w t) + (if lc_thread c = t then 1 else 0))"
proof (cases "SHOULD_EMIT (lc_level c) w")
  case False
  then show ?thesis
    using acc by (intro exI [of _ w]) (auto simp: log_emit_def emitted_def SHOULD_EMIT_def)
next
  case True
  let ?t = "lc_thread c" and ?h = "log_call_entry vformat m c (tid_text (lc_thread c))"
  obtain a ds where a: "logger_inv a w" "written a = out @ concat (map snd ds)"
      "\<And>t. of_thread t ds @ map (\<lambda>h. (t, log_line no_memory h)) (unread w t) = of_thread t cs"
    using acc by (auto simp: accounts_def)
  have tls: "tls_ok ?t (lw_tls w ?t)" using a(1) by (simp add: logger_inv_def)
  let ?w = "w\<lparr>lw_tls := (lw_tls w)(?t := snd (tid_string ?t (lw_tls w ?t)))\<rparr>"
  have inv: "logger_inv a ?w" using a(1) tid_string_ok(2) [OF tls] by (rule logger_inv_tls)
  have same: "unread ?w = unread w" "local_views ?t ?w = local_views ?t w"
    by (auto simp: unread_def local_views_def fun_eq_iff split: option.splits)
  have "length (unread ?w ?t) < 8191" using room same(1) by simp
  then obtain w' a' where w': "async_logger_append (local_views ?t ?w) ?t ?h ?w = Some (Inr w')" "logger_inv a' w'"
      "unread w' = (unread ?w)(?t := unread ?w ?t @ [?h])" "written a' = written a" "LOG_LEVEL w' = LOG_LEVEL ?w"
      "al_stop_requested a' = al_stop_requested a"
    using append_accounts [OF inv _ log_call_entry_ok(1,2) [OF c]] by blast
  have e: "emitted vformat (LOG_LEVEL w) [(m, c)] = [(?t, call_line vformat m c)]"
    using True by (simp add: emitted_def SHOULD_EMIT_def split: if_splits)
  have "accounts out w' (cs @ [(?t, call_line vformat m c)])"
  proof (rule accountsI [OF w'(2), where ds = ds])
    show "written a' = out @ concat (map snd ds)" using w'(4) a(2) by simp
    show "of_thread t ds @ map (\<lambda>h. (t, log_line no_memory h)) (unread w' t) =
        of_thread t (cs @ [(?t, call_line vformat m c)])" for t
      using a(3) [of t] w'(3) same(1) log_call_entry_ok(3) [OF c, of no_memory vformat m]
      by (auto simp: of_thread_def simp flip: append_assoc)
  qed
  moreover have "log_emit vformat m (local_views ?t w) c w = Some (Inr w')"
    using True w'(1) same(2) tid_string_ok(1) [OF tls] by (simp add: log_emit_def split_beta)
  moreover have "stopping w' = stopping w" using w'(2,6) a(1) by (simp add: logger_inv_def)
  moreover have "length (unread w' t) \<le> length (unread w t) + (if ?t = t then 1 else 0)" for t
    using w'(3) same(1) by simp
  ultimately show ?thesis using w'(5) e by auto
qed

definition acts_of :: "((nat \<Rightarrow> string) \<times> log_call) list \<Rightarrow> log_act list" where
  "acts_of cs = map (\<lambda>(m, c). Log_call m c) cs"

lemma emitted_append: "emitted vformat l (xs @ ys) = emitted vformat l xs @ emitted vformat l ys"
  by (simp add: emitted_def)

text \<open>The calls of a thread.\<close>

definition calls_by :: "int \<Rightarrow> ((nat \<Rightarrow> string) \<times> log_call) list \<Rightarrow> ((nat \<Rightarrow> string) \<times> log_call) list" where
  "calls_by t calls = filter (\<lambda>(m, c). lc_thread c = t) calls"

lemma accounts_acts:
  "accounts out w cs \<Longrightarrow> \<forall>(m, c) \<in> set calls. call_ok c \<Longrightarrow>
    \<forall>t. length (unread w t) + length (calls_by t calls) \<le> 8191 \<Longrightarrow>
    \<exists>w'. log_acts vformat (acts_of calls) w = Some (Inr w') \<and>
      accounts out w' (cs @ emitted vformat (LOG_LEVEL w) calls) \<and> LOG_LEVEL w' = LOG_LEVEL w \<and>
      stopping w' = stopping w"
proof (induction calls arbitrary: w cs)
  case Nil
  then show ?case by (simp add: acts_of_def emitted_def)
next
  case (Cons mc calls)
  obtain m c where mc: "mc = (m, c)" by (cases mc)
  have split: "length (calls_by t (mc # calls)) = (if lc_thread c = t then 1 else 0) + length (calls_by t calls)" for t
    by (simp add: calls_by_def mc)
  have ok: "call_ok c" using Cons.prems(2) mc by auto
  have room: "length (unread w (lc_thread c)) < 8191"
    using Cons.prems(3) [rule_format, of "lc_thread c"] by (simp add: split)
  obtain w1 where w1: "log_emit vformat m (local_views (lc_thread c) w) c w = Some (Inr w1)"
      "accounts out w1 (cs @ emitted vformat (LOG_LEVEL w) [(m, c)])" "LOG_LEVEL w1 = LOG_LEVEL w"
      "stopping w1 = stopping w"
      "\<forall>t. length (unread w1 t) \<le> length (unread w t) + (if lc_thread c = t then 1 else 0)"
    using accounts_emit [OF Cons.prems(1) ok room, where vformat = vformat and m = m] by blast
  have "length (unread w1 t) + length (calls_by t calls) \<le> 8191" for t
    using Cons.prems(3) [rule_format, of t] w1(5) [rule_format, of t] by (simp add: split)
  then obtain w2 where w2: "log_acts vformat (acts_of calls) w1 = Some (Inr w2)"
      "accounts out w2 ((cs @ emitted vformat (LOG_LEVEL w) [(m, c)]) @ emitted vformat (LOG_LEVEL w1) calls)"
      "LOG_LEVEL w2 = LOG_LEVEL w1" "stopping w2 = stopping w1"
    using Cons.IH [OF w1(2)] Cons.prems(2) by auto
  have "emitted vformat (LOG_LEVEL w) (mc # calls) = emitted vformat (LOG_LEVEL w) [(m, c)] @ emitted vformat (LOG_LEVEL w1) calls"
    using mc w1(3) emitted_append [of vformat "LOG_LEVEL w" "[(m, c)]" calls] by simp
  then show ?case
    using w1 w2 mc by (intro exI [of _ w2]) (simp add: acts_of_def)
qed

section \<open>The life of the logger\<close>

lemma accounts_new:
  assumes "log_time_ok now"
  shows "\<exists>w. async_logger_new now moved name (set_log_level l log_world_init) = Inr w \<and>
    accounts (log_file_banner moved) w [] \<and> LOG_LEVEL w = l \<and> \<not> stopping w"
proof -
  let ?ts = "timestamp_new now"
  let ?a = "\<lparr>al_stop_requested = False, al_signal = False, al_force_flush = False, al_log_rings = [],
    al_writing_buffer = [], al_last_time = ?ts, al_time_buffer = (time_text ?ts @ [CHR 0x00])[time_string_len - 1 := CHR 0x00],
    al_output_file = log_file_new moved name\<rparr>"
  let ?w = "(set_log_level l log_world_init)\<lparr>lw_logger := Some ?a\<rparr>"
  note lens = text_lengths [OF log_time_ts_ok [OF assms]]
  have "async_logger_new now moved name (set_log_level l log_world_init) = Inr ?w"
    using format_all [OF _ log_time_ts_ok [OF assms], of "replicate 29 (CHR 0x00)"]
    by (simp add: async_logger_new_def Let_def update_datetime_all_def time_end_def time_lens)
  moreover have "time_inv ?a" using assms lens by (auto simp: time_inv_def time_text_def time_lens take_update_cancel)
  then have "logger_inv ?a ?w"
    by (simp add: logger_inv_def rings_ok_def set_log_level_def log_world_init_def tls_ok_def thread_tls_init_def)
  then have "accounts (log_file_banner moved) ?w []"
    by (rule accountsI [where ds = "[]"])
      (simp_all add: written_def log_file_new_def unread_def set_log_level_def log_world_init_def)
  ultimately show ?thesis by (intro exI [of _ ?w]) (simp add: set_log_level_def)
qed

definition logger_drained :: "log_world \<Rightarrow> bool" where
  "logger_drained w \<longleftrightarrow>
     (\<forall>t. unread w t = []) \<and>
     (\<exists>a. lw_logger w = Some a \<and> al_writing_buffer a = [] \<and>
        lf_flushed (al_output_file a) = length (lf_stdout (al_output_file a)))"

lemma accounts_finish:
  assumes "accounts out w cs"
  shows "\<exists>w'. logging_finish m w = Some (Inr w') \<and> accounts out w' cs \<and> logger_drained w'"
proof -
  let ?force = "\<lambda>a :: async_logger. a\<lparr>al_force_flush := True\<rparr>"
  let ?flush = "\<lambda>a :: async_logger. a\<lparr>al_output_file := log_file_force_flush (al_output_file a)\<rparr>"
  obtain w1 a where w1: "on_logger ?force w = Some (Inr w1)" "accounts out w1 cs" "lw_logger w1 = Some (?force a)"
    using accounts_on_logger [OF assms, of ?force] by (auto simp: written_def)
  obtain w2 a2 where w2: "world_poll m w1 = Some (Inr w2)" "accounts out w2 cs" "lw_logger w2 = Some a2"
      "al_writing_buffer a2 = []" "\<forall>t. unread w2 t = []"
    using accounts_poll [OF w1(2), of m] w1(3) by auto
  obtain w3 where w3: "on_logger ?flush w2 = Some (Inr w3)" "accounts out w3 cs" "lw_logger w3 = Some (?flush a2)"
      "unread w3 = unread w2"
    using accounts_on_logger [OF w2(2), of ?flush] w2(3) by (auto simp: written_def log_file_force_flush_def)
  have "logger_drained w3" using w3(3,4) w2(4,5) by (simp add: logger_drained_def log_file_force_flush_def)
  then show ?thesis using w1(1) w2(1) w3(1,2) by (simp add: logging_finish_def)
qed

text \<open>One round of the loop.\<close>

lemma accounts_round:
  assumes acc: "accounts out w cs" and calls: "\<forall>(m, c) \<in> set calls. call_ok c" "\<forall>t. length (calls_by t calls) \<le> 8191"
    and run: "\<not> stopping w"
  shows "\<exists>w1. logging_loop vformat mf ((m, acts_of calls) # rounds) w = logging_loop vformat mf rounds w1 \<and>
    accounts out w1 (cs @ emitted vformat (LOG_LEVEL w) calls) \<and> LOG_LEVEL w1 = LOG_LEVEL w \<and> \<not> stopping w1"
proof -
  let ?force = "\<lambda>a :: async_logger. a\<lparr>al_force_flush := True\<rparr>"
  obtain wp a ap where p: "lw_logger w = Some a" "world_poll m w = Some (Inr wp)" "accounts out wp cs"
      "lw_logger wp = Some ap" "LOG_LEVEL wp = LOG_LEVEL w" "al_stop_requested ap = al_stop_requested a" "\<forall>t. unread wp t = []"
    using accounts_poll [OF acc, of m] by blast
  obtain wa where wa: "log_acts vformat (acts_of calls) wp = Some (Inr wa)"
      "accounts out wa (cs @ emitted vformat (LOG_LEVEL w) calls)" "LOG_LEVEL wa = LOG_LEVEL w" "\<not> stopping wa"
    using accounts_acts [OF p(3) calls(1), where vformat = vformat] calls(2) p(1,4,5,6,7) run by auto
  obtain wf af where wf: "on_logger ?force wa = Some (Inr wf)" "accounts out wf (cs @ emitted vformat (LOG_LEVEL w) calls)"
      "lw_logger wa = Some af" "lw_logger wf = Some (?force af)" "LOG_LEVEL wf = LOG_LEVEL wa"
    using accounts_on_logger [OF wa(2), of ?force] by (auto simp: written_def)
  have "logging_loop vformat mf ((m, acts_of calls) # rounds) w = logging_loop vformat mf rounds wf"
    using p(1,2) run wa(1) wf(1) by simp
  then show ?thesis using wf wa(3,4) by auto
qed

text \<open>The round in which the logger is stopped.\<close>

lemma accounts_stop:
  assumes acc: "accounts out w cs" and run: "\<not> stopping w"
  shows "\<exists>w'. logging_loop vformat mf [(m, [Log_stop])] w = Some (Inr w') \<and> accounts out w' cs \<and> logger_drained w'"
proof -
  let ?force = "\<lambda>a :: async_logger. a\<lparr>al_force_flush := True\<rparr>"
  obtain wp a where p: "lw_logger w = Some a" "world_poll m w = Some (Inr wp)" "accounts out wp cs"
    using accounts_poll [OF acc, of m] by blast
  obtain ws as where ws: "on_logger async_logger_stop wp = Some (Inr ws)" "accounts out ws cs"
      "lw_logger ws = Some (async_logger_stop as)"
    using accounts_on_logger [OF p(3), of async_logger_stop] by (auto simp: written_def async_logger_stop_def)
  obtain wf where wf: "on_logger ?force ws = Some (Inr wf)" "accounts out wf cs"
      "lw_logger wf = Some (?force (async_logger_stop as))"
    using accounts_on_logger [OF ws(2), of ?force] ws(3) by (auto simp: written_def)
  obtain w' where w': "logging_finish mf wf = Some (Inr w')" "accounts out w' cs" "logger_drained w'"
    using accounts_finish [OF wf(2)] by blast
  have "logging_loop vformat mf [(m, [Log_stop])] w = logging_finish mf wf"
    using p(1,2) run ws(1) wf(1,3) by (simp add: async_logger_stop_def)
  then show ?thesis using w' by simp
qed

lemma accounts_loop:
  "accounts out w cs \<Longrightarrow> \<forall>(m, c) \<in> set (concat (map snd rounds)). call_ok c \<Longrightarrow>
    \<forall>r \<in> set rounds. \<forall>t. length (calls_by t (snd r)) \<le> 8191 \<Longrightarrow> \<not> stopping w \<Longrightarrow>
    \<exists>w'. logging_loop vformat mf (map (\<lambda>(m, calls). (m, acts_of calls)) rounds @ [(ml, [Log_stop])]) w = Some (Inr w') \<and>
      accounts out w' (cs @ emitted vformat (LOG_LEVEL w) (concat (map snd rounds))) \<and> logger_drained w'"
proof (induction rounds arbitrary: w cs)
  case Nil
  then show ?case using accounts_stop [of out w cs vformat mf ml] by (simp add: emitted_def)
next
  case (Cons r rounds)
  obtain m calls where r: "r = (m, calls)" by (cases r)
  let ?tail = "map (\<lambda>(m, calls). (m, acts_of calls)) rounds @ [(ml, [Log_stop])]"
  have calls: "\<forall>(m, c) \<in> set calls. call_ok c" "\<forall>t. length (calls_by t calls) \<le> 8191" using Cons.prems r by auto
  obtain w1 where w1: "logging_loop vformat mf ((m, acts_of calls) # ?tail) w = logging_loop vformat mf ?tail w1"
      "accounts out w1 (cs @ emitted vformat (LOG_LEVEL w) calls)" "LOG_LEVEL w1 = LOG_LEVEL w" "\<not> stopping w1"
    using accounts_round [OF Cons.prems(1) calls Cons.prems(4)] by blast
  show ?case
    using Cons.IH [OF w1(2) _ _ w1(4)] Cons.prems(2,3) r w1(1,3) by (simp add: emitted_append)
qed

end
