(* ===== verification/Log_Output.thy ===== *)
theory Log_Output
  imports Logging "HOL-Library.Sublist"
begin

text \<open>
  The rest of the logger: the output to files that are rolled (\<^verbatim>\<open>source/logging/log_file.cpp\<close> without
  \<open>CORING_ASYNC_LOGGER_STDOUT\<close>), and starting and stopping the thread of the back end (\<open>run\<close>,
  \<open>block_sigint_then_run\<close> and \<open>stop\<close> of \<^verbatim>\<open>source/logging/async_logger.cpp\<close>).

  A file system is a map from names to contents. An output stream keeps what it has not yet passed on.
  Whether a file can be opened, and the position that \<open>tellp\<close> reports, which for a file opened for appending
  depends on the implementation, are arguments.
\<close>

section \<open>Output streams\<close>

type_synonym file_system = "string \<rightharpoonup> string"

definition contents :: "file_system \<Rightarrow> string \<Rightarrow> string" where
  "contents fs p = (case fs p of None \<Rightarrow> [] | Some s \<Rightarrow> s)"

record ofstream =
  os_path :: "string option"
  os_pending :: string

definition os_closed :: ofstream where
  "os_closed = \<lparr>os_path = None, os_pending = []\<rparr>"

definition os_open :: "(string \<Rightarrow> bool) \<Rightarrow> string \<Rightarrow> file_system \<Rightarrow> ofstream \<times> file_system" where
  "os_open opens p fs =
     (if opens p then (\<lparr>os_path = Some p, os_pending = []\<rparr>, fs(p \<mapsto> contents fs p)) else (os_closed, fs))"

definition os_write :: "string \<Rightarrow> ofstream \<Rightarrow> ofstream" where
  "os_write s os = (case os_path os of None \<Rightarrow> os | Some _ \<Rightarrow> os\<lparr>os_pending := os_pending os @ s\<rparr>)"

definition os_flush :: "ofstream \<Rightarrow> file_system \<Rightarrow> ofstream \<times> file_system" where
  "os_flush os fs =
     (case os_path os of
        None \<Rightarrow> (os, fs)
      | Some p \<Rightarrow> (os\<lparr>os_pending := []\<rparr>, fs(p \<mapsto> contents fs p @ os_pending os)))"

section \<open>Rolled files\<close>

record rolling_file =
  rf_name :: string
  rf_roll_size :: int
  rf_os :: ofstream

text \<open>
  The text that \<open>roll_file\<close> appends to the name: the date, whose last character is overwritten by the first of the
  extension.
\<close>

definition roll_text :: "timestamp \<Rightarrow> string res" where
  "roll_text ts =
     res_bind (format_date_to ts (replicate 40 (CHR 0x00)) 0) (\<lambda>(n, buf).
     if n = 0 then Inl Out_of_bounds
     else res_bind (mem_write buf (n - 1) (''.log'' @ [CHR 0x00])) (\<lambda>buf.
          Inr (takeWhile (\<lambda>c. c \<noteq> CHR 0x00) buf)))"

text \<open>The new stream is opened before the assignment closes the old one, which passes on what it still has.\<close>

definition rf_roll_file ::
  "(string \<Rightarrow> bool) \<Rightarrow> timestamp \<Rightarrow> rolling_file \<Rightarrow> file_system \<Rightarrow> (rolling_file \<times> file_system) res" where
  "rf_roll_file opens ts f fs =
     res_bind (roll_text ts) (\<lambda>s.
       let name = rf_name f @ s;
           (os, fs) = os_open opens name fs;
           (_, fs) = os_flush (rf_os f) fs
       in Inr (f\<lparr>rf_name := name, rf_os := os\<rparr>, fs))"

definition rolling_file_new ::
  "(string \<Rightarrow> bool) \<Rightarrow> timestamp \<Rightarrow> string \<Rightarrow> int \<Rightarrow> file_system \<Rightarrow> (rolling_file \<times> file_system) res" where
  "rolling_file_new opens ts name roll_size fs =
     rf_roll_file opens ts \<lparr>rf_name = name, rf_roll_size = roll_size, rf_os = os_closed\<rparr> fs"

definition rf_append ::
  "(string \<Rightarrow> bool) \<Rightarrow> (ofstream \<Rightarrow> file_system \<Rightarrow> int) \<Rightarrow> timestamp \<Rightarrow> string \<Rightarrow> rolling_file \<Rightarrow> file_system \<Rightarrow>
   (rolling_file \<times> file_system) res" where
  "rf_append opens tellp ts data f fs =
     res_bind
       (if rf_roll_size f \<le> tellp (rf_os f) fs
        then (case os_flush (rf_os f) fs of (os, fs) \<Rightarrow> rf_roll_file opens ts (f\<lparr>rf_os := os\<rparr>) fs)
        else Inr (f, fs))
       (\<lambda>(f, fs). Inr (f\<lparr>rf_os := os_write data (rf_os f)\<rparr>, fs))"

definition rf_force_flush :: "rolling_file \<Rightarrow> file_system \<Rightarrow> rolling_file \<times> file_system" where
  "rf_force_flush f fs = (case os_flush (rf_os f) fs of (os, fs) \<Rightarrow> (f\<lparr>rf_os := os\<rparr>, fs))"

text \<open>The calls that the back end makes, in sequence: an append at a time, or a flush.\<close>

datatype file_act = File_append int string | File_flush

fun file_acts ::
  "(string \<Rightarrow> bool) \<Rightarrow> (ofstream \<Rightarrow> file_system \<Rightarrow> int) \<Rightarrow> file_act list \<Rightarrow> rolling_file \<Rightarrow> file_system \<Rightarrow>
   (rolling_file \<times> file_system) res" where
  "file_acts opens tellp [] f fs = Inr (f, fs)"
| "file_acts opens tellp (File_append t s # as) f fs =
     res_bind (rf_append opens tellp (timestamp_new t) s f fs) (\<lambda>(f, fs). file_acts opens tellp as f fs)"
| "file_acts opens tellp (File_flush # as) f fs =
     (case rf_force_flush f fs of (f, fs) \<Rightarrow> file_acts opens tellp as f fs)"

definition act_text :: "file_act \<Rightarrow> string" where
  "act_text a = (case a of File_append _ s \<Rightarrow> s | File_flush \<Rightarrow> [])"

lemma act_text_simps [simp]: "act_text (File_append t s) = s" "act_text File_flush = []"
  by (simp_all add: act_text_def)

definition act_time_ok :: "file_act \<Rightarrow> bool" where
  "act_time_ok a = (case a of File_append t _ \<Rightarrow> log_time_ok t | File_flush \<Rightarrow> True)"

lemma pad_left_no_zero: "c \<noteq> CHR 0x00 \<Longrightarrow> CHR 0x00 \<notin> set s \<Longrightarrow> CHR 0x00 \<notin> set (pad_left c n s)"
  by (auto simp: pad_left_def)

lemma date_text_no_zero: "CHR 0x00 \<notin> set (date_text ts)"
  by (simp add: date_text_def pad_left_no_zero itoad_no_zero)

text \<open>The text is the date and the extension; in particular the name grows with every roll.\<close>

lemma roll_text_date:
  assumes "log_time_ok t"
  shows "roll_text (timestamp_new t) = Inr (butlast (date_text (timestamp_new t)) @ ''.log'')"
proof -
  let ?d = "date_text (timestamp_new t)"
  have len: "length ?d = 11" by (rule text_lengths(1) [OF log_time_ts_ok [OF assms]])
  have f: "format_date_to (timestamp_new t) (replicate 40 (CHR 0x00)) 0 =
      Inr (11, ?d @ replicate 29 (CHR 0x00))"
    using snprintf_at_fits [of ?d 11 0 "replicate 40 (CHR 0x00)"] len
    by (simp add: format_date_to_def fmt_date_len_def flip: replicate_Suc)
  have m: "mem_write (?d @ replicate 29 (CHR 0x00)) 10 (''.log'' @ [CHR 0x00]) =
      Inr (butlast ?d @ ''.log'' @ CHR 0x00 # replicate 25 (CHR 0x00))"
    using len by (simp add: mem_write_def butlast_conv_take)
  have "takeWhile (\<lambda>c. c \<noteq> CHR 0x00) (butlast ?d @ ''.log'' @ CHR 0x00 # replicate 25 (CHR 0x00)) = butlast ?d @ ''.log''"
    using date_text_no_zero [of "timestamp_new t"] by (subst takeWhile_append2) (auto dest: in_set_butlastD)
  then show ?thesis using f m by (simp add: roll_text_def)
qed

section \<open>Nothing is lost\<close>

text \<open>What a file has gained, and the books: \<open>ns\<close> are the files that were opened, the last one is open.\<close>

definition gained :: "file_system \<Rightarrow> file_system \<Rightarrow> string \<Rightarrow> string" where
  "gained fs0 fs n = drop (length (contents fs0 n)) (contents fs n)"

definition files_inv :: "file_system \<Rightarrow> string list \<Rightarrow> string \<Rightarrow> rolling_file \<Rightarrow> file_system \<Rightarrow> bool" where
  "files_inv fs0 ns out f fs \<longleftrightarrow>
     ns \<noteq> [] \<and> last ns = rf_name f \<and> os_path (rf_os f) = Some (rf_name f) \<and>
     sorted_wrt (\<lambda>a b. length a < length b) ns \<and>
     concat (map (gained fs0 fs) ns) @ os_pending (rf_os f) = out \<and>
     (\<forall>n. prefix (contents fs0 n) (contents fs n)) \<and> (\<forall>n. n \<notin> set ns \<longrightarrow> fs n = fs0 n)"

lemma contents_upd [simp]: "contents (fs(p \<mapsto> s)) n = (if n = p then s else contents fs n)"
  by (simp add: contents_def)

lemma lengths_distinct: "sorted_wrt (\<lambda>a b. length a < length b) ns \<Longrightarrow> distinct ns"
  by (induction ns) auto

lemma files_inv_flush:
  assumes "files_inv fs0 ns out f fs"
  shows "\<exists>f' fs'. rf_force_flush f fs = (f', fs') \<and> files_inv fs0 ns out f' fs' \<and> os_pending (rf_os f') = [] \<and>
    f' = f\<lparr>rf_os := rf_os f'\<rparr> \<and> os_flush (rf_os f) fs = (rf_os f', fs')"
proof -
  let ?n = "rf_name f" and ?os = "rf_os f"
  let ?fs = "fs(?n \<mapsto> contents fs ?n @ os_pending ?os)" and ?f = "f\<lparr>rf_os := ?os\<lparr>os_pending := []\<rparr>\<rparr>"
  have inv: "ns \<noteq> []" "last ns = ?n" "os_path ?os = Some ?n" "distinct ns"
    "concat (map (gained fs0 fs) ns) @ os_pending ?os = out" "\<And>n. prefix (contents fs0 n) (contents fs n)"
    using assms lengths_distinct by (auto simp: files_inv_def)
  obtain ms where ns: "ns = ms @ [?n]" using inv(1,2) by (metis append_butlast_last_id)
  then have "gained fs0 ?fs ?n = gained fs0 fs ?n @ os_pending ?os" and "map (gained fs0 ?fs) ms = map (gained fs0 fs) ms"
    using inv(4) inv(6) [of ?n] by (auto simp: gained_def prefix_def)
  then have "concat (map (gained fs0 ?fs) ns) = out" using inv(5) unfolding ns by (simp only: map_append concat_append list.map concat.simps append.assoc append_Nil2)
  moreover have "prefix (contents fs0 n) (contents ?fs n)" for n using inv(6) [of n] by (auto intro: prefix_prefix)
  moreover have "\<forall>n. n \<notin> set ns \<longrightarrow> ?fs n = fs0 n" using assms ns by (simp add: files_inv_def)
  ultimately have "files_inv fs0 ns out ?f ?fs" using assms by (simp add: files_inv_def)
  then show ?thesis using inv(3) by (simp add: rf_force_flush_def os_flush_def)
qed

lemma files_inv_roll:
  assumes inv: "files_inv fs0 ns out f fs" and "os_pending (rf_os f) = []" and "\<forall>p. opens p" and "log_time_ok t"
  shows "\<exists>ns' f' fs'. rf_roll_file opens (timestamp_new t) f fs = Inr (f', fs') \<and> files_inv fs0 ns' out f' fs'"
proof -
  let ?s = "butlast (date_text (timestamp_new t)) @ ''.log''"
  let ?n = "rf_name f @ ?s" and ?os = "rf_os f"
  let ?fs = "fs(?n \<mapsto> contents fs ?n)" and ?f = "f\<lparr>rf_name := ?n, rf_os := \<lparr>os_path = Some ?n, os_pending = []\<rparr>\<rparr>"
  let ?fs' = "?fs(rf_name f \<mapsto> contents ?fs (rf_name f))"
  have srt: "sorted_wrt (\<lambda>a b. length a < length b) ns" and l: "ns \<noteq> []" "last ns = rf_name f"
    using inv by (auto simp: files_inv_def)
  obtain ms where "ns = ms @ [rf_name f]" using l by (metis append_butlast_last_id)
  then have "\<forall>a \<in> set ns. length a \<le> length (rf_name f)" and here: "rf_name f \<in> set ns"
    using srt by (auto simp: sorted_wrt_append intro: less_imp_le)
  from this(1) have small: "\<forall>a \<in> set ns. length a < length ?n" by fastforce
  then have new: "?n \<notin> set ns" by blast
  then have "gained fs0 ?fs' ?n = []" using inv by (auto simp: files_inv_def gained_def contents_def)
  moreover have "gained fs0 ?fs' = gained fs0 fs" by (auto simp: gained_def)
  ultimately have "files_inv fs0 (ns @ [?n]) out ?f ?fs'"
    using inv assms(2) small srt l here by (auto simp: files_inv_def sorted_wrt_append)
  moreover have "rf_roll_file opens (timestamp_new t) f fs = Inr (?f, ?fs')"
    using inv assms(2-) by (simp add: rf_roll_file_def roll_text_date os_open_def os_flush_def files_inv_def Let_def)
  ultimately show ?thesis by blast
qed

lemma files_inv_append:
  assumes inv: "files_inv fs0 ns out f fs" and "\<forall>p. opens p" and "log_time_ok t"
  shows "\<exists>ns' f' fs'. rf_append opens tellp (timestamp_new t) s f fs = Inr (f', fs') \<and> files_inv fs0 ns' (out @ s) f' fs'"
proof -
  have writes: "files_inv fs0 ns (out @ s) (f\<lparr>rf_os := os_write s (rf_os f)\<rparr>) fs" if "files_inv fs0 ns out f fs" for ns f fs
    using that by (auto simp: files_inv_def os_write_def)
  show ?thesis
  proof (cases "rf_roll_size f \<le> tellp (rf_os f) fs")
    case True
    obtain f1 fs1 where f1: "files_inv fs0 ns out f1 fs1" "os_pending (rf_os f1) = []" "f1 = f\<lparr>rf_os := rf_os f1\<rparr>"
      "os_flush (rf_os f) fs = (rf_os f1, fs1)"
      using files_inv_flush [OF inv] by blast
    obtain ns' f2 fs2 where "rf_roll_file opens (timestamp_new t) f1 fs1 = Inr (f2, fs2)" "files_inv fs0 ns' out f2 fs2"
      using files_inv_roll [OF f1(1,2) assms(2,3)] by blast
    then show ?thesis using True f1(3,4) writes by (auto simp: rf_append_def)
  next
    case False
    then show ?thesis using writes [OF inv] by (auto simp: rf_append_def)
  qed
qed

lemma files_inv_new:
  assumes "\<forall>p. opens p" and "log_time_ok t"
  shows "\<exists>ns f fs. rolling_file_new opens (timestamp_new t) name roll_size fs0 = Inr (f, fs) \<and> files_inv fs0 ns [] f fs"
proof -
  let ?n = "name @ butlast (date_text (timestamp_new t)) @ ''.log''"
  let ?f = "\<lparr>rf_name = ?n, rf_roll_size = roll_size, rf_os = \<lparr>os_path = Some ?n, os_pending = []\<rparr>\<rparr>"
  have "rolling_file_new opens (timestamp_new t) name roll_size fs0 = Inr (?f, fs0(?n \<mapsto> contents fs0 ?n))"
    using assms by (simp add: rolling_file_new_def rf_roll_file_def roll_text_date os_open_def os_flush_def os_closed_def Let_def)
  moreover have "files_inv fs0 [?n] [] ?f (fs0(?n \<mapsto> contents fs0 ?n))"
    by (simp add: files_inv_def gained_def)
  ultimately show ?thesis by blast
qed

lemma files_inv_acts:
  "files_inv fs0 ns out f fs \<Longrightarrow> \<forall>p. opens p \<Longrightarrow> \<forall>a \<in> set as. act_time_ok a \<Longrightarrow>
    \<exists>ns' f' fs'. file_acts opens tellp as f fs = Inr (f', fs') \<and> files_inv fs0 ns' (out @ concat (map act_text as)) f' fs'"
proof (induction "as" arbitrary: ns out f fs)
  case (Cons a "as")
  have later: "\<exists>ns' f' fs'. file_acts opens tellp as f1 fs1 = Inr (f', fs') \<and>
      files_inv fs0 ns' (out1 @ concat (map act_text as)) f' fs'" if "files_inv fs0 ns1 out1 f1 fs1" for ns1 out1 f1 fs1
    using Cons.IH [OF that Cons.prems(2)] Cons.prems(3) by simp
  show ?case
  proof (cases a)
    case (File_append t s)
    then have "log_time_ok t" using Cons.prems(3) by (simp add: act_time_ok_def)
    then obtain ns1 f1 fs1 where "rf_append opens tellp (timestamp_new t) s f fs = Inr (f1, fs1)"
      "files_inv fs0 ns1 (out @ s) f1 fs1" using files_inv_append [OF Cons.prems(1,2)] by blast
    then show ?thesis using later [of ns1 "out @ s" f1 fs1] File_append by simp
  next
    case File_flush
    obtain f1 fs1 where "rf_force_flush f fs = (f1, fs1)" "files_inv fs0 ns out f1 fs1"
      using files_inv_flush [OF Cons.prems(1)] by blast
    then show ?thesis using later [of ns out f1 fs1] File_flush by simp
  qed
qed auto

lemma log_files_keep_all:
  assumes "\<forall>p. opens p" and "log_time_ok t" and "\<forall>a \<in> set as. act_time_ok a"
  shows "\<exists>f fs f' fs' fs'' ns. rolling_file_new opens (timestamp_new t) name roll_size fs0 = Inr (f, fs) \<and>
    file_acts opens tellp as f fs = Inr (f', fs') \<and> snd (rf_force_flush f' fs') = fs'' \<and> distinct ns \<and>
    concat (map (gained fs0 fs'') ns) = concat (map act_text as) \<and>
    (\<forall>n. prefix (contents fs0 n) (contents fs'' n)) \<and> (\<forall>n. n \<notin> set ns \<longrightarrow> fs'' n = fs0 n)"
proof -
  obtain ns f fs where f: "rolling_file_new opens (timestamp_new t) name roll_size fs0 = Inr (f, fs)" "files_inv fs0 ns [] f fs"
    using files_inv_new [OF assms(1,2)] by blast
  obtain ns' f' fs' where f': "file_acts opens tellp as f fs = Inr (f', fs')"
    "files_inv fs0 ns' (concat (map act_text as)) f' fs'"
    using files_inv_acts [OF f(2) assms(1,3), of tellp] unfolding append_Nil by blast
  obtain g gs where "rf_force_flush f' fs' = (g, gs)" "files_inv fs0 ns' (concat (map act_text as)) g gs" "os_pending (rf_os g) = []"
    using files_inv_flush [OF f'(2)] by blast
  then show ?thesis using f(1) f'(1) lengths_distinct by (auto simp: files_inv_def)
qed

section \<open>The thread of the back end\<close>

text \<open>
  \<open>thread_\<close>: whether there is a thread to join, and the signals it blocks. The thread is in the wait of its
  loop; \<open>stop\<close> asks it to stop, wakes it, and joins it after it has left the loop.
\<close>

record logger_thread =
  lt_joinable :: bool
  lt_blocked :: "nat set"

definition stop_and_join ::
  "(string \<Rightarrow> fmt_arg list \<Rightarrow> string) \<Rightarrow> (nat \<Rightarrow> string) \<Rightarrow> logger_thread \<Rightarrow> log_world \<Rightarrow> (logger_thread \<times> log_world) res option" where
  "stop_and_join vformat mf th w =
     ores_bind (on_logger async_logger_stop w) (\<lambda>w.
     ores_bind (if lt_joinable th then logging_loop vformat mf [] w else Some (Inr w)) (\<lambda>w.
     Some (Inr (th\<lparr>lt_joinable := False\<rparr>, w))))"

text \<open>
  \<open>run\<close> and \<open>block_sigint_then_run\<close>, called by a thread that blocks \<open>blocked\<close>: a new thread inherits that, and
  the second adds \<open>SIGINT\<close> (2) in the new thread. The latch makes them wait until the new thread runs.
\<close>

definition logger_run ::
  "(string \<Rightarrow> fmt_arg list \<Rightarrow> string) \<Rightarrow> (nat \<Rightarrow> string) \<Rightarrow> nat set \<Rightarrow> logger_thread \<Rightarrow> log_world \<Rightarrow>
   (logger_thread \<times> log_world) res option" where
  "logger_run vformat mf blocked th w =
     ores_bind (if lt_joinable th then stop_and_join vformat mf th w else Some (Inr (th, w))) (\<lambda>(th, w).
     Some (Inr (\<lparr>lt_joinable = True, lt_blocked = blocked\<rparr>, w)))"

definition block_sigint_then_run ::
  "(string \<Rightarrow> fmt_arg list \<Rightarrow> string) \<Rightarrow> (nat \<Rightarrow> string) \<Rightarrow> nat set \<Rightarrow> logger_thread \<Rightarrow> log_world \<Rightarrow>
   (logger_thread \<times> log_world) res option" where
  "block_sigint_then_run vformat mf blocked th w =
     ores_bind (if lt_joinable th then stop_and_join vformat mf th w else Some (Inr (th, w))) (\<lambda>(th, w).
     Some (Inr (\<lparr>lt_joinable = True, lt_blocked = insert 2 blocked\<rparr>, w)))"

text \<open>
  A second \<open>run\<close> stops the thread, which writes everything, and starts another. The stop state is never
  reset, so the new thread leaves its loop at once, and what is logged after that is not written.
\<close>

lemma finish_stopping:
  assumes "accounts out w cs" and "stopping w"
  shows "\<exists>w'. logging_finish m w = Some (Inr w') \<and> accounts out w' cs \<and> logger_drained w' \<and> stopping w'"
proof -
  obtain w' where w': "logging_finish m w = Some (Inr w')" "accounts out w' cs" "logger_drained w'"
    using accounts_finish [OF assms(1)] by blast
  obtain w1 a where w1: "on_logger (\<lambda>a :: async_logger. a\<lparr>al_force_flush := True\<rparr>) w = Some (Inr w1)" "accounts out w1 cs"
      "lw_logger w = Some a" "lw_logger w1 = Some (a\<lparr>al_force_flush := True\<rparr>)"
    using accounts_on_logger [OF assms(1), of "\<lambda>a. a\<lparr>al_force_flush := True\<rparr>"] by (auto simp: written_def)
  obtain w2 a2 where w2: "world_poll m w1 = Some (Inr w2)" "lw_logger w2 = Some a2" "al_stop_requested a2 = al_stop_requested a"
    using accounts_poll [OF w1(2), of m] w1(4) by auto
  have "stopping w'" using w'(1) w1(1,3) w2 assms(2) by (auto simp: logging_finish_def on_logger_def)
  then show ?thesis using w' by blast
qed

lemma run_again_ends:
  assumes "accounts out w cs" and "lt_joinable th"
  shows "\<exists>w'. logger_run vformat mf blocked th w = Some (Inr (\<lparr>lt_joinable = True, lt_blocked = blocked\<rparr>, w')) \<and>
    accounts out w' cs \<and> logger_drained w' \<and> logging_loop vformat m rounds w' = logging_finish m w'"
proof -
  obtain a w1 where w1: "on_logger async_logger_stop w = Some (Inr w1)" "accounts out w1 cs"
      "lw_logger w1 = Some (async_logger_stop a)"
    using accounts_on_logger [OF assms(1), of async_logger_stop] by (auto simp: written_def async_logger_stop_def)
  then have "stopping w1" by (simp add: async_logger_stop_def)
  then obtain w' where w': "logging_finish mf w1 = Some (Inr w')" "accounts out w' cs" "logger_drained w'" "stopping w'"
    using finish_stopping [OF w1(2)] by blast
  moreover have "logging_loop vformat mf [] w1 = logging_finish mf w1" using w1(3) by (simp add: async_logger_stop_def)
  moreover have "logging_loop vformat m rounds w' = logging_finish m w'"
    using w'(3,4) by (cases rounds) (auto simp: logger_drained_def)
  ultimately show ?thesis using w1(1) assms(2) by (simp add: logger_run_def stop_and_join_def)
qed

end
