(* ===== verification/Log_Threads.thy ===== *)
theory Log_Threads
  imports Logging "HOL-Library.Sublist"
begin

text \<open>
  The logger with its threads interleaved (\<^verbatim>\<open>source/logging/async_logger.cpp\<close>). In \<^verbatim>\<open>Logging\<close> the other threads
  act only while the back end waits; here they act between any two steps of it: in the middle of a sweep over the
  rings, before the backlog is written, after the loop has seen the stop request. The number of messages is not
  bounded: a thread whose ring is full has no step until the back end has taken entries out of it.

  A step of the back end is one operation on shared state: reading the number of rings, one \<open>batch_out\<close>, the
  test at the end of a sweep, writing the backlog to the private buffer, flushing it, waking up. A step of another
  thread is the registration of its ring or one message. The vector \<open>log_rings_\<close> starts with room for four rings;
  a registration that finds it full moves it, and the back end, which indexes it without the lock, has undefined
  behaviour when it goes on with a sweep that was begun before. That an append and a \<open>batch_out\<close> of the same
  ring may be taken as single steps is what \<^verbatim>\<open>Spsc_Threads\<close> shows of the ring.
\<close>

section \<open>The system\<close>

text \<open>
  Where the back end is; the first component says whether it is in the last \<open>poll\<close>, after the loop. In a sweep: the
  index, the number of rings read at the start of \<open>poll\<close>, and the variable \<open>empty\<close>.
\<close>

datatype back_pc =
    Loop_head
  | Poll_enter bool
  | Poll_sweep bool nat nat bool
  | Poll_swept bool nat bool
  | Poll_write bool
  | Poll_flushing bool
  | Poll_left bool
  | Back_ended

text \<open>
  \<open>ls_calls\<close> and \<open>ls_stop_at\<close> only record the history: the lines of the calls so far, with their threads, and
  how many there were at the first request to stop. \<open>ls_capacity\<close> is the capacity of \<open>log_rings_\<close>, which the constructor
  sets to 4 by \<open>reserve\<close> and which is doubled when a ring is added to a full vector, as the usual libraries do;
  \<open>ls_moved\<close> tells that the elements have been moved to other memory since the back end last held the lock.
\<close>

record log_system =
  ls_world :: log_world
  ls_pc :: back_pc
  ls_backlogs :: "log_ring_entry list"
  ls_calls :: "(int \<times> string) list"
  ls_stop_at :: "nat option"
  ls_capacity :: nat
  ls_moved :: bool

definition log_system_init :: "log_world \<Rightarrow> log_system" where
  "log_system_init w = \<lparr>ls_world = w, ls_pc = Loop_head, ls_backlogs = [], ls_calls = [], ls_stop_at = None,
     ls_capacity = 4, ls_moved = False\<rparr>"

definition with_back :: "async_logger \<Rightarrow> back_pc \<Rightarrow> log_system \<Rightarrow> log_system" where
  "with_back a pc' s = s\<lparr>ls_world := (ls_world s)\<lparr>lw_logger := Some a\<rparr>, ls_pc := pc'\<rparr>"

text \<open>
  One \<open>batch_out\<close> of the loop over the rings. \<open>log_rings_[i]\<close> is read without the lock: when the vector has been
  moved since \<open>poll\<close> released the lock, nothing orders this read after the move, and it may read freed memory.
\<close>

definition sweep_one :: "async_logger \<Rightarrow> bool \<Rightarrow> nat \<Rightarrow> nat \<Rightarrow> bool \<Rightarrow> log_system \<Rightarrow> log_system res" where
  "sweep_one a fin i n nothing s =
     (if ls_moved s then Inl Undefined_object
      else if i < length (al_log_rings a) \<and> al_log_rings a ! i < length (lw_rings (ls_world s))
      then res_bind (batch_out log_ring_entry_default (ls_backlogs s) (lw_rings (ls_world s) ! (al_log_rings a ! i)))
             (\<lambda>(got, backlogs, r).
               Inr (s\<lparr>ls_world := (ls_world s)\<lparr>lw_rings := (lw_rings (ls_world s))[al_log_rings a ! i := r]\<rparr>,
                      ls_pc := Poll_sweep fin (Suc i) n (if got then False else nothing),
                      ls_backlogs := backlogs\<rparr>))
      else Inl Undefined_object)"

text \<open>\<open>logging_loop\<close> and the \<open>poll\<close> that it calls, one step at a time.\<close>

definition back_step :: "(nat \<Rightarrow> string) \<Rightarrow> log_system \<Rightarrow> log_system res" where
  "back_step m s =
     (case lw_logger (ls_world s) of
        None \<Rightarrow> Inl Null_deref
      | Some a \<Rightarrow>
          (case ls_pc s of
             Loop_head \<Rightarrow>
               if \<not> al_stop_requested a then Inr (with_back a (Poll_enter False) s)
               else Inr (with_back (a\<lparr>al_force_flush := True\<rparr>) (Poll_enter True) s)
           | Poll_enter fin \<Rightarrow>
               Inr (with_back a (Poll_sweep fin 0 (length (al_log_rings a)) True)
                 (s\<lparr>ls_backlogs := [], ls_moved := False\<rparr>))
           | Poll_sweep fin i n nothing \<Rightarrow>
               if i < n then sweep_one a fin i n nothing s else Inr (with_back a (Poll_swept fin n nothing) s)
           | Poll_swept fin n nothing \<Rightarrow>
               if nothing \<or> al_signal a \<or> al_force_flush a
               then Inr (with_back (a\<lparr>al_signal := False\<rparr>) (Poll_write fin) s)
               else if al_stop_requested a then Inr (with_back a (Poll_write fin) s)
               else Inr (with_back a (Poll_sweep fin 0 n True) s)
           | Poll_write fin \<Rightarrow>
               if ls_backlogs s = [] \<and> al_writing_buffer a = [] then Inr (with_back a (Poll_left fin) s)
               else res_bind (write_backlogs m (ls_backlogs s) a) (\<lambda>a.
                      Inr (with_back a (Poll_flushing fin) (s\<lparr>ls_backlogs := []\<rparr>)))
           | Poll_flushing fin \<Rightarrow> Inr (with_back (poll_flush a) (Poll_left fin) s)
           | Poll_left fin \<Rightarrow>
               if fin
               then Inr (with_back (a\<lparr>al_output_file := log_file_force_flush (al_output_file a)\<rparr>) Back_ended s)
               else Inr (with_back (a\<lparr>al_force_flush := True\<rparr>) Loop_head s)
           | Back_ended \<Rightarrow> Inr s))"

text \<open>
  The other threads: \<open>append\<close> of a thread that logs for the first time registers its ring, then the message goes
  into the ring as soon as there is room; any thread may set the level or call \<open>stop\<close>, which requests the stop
  first and the flush later, under the lock.
\<close>

definition stop_request :: "async_logger \<Rightarrow> async_logger" where
  "stop_request a = a\<lparr>al_stop_requested := True\<rparr>"

definition flush_request :: "async_logger \<Rightarrow> async_logger" where
  "flush_request a = a\<lparr>al_force_flush := True\<rparr>"

definition stop_mark :: "log_system \<Rightarrow> nat option" where
  "stop_mark s = (case ls_stop_at s of None \<Rightarrow> Some (length (ls_calls s)) | Some k \<Rightarrow> Some k)"

text \<open>\<open>log_rings_.emplace_back\<close>, seen from the memory of the vector; \<open>w\<close> is the state with the new ring.\<close>

definition ring_added :: "async_logger \<Rightarrow> log_world \<Rightarrow> log_system \<Rightarrow> log_system" where
  "ring_added a w s =
     (if length (al_log_rings a) = ls_capacity s
      then s\<lparr>ls_world := w, ls_capacity := 2 * ls_capacity s, ls_moved := True\<rparr>
      else s\<lparr>ls_world := w\<rparr>)"

inductive front_step ::
  "(string \<Rightarrow> fmt_arg list \<Rightarrow> string) \<Rightarrow> log_system \<Rightarrow> log_system \<Rightarrow> bool" for vformat where
  registers: "lw_logger (ls_world s) = Some a \<Longrightarrow> lw_local_ring (ls_world s) t = None \<Longrightarrow>
    log_ring_of t a (ls_world s) = Inr (p, w) \<Longrightarrow> front_step vformat s (ring_added a w s)"
| logs: "call_ok c \<Longrightarrow> lw_local_ring (ls_world s) (lc_thread c) \<noteq> None \<Longrightarrow>
    log_emit vformat m (local_views (lc_thread c) (ls_world s)) c (ls_world s) = Some (Inr w) \<Longrightarrow>
    front_step vformat s
      (s\<lparr>ls_world := w, ls_calls := ls_calls s @ emitted vformat (LOG_LEVEL (ls_world s)) [(m, c)]\<rparr>)"
| sets_level: "front_step vformat s (s\<lparr>ls_world := set_log_level l (ls_world s)\<rparr>)"
| asks_to_stop: "on_logger stop_request (ls_world s) = Some (Inr w) \<Longrightarrow>
    front_step vformat s (s\<lparr>ls_world := w, ls_stop_at := stop_mark s\<rparr>)"
| asks_to_flush: "on_logger flush_request (ls_world s) = Some (Inr w) \<Longrightarrow> front_step vformat s (s\<lparr>ls_world := w\<rparr>)"

inductive log_step ::
  "(string \<Rightarrow> fmt_arg list \<Rightarrow> string) \<Rightarrow> log_system \<Rightarrow> log_system \<Rightarrow> bool" for vformat where
  back_moves: "ls_pc s \<noteq> Back_ended \<Longrightarrow> back_step m s = Inr s' \<Longrightarrow> log_step vformat s s'"
| front_moves: "front_step vformat s s' \<Longrightarrow> log_step vformat s s'"

section \<open>The books\<close>

definition lines_of :: "int \<Rightarrow> log_ring_entry list \<Rightarrow> (int \<times> string) list" where
  "lines_of t hs = map (\<lambda>h. (t, log_line no_memory h)) hs"

lemma lines_of_simps [simp]:
  "lines_of t [] = []" "lines_of t (hs @ hs') = lines_of t hs @ lines_of t hs'" "length (lines_of t hs) = length hs"
  by (simp_all add: lines_of_def)

definition entries_ok :: "log_ring_entry list \<Rightarrow> bool" where
  "entries_ok hs \<longleftrightarrow> (\<forall>h \<in> set hs. entry_ok (snd h) \<and> (\<forall>m m'. fst h m = fst h m'))"

text \<open>
  \<open>ds\<close> are the lines that have been written, \<open>bl\<close> the backlog, both with their threads: the calls of a thread are its
  lines written, in the backlog and in its ring, in this order.
\<close>

definition vector_ok :: "async_logger \<Rightarrow> log_system \<Rightarrow> bool" where
  "vector_ok a s \<longleftrightarrow> length (al_log_rings a) \<le> ls_capacity s \<and>
     (length (al_log_rings a) \<le> 4 \<longrightarrow> ls_capacity s = 4 \<and> \<not> ls_moved s)"

definition books ::
  "async_logger \<Rightarrow> (int \<times> string) list \<Rightarrow> (int \<times> log_ring_entry) list \<Rightarrow> string \<Rightarrow> log_system \<Rightarrow> bool" where
  "books a ds bl out s \<longleftrightarrow>
     logger_inv a (ls_world s) \<and> vector_ok a s \<and> written a = out @ concat (map snd ds) \<and>
     map snd bl = ls_backlogs s \<and> entries_ok (ls_backlogs s) \<and>
     (\<forall>t. of_thread t ds @ lines_of t (map snd (of_thread t bl)) @ lines_of t (unread (ls_world s) t) =
        of_thread t (ls_calls s)) \<and>
     (al_stop_requested a \<longleftrightarrow> ls_stop_at s \<noteq> None) \<and>
     (\<forall>k. ls_stop_at s = Some k \<longrightarrow> k \<le> length (ls_calls s))"

text \<open>
  In the last \<open>poll\<close>: what waits in the rings that have been read, and in those that were registered too late for it,
  was logged after the stop request.
\<close>

definition after_stop :: "log_system \<Rightarrow> int \<Rightarrow> (int \<times> string) list" where
  "after_stop s t = of_thread t (drop (the (ls_stop_at s)) (ls_calls s))"

definition caught_up :: "nat \<Rightarrow> nat \<Rightarrow> async_logger \<Rightarrow> log_system \<Rightarrow> bool" where
  "caught_up i n a s \<longleftrightarrow>
     (\<forall>k t. k < length (al_log_rings a) \<longrightarrow> k < i \<or> n \<le> k \<longrightarrow> lw_local_ring (ls_world s) t = Some (al_log_rings a ! k) \<longrightarrow>
        length (unread (ls_world s) t) \<le> length (after_stop s t))"

definition last_ok :: "bool \<Rightarrow> nat \<Rightarrow> nat \<Rightarrow> async_logger \<Rightarrow> log_system \<Rightarrow> bool" where
  "last_ok fin i n a s \<longleftrightarrow> (fin \<longrightarrow> al_stop_requested a \<and> caught_up i n a s)"

definition pc_ok :: "async_logger \<Rightarrow> log_system \<Rightarrow> bool" where
  "pc_ok a s \<longleftrightarrow>
     (case ls_pc s of
        Loop_head \<Rightarrow> ls_backlogs s = []
      | Poll_enter fin \<Rightarrow> ls_backlogs s = [] \<and> (fin \<longrightarrow> al_stop_requested a \<and> al_force_flush a)
      | Poll_sweep fin i n nothing \<Rightarrow> n \<le> length (al_log_rings a) \<and> i \<le> n \<and> (fin \<longrightarrow> al_force_flush a) \<and> last_ok fin i n a s
      | Poll_swept fin n nothing \<Rightarrow> n \<le> length (al_log_rings a) \<and> (fin \<longrightarrow> al_force_flush a) \<and> last_ok fin n n a s
      | Poll_write fin \<Rightarrow> (fin \<longrightarrow> al_force_flush a) \<and> last_ok fin 0 0 a s
      | Poll_flushing fin \<Rightarrow> ls_backlogs s = [] \<and> (fin \<longrightarrow> al_force_flush a) \<and> last_ok fin 0 0 a s
      | Poll_left fin \<Rightarrow> ls_backlogs s = [] \<and> (fin \<longrightarrow> al_writing_buffer a = []) \<and> last_ok fin 0 0 a s
      | Back_ended \<Rightarrow> ls_backlogs s = [] \<and> al_writing_buffer a = [] \<and> last_ok True 0 0 a s \<and>
          lf_flushed (al_output_file a) = length (lf_stdout (al_output_file a)))"

definition sys_inv :: "string \<Rightarrow> log_system \<Rightarrow> bool" where
  "sys_inv out s \<longleftrightarrow> (\<exists>a ds bl. books a ds bl out s \<and> pc_ok a s)"

section \<open>Steps of the back end\<close>

lemma with_back_simps [simp]:
  "lw_logger (ls_world (with_back a pc' s)) = Some a" "ls_pc (with_back a pc' s) = pc'"
  "ls_backlogs (with_back a pc' s) = ls_backlogs s" "ls_calls (with_back a pc' s) = ls_calls s"
  "ls_stop_at (with_back a pc' s) = ls_stop_at s"
  "ls_capacity (with_back a pc' s) = ls_capacity s" "ls_moved (with_back a pc' s) = ls_moved s"
  "lw_local_ring (ls_world (with_back a pc' s)) = lw_local_ring (ls_world s)"
  "unread (ls_world (with_back a pc' s)) = unread (ls_world s)"
  by (simp_all add: with_back_def unread_def fun_eq_iff split: option.splits)

lemma caught_up_with_back [simp]:
  "al_log_rings a' = al_log_rings a \<Longrightarrow> caught_up i n a' (with_back b pc' s) = caught_up i n a s"
  by (simp add: caught_up_def after_stop_def)

lemma caught_up_more: "caught_up n n a s \<Longrightarrow> caught_up i j a s"
  unfolding caught_up_def by (meson not_le)

lemma books_logger: "books a ds bl out s \<Longrightarrow> lw_logger (ls_world s) = Some a"
  by (simp add: books_def logger_inv_def)

lemma books_with_back:
  assumes "books a ds bl out s" and "written a' = written a" and "time_inv a'"
    and "al_log_rings a' = al_log_rings a" and "al_stop_requested a' = al_stop_requested a"
  shows "books a' ds bl out (with_back a' pc' s)"
  using assms by (auto simp: books_def logger_inv_def vector_ok_def with_back_def unread_def cong: option.case_cong)

lemma books_time_inv: "books a ds bl out s \<Longrightarrow> time_inv a"
  by (simp add: books_def logger_inv_def)

text \<open>Writing the backlog moves its lines to the written ones.\<close>

lemma of_thread_lines:
  "of_thread t (map (\<lambda>b. (fst b, log_line no_memory (snd b))) bl) = lines_of t (map snd (of_thread t bl))"
  by (induction bl) (auto simp: of_thread_def lines_of_def)

lemma books_write:
  assumes b: "books a ds bl out s"
  shows "\<exists>a' ds'. write_backlogs m (ls_backlogs s) a = Inr a' \<and>
    books a' ds' [] out (with_back a' pc' (s\<lparr>ls_backlogs := []\<rparr>)) \<and> al_log_rings a' = al_log_rings a \<and>
    al_stop_requested a' = al_stop_requested a \<and> al_force_flush a' = al_force_flush a"
proof -
  let ?hs = "ls_backlogs s" and ?new = "map (\<lambda>b. (fst b, log_line no_memory (snd b))) bl"
  have ok: "\<forall>h \<in> set ?hs. entry_ok (snd h)" using b by (simp add: books_def entries_ok_def)
  obtain ts buf where w: "write_backlogs m ?hs a =
      Inr (a\<lparr>al_last_time := ts, al_time_buffer := buf,
             al_writing_buffer := al_writing_buffer a @ concat (map (log_line m) ?hs)\<rparr>)"
      "time_inv (a\<lparr>al_last_time := ts, al_time_buffer := buf\<rparr>)"
    using write_backlogs_lines [OF books_time_inv [OF b] ok] by blast
  let ?a = "a\<lparr>al_last_time := ts, al_time_buffer := buf,
    al_writing_buffer := al_writing_buffer a @ concat (map (log_line m) ?hs)\<rparr>"
  have "log_line m h = log_line no_memory h" if "h \<in> set ?hs" for h
    using b that by (auto simp: books_def entries_ok_def log_line_def)
  then have "map (log_line m) ?hs = map (log_line no_memory) ?hs" by simp
  moreover have "?hs = map snd bl" using b by (simp add: books_def)
  ultimately have "map (log_line m) ?hs = map snd ?new" by simp
  then have wr: "written ?a = out @ concat (map snd (ds @ ?new))" using b by (simp add: books_def written_def)
  have "books ?a (ds @ ?new) [] out (with_back ?a pc' (s\<lparr>ls_backlogs := []\<rparr>))"
    unfolding books_def
  proof (intro conjI allI)
    show "logger_inv ?a (ls_world (with_back ?a pc' (s\<lparr>ls_backlogs := []\<rparr>)))"
      using b w(2) by (auto simp: books_def logger_inv_def with_back_def)
  qed (use b wr in \<open>auto simp: books_def vector_ok_def entries_ok_def of_thread_lines of_thread_def [of _ "[]"]\<close>)
  then show ?thesis using w(1) by auto
qed

text \<open>Reading one ring moves what waits in it to the backlog.\<close>

lemma logger_inv_rings:
  assumes "logger_inv a w"
  shows "rings_ok (al_log_rings a) (lw_rings w)" "p \<in> set (al_log_rings a) \<Longrightarrow> \<exists>t. lw_local_ring w t = Some p"
    "lw_local_ring w t = Some p \<Longrightarrow> lw_local_ring w t' = Some p \<Longrightarrow> t = t'"
    "lw_local_ring w t = Some p \<Longrightarrow> p \<in> set (al_log_rings a)"
  using assms unfolding logger_inv_def by blast+

lemma sweep_one_books:
  assumes b: "books a ds bl out s" and i: "i < n" "n \<le> length (al_log_rings a)" and up: "last_ok fin i n a s"
    and moved: "\<not> ls_moved s"
  shows "\<exists>s' e bl'. sweep_one a fin i n nothing s = Inr s' \<and> books a ds bl' out s' \<and>
    ls_pc s' = Poll_sweep fin (Suc i) n e \<and> last_ok fin (Suc i) n a s'"
proof -
  let ?w = "ls_world s" and ?p = "al_log_rings a ! i"
  have inv: "logger_inv a ?w" using b by (simp add: books_def)
  note rings = logger_inv_rings [OF inv]
  have p: "?p \<in> set (al_log_rings a)" using i by simp
  then have pr: "?p < length (lw_rings ?w)" "log_ring_ok (lw_rings ?w ! ?p)" using rings(1) by (simp_all add: rings_ok_def)
  obtain t where t: "lw_local_ring ?w t = Some ?p" using rings(2) [OF p] by blast
  have own: "lw_local_ring ?w t' = Some ?p \<longleftrightarrow> t' = t" for t' using t rings(3) by blast
  obtain r where r: "batch_out log_ring_entry_default (ls_backlogs s) (lw_rings ?w ! ?p) =
      Inr (items (lw_rings ?w ! ?p) \<noteq> [], ls_backlogs s @ items (lw_rings ?w ! ?p), r)"
    "log_ring_ok r" "items r = []"
    using log_ring_out [OF pr(2)] by blast
  let ?w' = "?w\<lparr>lw_rings := (lw_rings ?w)[?p := r]\<rparr>" and ?e = "if items (lw_rings ?w ! ?p) \<noteq> [] then False else nothing"
  let ?s = "s\<lparr>ls_world := ?w', ls_pc := Poll_sweep fin (Suc i) n ?e, ls_backlogs := ls_backlogs s @ items (lw_rings ?w ! ?p)\<rparr>"
  let ?bl = "bl @ map (Pair t) (items (lw_rings ?w ! ?p))"
  have un: "unread ?w' t' = (if t' = t then [] else unread ?w t')" for t'
    using own [of t'] pr(1) r(3) by (cases "lw_local_ring ?w t'") (auto simp: unread_def nth_list_update)
  have ut: "unread ?w t = items (lw_rings ?w ! ?p)" using t by (simp add: unread_def)
  have "books a ds ?bl out ?s"
    unfolding books_def
  proof (intro conjI allI)
    show "logger_inv a (ls_world ?s)" using inv rings_ok_update [OF rings(1) r(2)] by (simp add: logger_inv_def)
    show "entries_ok (ls_backlogs ?s)" using b pr(2) by (auto simp: books_def entries_ok_def log_ring_ok_def)
    fix t'
    have bl: "map snd (of_thread t' ?bl) = map snd (of_thread t' bl) @ (if t' = t then items (lw_rings ?w ! ?p) else [])"
      by (simp add: of_thread_def filter_map comp_def)
    have "of_thread t' ds @ lines_of t' (map snd (of_thread t' bl)) @ lines_of t' (unread ?w t') = of_thread t' (ls_calls s)"
      using b by (simp add: books_def)
    then show "of_thread t' ds @ lines_of t' (map snd (of_thread t' ?bl)) @ lines_of t' (unread (ls_world ?s) t') =
        of_thread t' (ls_calls ?s)"
      unfolding bl using ut by (cases "t' = t") (simp_all add: un)
  qed (use b in \<open>auto simp: books_def vector_ok_def comp_def\<close>)
  moreover have "last_ok fin (Suc i) n a ?s"
    unfolding last_ok_def caught_up_def
  proof (intro impI conjI allI)
    fix k t'
    assume fin: fin and k: "k < length (al_log_rings a)" "k < Suc i \<or> n \<le> k"
      and l: "lw_local_ring (ls_world ?s) t' = Some (al_log_rings a ! k)"
    show "length (unread (ls_world ?s) t') \<le> length (after_stop ?s t')"
    proof (cases "t' = t")
      case False
      then have "k \<noteq> i" using l own by auto
      then have "k < i \<or> n \<le> k" and "lw_local_ring ?w t' = Some (al_log_rings a ! k)" using k(2) l by auto
      then have "length (unread ?w t') \<le> length (after_stop s t')"
        using up fin k(1) unfolding last_ok_def caught_up_def by blast
      then show ?thesis using False by (simp add: un after_stop_def)
    qed (simp add: un)
  qed (use up in \<open>simp add: last_ok_def\<close>)
  moreover have "sweep_one a fin i n nothing s = Inr ?s"
    using i pr(1) r(1) moved by (simp add: sweep_one_def)
  ultimately show ?thesis by (intro exI [of _ ?s] exI [of _ ?e] exI [of _ ?bl]) simp
qed

lemma last_ok_back [simp]:
  "al_log_rings a' = al_log_rings a \<Longrightarrow> al_stop_requested a' = al_stop_requested a \<Longrightarrow>
    last_ok fin i n a' (with_back b pc' s) = last_ok fin i n a s"
  by (simp add: last_ok_def)

text \<open>The one fault of the back end: going on with a sweep over a vector that has been moved.\<close>

definition sweeps_moved :: "log_system \<Rightarrow> bool" where
  "sweeps_moved s \<longleftrightarrow> ls_moved s \<and> (case ls_pc s of Poll_sweep fin i n nothing \<Rightarrow> i < n | _ \<Rightarrow> False)"

lemma sweeps_moved_fault: "sys_inv out s \<Longrightarrow> sweeps_moved s \<Longrightarrow> back_step m s = Inl Undefined_object"
  by (auto simp: sys_inv_def sweeps_moved_def back_step_def sweep_one_def dest!: books_logger split: back_pc.splits)

lemma back_step_inv:
  assumes "sys_inv out s" and "\<not> sweeps_moved s"
  shows "\<exists>s'. back_step m s = Inr s' \<and> sys_inv out s'"
proof -
  obtain a ds bl where b: "books a ds bl out s" and pc: "pc_ok a s" using assms by (auto simp: sys_inv_def)
  note lg = books_logger [OF b] and keep = books_with_back [OF b] and ti = books_time_inv [OF b]
  have stay: ?thesis if "back_step m s = Inr (with_back a' pc' s)" "written a' = written a" "time_inv a'"
      "al_log_rings a' = al_log_rings a" "al_stop_requested a' = al_stop_requested a" "pc_ok a' (with_back a' pc' s)" for a' pc'
    using that keep unfolding sys_inv_def by blast
  show ?thesis
  proof (cases "ls_pc s")
    case Loop_head
    let ?a = "if \<not> al_stop_requested a then a else a\<lparr>al_force_flush := True\<rparr>"
    show ?thesis
      by (rule stay [of ?a "Poll_enter (al_stop_requested a)"])
         (use Loop_head lg ti pc in \<open>simp_all add: back_step_def written_def pc_ok_def\<close>)
  next
    case (Poll_enter fin)
    let ?s = "s\<lparr>ls_backlogs := [], ls_moved := False\<rparr>" and ?pc = "Poll_sweep fin 0 (length (al_log_rings a)) True"
    have "books a ds bl out ?s" using b pc Poll_enter by (auto simp: books_def vector_ok_def pc_ok_def)
    then have "books a ds bl out (with_back a ?pc ?s)" using books_with_back ti by blast
    moreover have "pc_ok a (with_back a ?pc ?s)"
      using Poll_enter pc by (simp add: pc_ok_def last_ok_def caught_up_def)
    ultimately show ?thesis using Poll_enter lg by (auto simp: back_step_def sys_inv_def)
  next
    case (Poll_sweep fin i n nothing)
    show ?thesis
    proof (cases "i < n")
      case True
      have "n \<le> length (al_log_rings a)" "last_ok fin i n a s" "fin \<longrightarrow> al_force_flush a" "\<not> ls_moved s"
        using pc Poll_sweep assms(2) True by (simp_all add: pc_ok_def sweeps_moved_def)
      moreover then obtain s' e bl' where "sweep_one a fin i n nothing s = Inr s'" "books a ds bl' out s'"
        "ls_pc s' = Poll_sweep fin (Suc i) n e" "last_ok fin (Suc i) n a s'"
        using sweep_one_books [OF b True, of fin nothing] by blast
      ultimately have "back_step m s = Inr s' \<and> pc_ok a s' \<and> books a ds bl' out s'"
        using True Poll_sweep lg by (simp add: back_step_def pc_ok_def)
      then show ?thesis unfolding sys_inv_def by blast
    next
      case False
      then have n: "i = n" using pc Poll_sweep by (simp add: pc_ok_def)
      show ?thesis
        by (intro stay [of a "Poll_swept fin n nothing"])
           (use Poll_sweep [unfolded n] lg ti pc in \<open>simp_all add: back_step_def pc_ok_def\<close>)
    qed
  next
    case (Poll_swept fin n nothing)
    then have up: "last_ok fin 0 0 a s" "last_ok fin n n a s"
      using pc caught_up_more by (auto simp: pc_ok_def last_ok_def)
    consider "nothing \<or> al_signal a \<or> al_force_flush a" | "\<not> (nothing \<or> al_signal a \<or> al_force_flush a)" "al_stop_requested a"
      | "\<not> (nothing \<or> al_signal a \<or> al_force_flush a)" "\<not> al_stop_requested a" by blast
    then show ?thesis
    proof cases
      case 1
      then show ?thesis
        by (intro stay [of "a\<lparr>al_signal := False\<rparr>" "Poll_write fin"])
           (use Poll_swept lg ti pc up in \<open>simp_all add: back_step_def pc_ok_def written_def\<close>)
    next
      case 2
      then show ?thesis
        by (intro stay [of a "Poll_write fin"]) (use Poll_swept lg ti pc up in \<open>simp_all add: back_step_def pc_ok_def\<close>)
    next
      case 3
      then show ?thesis
        by (intro stay [of a "Poll_sweep fin 0 n True"])
           (use Poll_swept lg ti pc up in \<open>auto simp add: back_step_def pc_ok_def last_ok_def\<close>)
    qed
  next
    case (Poll_write fin)
    show ?thesis
    proof (cases "ls_backlogs s = [] \<and> al_writing_buffer a = []")
      case True
      then show ?thesis
        by (intro stay [of a "Poll_left fin"]) (use Poll_write lg ti pc in \<open>simp_all add: back_step_def pc_ok_def\<close>)
    next
      case False
      obtain a' ds' where w: "write_backlogs m (ls_backlogs s) a = Inr a'"
        "books a' ds' [] out (with_back a' (Poll_flushing fin) (s\<lparr>ls_backlogs := []\<rparr>))" "al_log_rings a' = al_log_rings a"
        "al_stop_requested a' = al_stop_requested a" "al_force_flush a' = al_force_flush a"
        using books_write [OF b] by blast
      have "pc_ok a' (with_back a' (Poll_flushing fin) (s\<lparr>ls_backlogs := []\<rparr>))"
        using pc Poll_write w(3-5) by (auto simp: pc_ok_def last_ok_def caught_up_def after_stop_def)
      then show ?thesis using w(1,2) False Poll_write lg by (auto simp: back_step_def sys_inv_def)
    qed
  next
    case (Poll_flushing fin)
    show ?thesis
      by (rule stay [of "poll_flush a" "Poll_left fin"])
         (use Poll_flushing lg ti pc poll_flush_facts [of a] in \<open>simp_all add: back_step_def pc_ok_def\<close>)
  next
    case (Poll_left fin)
    show ?thesis
    proof (cases fin)
      case True
      then show ?thesis
        by (intro stay [of "a\<lparr>al_output_file := log_file_force_flush (al_output_file a)\<rparr>" Back_ended])
           (use Poll_left lg ti pc in \<open>simp_all add: back_step_def pc_ok_def written_def log_file_force_flush_def\<close>)
    next
      case False
      then show ?thesis
        by (intro stay [of "a\<lparr>al_force_flush := True\<rparr>" Loop_head])
           (use Poll_left lg ti pc in \<open>simp_all add: back_step_def pc_ok_def written_def\<close>)
    qed
  next
    case Back_ended
    then show ?thesis using assms lg by (auto simp: back_step_def)
  qed
qed

section \<open>Steps of the other threads\<close>

lemma pc_ok_frame:
  assumes "pc_ok a s" and "ls_pc s' = ls_pc s" and "ls_backlogs s' = ls_backlogs s"
    and "al_writing_buffer a' = al_writing_buffer a" and "al_output_file a' = al_output_file a"
    and "al_force_flush a \<longrightarrow> al_force_flush a'" and "length (al_log_rings a) \<le> length (al_log_rings a')"
    and "\<And>fin i n. n \<le> length (al_log_rings a) \<Longrightarrow> last_ok fin i n a s \<Longrightarrow> last_ok fin i n a' s'"
    and "al_stop_requested a \<longrightarrow> al_stop_requested a'"
  shows "pc_ok a' s'"
  using assms by (auto simp: pc_ok_def split: back_pc.splits)

lemma register_inv:
  assumes b: "books a ds bl out s" and pc: "pc_ok a s" and t: "lw_local_ring (ls_world s) t = None"
    and r: "log_ring_of t a (ls_world s) = Inr (p, w)"
  shows "sys_inv out (ring_added a w s)"
proof -
  let ?w = "ls_world s" and ?s = "ring_added a w s"
  have s': "ls_world ?s = w" "ls_pc ?s = ls_pc s" "ls_backlogs ?s = ls_backlogs s" "ls_calls ?s = ls_calls s"
    "ls_stop_at ?s = ls_stop_at s" by (simp_all add: ring_added_def)
  have inv: "logger_inv a ?w" using b by (simp add: books_def)
  let ?a = "a\<lparr>al_log_rings := al_log_rings a @ [length (lw_rings ?w)], al_signal := True\<rparr>"
  obtain rg where w: "w = ?w\<lparr>lw_rings := lw_rings ?w @ [rg], lw_local_ring := (lw_local_ring ?w)(t \<mapsto> length (lw_rings ?w)),
      lw_logger := Some ?a\<rparr>" and p: "p = length (lw_rings ?w)"
    using r t by (auto simp: log_ring_of_def Let_def res_bind_Inr_iff)
  obtain p' w' a' where n: "log_ring_of t a ?w = Inr (p', w')" "logger_inv a' w'" "unread w' = unread ?w" "written a' = written a"
    "al_stop_requested a' = al_stop_requested a"
    using log_ring_of_new [OF inv t] by blast
  then have eq: "w' = w" using r by simp
  then have a': "a' = ?a" using n(2) w by (simp add: logger_inv_def)
  have un: "unread w t' = unread ?w t'" for t' using n(3) eq by simp
  have "vector_ok ?a ?s" using b by (auto simp: books_def vector_ok_def ring_added_def)
  then have "books ?a ds bl out ?s"
    using b n(2,4) eq a' un by (simp add: books_def s')
  moreover have lk: "last_ok fin i n ?a ?s" if n: "n \<le> length (al_log_rings a)" and l: "last_ok fin i n a s" for fin i n
    unfolding last_ok_def caught_up_def
  proof (intro impI conjI allI)
    fix k t'
    assume f: fin and k: "k < length (al_log_rings ?a)" "k < i \<or> n \<le> k"
      and loc: "lw_local_ring (ls_world ?s) t' = Some (al_log_rings ?a ! k)"
    show "length (unread (ls_world ?s) t') \<le> length (after_stop ?s t')"
    proof (cases "t' = t")
      case True
      then have "unread (ls_world ?s) t' = []" using un t by (simp add: unread_def s')
      then show ?thesis by simp
    next
      case False
      then have l': "lw_local_ring ?w t' = Some (al_log_rings ?a ! k)" using loc [unfolded s'(1)] unfolding w by simp
      then have "al_log_rings ?a ! k \<in> set (al_log_rings a)" by (rule logger_inv_rings(4) [OF inv])
      then have "al_log_rings ?a ! k < length (lw_rings ?w)"
        using logger_inv_rings(1) [OF inv] by (simp add: rings_ok_def)
      then have k': "k < length (al_log_rings a)" using k(1) by (auto simp: nth_append less_Suc_eq)
      then have "lw_local_ring ?w t' = Some (al_log_rings a ! k)" using l' by (simp add: nth_append)
      then have "length (unread ?w t') \<le> length (after_stop s t')"
        using l f k(2) k' unfolding last_ok_def caught_up_def by blast
      then show ?thesis by (simp add: un after_stop_def s')
    qed
  qed (use l in \<open>simp add: last_ok_def\<close>)
  have "pc_ok ?a ?s" by (rule pc_ok_frame [OF pc]) (simp_all add: lk s')
  ultimately show ?thesis unfolding sys_inv_def by blast
qed

text \<open>A message that has found room in the ring of its thread.\<close>

lemma emplace_full: "log_ring_ok r \<Longrightarrow> \<not> length (items r) < 8191 \<Longrightarrow> Spsc_Ring.emplace_back [r_index_read r] h r = None"
  using ring_inv_def [of r]
  by (auto simp: log_ring_ok_def Spsc_Ring.emplace_back_def emplace_def Let_def free_entries_zero_iff not_less split: option.splits)

lemma emit_inv:
  assumes inv: "logger_inv a w" and c: "call_ok c" and p: "lw_local_ring w (lc_thread c) = Some p"
    and e: "log_emit vformat m (local_views (lc_thread c) w) c w = Some (Inr w')"
  shows "logger_inv a w'" and "lw_local_ring w' = lw_local_ring w"
    and "lines_of t (unread w' t) = lines_of t (unread w t) @ of_thread t (emitted vformat (LOG_LEVEL w) [(m, c)])"
proof -
  let ?t = "lc_thread c" and ?h = "log_call_entry vformat m c (tid_text (lc_thread c))"
  have "logger_inv a w' \<and> lw_local_ring w' = lw_local_ring w \<and>
    lines_of t (unread w' t) = lines_of t (unread w t) @ of_thread t (emitted vformat (LOG_LEVEL w) [(m, c)])"
  proof (cases "SHOULD_EMIT (lc_level c) w")
    case False
    then show ?thesis using e inv by (auto simp: log_emit_def emitted_def SHOULD_EMIT_def of_thread_def)
  next
    case True
    have tls: "tls_ok ?t (lw_tls w ?t)" using inv by (simp add: logger_inv_def)
    let ?w = "w\<lparr>lw_tls := (lw_tls w)(?t := snd (tid_string ?t (lw_tls w ?t)))\<rparr>"
    have inv': "logger_inv a ?w" using inv tid_string_ok(2) [OF tls] by (rule logger_inv_tls)
    have un: "unread ?w = unread w" by (auto simp: unread_def fun_eq_iff split: option.splits)
    have views: "local_views ?t w = [r_index_read (lw_rings w ! p)]" using p by (simp add: local_views_def)
    have ap: "async_logger_append [r_index_read (lw_rings w ! p)] ?t ?h ?w = Some (Inr w')"
      using e True tid_string_ok(1) [OF tls] views by (simp add: log_emit_def split_beta)
    have lg: "lw_logger ?w = Some a" "lw_local_ring ?w ?t = Some p" using inv' p by (simp_all add: logger_inv_def)
    have "log_ring_ok (lw_rings w ! p)"
      using logger_inv_rings(1,4) [OF inv] p by (auto simp: rings_ok_def)
    then have room: "length (unread ?w ?t) < 8191"
      using ap lg p emplace_full [of "lw_rings w ! p" ?h] un
      by (cases "length (items (lw_rings w ! p)) < 8191")
         (auto simp: async_logger_append_def log_ring_of_def unread_def split: if_splits)
    obtain r where r: "Spsc_Ring.emplace_back [r_index_read (lw_rings ?w ! p)] ?h (lw_rings ?w ! p) = Some (Inr r)"
      "p < length (lw_rings ?w)" "logger_inv a (?w\<lparr>lw_rings := (lw_rings ?w)[p := r]\<rparr>)"
      "unread (?w\<lparr>lw_rings := (lw_rings ?w)[p := r]\<rparr>) = (unread ?w)(?t := unread ?w ?t @ [?h])"
      using logger_inv_push [OF inv' lg(2) room log_call_entry_ok(1,2) [OF c]] by blast
    have w': "w' = ?w\<lparr>lw_rings := (lw_rings ?w)[p := r]\<rparr>"
      using ap lg r(1,2) by (simp add: async_logger_append_def log_ring_of_def)
    have "emitted vformat (LOG_LEVEL w) [(m, c)] = [(?t, call_line vformat m c)]"
      using True by (simp add: emitted_def SHOULD_EMIT_def split: if_splits)
    then show ?thesis
      using r(3,4) w' un log_call_entry_ok(3) [OF c, of no_memory vformat m]
      by (auto simp: lines_of_def of_thread_def)
  qed
  then show "logger_inv a w'" and "lw_local_ring w' = lw_local_ring w"
    and "lines_of t (unread w' t) = lines_of t (unread w t) @ of_thread t (emitted vformat (LOG_LEVEL w) [(m, c)])"
    by blast+
qed

lemma log_inv:
  assumes b: "books a ds bl out s" and pc: "pc_ok a s" and c: "call_ok c"
    and p: "lw_local_ring (ls_world s) (lc_thread c) = Some p"
    and e: "log_emit vformat m (local_views (lc_thread c) (ls_world s)) c (ls_world s) = Some (Inr w)"
  shows "sys_inv out (s\<lparr>ls_world := w, ls_calls := ls_calls s @ emitted vformat (LOG_LEVEL (ls_world s)) [(m, c)]\<rparr>)"
    (is "sys_inv out ?s")
proof -
  let ?new = "emitted vformat (LOG_LEVEL (ls_world s)) [(m, c)]"
  have "logger_inv a (ls_world s)" using b by (simp add: books_def)
  note w = emit_inv [OF this c p e]
  have len: "length (unread w t) = length (unread (ls_world s) t) + length (of_thread t ?new)" for t
    using w(3) [of t] by (metis length_append lines_of_simps(3))
  have "books a ds bl out ?s"
    unfolding books_def
  proof (intro conjI allI)
    show "logger_inv a (ls_world ?s)" using w(1) by simp
    fix t
    have "of_thread t ds @ lines_of t (map snd (of_thread t bl)) @ lines_of t (unread (ls_world s) t) = of_thread t (ls_calls s)"
      using b by (simp add: books_def)
    then show "of_thread t ds @ lines_of t (map snd (of_thread t bl)) @ lines_of t (unread (ls_world ?s) t) =
        of_thread t (ls_calls ?s)"
      using w(3) [of t] by (simp flip: append_assoc)
  qed (use b in \<open>auto simp: books_def vector_ok_def\<close>)
  moreover have lk: "last_ok fin i n a ?s" if l: "last_ok fin i n a s" for fin i n
  proof -
    have "length (after_stop ?s t) = length (after_stop s t) + length (of_thread t ?new)" if "al_stop_requested a" for t
      using b that by (auto simp: books_def after_stop_def)
    then show ?thesis using l w(2) len by (auto simp: last_ok_def caught_up_def)
  qed
  have "pc_ok a ?s" by (rule pc_ok_frame [OF pc]) (simp_all add: lk)
  ultimately show ?thesis unfolding sys_inv_def by blast
qed

lemma level_inv:
  assumes "books a ds bl out s" and "pc_ok a s"
  shows "sys_inv out (s\<lparr>ls_world := set_log_level l (ls_world s)\<rparr>)"
proof -
  let ?s = "s\<lparr>ls_world := set_log_level l (ls_world s)\<rparr>"
  have same: "unread (ls_world ?s) = unread (ls_world s)" "lw_local_ring (ls_world ?s) = lw_local_ring (ls_world s)"
    by (auto simp: unread_def set_log_level_def fun_eq_iff split: option.splits)
  have "logger_inv a (ls_world ?s)" using assms(1) by (simp add: books_def logger_inv_def set_log_level_def)
  then have "books a ds bl out ?s" using assms(1) unfolding books_def same by (simp add: vector_ok_def)
  moreover have "pc_ok a ?s"
    by (rule pc_ok_frame [OF assms(2)]) (use same in \<open>simp_all add: last_ok_def caught_up_def after_stop_def\<close>)
  ultimately show ?thesis unfolding sys_inv_def by blast
qed

lemma async_logger_stop_steps: "async_logger_stop a = flush_request (stop_request a)"
  by (simp add: async_logger_stop_def flush_request_def stop_request_def)

lemma request_inv:
  assumes b: "books a ds bl out s" and pc: "pc_ok a s" and w: "on_logger f (ls_world s) = Some (Inr w)"
    and f: "f = stop_request \<and> k = stop_mark s \<or> f = flush_request \<and> k = ls_stop_at s"
  shows "sys_inv out (s\<lparr>ls_world := w, ls_stop_at := k\<rparr>)" (is "sys_inv out ?s")
proof -
  let ?a = "f a"
  have w': "w = (ls_world s)\<lparr>lw_logger := Some ?a\<rparr>" using w books_logger [OF b] by (simp add: on_logger_def)
  have a: "written ?a = written a" "al_log_rings ?a = al_log_rings a" "al_writing_buffer ?a = al_writing_buffer a"
    "al_output_file ?a = al_output_file a" "time_inv ?a = time_inv a" "al_force_flush a \<longrightarrow> al_force_flush ?a"
    "al_stop_requested a \<longrightarrow> al_stop_requested ?a"
    using f by (auto simp: stop_request_def flush_request_def written_def)
  have k: "al_stop_requested ?a \<longleftrightarrow> k \<noteq> None" "k = Some j \<Longrightarrow> j \<le> length (ls_calls s)"
    "ls_stop_at s \<noteq> None \<Longrightarrow> k = ls_stop_at s" for j
    using f b by (auto simp: stop_request_def flush_request_def stop_mark_def books_def split: option.splits)
  have same: "unread w = unread (ls_world s)" "lw_local_ring w = lw_local_ring (ls_world s)"
    unfolding w' by (auto simp: unread_def fun_eq_iff split: option.splits)
  have "logger_inv ?a w" using b a unfolding w' by (simp add: books_def logger_inv_def)
  then have "books ?a ds bl out ?s" using b a same k(1,2) by (simp add: books_def vector_ok_def)
  moreover have "last_ok fin i n ?a ?s" if "last_ok fin i n a s" for fin i n
    using that b a same k(3) by (auto simp: last_ok_def caught_up_def after_stop_def books_def)
  then have "pc_ok ?a ?s" by (rule_tac pc_ok_frame [OF pc]) (simp_all add: a)
  ultimately show ?thesis unfolding sys_inv_def by blast
qed

lemma front_step_inv: "front_step vformat s s' \<Longrightarrow> sys_inv out s \<Longrightarrow> sys_inv out s'"
proof (induction rule: front_step.induct)
  case (registers s a t p w)
  then obtain ds bl where "books a ds bl out s" "pc_ok a s"
    unfolding sys_inv_def by (metis books_logger option.inject)
  then show ?case using register_inv registers.hyps by blast
next
  case (logs c s m w)
  then show ?case unfolding sys_inv_def [of out s] using log_inv by blast
next
  case (sets_level s l)
  then show ?case unfolding sys_inv_def [of out s] using level_inv by blast
next
  case (asks_to_stop s w)
  then show ?case unfolding sys_inv_def [of out s] using request_inv by blast
next
  case (asks_to_flush s w)
  then obtain a ds bl where "books a ds bl out s" "pc_ok a s" by (auto simp: sys_inv_def)
  from request_inv [OF this asks_to_flush(1), of "ls_stop_at s"] show ?case by simp
qed

lemma log_step_inv: "log_step vformat s s' \<Longrightarrow> sys_inv out s \<Longrightarrow> sys_inv out s'"
proof (induction rule: log_step.induct)
  case (back_moves s m s')
  then have "\<not> sweeps_moved s" using sweeps_moved_fault [of out s m] by auto
  then show ?case using back_moves back_step_inv [of out s m] by auto
next
  case (front_moves s s')
  then show ?case using front_step_inv by blast
qed

lemma sys_inv_init:
  assumes "accounts out w []" and "\<not> stopping w" and "\<forall>a. lw_logger w = Some a \<longrightarrow> al_log_rings a = []"
  shows "sys_inv out (log_system_init w)"
proof -
  obtain a ds where a: "logger_inv a w" "written a = out @ concat (map snd ds)"
    "\<forall>t. of_thread t ds @ map (\<lambda>h. (t, log_line no_memory h)) (unread w t) = of_thread t []"
    using assms(1) by (auto simp: accounts_def)
  then have "books a ds [] out (log_system_init w)"
    using assms by (simp add: books_def vector_ok_def log_system_init_def entries_ok_def lines_of_def of_thread_def logger_inv_def)
  moreover have "pc_ok a (log_system_init w)" by (simp add: pc_ok_def log_system_init_def)
  ultimately show ?thesis unfolding sys_inv_def by blast
qed

lemma new_no_rings: "async_logger_new now moved name w = Inr w' \<Longrightarrow> \<forall>a. lw_logger w' = Some a \<longrightarrow> al_log_rings a = []"
  by (auto simp: async_logger_new_def update_datetime_all_def time_end_def res_bind_Inr_iff Let_def split: if_splits)

lemma log_reach_inv:
  assumes "log_time_ok now" and "async_logger_new now moved name (set_log_level l log_world_init) = Inr w"
    and "(log_step vformat)\<^sup>*\<^sup>* (log_system_init w) s"
  shows "sys_inv (log_file_banner moved) s"
  using assms(3)
proof (rule rtranclp_invariant [where I = "sys_inv (log_file_banner moved)"])
  show "sys_inv (log_file_banner moved) (log_system_init w)"
    using accounts_new [OF assms(1), of moved name l] assms(2) sys_inv_init new_no_rings [OF assms(2)] by fastforce
qed (rule log_step_inv)

text \<open>When the back end has ended, everything that was logged before the stop request has been written.\<close>

lemma prefix_of_longer: "xs @ ys = us @ vs \<Longrightarrow> length ys \<le> length vs \<Longrightarrow> prefix us xs"
  by (auto simp: append_eq_append_conv2 prefix_def)

lemma ended_written:
  assumes b: "books a ds bl out s" and pc: "pc_ok a s" and e: "ls_pc s = Back_ended"
  shows "\<exists>k. ls_stop_at s = Some k \<and> (\<forall>t. prefix (of_thread t (take k (ls_calls s))) (of_thread t ds))"
proof -
  have st: "al_stop_requested a" "caught_up 0 0 a s" "bl = []" using pc e b by (auto simp: pc_ok_def last_ok_def books_def)
  then obtain k where k: "ls_stop_at s = Some k" using b by (auto simp: books_def)
  have inv: "logger_inv a (ls_world s)" using b by (simp add: books_def)
  have "prefix (of_thread t (take k (ls_calls s))) (of_thread t ds)" for t
  proof (rule prefix_of_longer)
    show "of_thread t ds @ lines_of t (unread (ls_world s) t) = of_thread t (take k (ls_calls s)) @ of_thread t (drop k (ls_calls s))"
      using b st(3) by (simp add: books_def of_thread_def [of _ "[]"] flip: of_thread_append)
    show "length (lines_of t (unread (ls_world s) t)) \<le> length (of_thread t (drop k (ls_calls s)))"
    proof (cases "lw_local_ring (ls_world s) t")
      case None
      then show ?thesis by (simp add: unread_def)
    next
      case (Some p)
      then obtain j where "j < length (al_log_rings a)" "al_log_rings a ! j = p"
        using logger_inv_rings(4) [OF inv] by (metis in_set_conv_nth)
      then show ?thesis using st(2) Some k by (auto simp: caught_up_def after_stop_def)
    qed
  qed
  then show ?thesis using k by blast
qed

lemma log_threads_books:
  assumes "sys_inv out s"
  shows "\<exists>a ds. lw_logger (ls_world s) = Some a \<and>
    lf_stdout (al_output_file a) @ al_writing_buffer a = out @ concat (map snd ds) \<and>
    (\<forall>t. prefix (of_thread t ds) (of_thread t (ls_calls s))) \<and>
    (ls_pc s = Back_ended \<longrightarrow> al_writing_buffer a = [] \<and>
      lf_flushed (al_output_file a) = length (lf_stdout (al_output_file a)) \<and>
      (\<exists>k. ls_stop_at s = Some k \<and> (\<forall>t. prefix (of_thread t (take k (ls_calls s))) (of_thread t ds))))"
proof -
  obtain a ds bl where b: "books a ds bl out s" and pc: "pc_ok a s" using assms by (auto simp: sys_inv_def)
  have "\<forall>t. prefix (of_thread t ds) (of_thread t (ls_calls s))" using b unfolding books_def by (metis prefixI)
  moreover have "ls_pc s = Back_ended \<Longrightarrow> al_writing_buffer a = [] \<and>
      lf_flushed (al_output_file a) = length (lf_stdout (al_output_file a))" using pc by (simp add: pc_ok_def)
  ultimately show ?thesis
    using books_logger [OF b] b ended_written [OF b pc] by (auto simp: books_def written_def)
qed

text \<open>
  The fifth ring: a thread that logs for the first time while the back end is in a sweep over four rings makes the next
  step of the sweep undefined; such a state is reached when four threads have logged.
\<close>

lemma fifth_ring_faults:
  assumes b: "books a ds bl out s" and pc: "ls_pc s = Poll_sweep fin i n nothing" "i < n"
    and four: "length (al_log_rings a) = 4" and t: "lw_local_ring (ls_world s) t = None"
  shows "\<exists>s'. front_step vformat s s' \<and> back_step m s' = Inl Undefined_object"
proof -
  have inv: "logger_inv a (ls_world s)" "ls_capacity s = 4" using b four by (simp_all add: books_def vector_ok_def)
  obtain p w a' where w: "log_ring_of t a (ls_world s) = Inr (p, w)" "logger_inv a' w"
    using log_ring_of_new [OF inv(1) t] by blast
  have "back_step m (ring_added a w s) = Inl Undefined_object"
    using w(2) inv(2) four pc by (simp add: back_step_def sweep_one_def ring_added_def logger_inv_def)
  then show ?thesis using front_step.registers [OF books_logger [OF b] t w(1)] by blast
qed

lemma rings_registered:
  assumes "log_time_ok now" and new: "async_logger_new now moved name (set_log_level l log_world_init) = Inr w"
  shows "\<exists>s. (log_step vformat)\<^sup>*\<^sup>* (log_system_init w) s \<and> ls_pc s = Loop_head \<and>
    (\<exists>a. lw_logger (ls_world s) = Some a \<and> length (al_log_rings a) = n \<and> \<not> al_stop_requested a) \<and>
    dom (lw_local_ring (ls_world s)) = int ` {..<n}"
proof (induction n)
  case 0
  have "\<exists>a. logger_inv a w \<and> \<not> al_stop_requested a"
    using accounts_new [OF assms(1), of moved name l] new by (auto simp: accounts_def logger_inv_def)
  moreover have "lw_local_ring w = Map.empty"
    using new by (auto simp: async_logger_new_def res_bind_Inr_iff Let_def log_world_init_def set_log_level_def)
  ultimately show ?case
    using new_no_rings [OF new] by (intro exI [of _ "log_system_init w"]) (auto simp: log_system_init_def logger_inv_def)
next
  case (Suc n)
  then obtain s a where s: "(log_step vformat)\<^sup>*\<^sup>* (log_system_init w) s" "ls_pc s = Loop_head"
    "lw_logger (ls_world s) = Some a" "length (al_log_rings a) = n" "\<not> al_stop_requested a"
    "dom (lw_local_ring (ls_world s)) = int ` {..<n}" by blast
  have inv: "logger_inv a (ls_world s)"
    using log_reach_inv [OF assms s(1)] s(3) by (auto simp: sys_inv_def books_def logger_inv_def)
  have "int n \<notin> dom (lw_local_ring (ls_world s))" unfolding s(6) by auto
  then have t: "lw_local_ring (ls_world s) (int n) = None" by (simp add: domIff)
  obtain p w' a' where w': "log_ring_of (int n) a (ls_world s) = Inr (p, w')"
    using log_ring_of_new [OF inv t] by blast
  then have "log_step vformat s (ring_added a w' s)"
    using front_moves front_step.registers [OF s(3) t w'] by blast
  moreover have "dom (lw_local_ring w') = insert (int n) (dom (lw_local_ring (ls_world s)))"
    using w' t by (auto simp: log_ring_of_def Let_def res_bind_Inr_iff)
  then have "dom (lw_local_ring w') = int ` {..<Suc n}" unfolding s(6) by (simp add: lessThan_Suc)
  moreover have "\<exists>a. lw_logger w' = Some a \<and> length (al_log_rings a) = Suc n \<and> \<not> al_stop_requested a"
    using w' t s(4,5) by (auto simp: log_ring_of_def Let_def res_bind_Inr_iff)
  ultimately show ?case
    using s(1,2) by (intro exI [of _ "ring_added a w' s"]) (auto simp: ring_added_def)
qed

lemma four_rings_swept:
  assumes "log_time_ok now" and "async_logger_new now moved name (set_log_level l log_world_init) = Inr w"
  shows "\<exists>s a. (log_step vformat)\<^sup>*\<^sup>* (log_system_init w) s \<and> lw_logger (ls_world s) = Some a \<and>
    length (al_log_rings a) = 4 \<and> ls_pc s = Poll_sweep False 0 4 True \<and> lw_local_ring (ls_world s) 4 = None"
proof -
  obtain s a where s: "(log_step vformat)\<^sup>*\<^sup>* (log_system_init w) s" "ls_pc s = Loop_head"
    "lw_logger (ls_world s) = Some a" "length (al_log_rings a) = 4" "\<not> al_stop_requested a"
    "dom (lw_local_ring (ls_world s)) = int ` {..<4}"
    using rings_registered [OF assms, of vformat 4] by blast
  let ?s1 = "with_back a (Poll_enter False) s"
  let ?s2 = "with_back a (Poll_sweep False 0 4 True) (?s1\<lparr>ls_backlogs := [], ls_moved := False\<rparr>)"
  have "log_step vformat s ?s1" by (rule back_moves) (use s in \<open>simp_all add: back_step_def\<close>)
  moreover have "log_step vformat ?s1 ?s2" by (rule back_moves) (use s in \<open>simp_all add: back_step_def\<close>)
  ultimately have "(log_step vformat)\<^sup>*\<^sup>* (log_system_init w) ?s2" using s(1) by (meson rtranclp.rtrancl_into_rtrancl)
  moreover have "4 \<notin> dom (lw_local_ring (ls_world s))" unfolding s(6) by auto
  ultimately show ?thesis using s(4) by (intro exI [of _ ?s2] exI [of _ a]) (simp add: domIff)
qed

section \<open>The back end ends\<close>

text \<open>What is left to do after a stop request: the phase, and the rings left in the current sweep.\<close>

definition back_rank :: "log_system \<Rightarrow> nat \<times> nat" where
  "back_rank s =
     (case ls_pc s of
        Poll_enter fin \<Rightarrow> (if fin then 6 else 13, 0)
      | Poll_sweep fin i n nothing \<Rightarrow> (if fin then 5 else 12, n - i)
      | Poll_swept fin n nothing \<Rightarrow> (if fin then 4 else 11, 0)
      | Poll_write fin \<Rightarrow> (if fin then 3 else 10, 0)
      | Poll_flushing fin \<Rightarrow> (if fin then 2 else 9, 0)
      | Poll_left fin \<Rightarrow> (if fin then 1 else 8, 0)
      | Loop_head \<Rightarrow> (7, 0)
      | Back_ended \<Rightarrow> (0, 0))"

lemma back_step_rank:
  assumes "sys_inv out s" and "ls_stop_at s \<noteq> None" and "ls_pc s \<noteq> Back_ended" and "back_step m s = Inr s'"
  shows "(back_rank s', back_rank s) \<in> less_than <*lex*> less_than"
proof -
  obtain a where a: "lw_logger (ls_world s) = Some a" "al_stop_requested a"
    using assms(1,2) by (auto simp: sys_inv_def books_def logger_inv_def)
  show ?thesis
    using assms(3,4) a
    by (cases "ls_pc s")
       (auto simp: back_step_def sweep_one_def back_rank_def res_bind_Inr_iff split: if_splits)
qed

lemma front_step_keeps:
  "front_step vformat s s' \<Longrightarrow> ls_pc s' = ls_pc s \<and> (ls_stop_at s \<noteq> None \<longrightarrow> ls_stop_at s' \<noteq> None)"
  by (induction rule: front_step.induct) (auto simp: stop_mark_def ring_added_def split: option.splits)

lemma back_step_stop: "back_step m s = Inr s' \<Longrightarrow> ls_stop_at s' = ls_stop_at s"
  by (auto simp: back_step_def sweep_one_def res_bind_Inr_iff split: option.splits back_pc.splits if_splits)

lemma back_step_not_moved: "back_step m s = Inr s' \<Longrightarrow> \<not> ls_moved s \<Longrightarrow> \<not> ls_moved s'"
  by (auto simp: back_step_def sweep_one_def res_bind_Inr_iff split: option.splits back_pc.splits if_splits)

text \<open>A run of the system, in which the back end is scheduled again and again, after a stop request.\<close>

lemma fair_run_ends:
  assumes inv: "sys_inv out (f 0)" and stop: "ls_stop_at (f 0) \<noteq> None"
    and run: "\<forall>i. f (Suc i) = f i \<or> log_step vformat (f i) (f (Suc i))"
    and fair: "\<forall>i. \<exists>j \<ge> i. \<exists>m. back_step m (f j) = Inr (f (Suc j))"
  shows "\<exists>i. ls_pc (f i) = Back_ended"
proof (rule ccontr)
  assume never: "\<nexists>i. ls_pc (f i) = Back_ended"
  have all: "sys_inv out (f i) \<and> ls_stop_at (f i) \<noteq> None" for i
  proof (induction i)
    case (Suc i)
    have "ls_stop_at (f (Suc i)) \<noteq> None" if "log_step vformat (f i) (f (Suc i))"
      using that Suc front_step_keeps back_step_stop by (cases rule: log_step.cases) metis+
    then show ?case using run Suc log_step_inv by metis
  qed (use inv stop in simp)
  have down: "(back_rank (f (Suc i)), back_rank (f i)) \<in> less_than <*lex*> less_than \<or> back_rank (f (Suc i)) = back_rank (f i)" for i
  proof -
    have "(back_rank (f (Suc i)), back_rank (f i)) \<in> less_than <*lex*> less_than \<or> back_rank (f (Suc i)) = back_rank (f i)"
      if "log_step vformat (f i) (f (Suc i))"
      using that
    proof (cases rule: log_step.cases)
      case (back_moves m)
      then show ?thesis using back_step_rank all by blast
    next
      case front_moves
      then show ?thesis using front_step_keeps by (simp add: back_rank_def)
    qed
    then show ?thesis using run by metis
  qed
  have later: "(back_rank (f j), back_rank (f i)) \<in> less_than <*lex*> less_than \<or> back_rank (f j) = back_rank (f i)"
    if "i \<le> j" for i j
    using that
  proof (induction rule: dec_induct)
    case (step n)
    then show ?case using down [of n] by (metis trans_lex_prod trans_less_than transD)
  qed simp
  have "\<exists>j. (back_rank (f j), back_rank (f i)) \<in> less_than <*lex*> less_than" for i
  proof -
    obtain j m where j: "i \<le> j" "back_step m (f j) = Inr (f (Suc j))" using fair by blast
    then have "(back_rank (f (Suc j)), back_rank (f j)) \<in> less_than <*lex*> less_than"
      using back_step_rank all never by blast
    then show ?thesis using later [OF j(1)] by (metis trans_lex_prod trans_less_than transD)
  qed
  moreover have "wf (inv_image (less_than <*lex*> less_than) (\<lambda>i. back_rank (f i)))" by (intro wf_inv_image) auto
  ultimately show False unfolding wf_eq_minimal in_inv_image by (metis UNIV_I)
qed

end
