(* ===== verification/Event_Loop.thy ===== *)
theory Event_Loop
  imports Io_Context
begin

text \<open>
  The loop of \<open>io_context::run\<close> as a whole (\<^verbatim>\<open>include/coring/io_context.hpp\<close>): how it starts, and that a stop
  request ends it, whatever rounds went before. What the coroutines of the user do is an argument of the
  loop; what is assumed of them is \<open>clients_ok\<close>, that they leave the member \<open>stopped\<close> alone once it is set, and
  \<open>tasks_ok\<close>.
\<close>

section \<open>Once stopped, stopped\<close>

definition keeps :: "('s \<Rightarrow> bool) \<Rightarrow> ('h \<Rightarrow> 's \<Rightarrow> 's res option) \<Rightarrow> bool" where
  "keeps P f \<longleftrightarrow> (\<forall>h c c'. f h c = Some (Inr c') \<and> P c \<longrightarrow> P c')"

lemma keepsD: "keeps P f \<Longrightarrow> f h c = Some (Inr c') \<Longrightarrow> P c \<Longrightarrow> P c'"
  by (auto simp: keeps_def)

text \<open>What every callback of the skip list keeps, emptying the list keeps.\<close>

lemma run_nodes_keeps:
  assumes "run_nodes f cur cnt ws = Some r" and "keeps (\<lambda>ws. P (fst ws)) f" and "P (fst ws)" and "r = Inr (n, ws')"
  shows "P (fst ws')"
proof -
  let ?Q = "\<lambda>f cur (cnt :: int) ws r. keeps (\<lambda>ws. P (fst ws)) f \<longrightarrow> P (fst ws) \<longrightarrow> (\<forall>n ws'. r = Inr (n, ws') \<longrightarrow> P (fst ws'))"
  have "?Q f cur cnt ws r"
  proof (rule run_nodes.raw_induct [where P = ?Q, OF _ assms(1)])
    fix rn f cur cnt ws r
    assume IH: "\<And>f cur cnt ws r. rn f cur cnt ws = Some r \<Longrightarrow> ?Q f cur cnt ws r"
      and r: "(if cur \<noteq> 0
        then ores_bind (Some (int32_res (cnt + 1))) (\<lambda>cnt.
             ores_bind (Some (node_load (s_heap (snd ws)) cur)) (\<lambda>n.
             ores_bind (Some (level_next (s_heap (snd ws)) cur 0)) (\<lambda>nx.
             ores_bind (f (n_val n) ws) (\<lambda>(w, s).
               rn f nx cnt (w, s\<lparr>s_heap := (s_heap s)(cur := None)\<rparr>)))))
        else Some (Inr (cnt, ws))) = Some r"
    show "?Q f cur cnt ws r"
    proof (intro impI allI)
      fix n ws'
      assume k: "keeps (\<lambda>ws. P (fst ws)) f" and P: "P (fst ws)" and n: "r = Inr (n, ws')"
      show "P (fst ws')"
      proof (cases "cur = 0")
        case False
        obtain v nx w s cnt' where w: "f v ws = Some (Inr (w, s))"
            "rn f nx cnt' (w, s\<lparr>s_heap := (s_heap s)(cur := None)\<rparr>) = Some r"
          using r False n by (auto simp: ores_bind_Inr_iff)
        have "P (fst (w, s\<lparr>s_heap := (s_heap s)(cur := None)\<rparr>))" using keepsD [OF k w(1) P] by simp
        then show ?thesis using IH [OF w(2)] k n by blast
      qed (use r P n in simp)
    qed
  qed
  then show ?thesis using assms(2-4) by blast
qed

lemma pop_keeps:
  assumes f: "keeps (\<lambda>ws. P (fst ws)) f" and r: "do_less_eq_then_pop k f ws = Some (Inr ws')" and P: "P (fst ws)"
  shows "P (fst ws')"
proof (cases "ws' = ws")
  case False
  then obtain start h cnt w s where w: "run_nodes f start 0 (fst ws, (snd ws)\<lparr>s_heap := h\<rparr>) = Some (Inr (cnt, w, s))"
      "fst ws' = w"
    using r by (auto simp: do_less_eq_then_pop_def Let_def ores_bind_Inr_iff split: if_splits)
  then show ?thesis using run_nodes_keeps [OF w(1) f] P by simp
qed (use P in simp)

lemma resume_all_keeps:
  assumes "keeps (\<lambda>ws. P (fst ws)) f"
  shows "resume_all f hs ws = Some (Inr ws') \<Longrightarrow> P (fst ws) \<Longrightarrow> P (fst ws')"
  by (induction hs arbitrary: ws) (auto simp: ores_bind_Inr_iff dest: keepsD [OF assms])

lemma handle_events_keeps:
  assumes f: "keeps (\<lambda>ws. P (fst ws)) f" and r: "handle_events now f ws = Some (Inr (n, ws'))" and P: "P (fst ws)"
  shows "P (fst ws')"
proof (cases "map_empty (snd ws)")
  case True
  then show ?thesis using r P by (simp add: handle_events_def)
next
  case False
  have c: "keeps (\<lambda>zs. P (snd (fst zs))) (count_and_resume f)"
    using keepsD [OF f] by (fastforce simp: keeps_def count_and_resume_def ores_bind_Inr_iff)
  obtain sz w s hs s' where p: "do_less_eq_then_pop now (count_and_resume f) ((0, fst ws), snd ws) = Some (Inr ((sz, w), s))"
      "resume_all f hs (w, s') = Some (Inr ws')"
    using r False by (auto simp: handle_events_def ores_bind_Inr_iff)
  have "P w" using pop_keeps [where P = "\<lambda>z. P (snd z)", OF c p(1)] P by simp
  then show ?thesis using resume_all_keeps [OF f p(2)] by simp
qed

text \<open>The coroutines of the loop.\<close>

lemma suspend_on_stopped:
  assumes "liburing_ok L" and "room_after_submit L" and "suspend_on (uring_request L call iflags) tk h c = Some (Inr (b, c'))"
  shows "stopped c' = stopped c"
  using suspend_on_ok [OF assms(1,2), of call iflags tk h c] assms(3) same_more_fields(1) by fastforce

lemma eventfd_stopped: "stopped c \<Longrightarrow> eventfd_resume L E c = Some (Inr (False, c))"
  by (simp add: eventfd_resume_def eventfd_loop_def)

lemma eventfd_stop_message:
  "EV_STOP_MSG \<le> le_msg E (uc_ring c) \<Longrightarrow> eventfd_resume L E c = Some (Inr (False, c\<lparr>stopped := True\<rparr>))"
  by (simp add: eventfd_resume_def eventfd_loop_def)

lemma signalfd_stopped: "stopped c \<Longrightarrow> signalfd_resume L E f c = Some (Inr (b, c')) \<Longrightarrow> stopped c'"
  by (auto simp: signalfd_resume_def Let_def split: option.splits if_splits)

lemma timeout_loop_stopped:
  assumes L: "liburing_ok L" "room_after_submit L" and st: "stopped c" and r: "timeout_loop L E outer c = Some (Inr (b, c'))"
  shows "stopped c'"
proof -
  have outer: "timeout_loop L E True c = Some (Inr (False, c))" if "stopped c" for c :: "('a, 'b) io_context_scheme"
    using that by (subst timeout_loop.simps) simp
  show ?thesis
  proof (cases outer)
    case True
    then show ?thesis using r outer [OF st] st by simp
  next
    case False
    show ?thesis
    proof (cases "has_more_timeouts (ic_timer c)")
      case True
      then obtain ts where "suspend_on (uring_request L (Prep_timeout (le_timeout_ts E) 0 0) 0) (le_timeout_tk E) (le_timeout E)
          (c\<lparr>timeout_tmp := ts\<rparr>) = Some (Inr (b, c'))"
        using r False by (subst (asm) timeout_loop.simps) (auto simp: ores_bind_Inr_iff uring_timeout_def)
      from suspend_on_stopped [OF L this] show ?thesis using st by simp
    next
      case none: False
      then obtain evt where "c' = c\<lparr>timer_event := evt\<rparr>"
        using r False st outer [of "c\<lparr>timer_event := e\<rparr>" for e]
        by (subst (asm) timeout_loop.simps) (auto simp: ores_bind_Inr_iff Let_def split: if_splits)
      then show ?thesis using st by simp
    qed
  qed
qed

lemma timeout_resume_stopped:
  assumes L: "liburing_ok L" "room_after_submit L" and k: "keeps stopped user" and st: "stopped c"
    and r: "timeout_resume L E user c = Some (Inr (b, c'))"
  shows "stopped c'"
proof -
  obtain n c1 t where h: "handle_events (le_now E (uc_ring c)) (on_timer user) (c, ic_timer c) = Some (Inr (n, c1, t))"
      "timeout_loop L E False (c1\<lparr>ic_timer := t\<rparr>) = Some (Inr (b, c'))"
    using r by (auto simp: timeout_resume_def ores_bind_Inr_iff)
  have "keeps (\<lambda>ws. stopped (fst ws)) (on_timer user)"
    using keepsD [OF k] by (fastforce simp: keeps_def on_timer_def ores_bind_Inr_iff)
  from handle_events_keeps [OF this h(1)] have "stopped c1" using st by simp
  then show ?thesis using timeout_loop_stopped [OF L _ h(2)] by simp
qed

lemma dispatch_keeps_stopped:
  assumes L: "liburing_ok L" "room_after_submit L" and k: "keeps stopped user"
  shows "keeps stopped (dispatch L E user)"
  unfolding keeps_def
proof (intro allI impI, elim conjE)
  fix h and c c' :: "('a, 'b) io_context_scheme"
  assume r: "dispatch L E user h c = Some (Inr c')" and st: "stopped c"
  consider "h = le_event E" | "h \<noteq> le_event E" "h = le_signal E" | "h \<noteq> le_event E" "h \<noteq> le_signal E" "h = le_timeout E"
    | "h \<noteq> le_event E" "h \<noteq> le_signal E" "h \<noteq> le_timeout E" by blast
  then show "stopped c'"
  proof cases
    case 1
    then show ?thesis using r st eventfd_stopped [OF st] by (simp add: dispatch_def)
  next
    case 2
    then show ?thesis using r signalfd_stopped [OF st] by (auto simp: dispatch_def ores_bind_Inr_iff)
  next
    case 3
    then show ?thesis using r timeout_resume_stopped [OF L k st] by (auto simp: dispatch_def ores_bind_Inr_iff)
  next
    case 4
    then show ?thesis using r keepsD [OF k _ st] by (simp add: dispatch_def)
  qed
qed

section \<open>Rounds\<close>

text \<open>One pass of the loop.\<close>

inductive loop_round ::
  "'r liburing \<Rightarrow> 'r loop_env \<Rightarrow> (handle, ('r, 'm) io_context_scheme) resumption \<Rightarrow>
   (handle, ('r, 'm) io_context_scheme) resumption \<Rightarrow> ('r, 'm) io_context_scheme \<Rightarrow> ('r, 'm) io_context_scheme \<Rightarrow> bool"
  for L E user work where
  "\<not> stopped c \<Longrightarrow> wait_for_completions_then_handle L (dispatch L E user) c = Some (Inr c1) \<Longrightarrow>
    do_todo_list work c1 = Some (Inr c2) \<Longrightarrow> loop_round L E user work c c2"

lemma run_loop_rounds: "(loop_round L E user work)\<^sup>*\<^sup>* c c' \<Longrightarrow> run_loop L E user work c = run_loop L E user work c'"
proof (induction rule: rtranclp_induct)
  case (step c1 c2)
  then show ?case using run_loop_round by (metis loop_round.cases)
qed simp

lemma execute_all_keeps: "keeps stopped work \<Longrightarrow> execute_all work ts c = Some (Inr c') \<Longrightarrow> stopped c \<Longrightarrow> stopped c'"
proof (induction ts arbitrary: c)
  case (Cons t ts)
  then obtain c1 where c1: "execute work t c = Some (Inr c1)" "execute_all work ts c1 = Some (Inr c')"
    by (auto simp: ores_bind_Inr_iff)
  then obtain s where "work t (c\<lparr>my_scope := s\<rparr>) = Some (Inr c1)" by (auto simp: execute_def ores_bind_Inr_iff)
  then have "stopped c1" using keepsD [OF Cons.prems(1)] Cons.prems(3) by fastforce
  then show ?case using Cons c1(2) by blast
qed simp

text \<open>Tasks that can be started in a state with \<open>W\<close>, again and again.\<close>

definition tasks_ok ::
  "(('r, 'm) io_context_scheme \<Rightarrow> bool) \<Rightarrow> (handle, ('r, 'm) io_context_scheme) resumption \<Rightarrow> bool" where
  "tasks_ok W work \<longleftrightarrow> (\<forall>t c. W c \<longrightarrow> (\<exists>c'. execute work t c = Some (Inr c') \<and> W c'))"

lemma execute_all_ok: "tasks_ok W work \<Longrightarrow> W c \<Longrightarrow> \<exists>c'. execute_all work ts c = Some (Inr c') \<and> W c'"
proof (induction ts arbitrary: c)
  case (Cons t ts)
  then obtain c1 where "execute work t c = Some (Inr c1)" "W c1" unfolding tasks_ok_def by blast
  then show ?case using Cons.IH [OF Cons.prems(1), of c1] by auto
qed auto

section \<open>A stop request\<close>

text \<open>
  The message that the kernel has stored for the coroutine of the event descriptor is a stop request, and the
  token of its read leads to that coroutine, in the states \<open>I\<close> of the round.
\<close>

definition stop_message ::
  "'r liburing \<Rightarrow> 'r loop_env \<Rightarrow> (('r, 'm) io_context_scheme \<Rightarrow> bool) \<Rightarrow> bool" where
  "stop_message L E I \<longleftrightarrow>
     le_event_tk E \<noteq> 0 \<and> le_event_tk E \<noteq> lib_udata_timeout L \<and>
     (\<forall>c. I c \<longrightarrow> EV_STOP_MSG \<le> le_msg E (uc_ring c) \<and>
        (\<forall>t. uc_tokens c (le_event_tk E) = Some t \<longrightarrow> tk_continuation t = le_event E))"

text \<open>The completion at position \<open>p\<close> is that of the read; once it has been looked at, the loop is stopped.\<close>

definition stops_at ::
  "'r liburing \<Rightarrow> 'r loop_env \<Rightarrow> nat \<Rightarrow> (('r, 'm) io_context_scheme \<Rightarrow> bool) \<Rightarrow> ('r, 'm) io_context_scheme \<Rightarrow> bool" where
  "stops_at L E p I c \<longleftrightarrow> I c \<and>
     (cq_pos L c \<le> p \<longrightarrow> p < cq_tail L c \<and> cqe_user_data (lib_cqe L (uc_ring c) p) = le_event_tk E) \<and>
     (p < cq_pos L c \<longrightarrow> stopped c)"

lemma stops_at_evolves:
  assumes "stops_at L E p I c" and "cq_evolves L (c\<lparr>cqe_count := Suc (cqe_count c)\<rparr>) c'" and "I c'"
    and "p \<le> cq_pos L c \<Longrightarrow> stopped c'"
  shows "stops_at L E p I c'"
  using assms by (auto simp: stops_at_def cq_evolves_def cq_kept_def cq_pos_def cq_tail_def)

lemma stop_clients:
  assumes L: "liburing_ok L" "room_after_submit L" and k: "keeps stopped user"
    and cl: "clients_ok L n I (dispatch L E user)" and msg: "stop_message L E I"
  shows "clients_ok L n (stops_at L E p I) (dispatch L E user)"
  unfolding clients_ok_def
proof (intro conjI allI impI)
  fix c :: "('a, 'b) io_context_scheme"
  assume "stops_at L E p I c"
  then show "cq_pos L c \<le> cq_tail L c" "cq_tail L c \<le> n" using cl by (auto simp: stops_at_def clients_ok_def)
next
  fix c c1 :: "('a, 'b) io_context_scheme" and e
  assume "stops_at L E p I c \<and> cq_pos L c < cq_tail L c \<and> e = lib_cqe L (uc_ring c) (cq_pos L c) \<and>
    c1 = c\<lparr>cqe_count := Suc (cqe_count c)\<rparr>"
  then have st: "stops_at L E p I c" and lt: "cq_pos L c < cq_tail L c" and e: "e = lib_cqe L (uc_ring c) (cq_pos L c)"
    and c1: "c1 = c\<lparr>cqe_count := Suc (cqe_count c)\<rparr>" by auto
  let ?c = "\<lambda>t. c1\<lparr>uc_tokens := (uc_tokens c)(cqe_user_data e \<mapsto> t\<lparr>tk_result := cqe_res e, tk_flags := cqe_flags e\<rparr>)\<rparr>"
  have I: "I c" using st by (simp add: stops_at_def)
  have *: "if detached L e then I c1 else \<exists>t c'. uc_tokens c (cqe_user_data e) = Some t \<and>
      dispatch L E user (tk_continuation t) (?c t) = Some (Inr c') \<and> I c' \<and> cq_evolves L c1 c'"
    using cl I lt e c1 unfolding clients_ok_def by blast
  have old: "stopped c" if "p < cq_pos L c" using st that by (simp add: stops_at_def)
  have own: "cqe_user_data e = le_event_tk E" if "p = cq_pos L c" using st that e by (simp add: stops_at_def)
  show "if detached L e then stops_at L E p I c1 else \<exists>t c'. uc_tokens c (cqe_user_data e) = Some t \<and>
      dispatch L E user (tk_continuation t) (?c t) = Some (Inr c') \<and> stops_at L E p I c' \<and> cq_evolves L c1 c'"
  proof (cases "detached L e")
    case True
    then have "p \<noteq> cq_pos L c" using own msg by (auto simp: detached_def stop_message_def)
    then show ?thesis using stops_at_evolves [OF st, of c1] True * old c1 by (auto simp: le_less)
  next
    case False
    then obtain t c' where c': "uc_tokens c (cqe_user_data e) = Some t"
        "dispatch L E user (tk_continuation t) (?c t) = Some (Inr c')" "I c'" "cq_evolves L c1 c'"
      using * by auto
    have "stopped c'" if "p \<le> cq_pos L c"
    proof (cases "p = cq_pos L c")
      case True
      then have "tk_continuation t = le_event E" "EV_STOP_MSG \<le> le_msg E (uc_ring (?c t))"
        using msg I c'(1) own c1 by (auto simp: stop_message_def)
      then show ?thesis using c'(2) eventfd_stop_message [of E "?c t" L] by (auto simp: dispatch_def)
    next
      case ne: False
      then have "stopped (?c t)" using old that c1 by simp
      then show ?thesis using keepsD [OF dispatch_keeps_stopped [OF L k] c'(2)] by blast
    qed
    then have "stops_at L E p I c'" using stops_at_evolves [OF st] c'(3,4) c1 by blast
    then show ?thesis using False c' by auto
  qed
qed

text \<open>The round with the stop request is the last one, and it is complete.\<close>

lemma stop_round:
  assumes L: "liburing_ok L" "room_after_submit L" and k: "keeps stopped user" "keeps stopped work"
    and cl: "clients_ok L n I (dispatch L E user)" and msg: "stop_message L E I"
    and tasks: "tasks_ok W work" "\<And>c. I c \<Longrightarrow> W ((uc_cq_advance L c)\<lparr>todo_list := []\<rparr>)"
    and st: "\<not> stopped c" and z: "cqe_count c = 0" and c1: "c1 = wait_for_completions L 1 c" "I c1"
    and p: "cq_pos L c1 \<le> p" "p < cq_tail L c1" "cqe_user_data (lib_cqe L (uc_ring c1) p) = le_event_tk E"
  shows "\<exists>es c2 c'. deliver L (dispatch L E user) es c1 = Some (Inr c2) \<and>
    take (cq_tail L c1 - cq_pos L c1) es = map (lib_cqe L (uc_ring c1)) [cq_pos L c1..<cq_tail L c1] \<and>
    do_todo_list work (uc_cq_advance L c2) = Some (Inr c') \<and> loop_round L E user work c c' \<and> stopped c'"
proof -
  have "cqe_count c1 = 0" and at: "stops_at L E p I c1"
    using z c1 p by (simp_all add: wait_for_completions_def stops_at_def)
  then obtain es c2 where d: "handle_completions L (dispatch L E user) c1 = Some (Inr (uc_cq_advance L c2))"
      "deliver L (dispatch L E user) es c1 = Some (Inr c2)" "stops_at L E p I c2"
      "lib_cq_head L (uc_ring (uc_cq_advance L c2)) = cq_tail L (uc_cq_advance L c2)"
      "take (cq_tail L c1 - cq_pos L c1) es = map (lib_cqe L (uc_ring c1)) [cq_pos L c1..<cq_tail L c1]"
    using handle_completions_delivers [OF L(1) stop_clients [OF L k(1) cl msg, of p]] by blast
  have "cq_pos L c2 = cq_tail L c2"
    using d(4) by (simp add: uc_cq_advance_def cq_pos_def cq_tail_def liburing_okD [OF L(1)])
  then have I2: "I c2" and s2: "stopped c2" using d(3) by (auto simp: stops_at_def)
  let ?c2 = "uc_cq_advance L c2"
  obtain c' where c': "do_todo_list work ?c2 = Some (Inr c')"
    using execute_all_ok [OF tasks(1) tasks(2) [OF I2], of "todo_list ?c2"] by (auto simp: do_todo_list_def Let_def)
  have "stopped ?c2" using s2 by (simp add: uc_cq_advance_def)
  then have "stopped c'"
    using execute_all_keeps [OF k(2), of "todo_list ?c2" "?c2\<lparr>todo_list := []\<rparr>" c'] c' by (simp add: do_todo_list_def Let_def)
  moreover have "loop_round L E user work c c'"
    by (rule loop_round.intros [OF st _ c']) (use d(1) c1 in \<open>simp add: wait_for_completions_then_handle_def\<close>)
  ultimately show ?thesis using d(2,5) c' by blast
qed

section \<open>The start\<close>

text \<open>
  Before the first round. The request that a coroutine of the loop makes first is queued, and its token leads to the
  coroutine.
\<close>

definition waits_on :: "uring_call \<Rightarrow> addr \<Rightarrow> handle \<Rightarrow> ('r, 'm) io_uring_context_scheme \<Rightarrow> bool" where
  "waits_on call tk h c \<longleftrightarrow> (\<exists>i. sqe_call (uc_sqes c i) = call \<and> sqe_user_data (uc_sqes c i) = tk) \<and>
     map_option tk_continuation (uc_tokens c tk) = Some h"

text \<open>The descriptors' coroutines: nothing else of the context changes.\<close>

lemma suspend_on_waits:
  assumes "liburing_ok L" and "room_after_submit L"
  shows "\<exists>c'. suspend_on (uring_request L call iflags) tk h c = Some (Inr (True, c')) \<and> same_more c c' \<and> waits_on call tk h c'"
  using suspend_on_ok [OF assms, of call iflags tk h c] unfolding waits_on_def by blast

lemma init_eventfd_waits:
  assumes L: "liburing_ok L" "room_after_submit L" and st: "\<not> stopped c"
  shows "\<exists>c'. init_eventfd L E c = Some (Inr (True, c')) \<and> same_more c c' \<and>
    waits_on (Prep_read (internal_event_fd c) (le_event_msg E) 8 0) (le_event_tk E) (le_event E) c'"
  using suspend_on_waits [OF L, of "Prep_read (internal_event_fd c) (le_event_msg E) 8 0" 0 "le_event_tk E" "le_event E" c] st
  by (simp add: init_eventfd_def eventfd_loop_def uring_read_def)

lemma init_signalfd_waits:
  assumes L: "liburing_ok L" "room_after_submit L"
  shows "\<exists>c'. init_signalfd L E c = Some (Inr (True, c')) \<and> same_more c c' \<and>
    waits_on (Prep_read (internal_signal_fd c) (le_signal_info E) 128 0) (le_signal_tk E) (le_signal E) c'"
  using suspend_on_waits [OF L, of "Prep_read (internal_signal_fd c) (le_signal_info E) 128 0" 0 "le_signal_tk E" "le_signal E" c]
  by (simp add: init_signalfd_def signalfd_read_def uring_read_def)

text \<open>The timer's coroutine, without a pending event: it waits for its event, also when that was set before.\<close>

lemma timeout_waits:
  assumes "\<not> stopped c" and "map_empty (ic_timer c)" and "timer_event c \<in> {ar_null, ar_this}"
  shows "init_timeout_callback L E c = Some (Inr (True, c\<lparr>timer_event := ar_waiter (le_timeout E)\<rparr>))"
proof -
  have null: "timeout_loop L E True c' = Some (Inr (True, c'\<lparr>timer_event := ar_waiter (le_timeout E)\<rparr>))"
    if "\<not> stopped c'" "map_empty (ic_timer c')" "timer_event c' = ar_null" for c' :: "('a, 'b) io_context_scheme"
    using that by (simp add: timeout_loop.simps [of L E True] has_more_timeouts_def ar_await_suspend_def ar_cas_def)
  show ?thesis
  proof (cases "timer_event c = ar_null")
    case True
    then show ?thesis using null [of c] assms by (simp add: init_timeout_callback_def)
  next
    case False
    then have "timeout_loop L E True c = timeout_loop L E True (c\<lparr>timer_event := ar_null\<rparr>)"
      using assms by (subst timeout_loop.simps) (simp add: has_more_timeouts_def ar_await_suspend_def ar_cas_def)
    then show ?thesis using null [of "c\<lparr>timer_event := ar_null\<rparr>"] assms by (cases c) (simp add: init_timeout_callback_def)
  qed
qed

text \<open>
  \<open>do_run\<close> up to the start of the scheduled tasks: the read of the event descriptor is queued, and that of the signal
  descriptor when there is one; only the ring, its entries and the tokens have changed.
\<close>

lemma run_starts:
  assumes L: "liburing_ok L" "room_after_submit L"
  shows "\<exists>c0 c1. init_eventfd L E (c\<lparr>stopped := False\<rparr>) = Some (Inr (True, c0)) \<and>
    waits_on (Prep_read (internal_event_fd c) (le_event_msg E) 8 0) (le_event_tk E) (le_event E) c0 \<and>
    (if internal_signal_fd c = - 1 then c1 = c0
     else init_signalfd L E c0 = Some (Inr (True, c1)) \<and>
       waits_on (Prep_read (internal_signal_fd c) (le_signal_info E) 128 0) (le_signal_tk E) (le_signal E) c1) \<and>
    same_more (c\<lparr>stopped := False\<rparr>) c1 \<and>
    do_run L E user work c =
      ores_bind (execute_all work (todo_list c) (c1\<lparr>todo_list := []\<rparr>)) (\<lambda>c2.
      ores_bind (init_timeout_callback L E c2) (\<lambda>(_, c3).
      run_loop L (E\<lparr>le_signal_func := signal_func c\<rparr>) user work c3))"
proof -
  let ?c = "c\<lparr>stopped := False\<rparr>"
  obtain c0 where c0: "init_eventfd L E ?c = Some (Inr (True, c0))" "same_more ?c c0"
      "waits_on (Prep_read (internal_event_fd c) (le_event_msg E) 8 0) (le_event_tk E) (le_event E) c0"
    using init_eventfd_waits [OF L, of ?c E] by auto
  obtain c1 where c1: "init_signalfd L E c0 = Some (Inr (True, c1))" "same_more c0 c1"
      "waits_on (Prep_read (internal_signal_fd c0) (le_signal_info E) 128 0) (le_signal_tk E) (le_signal E) c1"
    using init_signalfd_waits [OF L, of E c0] by blast
  have more: "io_uring_context.more c0 = io_uring_context.more ?c" "io_uring_context.more c1 = io_uring_context.more c0"
    using c0(2) c1(2) by (simp_all add: same_more_def)
  have f: "internal_signal_fd c0 = internal_signal_fd c" "signal_func c0 = signal_func c" "todo_list c0 = todo_list c"
    using more(1) by (cases c; cases c0; simp)+
  have t: "todo_list c1 = todo_list c" using more(2) f(3) by (cases c0; cases c1; simp)
  have m: "same_more ?c c1" unfolding same_more_def by (rule trans [OF more(2,1)])
  show ?thesis
  proof (cases "internal_signal_fd c = - 1")
    case True
    have "do_run L E user work c = ores_bind (execute_all work (todo_list c) (c0\<lparr>todo_list := []\<rparr>)) (\<lambda>c2.
        ores_bind (init_timeout_callback L E c2) (\<lambda>(_, c3). run_loop L (E\<lparr>le_signal_func := signal_func c\<rparr>) user work c3))"
      using True c0(1) f by (simp add: do_run_def do_todo_list_def Let_def)
    then show ?thesis using True c0 by - (rule exI [of _ c0], rule exI [of _ c0], simp only: if_True simp_thms)
  next
    case False
    have "do_run L E user work c = ores_bind (execute_all work (todo_list c) (c1\<lparr>todo_list := []\<rparr>)) (\<lambda>c2.
        ores_bind (init_timeout_callback L E c2) (\<lambda>(_, c3). run_loop L (E\<lparr>le_signal_func := signal_func c\<rparr>) user work c3))"
      using False c0(1) c1(1) f t by (simp add: do_run_def do_todo_list_def Let_def)
    then show ?thesis
      using False c0 c1 f(1) m by - (rule exI [of _ c0], rule exI [of _ c1], simp only: if_False simp_thms)
  qed
qed

text \<open>
  And on from there: a task that stopped the context ends \<open>run\<close>; with pending events the timer's coroutine waits for a kernel
  timeout for the earliest of them; without any it waits for its event.
\<close>

lemma run_after_tasks:
  assumes L: "liburing_ok L" "room_after_submit L"
    and run: "r = ores_bind (init_timeout_callback L E c2) (\<lambda>(_, c3). run_loop L E' user work c3)"
  shows "stopped c2 \<Longrightarrow> r = Some (Inr c2)"
    and "\<not> stopped c2 \<Longrightarrow> map_empty (ic_timer c2) \<Longrightarrow> timer_event c2 \<in> {ar_null, ar_this} \<Longrightarrow>
      r = run_loop L E' user work (c2\<lparr>timer_event := ar_waiter (le_timeout E)\<rparr>)"
    and "\<not> stopped c2 \<Longrightarrow> timer_rep (ic_timer c2) ((k, h) # es) \<Longrightarrow> Suc (length es) < 18446744073709551616 \<Longrightarrow>
      in_long (k - le_now E (uc_ring c2)) \<Longrightarrow> in_long ((k - le_now E (uc_ring c2)) * 1000) \<Longrightarrow>
      \<exists>c3. r = run_loop L E' user work c3 \<and> \<not> stopped c3 \<and> ic_timer c3 = ic_timer c2 \<and> todo_list c3 = todo_list c2 \<and>
        waits_on (Prep_timeout (le_timeout_ts E) 0 0) (le_timeout_tk E) (le_timeout E) c3 \<and>
        tv_sec (timeout_tmp c3) * 1000000000 + tv_nsec (timeout_tmp c3) = max 0 (k - le_now E (uc_ring c2)) * 1000"
proof -
  show "stopped c2 \<Longrightarrow> r = Some (Inr c2)"
    unfolding run by (simp add: init_timeout_callback_def timeout_loop.simps [of L E True] run_loop_stops)
  show "\<not> stopped c2 \<Longrightarrow> map_empty (ic_timer c2) \<Longrightarrow> timer_event c2 \<in> {ar_null, ar_this} \<Longrightarrow>
      r = run_loop L E' user work (c2\<lparr>timer_event := ar_waiter (le_timeout E)\<rparr>)"
    using timeout_waits [of c2 L E] unfolding run by simp
  assume st: "\<not> stopped c2" and a: "timer_rep (ic_timer c2) ((k, h) # es)" "Suc (length es) < 18446744073709551616"
    "in_long (k - le_now E (uc_ring c2))" "in_long ((k - le_now E (uc_ring c2)) * 1000)"
  from timeout_loop_arms [OF L st a] show "\<exists>c3. r = run_loop L E' user work c3 \<and> \<not> stopped c3 \<and>
        ic_timer c3 = ic_timer c2 \<and> todo_list c3 = todo_list c2 \<and>
        waits_on (Prep_timeout (le_timeout_ts E) 0 0) (le_timeout_tk E) (le_timeout E) c3 \<and>
        tv_sec (timeout_tmp c3) * 1000000000 + tv_nsec (timeout_tmp c3) = max 0 (k - le_now E (uc_ring c2)) * 1000"
    unfolding run init_timeout_callback_def waits_on_def using st by auto
qed

text \<open>Tasks that write their names to a log change nothing but the lists and the scope.\<close>

lemma execute_all_log_frame:
  "execute_all (logging_work adds) ts c = Some (Inr c') \<Longrightarrow>
    \<exists>td sc log. c' = c\<lparr>todo_list := td, my_scope := sc, io_context.more := log\<rparr>"
proof (induction ts arbitrary: c)
  case Nil
  then show ?case by (intro exI [of _ "todo_list c"] exI [of _ "my_scope c"] exI [of _ "io_context.more c"]) simp
next
  case (Cons t ts)
  then obtain c1 where c1: "execute (logging_work adds) t c = Some (Inr c1)" "execute_all (logging_work adds) ts c1 = Some (Inr c')"
    by (auto simp: ores_bind_Inr_iff)
  obtain sc where "c1 = c\<lparr>my_scope := sc, io_context.more := io_context.more c @ [t], todo_list := todo_list c @ adds t\<rparr>"
    using c1(1) by (auto simp: execute_def logging_work_def schedule_list_appends ores_bind_Inr_iff)
  then have "c1 = c\<lparr>todo_list := todo_list c @ adds t, my_scope := sc, io_context.more := io_context.more c @ [t]\<rparr>"
    by (cases c) simp
  moreover obtain td sc' log where "c' = c1\<lparr>todo_list := td, my_scope := sc', io_context.more := log\<rparr>"
    using Cons.IH [OF c1(2)] by blast
  ultimately have "c' = c\<lparr>todo_list := td, my_scope := sc', io_context.more := log\<rparr>" by (cases c) simp
  then show ?case by blast
qed

section \<open>A context that is stopped\<close>

text \<open>
  The ring in memory with one completion, that of the read of the event descriptor; coroutines of the user that do nothing,
  and tasks that end at once.
\<close>

definition stop_env :: "(nat \<times> nat \<times> cqe list) loop_env" where
  "stop_env = \<lparr>le_event = 10, le_event_tk = 11, le_event_msg = 12, le_signal = 20, le_signal_tk = 21,
    le_signal_info = 22, le_signal_func = None, le_timeout = 30, le_timeout_tk = 31, le_timeout_ts = 32, le_msg = \<lambda>_. EV_STOP_MSG + 2,
    le_signo = \<lambda>_. 0, le_now = \<lambda>_. 0\<rparr>"

definition stop_log :: "cqe list" where
  "stop_log = [\<lparr>cqe_user_data = 11, cqe_res = 8, cqe_flags = 0\<rparr>]"

definition short_task :: "(handle, ('r, 'm) io_context_scheme) resumption" where
  "short_task t c = ores_bind (Some (on_work_finished (my_scope c))) (\<lambda>(_, s). Some (Inr (c\<lparr>my_scope := s\<rparr>)))"

definition stop_inv :: "(nat \<times> nat \<times> cqe list) io_context \<Rightarrow> bool" where
  "stop_inv c \<longleftrightarrow> snd (snd (uc_ring c)) = stop_log \<and> cq_pos (mem_ring 4) c \<le> 1 \<and> sc_count (my_scope c) = 1 \<and>
     (\<exists>t. uc_tokens c 11 = Some t \<and> tk_continuation t = 10)"

lemma short_tasks_ok: "tasks_ok (\<lambda>c. sc_count (my_scope c) = 1) short_task"
  by (auto simp: tasks_ok_def execute_def spawn_begin_def short_task_def on_work_started_def on_work_finished_def)

lemma stop_env_message: "stop_message (mem_ring 4) stop_env stop_inv"
  by (auto simp: stop_message_def stop_env_def stop_inv_def mem_ring_def EV_STOP_MSG_def)

lemma stop_env_clients: "clients_ok (mem_ring 4) 1 stop_inv (dispatch (mem_ring 4) stop_env (\<lambda>h c. Some (Inr c)))"
  unfolding clients_ok_def
proof (intro conjI allI impI)
  fix c :: "(nat \<times> nat \<times> cqe list) io_context"
  assume "stop_inv c"
  then show "cq_pos (mem_ring 4) c \<le> cq_tail (mem_ring 4) c" "cq_tail (mem_ring 4) c \<le> 1"
    by (auto simp: stop_inv_def stop_log_def mem_ring_tail)
next
  fix c c1 :: "(nat \<times> nat \<times> cqe list) io_context" and e
  assume a: "stop_inv c \<and> cq_pos (mem_ring 4) c < cq_tail (mem_ring 4) c \<and>
    e = lib_cqe (mem_ring 4) (uc_ring c) (cq_pos (mem_ring 4) c) \<and> c1 = c\<lparr>cqe_count := Suc (cqe_count c)\<rparr>"
  then have inv: "stop_inv c" and pos: "cq_pos (mem_ring 4) c = 0" and c1: "c1 = c\<lparr>cqe_count := Suc (cqe_count c)\<rparr>"
    by (auto simp: stop_inv_def stop_log_def mem_ring_tail)
  then have e: "e = \<lparr>cqe_user_data = 11, cqe_res = 8, cqe_flags = 0\<rparr>" using a by (auto simp: stop_inv_def stop_log_def mem_ring_tail)
  obtain t where t: "uc_tokens c 11 = Some t" "tk_continuation t = 10" using inv by (auto simp: stop_inv_def)
  let ?c = "c1\<lparr>uc_tokens := (uc_tokens c)(11 \<mapsto> t\<lparr>tk_result := 8, tk_flags := 0\<rparr>)\<rparr>"
  have "\<not> detached (mem_ring 4) e" by (simp add: e detached_def mem_ring_def)
  moreover have "dispatch (mem_ring 4) stop_env (\<lambda>h c. Some (Inr c)) 10 ?c = Some (Inr (?c\<lparr>stopped := True\<rparr>))"
    using eventfd_stop_message [of stop_env ?c "mem_ring 4"] by (simp add: dispatch_def stop_env_def EV_STOP_MSG_def)
  moreover have "stop_inv (?c\<lparr>stopped := True\<rparr>)" "cq_evolves (mem_ring 4) c1 (?c\<lparr>stopped := True\<rparr>)"
    using inv pos t c1 by (auto simp: stop_inv_def cq_pos_def cq_evolves_def)
  ultimately show "if detached (mem_ring 4) e then stop_inv c1 else \<exists>t c'. uc_tokens c (cqe_user_data e) = Some t \<and>
      dispatch (mem_ring 4) stop_env (\<lambda>h c. Some (Inr c)) (tk_continuation t) (c1\<lparr>uc_tokens := (uc_tokens c)
        (cqe_user_data e \<mapsto> t\<lparr>tk_result := cqe_res e, tk_flags := cqe_flags e\<rparr>)\<rparr>) = Some (Inr c') \<and>
      stop_inv c' \<and> cq_evolves (mem_ring 4) c1 c'"
    using e t by auto
qed

end
