(* ===== verification/Skiplist_Iter.thy ===== *)
theory Skiplist_Iter
  imports Skiplist_Map
begin

text \<open>
  Iterators of the skip list and its picture (\<open>SkiplistIterator\<close> and \<open>print\<close> in
  \<^verbatim>\<open>include/coring/detail/skiplist_map.hpp\<close>). An iterator is the address of its node. The contract
  \<open>forward_range\<close> says what a range-based loop needs of a container; it is interpreted on the skip list.
\<close>

section \<open>Iterators\<close>

text \<open>\<open>*it\<close> and \<open>it->\<close>; \<open>key()\<close> and \<open>value()\<close>; assigning through the reference that \<open>value()\<close> returns.\<close>

definition iter_deref :: "('k, 'v) skiplist \<Rightarrow> addr \<Rightarrow> ('k \<times> 'v) res" where
  "iter_deref s cur = res_bind (node_load (s_heap s) cur) (\<lambda>n. Inr (n_key n, n_val n))"

definition iter_key :: "('k, 'v) skiplist \<Rightarrow> addr \<Rightarrow> 'k res" where
  "iter_key s cur = res_bind (node_load (s_heap s) cur) (\<lambda>n. Inr (n_key n))"

definition iter_value :: "('k, 'v) skiplist \<Rightarrow> addr \<Rightarrow> 'v res" where
  "iter_value s cur = res_bind (node_load (s_heap s) cur) (\<lambda>n. Inr (n_val n))"

definition iter_set_value :: "('k, 'v) skiplist \<Rightarrow> addr \<Rightarrow> 'v \<Rightarrow> ('k, 'v) skiplist res" where
  "iter_set_value s cur v =
     res_bind (node_load (s_heap s) cur) (\<lambda>n. Inr (s\<lparr>s_heap := (s_heap s)(cur \<mapsto> n\<lparr>n_val := v\<rparr>)\<rparr>))"

text \<open>The postfix increment: the iterator before it, and the one after it.\<close>

definition iter_post_next :: "('k, 'v) skiplist \<Rightarrow> addr \<Rightarrow> (addr \<times> addr) res" where
  "iter_post_next s cur =
     (let tmp = cur in res_bind (level_next (s_heap s) cur 0) (\<lambda>cur. Inr (tmp, cur)))"

definition iter_differs :: "addr \<Rightarrow> addr \<Rightarrow> bool" where
  "iter_differs lhs rhs \<longleftrightarrow> lhs \<noteq> rhs"

text \<open>The range-based loop of C++ with the body \<open>f\<close>, from \<open>cur\<close> to \<open>fin\<close>.\<close>

partial_function (option) for_each ::
  "('i \<Rightarrow> 'e res) \<Rightarrow> ('i \<Rightarrow> 'i res) \<Rightarrow> ('i \<Rightarrow> 'i \<Rightarrow> bool) \<Rightarrow> ('e \<Rightarrow> 'w \<Rightarrow> 'w) \<Rightarrow> 'i \<Rightarrow> 'i \<Rightarrow> 'w \<Rightarrow> 'w res option" where
  "for_each deref nx differs f fin cur w =
     (if differs cur fin
      then case res_bind (deref cur) (\<lambda>e. res_bind (nx cur) (\<lambda>cur. Inr (e, cur))) of
             Inl err \<Rightarrow> Some (Inl err)
           | Inr (e, cur) \<Rightarrow> for_each deref nx differs f fin cur (f e w)
      else Some (Inr w))"

text \<open>What such a loop needs: \<open>at c i es\<close> says that \<open>es\<close> are the elements of \<open>c\<close> from the iterator \<open>i\<close> on.\<close>

locale forward_range =
  fixes at :: "'c \<Rightarrow> 'i \<Rightarrow> 'e list \<Rightarrow> bool" and deref :: "'c \<Rightarrow> 'i \<Rightarrow> 'e res" and nx :: "'c \<Rightarrow> 'i \<Rightarrow> 'i res"
    and fin :: "'c \<Rightarrow> 'i" and differs :: "'i \<Rightarrow> 'i \<Rightarrow> bool"
  assumes at_end: "at c i es \<Longrightarrow> differs i (fin c) \<longleftrightarrow> es \<noteq> []"
    and deref_hd: "at c i (e # es) \<Longrightarrow> deref c i = Inr e"
    and next_tl: "at c i (e # es) \<Longrightarrow> \<exists>j. nx c i = Inr j \<and> at c j es"
begin

lemma for_each_fold: "at c i es \<Longrightarrow> for_each (deref c) (nx c) differs f (fin c) i w = Some (Inr (fold f es w))"
proof (induction es arbitrary: i w)
  case Nil
  then show ?case using at_end by (subst for_each.simps) simp
next
  case (Cons e es)
  obtain j where j: "nx c i = Inr j" "at c j es" using next_tl [OF Cons.prems] by blast
  then show ?case
    using at_end [OF Cons.prems] deref_hd [OF Cons.prems] Cons.IH [OF j(2)] by (subst for_each.simps) simp
qed

end

definition iter_at :: "('k::linorder, 'v) skiplist \<Rightarrow> addr \<Rightarrow> ('k \<times> 'v) list \<Rightarrow> bool" where
  "iter_at s i es \<longleftrightarrow>
     (\<exists>xs ys. sl_shape s (xs @ ys) \<and> i = hd (ys @ [s_tail s]) \<and> entries_of s ys = es)"

lemma iter_deref_entry:
  "sl_shape s ns \<Longrightarrow> a \<in> set (ns @ [s_tail s]) \<Longrightarrow> iter_deref s a = Inr (key (s_heap s) a, val (s_heap s) a)"
  using entry_load [of s ns a] by (auto simp: iter_deref_def)

lemma level0_next:
  assumes s: "sl_shape s (xs @ y # ys)"
  shows "level_next (s_heap s) y 0 = Inr (hd (ys @ [s_tail s]))"
proof -
  have "chain (nxt (s_heap s) 0) ((s_head s # xs) @ y # (ys @ [s_tail s]) @ [0])" using level0_chain [OF s] by simp
  then have "chain (nxt (s_heap s) 0) (y # (ys @ [s_tail s]) @ [0])"
    by (rule chain_append [THEN iffD1, THEN conjunct2])
  then have "nxt (s_heap s) 0 y = Some (hd (ys @ [s_tail s]))" by (cases ys) simp_all
  moreover have "y \<noteq> 0" by (intro sl_shape_nonnull [OF s]) simp
  ultimately show ?thesis by (intro level_next_nxt)
qed

interpretation skiplist_range: forward_range iter_at iter_deref iter_next list_end iter_differs
proof
  fix s :: "('a::linorder, 'b) skiplist" and i es
  assume "iter_at s i es"
  then obtain xs ys where a: "sl_shape s (xs @ ys)" "i = hd (ys @ [s_tail s])" "entries_of s ys = es"
    by (auto simp: iter_at_def)
  then show "iter_differs i (list_end s) \<longleftrightarrow> es \<noteq> []"
    using sl_shapeD(1) [OF a(1)] by (cases ys) (auto simp: iter_differs_def list_end_def entries_of_def)
next
  fix s :: "('a::linorder, 'b) skiplist" and i e es
  assume "iter_at s i (e # es)"
  then obtain xs ys where a: "sl_shape s (xs @ i # ys)" "(key (s_heap s) i, val (s_heap s) i) = e" "entries_of s ys = es"
    by (auto simp: iter_at_def entries_of_def)
  show "iter_deref s i = Inr e" using iter_deref_entry [OF a(1), of i] a(2) by simp
  have "iter_at s (hd (ys @ [s_tail s])) es"
    using a(1,3) unfolding iter_at_def by (intro exI [of _ "xs @ [i]"] exI [of _ ys]) simp
  then show "\<exists>j. iter_next s i = Inr j \<and> iter_at s j es"
    using level0_next [OF a(1)] by (auto simp: iter_next_def)
qed

text \<open>Where the iterators of \<open>begin\<close> and \<open>find\<close> are.\<close>

lemma begin_at:
  assumes "map_rep maxKey s es"
  shows "\<exists>b. list_begin s = Inr b \<and> iter_at s b es"
proof -
  obtain ns where s: "sl_shape s ns" and es: "entries_of s ns = es" using assms by (auto simp: map_rep_def sl_inv_def)
  have "chain (nxt (s_heap s) 0) (s_head s # (ns @ [s_tail s]) @ [0])" using level0_chain [OF s] by simp
  then have "nxt (s_heap s) 0 (s_head s) = Some (hd (ns @ [s_tail s]))" by (cases ns) simp_all
  moreover have "s_head s \<noteq> 0" by (intro sl_shape_nonnull [OF s]) simp
  ultimately have "list_begin s = Inr (hd (ns @ [s_tail s]))" unfolding list_begin_def by (intro level_next_nxt)
  then show ?thesis using s es unfolding iter_at_def by (metis append_Nil)
qed

lemma find_at:
  assumes "map_rep maxKey s es" and "k < maxKey"
  shows "\<exists>i. find k s = Some (Inr i) \<and>
    iter_at s i (if k \<in> fst ` set es then dropWhile (\<lambda>e. fst e < k) es else [])"
proof -
  obtain ns where s: "sl_shape s ns" and es: "entries_of s ns = es" and k: "k < key (s_heap s) (s_tail s)"
    using assms by (auto simp: map_rep_def sl_inv_def)
  let ?up = "upper s k ns" and ?a = "hd (upper s k ns @ [s_tail s])"
  have a: "?a \<in> set (ns @ [s_tail s])" using lower_upper_subset(2) [of s k ns] by (cases ?up) auto
  obtain n where n: "node_load (s_heap s) ?a = Inr n" "n_key n = key (s_heap s) ?a" using entry_load [OF s a] by blast
  have hit: "key (s_heap s) ?a = k \<longleftrightarrow> k \<in> fst ` set es"
    using hd_upper_key [OF s k] es by (auto simp: entries_of_def image_image)
  have "find k s = Some (Inr (if k \<in> fst ` set es then ?a else list_end s))"
    using descend_lower [OF s less_imp_le [OF k], of "[]"] search_next [OF s, of k] n hit
    by (simp add: Skiplist.find_def)
  moreover have "iter_at s ?a (dropWhile (\<lambda>e. fst e < k) es)"
    using s es unfolding iter_at_def entries_of_lower_upper(2) [of s k ns, symmetric, unfolded es]
    by (metis lower_upper)
  moreover have "iter_at s (list_end s) []"
    using s unfolding iter_at_def by (intro exI [of _ ns] exI [of _ "[]"]) (simp add: list_end_def entries_of_def)
  ultimately show ?thesis by auto
qed

text \<open>Assigning to the value of a node changes that entry and nothing else.\<close>

lemma shape_views:
  assumes "key h' = key (s_heap s)" and "height h' = height (s_heap s)" and "nxt h' = nxt (s_heap s)"
  shows "sl_shape (s\<lparr>s_heap := h'\<rparr>) ns = sl_shape s ns"
  using assms by (simp add: sl_shape_def level_def)

lemma set_value_views:
  fixes h :: "('k, 'v) heap" and v :: 'v
  assumes "h a = Some n"
  defines "h' \<equiv> h(a \<mapsto> n\<lparr>n_val := v\<rparr>)"
  shows "key h' = key h" "height h' = height h" "nxt h' = nxt h" "val h' b = (if b = a then v else val h b)"
  using assms(1) by (auto simp: h'_def key_def height_def nxt_def val_def info_def fun_eq_iff)

lemma iter_set_value_entry:
  assumes s: "sl_inv s (xs @ y # ys)"
  shows "\<exists>s'. iter_set_value s y v = Inr s' \<and> sl_inv s' (xs @ y # ys) \<and> s_tail s' = s_tail s \<and>
    key (s_heap s') = key (s_heap s) \<and>
    entries_of s' (xs @ y # ys) = entries_of s xs @ (key (s_heap s) y, v) # entries_of s ys"
proof -
  have sh: "sl_shape s (xs @ y # ys)" using s by (simp add: sl_inv_def)
  obtain n where n: "node_load (s_heap s) y = Inr n" "s_heap s y = Some n" using entry_load [OF sh, of y] by auto
  let ?s = "s\<lparr>s_heap := (s_heap s)(y \<mapsto> n\<lparr>n_val := v\<rparr>)\<rparr>"
  note views = set_value_views [of "s_heap s" y n, OF n(2), of v]
  have "sl_inv ?s (xs @ y # ys)" using s shape_views [OF views(1-3)] by (simp add: sl_inv_def)
  moreover have "y \<notin> set xs" "y \<notin> set ys" using sl_shapeD(1) [OF sh] by auto
  then have "entries_of ?s (xs @ y # ys) = entries_of s xs @ (key (s_heap s) y, v) # entries_of s ys"
    using views(1,4) by (auto simp: entries_of_def)
  ultimately show ?thesis using n(1) views(1) by (intro exI [of _ ?s]) (simp add: iter_set_value_def)
qed

definition set_entry :: "'k::linorder \<Rightarrow> 'v \<Rightarrow> ('k \<times> 'v) list \<Rightarrow> ('k \<times> 'v) list" where
  "set_entry k v es = takeWhile (\<lambda>e. fst e < k) es @ (k, v) # tl (dropWhile (\<lambda>e. fst e < k) es)"

lemma find_set_value:
  assumes rep: "map_rep maxKey s es" and k: "k < maxKey" "k \<in> fst ` set es"
  shows "\<exists>i s'. find k s = Some (Inr i) \<and> iter_key s i = Inr k \<and> iter_set_value s i v = Inr s' \<and>
    map_rep maxKey s' (set_entry k v es)"
proof -
  obtain ns where s: "sl_inv s ns" and es: "entries_of s ns = es" and mk: "key (s_heap s) (s_tail s) = maxKey"
    using rep by (auto simp: map_rep_def)
  then have sh: "sl_shape s ns" by (simp add: sl_inv_def)
  obtain i where f: "find k s = Some (Inr i)" "iter_at s i (dropWhile (\<lambda>e. fst e < k) es)"
    using find_at [OF rep k(1)] k(2) by auto
  obtain y ys where up: "upper s k ns = y # ys" "key (s_heap s) y = k"
    using hd_upper_key [OF sh, of k] mk k es by (cases "upper s k ns") (auto simp: entries_of_def)
  have "descend (\<lambda>k'. k > k') (s_heap s) (s_max_level s) (s_head s) [] =
      Some (Inr (stop (s_heap s) (s_head s) (lower s k ns) 0, []))"
    using descend_lower [OF sh, of k "[]"] mk k(1) by simp
  moreover obtain n where n: "node_load (s_heap s) y = Inr n" "n_key n = k"
    using entry_load [OF sh, of y] up lower_upper_subset(2) [of s k ns] by auto
  ultimately have i: "i = y" using f(1) search_next [OF sh, of k] up by (simp add: Skiplist.find_def)
  have split: "lower s k ns @ y # ys = ns" using lower_upper [of s k ns] up(1) by simp
  then obtain s' where s': "iter_set_value s y v = Inr s'" "sl_inv s' ns" "s_tail s' = s_tail s"
      "key (s_heap s') = key (s_heap s)" "entries_of s' ns = entries_of s (lower s k ns) @ (k, v) # entries_of s ys"
    using iter_set_value_entry [of s "lower s k ns" y ys v] s up(2) by auto
  have "entries_of s ys = tl (dropWhile (\<lambda>e. fst e < k) es)"
    using entries_of_lower_upper(2) [of s k ns] up(1) es by (metis entries_of_def list.sel(3) list.simps(9))
  then have "entries_of s' ns = set_entry k v es"
    using s'(5) entries_of_lower_upper(1) [of s k ns] es by (simp add: set_entry_def)
  then have "map_rep maxKey s' (set_entry k v es)" using s'(2-4) mk by (auto simp: map_rep_def)
  then show ?thesis using f(1) i n s'(1) by (auto simp: iter_key_def)
qed

section \<open>The picture\<close>

text \<open>
  \<open>print\<close>; \<open>cell\<close> is the text that the formatting library makes of a key. One line per level: \<open>lines\<close> are the
  texts so far and \<open>prevs\<close> the last node printed on each level.
\<close>

fun print_start :: "('k \<Rightarrow> string) \<Rightarrow> ('k, 'v) skiplist \<Rightarrow> nat \<Rightarrow> string list \<times> addr list \<Rightarrow> (string list \<times> addr list) res" where
  "print_start cell s 0 lp = Inr lp"
| "print_start cell s (Suc i) lp =
     res_bind (node_load (s_heap s) (s_head s)) (\<lambda>n.
       print_start cell s i ((fst lp)[i := (fst lp ! i) @ cell (n_key n)], (snd lp)[i := s_head s]))"

fun print_cells ::
  "('k \<Rightarrow> string) \<Rightarrow> ('k, 'v) heap \<Rightarrow> addr \<Rightarrow> nat \<Rightarrow> string list \<times> addr list \<Rightarrow> (string list \<times> addr list) res" where
  "print_cells cell h this_val 0 lp = Inr lp"
| "print_cells cell h this_val (Suc i) lp =
     res_bind (level_next h (snd lp ! i) i) (\<lambda>nx.
       if nx = this_val
       then res_bind (node_load h this_val) (\<lambda>n.
              print_cells cell h this_val i ((fst lp)[i := (fst lp ! i) @ cell (n_key n)], (snd lp)[i := this_val]))
       else print_cells cell h this_val i ((fst lp)[i := (fst lp ! i) @ replicate 7 (CHR ''-'')], snd lp))"

partial_function (option) print_nodes ::
  "('k \<Rightarrow> string) \<Rightarrow> ('k, 'v) skiplist \<Rightarrow> addr \<Rightarrow> string list \<times> addr list \<Rightarrow> string list res option" where
  "print_nodes cell s a lp =
     (if a \<noteq> s_tail s
      then case res_bind (level_next (s_heap s) a 0) (\<lambda>this_val.
                res_bind (print_cells cell (s_heap s) this_val (s_max_level s) lp) (\<lambda>lp. Inr (this_val, lp))) of
             Inl e \<Rightarrow> Some (Inl e)
           | Inr (this_val, lp) \<Rightarrow> print_nodes cell s this_val lp
      else Some (Inr (fst lp)))"

definition skiplist_print :: "('k \<Rightarrow> string) \<Rightarrow> ('k, 'v) skiplist \<Rightarrow> string res option" where
  "skiplist_print cell s =
     (case print_start cell s (s_max_level s) (replicate (s_max_level s) [], replicate (s_max_level s) 0) of
        Inl e \<Rightarrow> Some (Inl e)
      | Inr lp \<Rightarrow>
          ores_bind (print_nodes cell s (s_head s) lp) (\<lambda>lines.
            Some (Inr ([CHR 0x0A, CHR 0x0A] @ concat (map (\<lambda>i. (lines ! i) @ [CHR 0x0A]) (rev [0..<s_max_level s]))))))"

text \<open>The line of level \<open>i\<close>: a cell for every node on the level, and dashes under the others.\<close>

definition line_part :: "('k \<Rightarrow> string) \<Rightarrow> ('k, 'v) heap \<Rightarrow> nat \<Rightarrow> addr list \<Rightarrow> string" where
  "line_part cell h i xs =
     concat (map (\<lambda>a. if i < height h a then cell (key h a) else replicate 7 (CHR ''-'')) xs)"

lemma line_part_simps [simp]:
  "line_part cell h i [] = []" "line_part cell h i (xs @ ys) = line_part cell h i xs @ line_part cell h i ys"
  "line_part cell h i [a] = (if i < height h a then cell (key h a) else replicate 7 (CHR ''-''))"
  by (simp_all add: line_part_def)

lemma print_start_lines:
  assumes "node_load (s_heap s) (s_head s) = Inr n" and "length ls = m" and "length ps = m" and "i \<le> m"
  shows "print_start cell s i (ls, ps) =
    Inr (map (\<lambda>j. if j < i then (ls ! j) @ cell (n_key n) else ls ! j) [0..<m], map (\<lambda>j. if j < i then s_head s else ps ! j) [0..<m])"
  using assms(2-)
proof (induction i arbitrary: ls ps)
  case 0
  then show ?case by (auto intro: nth_equalityI)
next
  case (Suc i)
  have "print_start cell s (Suc i) (ls, ps) = print_start cell s i (ls[i := (ls ! i) @ cell (n_key n)], ps[i := s_head s])"
    using assms(1) by simp
  also have "\<dots> = Inr (map (\<lambda>j. if j < Suc i then (ls ! j) @ cell (n_key n) else ls ! j) [0..<m],
      map (\<lambda>j. if j < Suc i then s_head s else ps ! j) [0..<m])"
    using Suc.prems by (subst Suc.IH) (auto simp: nth_list_update less_Suc_eq)
  finally show ?case .
qed

lemma print_cells_lines:
  assumes "\<And>j. j < i \<Longrightarrow> level_next h (ps ! j) j = Inr (nx j)" and "node_load h t = Inr n"
    and "length ls = m" and "length ps = m" and "i \<le> m"
  shows "print_cells cell h t i (ls, ps) =
    Inr (map (\<lambda>j. if j < i then (ls ! j) @ (if nx j = t then cell (n_key n) else replicate 7 (CHR ''-'')) else ls ! j) [0..<m],
      map (\<lambda>j. if j < i \<and> nx j = t then t else ps ! j) [0..<m])"
  using assms(1,3-)
proof (induction i arbitrary: ls ps)
  case 0
  then show ?case by (auto intro: nth_equalityI)
next
  case (Suc i)
  let ?ls = "ls[i := (ls ! i) @ (if nx i = t then cell (n_key n) else replicate 7 (CHR ''-''))]"
    and ?ps = "if nx i = t then ps[i := t] else ps"
  have "level_next h (ps ! i) i = Inr (nx i)" using Suc.prems(1) by simp
  then have "print_cells cell h t (Suc i) (ls, ps) = print_cells cell h t i (?ls, ?ps)"
    using assms(2) by simp
  also have "\<dots> = Inr (map (\<lambda>j. if j < Suc i then (ls ! j) @ (if nx j = t then cell (n_key n) else replicate 7 (CHR ''-'')) else ls ! j) [0..<m],
      map (\<lambda>j. if j < Suc i \<and> nx j = t then t else ps ! j) [0..<m])"
    using Suc.prems by (subst Suc.IH) (auto simp: nth_list_update less_Suc_eq)
  finally show ?case .
qed

text \<open>One round of the loop over the nodes, when the nodes \<open>xs\<close> have been printed.\<close>

lemma print_round:
  assumes s: "sl_shape s (xs @ ys)"
  defines "h \<equiv> s_heap s" and "m \<equiv> s_max_level s" and "t \<equiv> hd (ys @ [s_tail s])"
  defines "lev j \<equiv> hd (level (s_heap s) j ys @ [s_tail s]) = hd (ys @ [s_tail s])"
  shows "print_nodes cell s (last (s_head s # xs))
      (map (\<lambda>j. c @ line_part cell h j xs) [0..<m], map (\<lambda>j. stop h (s_head s) xs j) [0..<m]) =
    print_nodes cell s t
      (map (\<lambda>j. c @ line_part cell h j xs @ (if lev j then cell (key h t) else replicate 7 (CHR ''-''))) [0..<m],
       map (\<lambda>j. if lev j then t else stop h (s_head s) xs j) [0..<m])"
proof -
  have nz: "stop h (s_head s) xs j \<noteq> 0" for j
    using stop_in [of h "s_head s" xs j] by (intro sl_shape_nonnull [OF s]) (auto simp: h_def)
  have m: "m \<le> MAX_LEVEL" using sl_shapeD(9) [OF s] by (simp add: m_def)
  have nx: "level_next h (stop h (s_head s) xs j) j = Inr (hd (level h j ys @ [s_tail s]))" if "j < MAX_LEVEL" for j
    using nz nxt_stop [OF s that] unfolding h_def by (intro level_next_nxt)
  have last0: "last (s_head s # xs) = stop h (s_head s) xs 0"
    using level_zero [OF s, of xs] by (simp add: stop_def h_def)
  then have n0: "level_next h (last (s_head s # xs)) 0 = Inr t"
    using nx [of 0] level0_upper [OF s] by (simp add: h_def t_def MAX_LEVEL_def)
  have "t \<in> set ((xs @ ys) @ [s_tail s])" by (cases ys) (auto simp: t_def)
  then obtain n where n: "node_load h t = Inr n" "n_key n = key h t" using entry_load [OF s] unfolding h_def by blast
  have "print_cells cell h t m (map (\<lambda>j. c @ line_part cell h j xs) [0..<m], map (\<lambda>j. stop h (s_head s) xs j) [0..<m]) =
      Inr (map (\<lambda>j. c @ line_part cell h j xs @ (if lev j then cell (key h t) else replicate 7 (CHR ''-''))) [0..<m],
       map (\<lambda>j. if lev j then t else stop h (s_head s) xs j) [0..<m])"
    using m
    by (subst print_cells_lines [where nx = "\<lambda>j. hd (level h j ys @ [s_tail s])" and m = m, OF _ n(1)])
       (simp_all add: nx n(2) lev_def flip: h_def t_def)
  moreover have "last (s_head s # xs) \<noteq> s_tail s" using sl_shapeD(1) [OF s] by (cases xs rule: rev_cases) auto
  ultimately show ?thesis using n0 by (subst print_nodes.simps) (simp add: h_def m_def)
qed

lemma print_nodes_lines:
  assumes s: "sl_shape s (xs @ ys)"
  defines "h \<equiv> s_heap s" and "m \<equiv> s_max_level s"
  shows "print_nodes cell s (last (s_head s # xs))
      (map (\<lambda>j. c @ line_part cell h j xs) [0..<m], map (\<lambda>j. stop h (s_head s) xs j) [0..<m]) =
    Some (Inr (map (\<lambda>j. c @ line_part cell h j (xs @ ys) @ cell (key h (s_tail s))) [0..<m]))"
  using s
proof (induction ys arbitrary: xs)
  case Nil
  then show ?case
    using print_round [OF Nil, of cell c] by (simp add: h_def m_def print_nodes.simps [of cell s "s_tail s"])
next
  case (Cons y ys)
  have y: "y \<notin> set ys" "y \<noteq> s_tail s" using sl_shapeD(1) [OF Cons.prems] by auto
  have "level h j (y # ys) = (if j < height h y then [y] else []) @ level h j ys" for j by (simp add: level_def)
  moreover have "y \<notin> set (level h j ys)" for j using y(1) by (simp add: set_level)
  ultimately have lev: "hd (level h j (y # ys) @ [s_tail s]) = y \<longleftrightarrow> j < height h y" for j
    using y(2) by (cases "level h j ys") (auto split: if_splits, metis list.set_intros(1))
  have st: "stop h (s_head s) (xs @ [y]) j = (if j < height h y then y else stop h (s_head s) xs j)" for j
    by (simp add: stop_def level_def)
  have "sl_shape s ((xs @ [y]) @ ys)" using Cons.prems by simp
  from Cons.IH [OF this] print_round [OF Cons.prems, of cell c, unfolded append_Cons list.sel] show ?case
    using lev by (simp add: h_def m_def st [unfolded h_def])
qed

lemma skiplist_print_lines:
  assumes s: "sl_shape s ns"
  shows "skiplist_print cell s = Some (Inr ([CHR 0x0A, CHR 0x0A] @ concat (map (\<lambda>i.
    cell (key (s_heap s) (s_head s)) @ line_part cell (s_heap s) i ns @ cell (key (s_heap s) (s_tail s)) @ [CHR 0x0A])
      (rev [0..<s_max_level s]))))"
proof -
  have "s_head s \<noteq> 0" by (intro sl_shape_nonnull [OF s]) simp
  moreover have "0 < height (s_heap s) (s_head s)" using sl_shapeD(3) [OF s] by (simp add: MAX_LEVEL_def)
  ultimately obtain n where n: "node_load (s_heap s) (s_head s) = Inr n" "n_key n = key (s_heap s) (s_head s)"
    using node_load_info by blast
  let ?m = "s_max_level s" and ?c = "cell (key (s_heap s) (s_head s))"
  have "print_start cell s ?m (replicate ?m [], replicate ?m 0) = Inr (map (\<lambda>j. ?c) [0..<?m], map (\<lambda>j. s_head s) [0..<?m])"
    using print_start_lines [OF n(1), of "replicate ?m []" ?m "replicate ?m 0" ?m cell] n(2) by (simp cong: map_cong)
  moreover have "print_nodes cell s (s_head s) (map (\<lambda>j. ?c) [0..<?m], map (\<lambda>j. s_head s) [0..<?m]) =
      Some (Inr (map (\<lambda>j. ?c @ line_part cell (s_heap s) j ns @ cell (key (s_heap s) (s_tail s))) [0..<?m]))"
    using print_nodes_lines [of s "[]" ns cell ?c] s by (simp add: stop_def)
  ultimately show ?thesis by (auto simp: skiplist_print_def intro!: arg_cong [where f = concat])
qed

end
