(* ===== verification/Connect_Example.thy ===== *)
theory Connect_Example
  imports Http_Server
begin

text \<open>
  The example that connects with a time limit (\<^verbatim>\<open>examples/connect_with_timeout.cpp\<close>): resolving a host, printing
  its address, connecting within three seconds, and the handler that stops the context.
\<close>

text \<open>\<open>catch_it\<close>; \<open>what\<close> is the text of an exception. The results: what was printed, whether the context was stopped.\<close>

definition catch_it :: "(fault \<Rightarrow> string) \<Rightarrow> fault \<Rightarrow> string \<Rightarrow> 'w \<Rightarrow> (string \<times> bool \<times> 'w) res" where
  "catch_it what e out w =
     (if is_exception e then Inr (out @ ''inside root coroutine: '' @ what e @ [CHR 0x0A], True, w) else Inl e)"

text \<open>The coroutine; at the end of the block the connection, a variable of it, is destroyed.\<close>

definition connect_example ::
  "('w, 'st) os \<Rightarrow> byte_order \<Rightarrow> (string \<Rightarrow> hostent option) \<Rightarrow> (fault \<Rightarrow> string) \<Rightarrow> 'w \<Rightarrow>
   (string \<times> bool \<times> 'w) res option" where
  "connect_example S order lookup what w =
     (case res_bind (from_resolve_port order lookup ''www.google.com'' 80) (\<lambda>ep.
           res_bind (address_str ep) (\<lambda>text. Inr (ep, text @ [CHR 0x0A]))) of
        Inl e \<Rightarrow> Some (catch_it what e [] w)
      | Inr (ep, out) \<Rightarrow>
          (case connect_to_for S Empty_class ep 1000000000 3 w of
             None \<Rightarrow> None
           | Some (Inl e, w) \<Rightarrow> Some (catch_it what e out w)
           | Some (Inr c, w) \<Rightarrow> Some (Inr (out, False, fd_destroy S c w))))"

text \<open>Connecting with a time limit: one descriptor at most, closed however the attempt ends.\<close>

lemma connect_to_for_accounts:
  assumes acc: "os_accounts opened closed S" and ts: "make_timespec tick_ns dur = Inr k"
  shows "\<exists>r w'. connect_to_for S Empty_class peer tick_ns dur w = Some (r, w') \<and>
    (case r of
      Inr cn \<Rightarrow> 0 \<le> fd_no cn \<and> opened w' = opened w @ [fd_no cn] \<and> closed w' = closed w @ [fd_no cn]
    | Inl e \<Rightarrow> is_exception e \<and> (\<exists>fds. opened w' = opened w @ fds \<and> closed w' = closed w @ fds))"
proof -
  obtain fd w1 where s: "os_socket S SOCK_STREAM w = (fd, w1)" by fastforce
  obtain ret w2 where c: "aw_connect S fd peer (Some k) w1 = (ret, w2)" by fastforce
  note os = os_accountsD(1) [OF acc s] os_accountsD(8) [OF acc c] os_accountsD(4) [OF acc, of fd w2] os_accountsD(6) [OF acc, of fd w2]
  show ?thesis
    using s c ts os
    by (auto simp: connect_to_for_def new_socket_safe_def socket_or_throw_def handle_connect_error_close_def Let_def
        connection_of_fd_def socket_new_def file_descriptor_new_def fd_destroy_def fd_invalid_def opens_def closes_def)
qed

lemma resolve_outcome:
  assumes "\<And>he. lookup h = Some he \<Longrightarrow>
    h_addrtype he = AF_INET \<and> length (h_addr he) = 4 \<and> octet (load_word order (h_addr he)) 3 < 128"
  shows "from_resolve_port order lookup h p = Inl (Runtime_error ''address resolve fails'') \<or>
    (\<exists>ep text. from_resolve_port order lookup h p = Inr ep \<and> address_str ep = Inr text)"
proof (cases "lookup h")
  case None
  then show ?thesis by (simp add: from_resolve_port_def endpoint_resolve_def)
next
  case (Some he)
  let ?ep = "set_port (host_to_network order p) ((endpoint_of_port order 0)\<lparr>sin_family := AF_INET, sin_addr := load_word order (h_addr he)\<rparr>)"
  have "octet (sin_addr ?ep) 3 < 128" using assms [OF Some] by (simp add: set_port_def)
  moreover have "from_resolve_port order lookup h p = Inr ?ep"
    using assms [OF Some] Some by (simp add: from_resolve_port_def endpoint_resolve_def)
  ultimately show ?thesis using address_str_parses [of ?ep] by blast
qed

end
