(* ===== verification/Spec2Isabelle.thy ===== *)
theory Spec2Isabelle
  imports Spsc_Threads Buffer_Safety Str_Utils When_All_Tuple Echo_Server Scope_Guard Log_Output Log_Threads Event_Loop Skiplist_Iter Connect_Example
begin

text \<open>
  Verification of libcoring, a C++20 coroutine library over \<open>io_uring\<close> (sources under
  \<^verbatim>\<open>src/include/coring\<close>, \<^verbatim>\<open>src/source\<close> and \<^verbatim>\<open>src/examples\<close>).

  \<^bold>\<open>The program.\<close> A program of the library is a set of coroutines, lazy \<open>task\<close>s and eager \<open>async_task\<close>s, that
  one \<open>io_context\<close> per thread drives. A coroutine that awaits a request fills an entry of the
  submission queue and leaves its handle in a token; the loop of the context submits the queue, waits for
  completions and resumes the coroutines whose tokens the completions carry. Timers are kept in a skip
  list; other threads reach the loop through an eventfd and a locked list. Connections, files and the
  acceptor issue requests on descriptors, byte buffers carry what is read and sent, and a pool lends
  blocks to the kernel. The logger takes messages from every thread through a single-producer
  single-consumer ring each and writes them in a thread of its own. The HTTP server and the echo server
  among the examples put these parts together.

  \<^bold>\<open>How the sources are modelled.\<close> A C++ call returns a value, throws, fails an assertion or behaves
  in an undefined way; all but the first are values of \<open>fault\<close>, and a call is a \<open>'a res\<close>. A loop that may
  run for ever is a \<open>partial_function\<close> into \<open>option\<close>, in which \<open>None\<close> means that it does not return; the
  properties of such loops prove that they do return. Where a loop waits for another thread, the values
  it reads are an argument. Machine integers are words of their width; signed arithmetic is on \<open>int\<close> with
  its overflow as a fault. Objects that the code shares by pointer live in heaps (the nodes of the skip
  list, coroutine frames, the rings of the logger, the blocks of the pool). Code outside the repository is
  a parameter: liburing (the record \<open>liburing\<close>, with the laws \<open>liburing_ok\<close>, which the instance \<open>mem_ring\<close>
  satisfies), the system calls (the record \<open>os\<close>, instances \<open>account_os\<close> and \<open>mem_os\<close>), a connection
  (\<open>stream_connection\<close> with \<open>send_ok\<close>, \<open>recv_ok\<close> and \<open>send_progress\<close>, instance \<open>mem_connection\<close>), the clocks, the random numbers
  of the skip list, the bodies of user coroutines and the formatting of log messages.

  \<^bold>\<open>The theories.\<close>
  \<^item> \<^verbatim>\<open>Coring_Prelude\<close>: machine types, faults, sequencing, facts on words and masks; \<^verbatim>\<open>Contracts\<close>: the
    interfaces as locales. \<open>bounded_queue\<close> is interpreted on the ring, \<open>byte_buffer\<close> and \<open>room_buffer\<close> on both
    buffers, \<open>deadline_queue\<close> on the skip list, \<open>join_counter\<close> and \<open>join_scope\<close> on \<open>when_all_counter\<close> and
    \<open>async_scope\<close>. The clients of an interface are proved once, in its locale.
  \<^item> \<^verbatim>\<open>Spsc_Ring\<close>, \<^verbatim>\<open>Spsc_Threads\<close> (\<^verbatim>\<open>detail/logging/spsc_ring.hpp\<close>): the ring with its padding and
    wrapping indices, first in sequence, then with the two threads interleaved at the accesses to the
    indices. It is a queue, and neither thread touches a slot that belongs to the other.
  \<^item> \<^verbatim>\<open>Endian\<close> (\<^verbatim>\<open>endian.hpp\<close>), \<^verbatim>\<open>Str_Utils\<close> (\<^verbatim>\<open>detail/str_utils.hpp\<close>), \<^verbatim>\<open>Buffer\<close>, \<^verbatim>\<open>Buffer_Safety\<close> (\<^verbatim>\<open>buffer.hpp\<close>): byte
    order, integer printing, and the two buffers, whose contents are a queue of bytes and whose operations stay inside
    their memory.
  \<^item> \<^verbatim>\<open>Skiplist\<close>, \<^verbatim>\<open>_Shape\<close>, \<^verbatim>\<open>_Insert\<close>, \<^verbatim>\<open>_Remove\<close>, \<^verbatim>\<open>_Map\<close>, \<^verbatim>\<open>_Callback\<close>, \<^verbatim>\<open>_Iter\<close> (\<^verbatim>\<open>detail/skiplist_map.hpp\<close>): the
    operations on nodes, the shape invariant (every level a sublist of the one below, sorted), insertion,
    removal, the list as a multimap, callbacks that insert while the list is emptied, and iterators (contract
    \<open>forward_range\<close>) with the picture that \<open>print\<close> draws. \<^verbatim>\<open>Timer\<close>
    (\<^verbatim>\<open>timer.hpp\<close>, \<^verbatim>\<open>detail/time_utils.hpp\<close>) is its client.
  \<^item> \<^verbatim>\<open>Async_Events\<close> (the two single-consumer events and the futex event), \<^verbatim>\<open>Async_Join\<close> (\<^verbatim>\<open>async_scope.hpp\<close>,
    \<^verbatim>\<open>when_all_counter.hpp\<close>): step relations by atomic access; no wake-up is lost and nothing is resumed twice.
  \<^item> \<^verbatim>\<open>Tasks\<close> (\<^verbatim>\<open>task.hpp\<close>, \<^verbatim>\<open>async_task.hpp\<close>): promises, frames and symmetric transfer; running a tree of
    tasks gives the result of the calls. \<^verbatim>\<open>When_All\<close>: \<open>when_all\<close>, \<open>when_all_ready\<close>, \<open>sync_wait\<close>.
    \<^verbatim>\<open>Promises\<close>: the promises for results without a value and for references; the contract \<open>outcome_promise\<close> (what a body
    ends with is what its awaiter gets) is interpreted on every promise of the library. \<^verbatim>\<open>When_All_Tuple\<close>: \<open>when_all\<close> over a
    tuple, simulated by \<open>when_all\<close> over a vector. \<^verbatim>\<open>Scope_Guard\<close> (\<^verbatim>\<open>on_scope_exit.hpp\<close>, \<^verbatim>\<open>manual_lifetime.hpp\<close>,
    \<^verbatim>\<open>signals.hpp\<close>): guards that run their function once, values with a manual lifetime, sets of signals.
  \<^item> \<^verbatim>\<open>Io_Uring\<close> (\<^verbatim>\<open>detail/io/io_uring_context.hpp\<close>, \<^verbatim>\<open>io_awaitable.hpp\<close>, \<^verbatim>\<open>detail/io_utils.hpp\<close>): every request,
    \<open>get_sqe_safe\<close>, completions and tokens. \<^verbatim>\<open>Io_Context\<close> (\<^verbatim>\<open>io_context.hpp\<close>, \<^verbatim>\<open>timeout_awaitable.hpp\<close>): the loop
    and its coroutines. \<^verbatim>\<open>Event_Loop\<close>: how \<open>run\<close> starts, with any coroutines in its first list, and that a stop
    request ends it after any rounds.
  \<^item> \<^verbatim>\<open>Endpoint\<close>, \<^verbatim>\<open>File_Io\<close>, \<^verbatim>\<open>Sockets\<close>, \<^verbatim>\<open>Stream_Io\<close>, \<^verbatim>\<open>Buffer_Pool\<close>: addresses, descriptors and files,
    sockets, connections and the acceptor, the reading and writing coroutines of \<^verbatim>\<open>socket_reader.hpp\<close> and
    \<^verbatim>\<open>socket_writer.hpp\<close>, and the pool. The properties say which bytes are moved and who owns a descriptor
    or a block.
  \<^item> \<^verbatim>\<open>Http\<close>, \<^verbatim>\<open>Http_Server\<close> (\<^verbatim>\<open>examples/http1\<close>, \<^verbatim>\<open>examples/http_server.cpp\<close>): the parser as a refinement of parsing
    a text, responses, and the loop of a connection. \<^verbatim>\<open>Echo_Server\<close> (\<^verbatim>\<open>examples/echo_server.cpp\<close>): the loop of a connection,
    with what the pass that ends it leaves behind, and the accept loops of both servers. \<^verbatim>\<open>Connect_Example\<close> (\<^verbatim>\<open>examples/connect_with_timeout.cpp\<close>).
  \<^item> \<^verbatim>\<open>Timestamp\<close> (\<^verbatim>\<open>timestamp.hpp\<close>, \<^verbatim>\<open>log_timestamp.hpp\<close>), \<^verbatim>\<open>Logging\<close> (\<^verbatim>\<open>logging.hpp\<close>, \<^verbatim>\<open>async_logger.hpp\<close> and
    \<^verbatim>\<open>.cpp\<close>, \<^verbatim>\<open>log_file.cpp\<close>, \<^verbatim>\<open>detail/thread.hpp\<close>): time stamps and their text, the front end, the back end's
    rounds, and books that account for every message until it is written. \<^verbatim>\<open>Log_Output\<close>: starting and stopping its
    thread, and the files that are written and rolled in the other configuration; nothing is lost when they are.
    \<^verbatim>\<open>Log_Threads\<close>: the same logger as a step relation, with the other threads between any two steps of the back
    end and any number of messages; its invariant, the race on the vector of rings from the fifth ring on, and that a
    stop request ends it in every fair run.
  This theory states the properties, in the order of their importance.

  \<^bold>\<open>Bounds.\<close> The logger's property by rounds is for up to 8191 messages of one thread in one round, the capacity of
  its ring: with more between two rounds a thread waits for the back end, which the rounds do not interleave with. The
  properties of \<^verbatim>\<open>Log_Threads\<close> have no such bound: there a thread whose ring is full has no step until there is room.
  That its back end has no fault is for up to four threads that log, the room reserved for their rings; a fifth leads to
  the fault that is proved. The log properties are for arguments whose text is fixed at the call, which arrays of
  characters that are not constant are not. The counts of the events that a timer runs are \<open>int\<close>s: the properties
  are for less than \<open>2 ^ 31\<close> of them in one call. The calls of \<open>make_room\<close> are those whose size does not wrap around.
  Time stamps lie between the epoch and the end of the 64-bit clock. Other size limits in
  hypotheses are those of the C++ types (\<open>vector_max_size\<close>, 31-bit counts of the system calls).

  \<^bold>\<open>Not modelled.\<close> The vendored formatting library; type traits, concepts and forwarding functions, which
  have no behaviour at run time; the \<open>main\<close> functions of the examples and the two examples that only call
  the library and print (\<^verbatim>\<open>use_async_task.cpp\<close>, \<^verbatim>\<open>do_logging.cpp\<close>); memory orderings weaker than sequential
  consistency (accesses to atomics are interleaved); \<open>push_back_int\<close> and the other functions that do not compile
  when used.
\<close>

section \<open>Properties\<close>

text \<open>
  C1. For every sequence of \<open>try_push\<close>, \<open>front\<close>/\<open>pop\<close> and \<open>batch_out\<close> on a ring that was constructed
  with a power of two, no access faults, and what was accepted is what was delivered followed by
  what is still in the ring, in order.
\<close>

theorem ring_run_fifo:
  fixes dflt :: 'a and ops :: "'a queue_op list"
  assumes "1 \<le> k" and "0 < sizeof_T"
    and "sizeof_T * (2 ^ k + 2 * k_padding sizeof_T) < 18446744073709551616"
  shows "\<exists>r. spsc_ring_new sizeof_T (2 ^ k) = Inr r \<and>
    (\<exists>del r'. queue_run try_push take_front (batch_out dflt) ops [] [] r =
       Inr (del @ items r', del, r') \<and> length (items r') \<le> 2 ^ k - 1)"
proof -
  obtain r :: "'a spsc_ring" where r: "spsc_ring_new sizeof_T (2 ^ k) = Inr r" "ring_inv r" "items r = []"
    "unat (ring_capacity r) = 2 ^ k - 1"
    using spsc_ring_new_pow2 [OF assms] by blast
  then obtain del r' where run: "queue_run try_push take_front (batch_out dflt) ops [] [] r =
      Inr (del @ items r', del, r')" "ring_inv r'"
    using ring_queue.run_fifo [of r "[]" "[]" dflt ops] by auto
  then show ?thesis using r ring_queue.run_room [OF run(1)] ring_bounded [of r'] by auto
qed

theorem ring_run_fifo_witness:
  "\<exists>r. spsc_ring_new 8 8 = Inr r \<and>
    (\<exists>del r'. queue_run try_push take_front (batch_out (0 :: int)) [Enq 5, Enq 6, Deq, Drain] [] [] r =
       Inr (del @ items r', del, r') \<and> length (items r') \<le> 7)"
  using ring_run_fifo [of 3 8 "0 :: int" "[Enq 5, Enq 6, Deq, Drain]"]
  by (simp add: k_padding_def k_cache_line_size_def)

text \<open>
  C2. One producer and one consumer, interleaved at every access to shared memory: what the consumer
  has received is a prefix of what the producer has sent, and neither thread is about to write
  outside the storage, destroy or copy a slot that holds no object.
\<close>

theorem ring_threads_safe:
  fixes r :: "'a spsc_ring"
  assumes "spsc_ring_new sizeof_T (2 ^ k) = Inr r" and "1 \<le> k" and "0 < sizeof_T"
    and "sizeof_T * (2 ^ k + 2 * k_padding sizeof_T) < 18446744073709551616"
    and "threads_reach dflt r s"
  shows "(\<exists>rest. sent s = received s @ rest \<and> length rest \<le> 2 ^ k - 1) \<and> \<not> threads_fault dflt s"
proof -
  have r: "ring_inv r" "items r = []" "unat (ring_capacity r) = 2 ^ k - 1"
    using spsc_ring_new_pow2 [OF assms(2-4), where 'a = 'a] assms(1) by auto
  then have inv: "threads_inv s" using threads_reach_inv [OF assms(5)] by blast
  have "ring_capacity (ring s) = ring_capacity r" using threads_reach_capacity [OF assms(5)] .
  then show ?thesis
    using threads_inv_prefix [OF inv] threads_inv_no_fault [OF inv, of dflt] r(3) by auto
qed

theorem ring_threads_safe_witness:
  "\<exists>r. spsc_ring_new 8 8 = Inr r \<and> threads_reach (0 :: int) r (threads_init r) \<and>
    (\<exists>rest. sent (threads_init r) = received (threads_init r) @ rest \<and> length rest \<le> 7) \<and>
    \<not> threads_fault 0 (threads_init r)"
proof -
  obtain r :: "int spsc_ring" where r: "spsc_ring_new 8 8 = Inr r"
    by (auto simp: spsc_ring_new_def Let_def k_padding_def k_cache_line_size_def)
  have reach: "threads_reach 0 r (threads_init r)" by (rule reach_init)
  have "(\<exists>rest. sent (threads_init r) = received (threads_init r) @ rest \<and> length rest \<le> 2 ^ 3 - 1) \<and>
      \<not> threads_fault 0 (threads_init r)"
    using r reach by (intro ring_threads_safe [of 8 3 r]) (simp_all add: k_padding_def k_cache_line_size_def)
  then show ?thesis using r reach by simp
qed

text \<open>
  C3. Lazy tasks: awaiting a task that awaits further tasks and waits for events behaves like calling
  its body. Every run, from wherever it has got to, ends with control at the awaiting coroutine, which
  gets the value or exception of the plain evaluation, and only the frame of the task itself is left.
\<close>

theorem task_runs_like_call:
  assumes "eval_body b es = Some (r, es')" and "h \<noteq> 0" and "w \<noteq> 0" and "w \<noteq> h"
  shows "\<exists>m'. current m' = w \<and> dom (frames m') = {h} \<and> task_await_resume (frames m') h = Inr r \<and>
    (\<forall>c. run_step\<^sup>*\<^sup>* (awaited_task h w b, es) c \<longrightarrow> run_step\<^sup>*\<^sup>* c (m', es'))"
  by (rule awaited_task_runs [OF assms])

theorem task_runs_like_call_witness:
  "\<exists>m'. current m' = 9 \<and> task_await_resume (frames m') 1 = Inr (Inr (15 :: nat)) \<and>
    run_step\<^sup>*\<^sup>* (awaited_task 1 9 (Co_await (Co_wait Co_return)
      (\<lambda>r. case r of Inl e \<Rightarrow> Co_throw e | Inr v \<Rightarrow> Co_await (Co_throw Eof_error)
        (\<lambda>r'. case r' of Inl e \<Rightarrow> Co_return (v + 5) | Inr u \<Rightarrow> Co_return u))), [10, 20]) (m', [20])"
proof -
  let ?b = "Co_await (Co_wait Co_return)
      (\<lambda>r. case r of Inl e \<Rightarrow> Co_throw e | Inr v \<Rightarrow> Co_await (Co_throw Eof_error)
        (\<lambda>r'. case r' of Inl e \<Rightarrow> Co_return (v + 5) | Inr u \<Rightarrow> Co_return u)) :: nat body"
  have "eval_body ?b [10, 20] = Some (Inr 15, [20])" by simp
  from task_runs_like_call [OF this, of 1 9] show ?thesis by auto
qed

text \<open>
  C4. \<open>when_all\<close> over operations that end with \<open>rs\<close>, some while they are started (\<open>at_once\<close>), the others
  later in any order: the awaiting coroutine \<open>h\<close> is suspended only when some are pending, is resumed
  exactly once, by the last of them, and gets the values in the order of the operations, or the
  exception of the first operation that failed.
\<close>

theorem when_all_results_in_order:
  assumes "length rs < 18446744073709551615"
    and "set others = {i. i < length rs \<and> \<not> at_once i}" and "distinct others"
  shows "\<exists>w1 w2. wr_try_await (sync_results at_once rs) h (when_all_ready (length rs)) = Inr ([], others \<noteq> [], w1) \<and>
    complete_all (late_results others rs) w1 = Inr (if others = [] then [] else [h], w2) \<and>
    when_all_await_resume w2 = Inr (case List.find (\<lambda>r. \<exists>e. r = Inl e) rs of
      Some (Inl e) \<Rightarrow> Inl e | _ \<Rightarrow> Inr (map projr rs))"
proof -
  obtain w1 w2 where w: "wr_try_await (sync_results at_once rs) h (when_all_ready (length rs)) = Inr ([], others \<noteq> [], w1)"
    "complete_all (late_results others rs) w1 = Inr (if others = [] then [] else [h], w2)"
    and ts: "length (wr_tasks w2) = length rs" "\<forall>i < length rs. wa_promise_result (wr_tasks w2 ! i) = Inr (rs ! i)"
    using when_all_completes [OF assms, of h] by (elim exE conjE) (rule that)
  have "when_all_await_resume w2 = Inr (case List.find (\<lambda>r. \<exists>e. r = Inl e) rs of
      Some (Inl e) \<Rightarrow> Inl e | _ \<Rightarrow> Inr (map projr rs))"
    by (simp only: when_all_await_resume_def fmap_await_resume_def sum.case collect_results_all [OF ts])
  with w show ?thesis by (intro exI conjI)
qed

theorem when_all_results_in_order_witness:
  "\<exists>w1 w2. wr_try_await (sync_results (\<lambda>i. i = 1) [Inr 5, Inr 6, Inr (7 :: nat)]) 4 (when_all_ready 3) = Inr ([], True, w1) \<and>
    complete_all (late_results [2, 0] [Inr 5, Inr 6, Inr 7]) w1 = Inr ([4], w2) \<and>
    when_all_await_resume w2 = Inr (Inr [5, 6, 7])"
proof -
  have "set [2, 0 :: nat] = {i. i < length [Inr 5, Inr 6, Inr (7 :: nat) :: nat res] \<and> \<not> i = 1}" by auto
  from when_all_results_in_order [OF _ this, of 4] show ?thesis by (simp add: numeral_3_eq_3)
qed

text \<open>
  C5. An insertion into a well-formed skip list, whatever level is drawn and whichever unused block the
  allocator returns, leaves a well-formed list with the new entry before those of the same key.
\<close>

theorem skiplist_insert_sorted:
  assumes "map_rep maxKey s es" and "map_fresh (place, draws) s" and "k \<le> maxKey"
  shows "\<exists>s'. map_insert (place, draws) k v s = Some (Inr s') \<and> map_rep maxKey s' (ins_entry k v es) \<and>
    sorted (map fst (ins_entry k v es)) \<and> map_size s' = of_nat (Suc (length es))"
proof -
  obtain s' where s': "map_insert (place, draws) k v s = Some (Inr s')" "map_rep maxKey s' (ins_entry k v es)"
    using map_insert_rep [OF assms] by blast
  then show ?thesis using map_rep_sorted [OF s'(2)] map_size_rep [OF s'(2)] by (simp add: length_ins_entry)
qed

theorem skiplist_insert_sorted_witness:
  "\<exists>s s'. map_rep (100 :: int) s [] \<and> map_fresh (3, \<lambda>_. False) s \<and>
    map_insert (3, \<lambda>_. False) 5 ''x'' s = Some (Inr s') \<and> map_rep 100 s' [(5, ''x'')]"
proof -
  let ?s = "skiplist_new 0 100 '''' 1 2 :: (int, string) skiplist"
  have s: "map_rep 100 ?s []" by (rule map_new_rep) simp_all
  have f: "map_fresh (3, \<lambda>_. False) ?s" by (simp add: map_fresh_def skiplist_new_def)
  show ?thesis using skiplist_insert_sorted [OF s f, of 5 "''x''"] s f by (auto simp: ins_entry_def)
qed

text \<open>
  C6. A round of the HTTP server: when a well-formed request arrives as a whole and names a file that can be
  opened, the bytes sent are the header of the response followed by the contents of the file, in
  whatever pieces they are read and taken; the buffer is empty, every block of the pool is free again,
  and the result says whether the client asked to close.
\<close>

theorem http_request_served:
  assumes "send_ok log (sc_send_some (sv_conn sv))" and "send_progress (sc_send_some (sv_conn sv))"
    and "recv_ok incoming (sc_recv_some (sv_conn sv))"
    and "method_of meth \<noteq> kInvalid" and "CHR '' '' \<notin> set target" and "CHR 0x0D \<notin> set target"
    and "digit \<in> {CHR ''0'', CHR ''1''}" and "\<forall>kv \<in> set hs. header_ok kv"
    and recv: "\<And>space. 128 \<le> space \<Longrightarrow> sc_recv_some (sv_conn sv) space w =
      (int (length (request_text meth target digit hs)), request_text meth target digit hs, w0)"
    and "file_readable log sv fd N n content" and "n \<le> 65535" and "pool_ready (sv_gid sv) N n m"
    and "target_path target \<noteq> ''public/bench''" and "length (c_str (target_path target)) < 1024"
    and "aw_openat (sv_os sv) AT_FDCWD (c_str (target_path target)) 0 0 w0 = (fd, w1)" and "0 \<le> fd" and "log w1 = log w0"
    and "aw_statx (sv_os sv) fd [] AT_EMPTY_PATH STATX_BASIC_STATS w1 = (ret, detail, w2)" and "0 \<le> ret"
    and "log w2 = log w0" and "\<not> S_ISDIR (stx_mode detail)"
    and "sint (stx_size detail) = int (length content)" and "content \<noteq> []"
    and "file_response detail (target_path target) (setCloseConnection (asks_close digit hs) (http_response_new False)) =
      Inr (int (length content), rs)" and "length (response_text rs) \<le> vector_max_size"
  shows "\<exists>b' m' w'. http_round sv http_context_new (flex_buffer BUFFER_BLOCK_SIZE) m w =
      Some (Inr (asks_close digit hs, http_context_new, b', m', w')) \<and>
    buf_bytes b' = [] \<and> pool_ready (sv_gid sv) N n m' \<and> log w' = log w0 @ response_text rs @ content"
proof -
  obtain m' w' where s: "send_file sv (setCloseConnection (asks_close digit hs) (http_response_new False))
      (target_path target) m w0 = Some (Inr (m', w'))" "pool_ready (sv_gid sv) N n m'"
      "log w' = log w0 @ response_text rs @ content"
    using send_file_sends [OF assms(1,2) assms(10-25)] by blast
  obtain b' where "http_round sv http_context_new (flex_buffer BUFFER_BLOCK_SIZE) m w =
      Some (Inr (asks_close digit hs, http_context_new, b', m', w'))" "buf_bytes b' = []"
    using http_round_serves [OF assms(3-8) recv s(1)] by blast
  then show ?thesis using s(2,3) by blast
qed

theorem http_request_served_witness:
  "\<exists>m rs b' m' w'. http_round (mem_server ''hi'') http_context_new (flex_buffer BUFFER_BLOCK_SIZE) m
      (request_text ''GET'' ''/a.txt'' (CHR ''1'') [], []) =
      Some (Inr (False, http_context_new, b', m', w')) \<and> snd w' = response_text rs @ ''hi''"
proof -
  let ?sv = "mem_server ''hi''" and ?req = "request_text ''GET'' ''/a.txt'' (CHR ''1'') []"
  let ?d = "\<lparr>stx_mode = 33188, stx_size = 2\<rparr>"
  let ?rs = "setCloseConnection False (http_response_new False)"
  define blk where "blk = selected_buffer_new 0 (replicate 4 (CHR 0x00)) 4 7 0"
  define m :: buffer_pool where "m = [7 \<mapsto> \<lparr>bg_group_id = 7, bg_start_buf_id = 0, bg_nbytes_per_block = 4, bg_blocks = [blk]\<rparr>]"
  have path: "target_path ''/a.txt'' = ''public/a.txt''" by (simp add: target_path_def)
  have req: "method_of ''GET'' \<noteq> kInvalid" "CHR '' '' \<notin> set ''/a.txt''" "CHR 0x0D \<notin> set ''/a.txt''"
    "CHR ''1'' \<in> {CHR ''0'', CHR ''1''}" "\<forall>kv \<in> set ([] :: (string \<times> string) list). header_ok kv"
    by (simp_all add: method_of_def setMethod_def)
  have len: "length ?req = 23" by (simp add: request_text_def crlf_text_def)
  have recv: "sc_recv_some (sv_conn ?sv) space (?req, []) = (int (length ?req), ?req, ([], []))" if "128 \<le> space" for space
  proof -
    have "min 1000 (unat space) \<ge> length ?req" using that len by (simp add: word_le_nat_alt)
    then have "take (min 1000 (unat space)) ?req = ?req" by (rule take_all)
    then show ?thesis by (simp add: mem_server_def mem_connection_def mem_recv_def Let_def)
  qed
  have ready: "pool_ready (sv_gid ?sv) 1 4 m"
    by (simp add: pool_ready_def mem_server_def m_def blk_def block_free_def selected_buffer_new_def fixed_buffer_def
        buffer_base_new_def buf_inv_def vector_max_size_def)
  have fl: "file_readable snd ?sv 3 1 4 ''hi''" by (rule mem_server_file) simp_all
  have p: "target_path ''/a.txt'' \<noteq> ''public/bench''" "length (c_str (target_path ''/a.txt'')) < 1024"
    by (simp_all add: path c_str_def)
  have sys: "aw_openat (sv_os ?sv) AT_FDCWD (c_str (target_path ''/a.txt'')) 0 0 ([], []) = (3, ([], []))"
    "aw_statx (sv_os ?sv) 3 [] AT_EMPTY_PATH STATX_BASIC_STATS ([], []) = (0, ?d, ([], []))"
    by (simp_all add: mem_server_def mem_os_def)
  have d: "\<not> S_ISDIR (stx_mode ?d)" "sint (stx_size ?d) = int (length ''hi'')" "''hi'' \<noteq> []"
    by (simp_all add: S_ISDIR_def)
  have close: "asks_close (CHR ''1'') [] = False" by (simp add: asks_close_def)
  obtain rs where rs: "file_response ?d (target_path ''/a.txt'') ?rs = Inr (int (length ''hi''), rs)"
    using file_response_ok [OF d p(2)] by blast
  have small: "length (response_text rs) \<le> vector_max_size"
    using rs unfolding path
    by (auto simp: file_response_def S_ISDIR_def setContentTypeByPath_def c_str_def get_filename_ext_def strtolower_def
        tolower_def content_types_def setContentType_def setContentLength_def rs_addHeader_def setStatusCode_def
        setStatusMessage_def setCloseConnection_def http_response_new_def response_text_def crlf_text_def
        vector_max_size_def itoad_octet [of 2, simplified] itoad_octet [of 200, simplified])
  have n: "(4 :: nat) \<le> 65535" by simp
  have rs': "file_response ?d (target_path ''/a.txt'') (setCloseConnection (asks_close (CHR ''1'') []) (http_response_new False)) =
      Inr (int (length ''hi''), rs)"
    unfolding close by (rule rs)
  have z: "(0 :: int) \<le> 3" "(0 :: int) \<le> 0" by simp_all
  have "\<exists>b' m' w'. http_round ?sv http_context_new (flex_buffer BUFFER_BLOCK_SIZE) m (?req, []) =
      Some (Inr (asks_close (CHR ''1'') [], http_context_new, b', m', w')) \<and>
    buf_bytes b' = [] \<and> pool_ready (sv_gid ?sv) 1 4 m' \<and> snd w' = snd ([] :: string, [] :: string) @ response_text rs @ ''hi''"
    by (rule http_request_served [where incoming = fst and fd = 3 and ret = 0 and detail = ?d
          and ?w1.0 = "([], [])" and ?w2.0 = "([], [])",
        OF mem_server_ok req recv fl n ready p sys(1) z(1) refl sys(2) z(2) refl d rs' small])
  then show ?thesis unfolding close by (elim exE conjE) (intro exI conjI, assumption, simp)
qed

text \<open>
  C7. The logger from construction to stop, with any number of threads that log while the back end waits: the loop
  of the back end returns; the standard output holds the banner and the lines of the calls that the level
  lets through, those of each thread in the order of the calls; a line has the full date and time of its call,
  although the time buffer is only rewritten in part, and the text of its arguments at the call; and
  everything has been flushed. A thread logs at most 8191 messages between two rounds, what its ring holds, and no
  argument is an array of characters that is not a literal (\<open>call_ok\<close>): of such an array the pointer is kept.
\<close>

theorem logger_writes_every_message:
  assumes "log_time_ok now" and "\<forall>(m, c) \<in> set (concat (map snd rounds)). call_ok c"
    and "\<forall>r \<in> set rounds. \<forall>t. length (calls_by t (snd r)) \<le> 8191"
  shows "\<exists>w w' a lines. async_logger_new now moved name (set_log_level l log_world_init) = Inr w \<and>
    logging_loop vformat mf (map (\<lambda>(m, calls). (m, acts_of calls)) rounds @ [(ml, [Log_stop])]) w = Some (Inr w') \<and>
    lw_logger w' = Some a \<and> lf_stdout (al_output_file a) = log_file_banner moved @ concat (map snd lines) \<and>
    (\<forall>t. of_thread t lines = of_thread t (emitted vformat l (concat (map snd rounds)))) \<and>
    lf_flushed (al_output_file a) = length (lf_stdout (al_output_file a)) \<and> al_writing_buffer a = []"
proof -
  obtain w where w: "async_logger_new now moved name (set_log_level l log_world_init) = Inr w"
      "accounts (log_file_banner moved) w []" "LOG_LEVEL w = l" "\<not> stopping w"
    using accounts_new [OF assms(1)] by blast
  obtain w' where w': "logging_loop vformat mf (map (\<lambda>(m, calls). (m, acts_of calls)) rounds @ [(ml, [Log_stop])]) w = Some (Inr w')"
      "accounts (log_file_banner moved) w' (emitted vformat l (concat (map snd rounds)))" "logger_drained w'"
    using accounts_loop [OF w(2) assms(2,3) w(4), of vformat mf ml] w(3) by auto
  then obtain a ds where "lw_logger w' = Some a" "written a = log_file_banner moved @ concat (map snd ds)"
      "\<forall>t. of_thread t ds = of_thread t (emitted vformat l (concat (map snd rounds)))"
    unfolding accounts_def logger_inv_def logger_drained_def by auto
  then show ?thesis using w(1) w'(1,3) by (auto simp: logger_drained_def written_def)
qed

theorem logger_writes_every_message_witness:
  "\<exists>w w' a. async_logger_new 0 [] ''x'' (set_log_level INFO log_world_init) = Inr w \<and>
    logging_loop (\<lambda>f as. f) no_memory
      [(no_memory, acts_of [(no_memory, \<lparr>lc_thread = 42, lc_level = WARN, lc_file = ''a/b.cpp'', lc_line = 7,
         lc_fmt = ''hi'', lc_args = [Value 1], lc_now = 1000000000\<rparr>)]), (no_memory, [Log_stop])] w = Some (Inr w') \<and>
    lw_logger w' = Some a \<and> lf_flushed (al_output_file a) = length (lf_stdout (al_output_file a))"
proof -
  let ?c = "\<lparr>lc_thread = 42, lc_level = WARN, lc_file = ''a/b.cpp'', lc_line = 7, lc_fmt = ''hi'', lc_args = [Value 1],
    lc_now = 1000000000\<rparr>"
  let ?rounds = "[(no_memory, [(no_memory, ?c)])]"
  have t: "log_time_ok 0" and c: "\<forall>(m, c) \<in> set (concat (map snd ?rounds)). call_ok c"
    and n: "\<forall>r \<in> set ?rounds. \<forall>t. length (calls_by t (snd r)) \<le> 8191"
    by (simp_all add: log_time_ok_def in_long_def LONG_MIN_def LONG_MAX_def call_ok_def calls_by_def)
  from logger_writes_every_message [OF t c n, of "[]" "''x''" INFO "\<lambda>f as. f" no_memory no_memory]
  show ?thesis by auto
qed

text \<open>
  C8. The logger with other threads acting between any two steps of its back end, for any number of messages. With at
  most four threads no step of the back end has a fault; with more, the one fault is to go on with a sweep of the vector
  of rings after it has been moved, and the first message of a fifth thread during a sweep leads to it. In every state
  that is reached, what has been written is the banner and lines of calls that were made, those of each
  thread the first of its calls, in their order, each once; and once the back end has ended everything is
  flushed and no message that was logged before the stop request is missing.
\<close>

theorem logger_threads_safe:
  assumes "log_time_ok now" and "async_logger_new now moved name (set_log_level l log_world_init) = Inr w"
    and "(log_step vformat)\<^sup>*\<^sup>* (log_system_init w) s"
  shows "\<exists>a lines. lw_logger (ls_world s) = Some a \<and>
      (length (al_log_rings a) \<le> 4 \<longrightarrow> (\<exists>s'. back_step m s = Inr s')) \<and>
      (\<forall>e. back_step m s = Inl e \<longrightarrow> e = Undefined_object \<and> sweeps_moved s) \<and>
      (\<forall>t fin i n nothing. length (al_log_rings a) = 4 \<longrightarrow> ls_pc s = Poll_sweep fin i n nothing \<longrightarrow> i < n \<longrightarrow>
        lw_local_ring (ls_world s) t = None \<longrightarrow>
        (\<exists>s'. front_step vformat s s' \<and> back_step m s' = Inl Undefined_object)) \<and>
      lf_stdout (al_output_file a) @ al_writing_buffer a = log_file_banner moved @ concat (map snd lines) \<and>
      (\<forall>t. prefix (of_thread t lines) (of_thread t (ls_calls s))) \<and>
      (ls_pc s = Back_ended \<longrightarrow> al_writing_buffer a = [] \<and>
        lf_flushed (al_output_file a) = length (lf_stdout (al_output_file a)) \<and>
        (\<exists>k. ls_stop_at s = Some k \<and> (\<forall>t. prefix (of_thread t (take k (ls_calls s))) (of_thread t lines))))"
proof -
  have inv: "sys_inv (log_file_banner moved) s" by (rule log_reach_inv [OF assms])
  obtain a ds bl where b: "books a ds bl (log_file_banner moved) s" using inv by (auto simp: sys_inv_def)
  note lg = books_logger [OF b]
  have "\<exists>s'. back_step m s = Inr s'" if "length (al_log_rings a) \<le> 4"
    using back_step_inv [OF inv] b that by (fastforce simp: books_def vector_ok_def sweeps_moved_def)
  moreover have "e = Undefined_object \<and> sweeps_moved s" if "back_step m s = Inl e" for e
    using back_step_inv [OF inv, of m] sweeps_moved_fault [OF inv, of m] that by auto
  moreover have "\<exists>s'. front_step vformat s s' \<and> back_step m s' = Inl Undefined_object"
    if "length (al_log_rings a) = 4" "ls_pc s = Poll_sweep fin i n nothing" "i < n" "lw_local_ring (ls_world s) t = None"
    for t fin i n nothing using fifth_ring_faults [OF b that(2,3,1,4)] .
  ultimately show ?thesis using log_threads_books [OF inv] lg by auto
qed

theorem logger_threads_safe_witness:
  "\<exists>w s s' s''. async_logger_new 0 [] ''x'' (set_log_level INFO log_world_init) = Inr w \<and>
    (log_step (\<lambda>f as. f))\<^sup>*\<^sup>* (log_system_init w) s \<and> ls_pc s = Poll_sweep False 0 4 True \<and>
    back_step no_memory s = Inr s' \<and>
    front_step (\<lambda>f as. f) s s'' \<and> back_step no_memory s'' = Inl Undefined_object \<and>
    (\<exists>a (lines :: (int \<times> string) list). lw_logger (ls_world s) = Some a \<and>
      lf_stdout (al_output_file a) @ al_writing_buffer a = log_file_banner [] @ concat (map snd lines))"
proof -
  have t: "log_time_ok 0" by (simp add: log_time_ok_def in_long_def LONG_MIN_def LONG_MAX_def)
  obtain w where w: "async_logger_new 0 [] ''x'' (set_log_level INFO log_world_init) = Inr w"
    using accounts_new [OF t, of "[]" "''x''" INFO] by blast
  obtain s a where s: "(log_step (\<lambda>f as. f))\<^sup>*\<^sup>* (log_system_init w) s" "lw_logger (ls_world s) = Some a"
    "length (al_log_rings a) = 4" "ls_pc s = Poll_sweep False 0 4 True" "lw_local_ring (ls_world s) 4 = None"
    using four_rings_swept [OF t w] by blast
  obtain lines :: "(int \<times> string) list" where safe: "\<exists>s'. back_step no_memory s = Inr s'"
    "\<exists>s'. front_step (\<lambda>f as. f) s s' \<and> back_step no_memory s' = Inl Undefined_object"
    "lf_stdout (al_output_file a) @ al_writing_buffer a = log_file_banner [] @ concat (map snd lines)"
    using logger_threads_safe [OF t w s(1), of no_memory] s(2-5) by force
  then show ?thesis using w s(1,2,4) by blast
qed

text \<open>
  C9. After a stop request the back end ends, whatever the other threads do, in every run in which it keeps being
  scheduled: messages that keep arriving cannot hold it in \<open>poll\<close>.
\<close>

theorem logger_stop_ends:
  assumes "log_time_ok now" and "async_logger_new now moved name (set_log_level l log_world_init) = Inr w"
    and "(log_step vformat)\<^sup>*\<^sup>* (log_system_init w) (f 0)" and "ls_stop_at (f 0) \<noteq> None"
    and "\<forall>i. f (Suc i) = f i \<or> log_step vformat (f i) (f (Suc i))"
    and "\<forall>i. \<exists>j \<ge> i. \<exists>m. back_step m (f j) = Inr (f (Suc j))"
  shows "\<exists>i. ls_pc (f i) = Back_ended"
  by (rule fair_run_ends [OF log_reach_inv [OF assms(1-3)] assms(4-6)])

theorem logger_stop_ends_witness:
  "\<exists>w w' i. async_logger_new 0 [] ''x'' (set_log_level INFO log_world_init) = Inr w \<and>
    on_logger stop_request w = Some (Inr w') \<and>
    ls_pc (((\<lambda>s. projr (back_step no_memory s)) ^^ i) ((log_system_init w)\<lparr>ls_world := w', ls_stop_at := Some 0\<rparr>)) = Back_ended"
proof -
  have t: "log_time_ok 0" by (simp add: log_time_ok_def in_long_def LONG_MIN_def LONG_MAX_def)
  obtain w a where w: "async_logger_new 0 [] ''x'' (set_log_level INFO log_world_init) = Inr w" "lw_logger w = Some a"
    using accounts_new [OF t, of "[]" "''x''" INFO] by (auto simp: accounts_def logger_inv_def)
  define w' where "w' = w\<lparr>lw_logger := Some (stop_request a)\<rparr>"
  have stop: "on_logger stop_request w = Some (Inr w')" using w(2) by (simp add: on_logger_def w'_def)
  define s where "s = (log_system_init w)\<lparr>ls_world := w', ls_stop_at := Some 0\<rparr>"
  define f where "f i = ((\<lambda>s. projr (back_step no_memory s)) ^^ i) s" for i
  have "log_step (\<lambda>f as. f) (log_system_init w) s"
    using front_moves [OF asks_to_stop, of "log_system_init w" w'] stop by (simp add: s_def log_system_init_def stop_mark_def)
  then have reach: "(log_step (\<lambda>f as. f))\<^sup>*\<^sup>* (log_system_init w) (f 0)" by (simp add: f_def)
  have "sys_inv (log_file_banner []) (f i) \<and> \<not> ls_moved (f i)" for i
  proof (induction i)
    case 0
    show ?case using log_reach_inv [OF t w(1) reach] by (simp add: f_def s_def log_system_init_def)
  next
    case (Suc i)
    then obtain s' where "back_step no_memory (f i) = Inr s'" "sys_inv (log_file_banner []) s'"
      using back_step_inv [of "log_file_banner []" "f i" no_memory] by (auto simp: sweeps_moved_def)
    then show ?case using Suc back_step_not_moved by (auto simp: f_def)
  qed
  then have b: "back_step no_memory (f i) = Inr (f (Suc i))" for i
    using back_step_inv [of "log_file_banner []" "f i" no_memory] by (auto simp: f_def sweeps_moved_def)
  have "f (Suc i) = f i" if "ls_pc (f i) = Back_ended" for i
    using that b [of i] by (auto simp: back_step_def split: option.splits)
  then have "\<forall>i. f (Suc i) = f i \<or> log_step (\<lambda>f as. f) (f i) (f (Suc i))" using back_moves b by metis
  moreover have "\<forall>i. \<exists>j \<ge> i. \<exists>m. back_step m (f j) = Inr (f (Suc j))" using b by blast
  ultimately have "\<exists>i. ls_pc (f i) = Back_ended"
    by (intro logger_stop_ends [where f = f, OF t w(1) reach]) (simp_all add: f_def s_def)
  then show ?thesis using w(1) stop by (auto simp: f_def s_def)
qed



text \<open>
  C11. On a well-formed skip list \<open>pop_less_eq\<close> returns, in order, the values of exactly the entries whose
  key is at most \<open>k\<close>, and leaves a well-formed list with the others.
\<close>

theorem skiplist_pop_exactly_due:
  assumes "map_rep maxKey s es" and "k < maxKey"
  shows "\<exists>s'. pop_less_eq k s = Some (Inr (map snd (filter (\<lambda>e. fst e \<le> k) es), s')) \<and>
    map_rep maxKey s' (filter (\<lambda>e. k < fst e) es)"
  using assms by (rule skiplist.pop_exactly_due)

theorem skiplist_pop_exactly_due_witness:
  "\<exists>s. map_rep (100 :: int) s [(5, ''a''), (7, ''b''), (9, ''c'')] \<and>
    (\<exists>s'. pop_less_eq 7 s = Some (Inr ([''a'', ''b''], s')) \<and> map_rep 100 s' [(9, ''c'')])"
proof -
  obtain s where s: "map_rep (100 :: int) s [(5, ''a''), (7, ''b''), (9, ''c'')]"
    using map_rep_exists [of "[(5, ''a''), (7, ''b''), (9, ''c'')]" "100 :: int"] by auto
  then show ?thesis using skiplist_pop_exactly_due [OF s, of 7] by auto
qed

text \<open>
  C12. \<open>handle_events\<close> with coroutines that may add events: it makes two passes, \<open>run_due\<close>, each of which takes out the
  events that are due and resumes them in the order of their wake-up times, and it returns how many
  there were in the first pass. With coroutines that only record that they ran, exactly those due run,
  each once and in order, and the others stay pending. The events are counted in an \<open>int\<close>.
\<close>

theorem timer_handle_events_runs_due:
  assumes "timer_env I resume eff" and "I w t" and "timer_rep t es" and "length es < 18446744073709551616"
    and "now < LONG_MAX" and "length (filter (is_due now) es) \<le> 2147483647"
  shows "(\<exists>w' t' es'. handle_events now resume (w, t) = Some (Inr (int (length (filter (is_due now) es)), w', t')) \<and>
      timer_rep t' es' \<and>
      (if es = [] then (w', es') = (w, es) else run_due eff now (run_due eff now (w, es)) = (w', es'))) \<and>
    (\<exists>t'. handle_events now (\<lambda>h (rs, t). Some (Inr (rs @ [h], t))) (rs, t) =
        Some (Inr (int (length (filter (is_due now) es)), rs @ map snd (filter (is_due now) es), t')) \<and>
      timer_rep t' (filter (\<lambda>e. \<not> is_due now e) es))"
  using handle_events_runs [OF assms] handle_events_passive [OF assms(3-6)] by blast

theorem timer_handle_events_runs_due_witness:
  "\<exists>place t place' t' t''. timer_rep t [(10, 1), (20, 2), (30, 3)] \<and>
    handle_events 20 (rearm (\<lambda>_. False) (\<lambda>h. if h = 1 then 15 else 40)) (place, t) = Some (Inr (2, place', t')) \<and>
    timer_rep t' [(15, 1), (30, 3), (40, 2)] \<and>
    handle_events 20 (\<lambda>h (rs, t). Some (Inr (rs @ [h], t))) ([], t) = Some (Inr (2, [1, 2], t'')) \<and>
    timer_rep t'' [(30, 3)]"
proof -
  let ?es = "[(10, 1), (20, 2), (30, 3)] :: (int \<times> handle) list"
    and ?nk = "\<lambda>h :: handle. if h = 1 then 15 else 40 :: int"
  have nk: "?nk v \<le> LONG_MAX" for v by (simp add: LONG_MAX_def)
  obtain n t ns where t: "bump LONG_MAX n t" "sl_inv t ns" "entries_of t ns = ?es"
    using bump_exists [of ?es LONG_MAX] by (auto simp: LONG_MAX_def)
  have rep: "timer_rep t ?es" using t by (auto simp: timer_rep_nodes bump_def)
  have env: "timer_env (bump LONG_MAX) (rearm (\<lambda>_. False) ?nk) (\<lambda>h (n, es). (Suc n, ins_entry (?nk h) h es))"
    unfolding timer_env_def
  proof (intro conjI allI impI)
    show "callback_ok (bump LONG_MAX) (rearm (\<lambda>_. False) ?nk) (\<lambda>h (n, es). (Suc n, ins_entry (?nk h) h es))"
      by (rule rearm_ok) (rule nk)
  qed (simp_all add: bump_stable bump_def)
  have "run_due (\<lambda>h (n, es). (Suc n, ins_entry (?nk h) h es)) 20
      (run_due (\<lambda>h (n, es). (Suc n, ins_entry (?nk h) h es)) 20 (n, ?es)) = (n + 3, [(15, 1), (30, 3), (40, 2)])"
    by (simp add: run_due_def is_due_def ins_entry_def)
  then show ?thesis
    using timer_handle_events_runs_due [OF env t(1) rep, of 20 "[]"] rep
    by - (rule exI [of _ n], rule exI [of _ t], auto simp: is_due_def LONG_MAX_def)
qed

text \<open>
  C13. \<open>handle_completions\<close>: the completions pending when it starts, and those posted while it runs, are
  each delivered once and in order, even when a resumed coroutine fills the submission queue and makes
  the context give completions back early; exactly the delivered ones are consumed.
\<close>

theorem handle_completions_once:
  assumes "liburing_ok L" and "clients_ok L n I resume" and "I c" and "cqe_count c = 0"
  shows "\<exists>es c1 c'. handle_completions L resume c = Some (Inr c') \<and> deliver L resume es c = Some (Inr c1) \<and>
    c' = uc_cq_advance L c1 \<and> cqe_count c' = 0 \<and> lib_cq_head L (uc_ring c') = cq_tail L c' \<and>
    lib_cq_head L (uc_ring c') = lib_cq_head L (uc_ring c) + length es \<and>
    take (cq_tail L c - cq_pos L c) es = map (lib_cqe L (uc_ring c)) [cq_pos L c..<cq_tail L c]"
  using handle_completions_delivers [OF assms] by blast

theorem handle_completions_once_witness:
  "\<exists>es c c'. handle_completions (mem_ring 1) (mem_client 1) (c :: (nat \<times> nat \<times> cqe list) io_uring_context) =
      Some (Inr c') \<and> lib_cq_head (mem_ring 1) (uc_ring c') = lib_cq_head (mem_ring 1) (uc_ring c) + length es \<and>
    cqe_count c' = 0 \<and> take 3 es =
      [\<lparr>cqe_user_data = 100, cqe_res = 5, cqe_flags = 0\<rparr>, \<lparr>cqe_user_data = 0, cqe_res = 0, cqe_flags = 0\<rparr>,
       \<lparr>cqe_user_data = 200, cqe_res = - 11, cqe_flags = 0\<rparr>]"
proof -
  let ?log = "[\<lparr>cqe_user_data = 100, cqe_res = 5, cqe_flags = 0\<rparr>, \<lparr>cqe_user_data = 0, cqe_res = 0, cqe_flags = 0\<rparr>,
    \<lparr>cqe_user_data = 200, cqe_res = - 11, cqe_flags = 0\<rparr>] :: cqe list"
  let ?tk = "\<lambda>h. \<lparr>tk_continuation = h, tk_result = 0, tk_flags = 0\<rparr>"
  let ?c = "\<lparr>uc_ring = (0, 0, ?log), uc_sqes = \<lambda>_. \<lparr>sqe_call = Prep_nop, sqe_flags = 0, sqe_user_data = 0,
      sqe_buf_group = 0, sqe_sync_range_flags = 0\<rparr>, cqe_count = 0,
    uc_tokens = [100 \<mapsto> ?tk 7, 200 \<mapsto> ?tk 8]\<rparr> :: (nat \<times> nat \<times> cqe list) io_uring_context"
  have inv: "mem_client_inv 1 ?log ?c"
    by (simp add: mem_client_inv_def detached_def cq_pos_def mem_ring_def)
  have z: "cqe_count ?c = 0" by simp
  have head: "cq_pos (mem_ring 1) ?c = 0" "cq_tail (mem_ring 1) ?c = 3"
    by (simp_all add: cq_pos_def cq_tail_def mem_ring_def)
  obtain es c' where "handle_completions (mem_ring 1) (mem_client 1) ?c = Some (Inr c')" "cqe_count c' = 0"
    "lib_cq_head (mem_ring 1) (uc_ring c') = lib_cq_head (mem_ring 1) (uc_ring ?c) + length es"
    "take 3 es = map (lib_cqe (mem_ring 1) (uc_ring ?c)) [0..<3]"
    using handle_completions_once [OF mem_ring_ok mem_clients_ok inv z] unfolding head by auto
  moreover have "map (lib_cqe (mem_ring 1) (uc_ring ?c)) [0..<3] = ?log"
    by (simp add: mem_ring_def upt_rec)
  ultimately show ?thesis by metis
qed

text \<open>
  C14. The loop of an \<open>io_context\<close>, after any rounds, when the read of its event descriptor has completed with a stop
  message: it returns after this round. All the pending completions are delivered, also those after the one that
  stops the loop, and the scheduled tasks are started, before it does.
\<close>

theorem event_loop_stops:
  assumes "liburing_ok L" and "room_after_submit L" and "keeps stopped user" and "keeps stopped work"
    and "clients_ok L n I (dispatch L E user)" and "stop_message L E I"
    and "tasks_ok W work" and "\<And>c. I c \<Longrightarrow> W ((uc_cq_advance L c)\<lparr>todo_list := []\<rparr>)"
    and "(loop_round L E user work)\<^sup>*\<^sup>* c0 c" and "\<not> stopped c" and "cqe_count c = 0"
    and "c1 = wait_for_completions L 1 c" and "I c1"
    and "cq_pos L c1 \<le> p" and "p < cq_tail L c1" and "cqe_user_data (lib_cqe L (uc_ring c1) p) = le_event_tk E"
  shows "\<exists>es c2 c'. deliver L (dispatch L E user) es c1 = Some (Inr c2) \<and>
    take (cq_tail L c1 - cq_pos L c1) es = map (lib_cqe L (uc_ring c1)) [cq_pos L c1..<cq_tail L c1] \<and>
    do_todo_list work (uc_cq_advance L c2) = Some (Inr c') \<and> stopped c' \<and>
    run_loop L E user work c0 = Some (Inr c')"
proof -
  obtain es c2 c' where s: "deliver L (dispatch L E user) es c1 = Some (Inr c2)"
      "take (cq_tail L c1 - cq_pos L c1) es = map (lib_cqe L (uc_ring c1)) [cq_pos L c1..<cq_tail L c1]"
      "do_todo_list work (uc_cq_advance L c2) = Some (Inr c')" "loop_round L E user work c c'" "stopped c'"
    using stop_round [OF assms(1-8) assms(10-16)] by blast
  have "(loop_round L E user work)\<^sup>*\<^sup>* c0 c'" using assms(9) s(4) by (rule rtranclp.rtrancl_into_rtrancl)
  from run_loop_rounds [OF this] show ?thesis using s run_loop_stops [OF s(5)] by auto
qed

theorem event_loop_stops_witness:
  "\<exists>c c'. \<not> stopped c \<and> run_loop (mem_ring 4) stop_env (\<lambda>h c. Some (Inr c)) short_task c = Some (Inr c') \<and>
    stopped (c' :: (nat \<times> nat \<times> cqe list) io_context)"
proof -
  let ?c = "\<lparr>uc_ring = (0, 0, stop_log), uc_sqes = \<lambda>_. \<lparr>sqe_call = Prep_nop, sqe_flags = 0, sqe_user_data = 0,
      sqe_buf_group = 0, sqe_sync_range_flags = 0\<rparr>, cqe_count = 0,
    uc_tokens = [11 \<mapsto> \<lparr>tk_continuation = 10, tk_result = 0, tk_flags = 0\<rparr>],
    internal_event_fd = 5, internal_signal_fd = - 1, stopped = False, todo_list = [7],
    my_scope = async_scope_new, ic_timer = timer_new 1 2, timer_event = ar_waiter 30, signal_func = None,
    signal_calls = [], timeout_tmp = \<lparr>tv_sec = 0, tv_nsec = 0\<rparr>\<rparr> :: (nat \<times> nat \<times> cqe list) io_context"
  let ?c1 = "wait_for_completions (mem_ring 4) 1 ?c"
  have k: "keeps stopped (\<lambda>h c. Some (Inr (c :: (nat \<times> nat \<times> cqe list) io_context)))"
    "keeps stopped (short_task :: (handle, (nat \<times> nat \<times> cqe list) io_context) resumption)"
    by (auto simp: keeps_def short_task_def ores_bind_Inr_iff)
  have W: "stop_inv c \<Longrightarrow> sc_count (my_scope ((uc_cq_advance (mem_ring 4) c)\<lparr>todo_list := []\<rparr>)) = 1" for c
    by (simp add: stop_inv_def uc_cq_advance_def)
  have I: "stop_inv ?c1" and p: "cq_pos (mem_ring 4) ?c1 \<le> 0" "0 < cq_tail (mem_ring 4) ?c1"
    "cqe_user_data (lib_cqe (mem_ring 4) (uc_ring ?c1) 0) = le_event_tk stop_env"
    by (simp_all add: stop_inv_def wait_for_completions_def mem_ring_def stop_log_def cq_pos_def cq_tail_def
        async_scope_new_def stop_env_def)
  have "\<exists>es c2 c'. deliver (mem_ring 4) (dispatch (mem_ring 4) stop_env (\<lambda>h c. Some (Inr c))) es ?c1 = Some (Inr c2) \<and>
    take (cq_tail (mem_ring 4) ?c1 - cq_pos (mem_ring 4) ?c1) es =
      map (lib_cqe (mem_ring 4) (uc_ring ?c1)) [cq_pos (mem_ring 4) ?c1..<cq_tail (mem_ring 4) ?c1] \<and>
    do_todo_list short_task (uc_cq_advance (mem_ring 4) c2) = Some (Inr c') \<and> stopped c' \<and>
    run_loop (mem_ring 4) stop_env (\<lambda>h c. Some (Inr c)) short_task ?c = Some (Inr c')"
    by (rule event_loop_stops [OF mem_ring_ok mem_ring_room k stop_env_clients stop_env_message short_tasks_ok W
          rtranclp.rtrancl_refl _ _ refl I p]) simp_all
  then obtain c' where "run_loop (mem_ring 4) stop_env (\<lambda>h c. Some (Inr c)) short_task ?c = Some (Inr c')" "stopped c'"
    by blast
  moreover have "\<not> stopped ?c" by simp
  ultimately show ?thesis by blast
qed



text \<open>
  C16. \<open>register_timeout\<close> while the timer's coroutine waits for its event: the new event is among the pending
  ones, due \<open>expr\<close> after the time \<open>now\<close> that was read when it was added, and the coroutine has been resumed and waits
  for a kernel timeout that expires when the earliest of them is due, counted from the time \<open>now'\<close> it reads
  itself, at once when that time is past.
\<close>

theorem register_timeout_arms_timer:
  assumes "liburing_ok L" and "room_after_submit L" and "\<not> stopped c" and "timer_rep (ic_timer c) es"
    and "timer_event c = ar_waiter (le_timeout E)" and "place \<noteq> 0" and "s_heap (ic_timer c) place = None"
    and "now' = le_now E (uc_ring c)" and "Suc (length es) < 18446744073709551616" and "in_long (now + expr)"
    and "\<forall>k \<in> insert (now + expr) (fst ` set es). in_long ((k - now') * 1000)"
  shows "\<exists>i c'. register_timeout (resume_timer L E user) place draws now cont expr c = Some (Inr c') \<and>
    sqe_call (uc_sqes c' i) = Prep_timeout (le_timeout_ts E) 0 0 \<and> sqe_user_data (uc_sqes c' i) = le_timeout_tk E \<and>
    map_option tk_continuation (uc_tokens c' (le_timeout_tk E)) = Some (le_timeout E) \<and>
    timer_rep (ic_timer c') (ins_entry (now + expr) cont es) \<and>
    tv_sec (timeout_tmp c') * 1000000000 + tv_nsec (timeout_tmp c') =
      max 0 (Min (insert (now + expr) (fst ` set es)) - now') * 1000"
  using register_timeout_arms [OF assms(1-7) assms(8-11), of user draws cont] by blast

theorem register_timeout_arms_timer_witness:
  "\<exists>E c c'. register_timeout (resume_timer (mem_ring 4) E (\<lambda>h c. None)) 3 (\<lambda>_. False) 90 7 2500000 c =
      Some (Inr (c' :: (nat \<times> nat \<times> cqe list) io_context)) \<and>
    tv_sec (timeout_tmp c') * 1000000000 + tv_nsec (timeout_tmp c') = 2499990000"
proof -
  let ?c = "\<lparr>uc_ring = (0, 0, []), uc_sqes = \<lambda>_. \<lparr>sqe_call = Prep_nop, sqe_flags = 0, sqe_user_data = 0,
      sqe_buf_group = 0, sqe_sync_range_flags = 0\<rparr>, cqe_count = 0, uc_tokens = Map.empty,
    internal_event_fd = 5, internal_signal_fd = - 1, stopped = False, todo_list = [],
    my_scope = async_scope_new, ic_timer = timer_new 1 2, timer_event = ar_waiter 30, signal_func = None,
    signal_calls = [], timeout_tmp = \<lparr>tv_sec = 0, tv_nsec = 0\<rparr>\<rparr> :: (nat \<times> nat \<times> cqe list) io_context"
  let ?E = "\<lparr>le_event = 10, le_event_tk = 11, le_event_msg = 12, le_signal = 20, le_signal_tk = 21,
    le_signal_info = 22, le_signal_func = None, le_timeout = 30, le_timeout_tk = 31, le_timeout_ts = 32, le_msg = \<lambda>_. 0,
    le_signo = \<lambda>_. 0, le_now = \<lambda>_. 100\<rparr> :: (nat \<times> nat \<times> cqe list) loop_env"
  have 1: "\<not> stopped ?c" "timer_event ?c = ar_waiter (le_timeout ?E)" "(3 :: nat) \<noteq> 0" "100 = le_now ?E (uc_ring ?c)"
    "Suc (length ([] :: (int \<times> handle) list)) < 18446744073709551616" by simp_all
  have 2: "timer_rep (ic_timer ?c) []" using timer_new_rep [of 1 2] by simp
  have 3: "s_heap (ic_timer ?c) 3 = None" by (simp add: timer_new_def skiplist_new_def)
  have 4: "in_long (90 + 2500000)"
    "\<forall>k \<in> insert (90 + 2500000) (fst ` set ([] :: (int \<times> handle) list)). in_long ((k - 100) * 1000)"
    by (simp_all add: in_long_def LONG_MIN_def LONG_MAX_def)
  obtain i c' where "register_timeout (resume_timer (mem_ring 4) ?E (\<lambda>h c. None)) 3 (\<lambda>_. False) 90 7 2500000 ?c = Some (Inr c')"
    "tv_sec (timeout_tmp c') * 1000000000 + tv_nsec (timeout_tmp c') =
      max 0 (Min (insert (90 + 2500000) (fst ` set ([] :: (int \<times> handle) list))) - 100) * 1000"
    using register_timeout_arms_timer [OF mem_ring_ok mem_ring_room 1(1) 2 1(2) 1(3) 3 1(4) 1(5) 4] by (metis zero_less_numeral)
  then show ?thesis by auto
qed

text \<open>
  C17. Every request function of the context, awaited by the coroutine \<open>h\<close> with its token at \<open>tk\<close>: one
  submission entry gets the call of that function, the flags and the token, no other entry changes,
  and the completion for that token stores the result and resumes \<open>h\<close>.
\<close>

theorem awaited_request_resumes:
  assumes "liburing_ok L" and "room_after_submit L" and "request_of L iflags call f"
    and "tk \<noteq> 0" and "tk \<noteq> lib_udata_timeout L"
  shows "\<exists>i c'. co_await_io f tk h c = Some (Inr (\<lparr>aw_sqe = i, aw_token_ptr = tk\<rparr>, c')) \<and>
    sqe_call (uc_sqes c' i) = call \<and> sqe_flags (uc_sqes c' i) = iflags \<and> sqe_user_data (uc_sqes c' i) = tk \<and>
    (\<forall>j. j \<noteq> i \<longrightarrow> uc_sqes c' j = uc_sqes c j) \<and>
    (\<forall>resume res fl. handle_cqe L resume \<lparr>cqe_user_data = tk, cqe_res = res, cqe_flags = fl\<rparr> c' =
      resume h (c'\<lparr>cqe_count := Suc (cqe_count c'),
        uc_tokens := (uc_tokens c)(tk \<mapsto> \<lparr>tk_continuation = h, tk_result = res, tk_flags = fl\<rparr>)\<rparr>))"
proof -
  obtain i c' where "co_await_io f tk h c = Some (Inr (\<lparr>aw_sqe = i, aw_token_ptr = tk\<rparr>, c'))"
    "\<forall>j. j \<noteq> i \<longrightarrow> uc_sqes c' j = uc_sqes c j" "sqe_call (uc_sqes c' i) = call"
    "sqe_flags (uc_sqes c' i) = iflags" "sqe_user_data (uc_sqes c' i) = tk"
    "uc_tokens c' = (uc_tokens c)(tk \<mapsto> \<lparr>tk_continuation = h, tk_result = 0, tk_flags = 0\<rparr>)"
    using co_await_io_ok [OF assms(1,2)] request_of_request [OF assms(3)] by blast
  then show ?thesis using assms(4,5) by (simp add: handle_cqe_def resolve_def)
qed

theorem awaited_request_resumes_witness:
  "\<exists>i c'. co_await_io (uring_recv (mem_ring 4) 3 64 128 0 0) 100 7
      \<lparr>uc_ring = (0, 0, []), uc_sqes = \<lambda>_. \<lparr>sqe_call = Prep_nop, sqe_flags = 0, sqe_user_data = 0,
        sqe_buf_group = 0, sqe_sync_range_flags = 0\<rparr>, cqe_count = 0, uc_tokens = Map.empty\<rparr> =
      Some (Inr (\<lparr>aw_sqe = i, aw_token_ptr = 100\<rparr>, c')) \<and> sqe_call (uc_sqes c' i) = Prep_recv 3 64 128 0"
proof -
  have r: "request_of (mem_ring 4) 0 (Prep_recv 3 64 128 0) (uring_recv (mem_ring 4) 3 64 128 0 0)"
    by (rule request_of.intros)
  have "(100 :: nat) \<noteq> 0" "(100 :: nat) \<noteq> lib_udata_timeout (mem_ring 4)" by (simp_all add: mem_ring_def)
  then show ?thesis using awaited_request_resumes [OF mem_ring_ok mem_ring_room r, of 100] by (simp del: One_nat_def) blast
qed

text \<open>
  C18. \<open>do_less_eq_then_pop\<close> with a callback that may insert into the list: the callback runs once for each
  entry that is due, in order, its effects composed; the list that remains is well formed and holds the
  entries that were not due as the callbacks changed them; and the nodes popped are freed: the nodes
  allocated that are not on the list are the same as before. The entries are counted in an \<open>int\<close>, so
  there are at most \<open>2 ^ 31 - 1\<close> of them.
\<close>

theorem skiplist_callback_inserts:
  fixes s :: "('k::linorder, 'v) skiplist"
  assumes "callback_ok I f eff" and "stable I" and "I w s" and "sl_inv s ns" and "k < key (s_heap s) (s_tail s)"
    and "length (takeWhile (\<lambda>e. fst e \<le> k) (entries_of s ns)) \<le> 2147483647"
  shows "\<exists>w' s' ns'. do_less_eq_then_pop k f (w, s) = Some (Inr (w', s')) \<and> I w' s' \<and> sl_inv s' ns' \<and>
    (w', entries_of s' ns') =
      fold eff (map snd (takeWhile (\<lambda>e. fst e \<le> k) (entries_of s ns)))
        (w, dropWhile (\<lambda>e. fst e \<le> k) (entries_of s ns)) \<and>
    dom (s_heap s') - set (s_head s' # ns' @ [s_tail s']) = dom (s_heap s) - set (s_head s # ns @ [s_tail s])"
  using do_less_eq_then_pop_folds [where I = "\<lambda>_. I" and f = f and eff = eff and w = w, OF _ assms(2,3,4,5,6)]
    assms(1) unfolding callback_ok_def spare_nodes_def by blast

theorem skiplist_callback_inserts_witness:
  "\<exists>place s ns place' s' ns'. sl_inv s ns \<and> entries_of s ns = [(5, 1), (9, 2)] \<and>
    do_less_eq_then_pop 7 (rearm (\<lambda>_. False) (\<lambda>v. 50)) (place, s) = Some (Inr (place', s')) \<and>
    sl_inv s' ns' \<and> entries_of s' ns' = [(9 :: nat, 2 :: nat), (50, 1)] \<and>
    dom (s_heap s') - set (s_head s' # ns' @ [s_tail s']) = dom (s_heap s) - set (s_head s # ns @ [s_tail s])"
proof -
  obtain n s ns where s: "bump (100 :: nat) n s" "sl_inv s ns" "entries_of s ns = [(5, 1), (9, 2 :: nat)]"
    using bump_exists [of "[(5, 1), (9, 2 :: nat)]" "100 :: nat"] by auto
  let ?eff = "\<lambda>v (n :: addr, es). (Suc n, ins_entry (50 :: nat) (v :: nat) es)"
  have tl: "7 < key (s_heap s) (s_tail s)" using s(1) by (simp add: bump_def)
  have cb: "callback_ok (bump 100) (rearm (\<lambda>_. False) (\<lambda>v :: nat. 50 :: nat)) ?eff"
    by (rule rearm_ok) simp
  have due: "takeWhile (\<lambda>e. fst e \<le> 7) (entries_of s ns) = [(5, 1)]" "dropWhile (\<lambda>e. fst e \<le> 7) (entries_of s ns) = [(9, 2)]"
    by (simp_all add: s(3))
  have few: "length (takeWhile (\<lambda>e. fst e \<le> 7) (entries_of s ns)) \<le> 2147483647" by (simp add: due)
  have eff: "fold ?eff (map snd [(5 :: nat, 1)]) (n, [(9, 2)]) = (Suc n, [(9, 2), (50, 1)])" by (simp add: ins_entry_def)
  from skiplist_callback_inserts [OF cb bump_stable s(1,2) tl few, unfolded due eff] s(2,3) show ?thesis by blast
qed

text \<open>
  C19. The invariant of the buffers: whatever operations are called on a buffer whose indices are in order, the
  result is such a buffer again, or the calls end in a failed assertion or an exception; never in an access
  outside the container. The strings pushed and the room asked of a \<open>flex_buffer\<close> are at most as long as the
  largest vector, \<open>op_ok\<close>; when the room asked for makes the new size wrap around, \<open>make_room\<close> returns with the index
  of the next byte outside the container.
\<close>

theorem buffer_memory_safe:
  assumes "buf_inv b" and "list_all (op_ok flex) ops"
  shows "(case buf_steps flex order ops b of
      Inr b' \<Rightarrow> b_index_read b' \<le> b_index_write b' \<and> unat (b_index_write b') \<le> length (b_container b') \<and>
        length (b_container b') \<le> vector_max_size
    | Inl e \<Rightarrow> e = Assert_failed \<or> (\<exists>s. e = Runtime_error s)) \<and>
    (18446744073709551616 \<le> length (buf_bytes b) + unat want \<longrightarrow>
      (\<exists>b'. flex_make_room want b = Inr b' \<and> length (b_container b') < unat (b_index_write b')))"
  using buf_steps_safe [OF assms, of order] flex_make_room_wraps [OF assms(1), of want]
  by (auto simp: step_safe_def buf_inv_def split: sum.splits)

theorem buffer_memory_safe_witness:
  "(case buf_steps True Little [Op_push_back ''ab'', Op_has_read 1, Op_receive ''cd'', Op_make_room 9] (flex_buffer 4) of
     Inr b' \<Rightarrow> b_index_read b' \<le> b_index_write b' \<and> unat (b_index_write b') \<le> length (b_container b') \<and>
       length (b_container b') \<le> vector_max_size
   | Inl e \<Rightarrow> e = Assert_failed \<or> (\<exists>s. e = Runtime_error s)) \<and>
   (\<exists>b'. flex_make_room 18446744073709551611 (has_written 10 (flex_buffer 16)) = Inr b' \<and>
     length (b_container b') < unat (b_index_write b'))"
proof
  have b: "buf_inv (flex_buffer 4)" "buf_inv (has_written 10 (flex_buffer 16))"
    "length (buf_bytes (has_written 10 (flex_buffer 16))) = 10"
    by (simp_all add: flex_buffer_def buffer_base_new_def buf_inv_def buf_bytes_def has_written_def vector_max_size_def)
  have ops: "list_all (op_ok True) [Op_push_back ''ab'', Op_has_read 1, Op_receive ''cd'', Op_make_room 9]"
    by (simp add: vector_max_size_def)
  show "case buf_steps True Little [Op_push_back ''ab'', Op_has_read 1, Op_receive ''cd'', Op_make_room 9] (flex_buffer 4) of
     Inr b' \<Rightarrow> b_index_read b' \<le> b_index_write b' \<and> unat (b_index_write b') \<le> length (b_container b') \<and>
       length (b_container b') \<le> vector_max_size
   | Inl e \<Rightarrow> e = Assert_failed \<or> (\<exists>s. e = Runtime_error s)"
    by (rule conjunct1 [OF buffer_memory_safe [OF b(1) ops]])
  have "list_all (op_ok True) []" by simp
  from conjunct2 [OF buffer_memory_safe [OF b(2) this, where want = 18446744073709551611]]
  show "\<exists>b'. flex_make_room 18446744073709551611 (has_written 10 (flex_buffer 16)) = Inr b' \<and>
     length (b_container b') < unat (b_index_write b')"
    unfolding b(3) by simp
qed

text \<open>
  C20. Bytes pushed into a new \<open>flex_buffer\<close> in any chunks are read back whole and in order, whatever the
  initial size, and the buffer is empty again.
\<close>

theorem flex_buffer_chunks_roundtrip:
  assumes "init_size \<le> vector_max_size" and "length (concat chunks) \<le> vector_max_size"
  shows "\<exists>b. res_bind (push_chunks flex_push_back_string chunks (flex_buffer init_size)) take_all =
    Inr (concat chunks, b) \<and> buf_inv b \<and> buf_bytes b = []"
  using assms
  by (intro flex.chunks_roundtrip)
     (simp_all add: flex_buffer_def buffer_base_new_def buf_inv_def buf_compact_def buf_bytes_def flex_fits_def)

theorem flex_buffer_chunks_roundtrip_witness:
  "\<exists>b. res_bind (push_chunks flex_push_back_string [''GET '', ''/'', '' HTTP''] (flex_buffer 2)) take_all =
    Inr (''GET / HTTP'', b) \<and> buf_inv b \<and> buf_bytes b = []"
  using flex_buffer_chunks_roundtrip [of 2 "[''GET '', ''/'', '' HTTP'']"] by (simp add: vector_max_size_def)

text \<open>
  C21. \<open>write_all\<close>, however the connection cuts the data into pieces: it ends, and either all readable bytes have
  been sent in order and the buffer is empty, or the bytes up to some position have been sent, the send
  of the rest made no progress, and the coroutine ends with what that result means (end of file, the
  system's error, or the failed assertion of \<open>has_read\<close> after an interrupted call).
\<close>

theorem write_all_complete:
  assumes "send_ok log (sc_send_some sock)" and "buf_inv b"
  shows "(\<exists>b' w'. write_all sock b w = Some (Inr (b', w')) \<and> buf_inv b' \<and> buf_bytes b' = [] \<and>
      log w' = log w @ buf_bytes b) \<or>
    (\<exists>k w1 n w2. k < length (buf_bytes b) \<and> log w1 = log w @ take k (buf_bytes b) \<and>
      sc_send_some sock (drop k (buf_bytes b)) w1 = (n, w2) \<and> n \<le> 0 \<and>
      write_all sock b w = Some (Inl (send_fault n)))"
  unfolding write_all_def by (rule write_all_loop_complete [OF assms])

theorem write_all_complete_witness:
  "\<exists>b' w'. write_all (mem_connection 2) (has_written 3 (fixed_buffer ''abc'' 3)) ([], ''x'') = Some (Inr (b', w')) \<and>
    snd w' = ''xabc''"
proof -
  let ?b = "has_written 3 (fixed_buffer ''abc'' 3)"
  have b: "buf_inv ?b" "buf_bytes ?b = ''abc''"
    by (simp_all add: buf_inv_def buf_bytes_def has_written_def fixed_buffer_def buffer_base_new_def vector_max_size_def)
  have k: "(2 :: nat) \<le> 2147483647" by simp
  have progress: "\<not> (k < length ''abc'' \<and> sc_send_some (mem_connection 2) (drop k ''abc'') w1 = (n, w2) \<and> n \<le> 0)"
    for k w1 n w2 by (auto simp: mem_connection_def mem_send_def)
  from write_all_complete [OF mem_connection_ok(1) [OF k] b(1), of "([], ''x'')"] show ?thesis
    unfolding b(2) using progress by (elim disjE exE conjE) (simp, blast)
qed

text \<open>
  C22. The parser on the text of a request, with any bytes behind it: it ends, the request is complete and has the
  method, the version, the path, the query and the headers of the text, and the buffer holds the bytes
  behind it.
\<close>

theorem parse_request_roundtrip:
  assumes "method_of meth \<noteq> kInvalid" and "CHR '' '' \<notin> set target" and "CHR 0x0D \<notin> set target"
    and "digit \<in> {CHR ''0'', CHR ''1''}" and "\<forall>kv \<in> set hs. header_ok kv"
    and "buf_inv b" and "buf_bytes b = request_text meth target digit hs @ body"
  shows "\<exists>rq b'. parseRequest http_context_new b = Some (Inr (True, \<lparr>cx_state = kGotAll, cx_request = rq\<rparr>, b')) \<and>
    rq_method rq = method_of meth \<and> rq_version rq = (if digit = CHR ''1'' then kHttp11 else kHttp10) \<and>
    rq_path rq = target_path target \<and> rq_query rq = target_query target \<and>
    (\<forall>k. getHeader k rq = (case map_of (rev hs) k of None \<Rightarrow> [] | Some v \<Rightarrow> v)) \<and>
    buf_inv b' \<and> buf_bytes b' = body"
proof -
  have st: "cx_state http_context_new \<in> {kExpectRequestLine, kExpectHeaders}" by (simp add: http_context_new_def)
  show ?thesis
    using parse_request_text [OF assms(1-5), of body] parse_loop_refines [OF assms(6) st]
    unfolding assms(7) parseRequest_def by blast
qed

theorem parse_request_roundtrip_witness:
  "\<exists>b rq b'. parseRequest http_context_new b = Some (Inr (True, \<lparr>cx_state = kGotAll, cx_request = rq\<rparr>, b')) \<and>
    rq_path rq = ''public/a'' \<and> rq_query rq = ''?x'' \<and> getHeader ''Host'' rq = ''me'' \<and> buf_bytes b' = ''more''"
proof -
  let ?hs = "[(''Host'', ''me'')]" and ?target = "''/a?x''"
  let ?t = "request_text ''GET'' ?target (CHR ''0'') ?hs @ ''more''"
  let ?b = "has_written (of_nat (length ?t)) (buffer_base_new ?t)"
  have req: "method_of ''GET'' \<noteq> kInvalid" "CHR '' '' \<notin> set ?target" "CHR 0x0D \<notin> set ?target"
    "CHR ''0'' \<in> {CHR ''0'', CHR ''1''}" "\<forall>kv \<in> set ?hs. header_ok kv"
    by (simp_all add: method_of_def setMethod_def header_ok_def trimmed_def is_space_def)
  have len: "length ?t = 35" by (simp add: request_text_def crlf_text_def header_text_def)
  have b: "buf_inv ?b" "buf_bytes ?b = ?t"
    unfolding len using len
    by (simp_all add: buf_inv_def buf_bytes_def has_written_def buffer_base_new_def vector_max_size_def)
  have t: "target_path ?target = ''public/a''" "target_query ?target = ''?x''"
    by (simp_all add: target_path_def target_query_def)
  from parse_request_roundtrip [OF req b] show ?thesis
    unfolding t by (elim exE conjE) (intro exI conjI, assumption, assumption, assumption, simp, assumption)
qed

text \<open>
  C23. A block of a pool through a cycle: \<open>read\<close> gives a resource that holds exactly the bytes received, the other
  blocks stay as they are, and the destructor of the resource hands the block back to the kernel under
  its group and id and leaves it free.
\<close>

theorem pool_block_cycle:
  assumes "liburing_ok L" and "room_after_submit L"
    and "m gid = Some g" and "select fd gid (bg_nbytes_per_block g) offset w = (token, bytes, w')"
    and "io_res_flag_await_resume token = (r, int flag)"
    and "0 < r" and "selects g r flag bytes" and "length (b_container (sb_buf (bg_blocks g ! flag))) \<le> 2147483647"
  shows "\<exists>m1 b1. pool_read select fd gid offset m w = Inr ((gid, flag), m1, w') \<and>
    get_block (gid, flag) m1 = Inr b1 \<and> buf_bytes (sb_buf b1) = bytes \<and>
    (\<forall>q. q \<noteq> (gid, flag) \<longrightarrow> get_block q m1 = get_block q m) \<and>
    (\<exists>i m2 c2. resource_delete L (Some (gid, flag)) m1 c = Some (Inr (m2, c2)) \<and>
      sqe_call (uc_sqes c2 i) = Prep_provide_buffers (sb_data b1) (int (length (b_container (sb_buf b1)))) 1
        (uint (sb_group_id (bg_blocks g ! flag))) (uint (sb_buf_id (bg_blocks g ! flag))) \<and>
      sqe_user_data (uc_sqes c2 i) = 0 \<and>
      (\<exists>b2. get_block (gid, flag) m2 = Inr b2 \<and> block_free b2))"
proof -
  obtain m1 b1 where rd: "pool_read select fd gid offset m w = Inr ((gid, flag), m1, w')"
    "get_block (gid, flag) m1 = Inr b1" "buf_inv (sb_buf b1)" "buf_bytes (sb_buf b1) = bytes"
    "sb_buf_id b1 = sb_buf_id (bg_blocks g ! flag)" "sb_group_id b1 = sb_group_id (bg_blocks g ! flag)"
    "\<forall>q. q \<noteq> (gid, flag) \<longrightarrow> get_block q m1 = get_block q m"
    "length (b_container (sb_buf b1)) = length (b_container (sb_buf (bg_blocks g ! flag)))"
    using pool_read_bytes [of m gid g select fd offset w token bytes w' r flag, OF assms(3-7)] by blast
  obtain i m2 c2 where "resource_delete L (Some (gid, flag)) m1 c = Some (Inr (m2, c2))"
    "sqe_call (uc_sqes c2 i) = Prep_provide_buffers (sb_data b1) (int (length (b_container (sb_buf b1)))) 1
      (uint (sb_group_id b1)) (uint (sb_buf_id b1))" "sqe_user_data (uc_sqes c2 i) = 0"
    "\<exists>b2. get_block (gid, flag) m2 = Inr b2 \<and> block_free b2"
    using resource_delete_returns [of L gid flag m1 b1 c, OF assms(1,2) rd(2,3)] assms(8) rd(8) by auto
  then show ?thesis using rd by (intro exI [of _ m1] exI [of _ b1]) auto
qed

theorem pool_block_cycle_witness:
  "\<exists>m m1 b1 w'. pool_read (\<lambda>fd gid k off w. (\<lparr>tk_continuation = 0, tk_result = 2, tk_flags = 65537\<rparr>, ''ok'', w)) 3 7 0 m () =
      Inr ((7, 1), m1, w') \<and>
    get_block (7, 1) m1 = Inr b1 \<and> buf_bytes (sb_buf b1) = ''ok''"
proof -
  define blk where "blk = selected_buffer_new 0 (replicate 4 (CHR 0x00)) 4 7"
  define g where "g = \<lparr>bg_group_id = 7, bg_start_buf_id = 0, bg_nbytes_per_block = 4, bg_blocks = [blk 0, blk 1]\<rparr>"
  let ?t = "\<lparr>tk_continuation = 0, tk_result = 2, tk_flags = 65537\<rparr> :: io_token"
  let ?c = "\<lparr>uc_ring = (0, 0, []), uc_sqes = \<lambda>_. \<lparr>sqe_call = Prep_nop, sqe_flags = 0, sqe_user_data = 0,
      sqe_buf_group = 0, sqe_sync_range_flags = 0\<rparr>, cqe_count = 0, uc_tokens = Map.empty\<rparr>
      :: (nat \<times> nat \<times> cqe list) io_uring_context"
  have m: "[7 \<mapsto> g] 7 = Some g" by simp
  have sel: "(\<lambda>fd gid k off w. (?t, ''ok'', w)) (3 :: int) (7 :: u16) (bg_nbytes_per_block g) (0 :: int) () = (?t, ''ok'', ())"
    by simp
  have tk: "io_res_flag_await_resume ?t = (2, int 1)" by (simp add: io_res_flag_await_resume_def)
  have ok: "selects g 2 1 ''ok''" "length (b_container (sb_buf (bg_blocks g ! 1))) \<le> 2147483647"
    by (simp_all add: selects_def g_def blk_def block_free_def selected_buffer_new_def fixed_buffer_def buffer_base_new_def
        buf_inv_def vector_max_size_def)
  have two: "(0 :: int) < 2" and room: "room_after_submit (mem_ring 2)" by (simp_all add: mem_ring_room)
  from pool_block_cycle [of "mem_ring 2" "[7 \<mapsto> g]" 7 g "\<lambda>fd gid k off w. (?t, ''ok'', w)" 3 0 "()" ?t "''ok''" "()" 2 1 ?c,
      OF mem_ring_ok room m sel tk two ok] show ?thesis by blast
qed

text \<open>
  C24. \<open>recv_some\<close> and \<open>send_some\<close> with a time limit. Given room for two entries, the entry of the request has
  the link flag and the token of the coroutine, and the next entry is the timeout linked to it, with the
  limit converted to seconds and nanoseconds, and detached. When the request takes the last free entry, the
  entry of the timeout is one that the ring gives after it has been submitted: the request is no longer in the queue
  with it, and its token is set after that.
\<close>

theorem timed_request_linked:
  assumes "liburing_ok L" and "distinct_entries L" and "lib_get_sqe L (uc_ring c) = Some (i, r1)"
    and "make_timespec tick_ns dur = Inr ts"
    and "(op, call) \<in> {(recv_some_for L s dst nbytes k tick_ns dur fl tk h,
        Prep_recv (fd_no s) dst (unat (ucast nbytes :: u32)) (unat fl)),
      (send_some_for L s dst nbytes k tick_ns dur fl tk h,
        Prep_send (fd_no s) dst (unat (ucast nbytes :: u32)) (unat fl))}"
  shows "(lib_get_sqe L r1 = Some (j, r2) \<longrightarrow>
    (\<exists>a c'. op c = Some (Inr ((ts, a), c')) \<and>
      a = \<lparr>aw_sqe = i, aw_token_ptr = tk\<rparr> \<and> i \<noteq> j \<and> uc_ring c' = r2 \<and>
      sqe_call (uc_sqes c' i) = call \<and> sqe_flags (uc_sqes c' i) = IOSQE_IO_LINK \<and> sqe_user_data (uc_sqes c' i) = tk \<and>
      sqe_call (uc_sqes c' j) = Prep_link_timeout k 0 \<and> sqe_flags (uc_sqes c' j) = 0 \<and> sqe_user_data (uc_sqes c' j) = 0 \<and>
      uc_tokens c' = (uc_tokens c)(tk \<mapsto> \<lparr>tk_continuation = h, tk_result = 0, tk_flags = 0\<rparr>))) \<and>
    (lib_get_sqe L r1 = None \<and>
      lib_get_sqe L (lib_sqring_wait L (lib_submit L (lib_cq_advance L (cqe_count c) r1))) = Some (j, r2) \<longrightarrow>
    (\<exists>a c'. op c = Some (Inr ((ts, a), c')) \<and>
      a = \<lparr>aw_sqe = i, aw_token_ptr = tk\<rparr> \<and> uc_ring c' = r2 \<and> cqe_count c' = 0 \<and>
      sqe_call (uc_sqes c' j) = Prep_link_timeout k 0 \<and> sqe_user_data (uc_sqes c' i) = tk))"
proof -
  have "op = with_link_timeout L (uring_request L call IOSQE_IO_LINK) k tick_ns dur tk h"
    using assms(5) by (auto simp: recv_some_for_def send_some_for_def uring_recv_def uring_send_def)
  then show ?thesis
    using with_link_timeout_linked [OF assms(1-3) _ assms(4)] with_link_timeout_full [OF assms(1,3) _ _ assms(4)] by simp
qed

theorem timed_request_linked_witness:
  "\<exists>c a c' ts. recv_some_for (mem_ring 2) (socket_new 9) 100 64 200 1 1 0 300 7
      (c :: (nat \<times> nat \<times> cqe list) io_uring_context) = Some (Inr ((ts, a), c')) \<and>
    sqe_call (uc_sqes c' 0) = Prep_recv 9 100 64 0 \<and> sqe_call (uc_sqes c' 1) = Prep_link_timeout 200 0"
proof -
  let ?c = "\<lparr>uc_ring = (0, 0, []), uc_sqes = \<lambda>_. \<lparr>sqe_call = Prep_nop, sqe_flags = 0, sqe_user_data = 0,
      sqe_buf_group = 0, sqe_sync_range_flags = 0\<rparr>, cqe_count = 0, uc_tokens = Map.empty\<rparr>
      :: (nat \<times> nat \<times> cqe list) io_uring_context"
  have g: "lib_get_sqe (mem_ring 2) (uc_ring ?c) = Some (0, (1, 0, []))"
    "lib_get_sqe (mem_ring 2) (1, 0, []) = Some (1, (2, 0, []))" by (simp_all add: mem_ring_def)
  have k: "make_timespec 1 1 = Inr \<lparr>tv_sec = 0, tv_nsec = 1\<rparr>"
    by (simp add: make_timespec_def long_res_def in_long_def LONG_MIN_def LONG_MAX_def signed_divide_int_def
        signed_modulo_int_def)
  have op: "(recv_some_for (mem_ring 2) (socket_new 9) 100 64 200 1 1 0 300 7,
        Prep_recv (fd_no (socket_new 9)) 100 (unat (ucast (64 :: u64) :: u32)) (unat (0 :: u32)))
      \<in> {(recv_some_for (mem_ring 2) (socket_new 9) 100 64 200 1 1 0 300 7,
        Prep_recv (fd_no (socket_new 9)) 100 (unat (ucast (64 :: u64) :: u32)) (unat (0 :: u32))),
      (send_some_for (mem_ring 2) (socket_new 9) 100 64 200 1 1 0 300 7,
        Prep_send (fd_no (socket_new 9)) 100 (unat (ucast (64 :: u64) :: u32)) (unat (0 :: u32)))}" by simp
  from mp [OF conjunct1 [OF timed_request_linked [OF mem_ring_ok mem_ring_distinct g(1) k op]] g(2)] show ?thesis
    by (elim exE conjE) (intro exI [of _ ?c] exI conjI, assumption,
      simp_all add: socket_new_def file_descriptor_new_def)
qed

text \<open>
  C25. Who owns the descriptor after \<open>connect_to\<close>: without addresses it has been closed in every case, also the
  one in the connection that is returned; with a local address the connection owns it, a failed connect
  closes it, and a failed bind leaves it open.
\<close>

theorem connect_ownership:
  assumes "os_accounts opened closed S" and "make_timespec tick_ns dur = Inr k"
    and "os_socket S SOCK_STREAM w = (fd, w1)" and "os_bind S fd l w1 = (b, w2)"
    and "connect_to S Empty_class peer w = Some (r, wa)" and "connect_to_from S cls l peer tick_ns dur w = (q, wb)"
  shows "(case r of
        Inr cn \<Rightarrow> opened wa = opened w @ [fd_no cn] \<and> closed wa = closed w @ [fd_no cn]
      | Inl e \<Rightarrow> opened wa = opened w \<and> closed wa = closed w \<or>
          (\<exists>fd. opened wa = opened w @ [fd] \<and> closed wa = closed w @ [fd])) \<and>
    (case q of
        Inr cn \<Rightarrow> fd_no cn = fd \<and> opened wb = opened w @ [fd] \<and> closed wb = closed w
      | Inl e \<Rightarrow> opened wb = opened w @ (if 0 \<le> fd then [fd] else []) \<and>
          closed wb = closed w @ (if 0 \<le> fd \<and> 0 \<le> b then [fd] else []))"
  using connect_to_accounts [OF assms(1,5)] connect_to_from_accounts [OF assms(1-4,6)] by blast

theorem connect_ownership_witness:
  "\<exists>cn cn' wa wb. connect_to account_os Empty_class (endpoint_of_port Little 80) ([], []) = Some (Inr cn, wa) \<and>
    wa = ([5], [5]) \<and> fd_no cn = 5 \<and>
    connect_to_from account_os Empty_class (endpoint_of_port Little 0) (endpoint_of_port Little 80) 1 1 ([], []) =
      (Inr cn', wb) \<and> wb = ([5], []) \<and> fd_no cn' = 5"
proof -
  let ?p = "endpoint_of_port Little 80" and ?l = "endpoint_of_port Little 0"
  have k: "make_timespec 1 1 = Inr \<lparr>tv_sec = 0, tv_nsec = 1\<rparr>"
    by (simp add: make_timespec_def long_res_def in_long_def LONG_MIN_def LONG_MAX_def signed_divide_int_def
        signed_modulo_int_def)
  have s: "os_socket account_os SOCK_STREAM ([], []) = (5, ([5], []))" "os_bind account_os 5 ?l ([5], []) = (0, ([5], []))"
    by (simp_all add: account_os_def)
  have a: "connect_to account_os Empty_class ?p ([], []) =
      Some (Inr \<lparr>fd_no = 5, cn_addr = No_endpoint\<rparr>, ([5], [5]))"
    by (simp add: connect_to_def new_socket_safe_def socket_or_throw_def account_os_def handle_connect_error_close_def
        connection_of_fd_def socket_new_def file_descriptor_new_def fd_destroy_def fd_invalid_def)
  have b: "connect_to_from account_os Empty_class ?l ?p 1 1 ([], []) = (Inr \<lparr>fd_no = 5, cn_addr = No_endpoint\<rparr>, ([5], []))"
    by (simp add: connect_to_from_def new_socket_safe_def socket_or_throw_def safe_bind_socket_def k account_os_def
        handle_connect_error_close_def connection_of_endpoints_def fd_move_def socket_new_def file_descriptor_new_def)
  from connect_ownership [OF account_os_accounts k s a b] show ?thesis using a b by simp
qed

text \<open>
  C26. The outcomes of \<open>accept\<close>: a new descriptor is handed over, open, with its peer; an error is thrown; an
  interrupted call gives a connection without a valid descriptor; and after \<open>ENFILE\<close> the descriptor of the
  connection that is returned has been closed, as has the spare one before it.
\<close>

theorem accept_outcomes:
  assumes "os_accounts opened closed S" and "ac_listenfd ac = Some lfd" and "ac_backupfd ac = Some spare"
    and "aw_accept S lfd w = (r1, peer1, w1)" and "accept S Peer_class (ac, w) = (r, (ac', w'))"
  shows "(0 \<le> r1 \<longrightarrow> r = Inr (Some \<lparr>fd_no = r1, cn_addr = Peer_endpoint peer1\<rparr>) \<and> ac' = ac \<and>
      opened w' = opened w @ [r1] \<and> closed w' = closed w) \<and>
    (r1 < 0 \<and> r1 \<noteq> - ENFILE \<and> r1 \<noteq> - EINTR \<longrightarrow> r = Inl (System_error (- r1)) \<and> ac' = ac \<and>
      opened w' = opened w \<and> closed w' = closed w) \<and>
    (r1 = - EINTR \<longrightarrow> (\<exists>cn. r = Inr (Some cn) \<and> fd_invalid cn)) \<and>
    (r1 = - ENFILE \<longrightarrow>
      (\<forall>cn. r = Inr (Some cn) \<and> 0 < fd_no cn \<longrightarrow> closed w' = closed w @ [spare, fd_no cn]))"
  by (rule accept_accounts [OF assms])

theorem accept_outcomes_witness:
  "\<exists>ac r ac' w'. accept account_os Peer_class (ac, ([], [])) = (r, (ac', w')) \<and> w' = ([6], []) \<and>
    r = Inr (Some \<lparr>fd_no = 6, cn_addr = Peer_endpoint (endpoint_of_port Little 0)\<rparr>)"
proof -
  let ?ac = "\<lparr>ac_local_addr = endpoint_of_port Little 0, ac_backlog = 8, ac_listenfd = Some 3, ac_backupfd = Some 4\<rparr>"
  have l: "ac_listenfd ?ac = Some 3" "ac_backupfd ?ac = Some 4"
    "aw_accept account_os 3 ([], []) = (6, endpoint_of_port Little 0, ([6], []))"
    by (simp_all add: account_os_def)
  obtain r ac' w' where r: "accept account_os Peer_class (?ac, ([], [])) = (r, (ac', w'))" by (metis prod_cases3)
  from accept_outcomes [OF account_os_accounts l r] have "r = Inr (Some \<lparr>fd_no = 6, cn_addr = Peer_endpoint (endpoint_of_port Little 0)\<rparr>)"
    "fst w' = [6]" "snd w' = []" by simp_all
  then show ?thesis using r by (cases w') auto
qed



text \<open>
  C28. \<open>write_certain\<close> ends in one of three ways: exactly the first \<open>nbytes\<close> readable bytes have been sent and removed
  from the buffer and it returns; or, with a number \<open>k\<close> of bytes sent that is not \<open>nbytes\<close>, a send gives \<open>n \<le> 0\<close>
  and the call ends in the exception for that \<open>n\<close>; or the connection takes so much that the counter leaves the
  range of \<open>int\<close>. It always offers all readable bytes: with a connection that always takes something it returns for
  sure when \<open>nbytes\<close> is their number.
\<close>

theorem write_certain_exact:
  assumes "send_ok log (sc_send_some sock)" and "buf_inv b" and "nbytes \<le> 2147483647"
  shows "((\<exists>b' w'. write_certain sock nbytes b w = Some (Inr (b', w')) \<and> buf_inv b' \<and>
      0 \<le> nbytes \<and> nbytes \<le> int (length (buf_bytes b)) \<and>
      buf_bytes b' = drop (nat nbytes) (buf_bytes b) \<and> log w' = log w @ take (nat nbytes) (buf_bytes b)) \<or>
    (\<exists>k w1 n w2. k \<le> length (buf_bytes b) \<and> int k \<noteq> nbytes \<and> log w1 = log w @ take k (buf_bytes b) \<and>
      sc_send_some sock (drop k (buf_bytes b)) w1 = (n, w2) \<and>
      (n \<le> 0 \<and> write_certain sock nbytes b w = Some (Inl (send_fault n)) \<or>
       0 < n \<and> nbytes - int k - n < - 2147483648 \<and> write_certain sock nbytes b w = Some (Inl Signed_overflow)))) \<and>
    (send_progress (sc_send_some sock) \<and> nbytes = int (length (buf_bytes b)) \<longrightarrow>
      (\<exists>b' w'. write_certain sock nbytes b w = Some (Inr (b', w')) \<and> buf_inv b' \<and> buf_bytes b' = [] \<and>
        log w' = log w @ buf_bytes b))"
    (is "(?sent \<or> ?failed) \<and> _")
proof (intro conjI impI)
  show or: "?sent \<or> ?failed"
    using write_certain_loop_exact [OF assms(1,2,3), of w] unfolding write_certain_def .
  assume all: "send_progress (sc_send_some sock) \<and> nbytes = int (length (buf_bytes b))"
  have "\<not> ?failed"
  proof
    assume ?failed
    then obtain k w1 n w2 where f: "k \<le> length (buf_bytes b)" "int k \<noteq> nbytes"
        "sc_send_some sock (drop k (buf_bytes b)) w1 = (n, w2)" "n \<le> 0 \<or> nbytes - int k - n < - 2147483648" by blast
    have "n \<le> int (length (drop k (buf_bytes b)))" by (rule send_okD(2) [OF assms(1) f(3)])
    then have "n \<le> 0" using f(1,4) all by simp
    then have "drop k (buf_bytes b) = []" by (rule send_progressD [OF conjunct1 [OF all] f(3)])
    then show False using f(1,2) all by simp
  qed
  with or have ?sent by blast
  then show "\<exists>b' w'. write_certain sock nbytes b w = Some (Inr (b', w')) \<and> buf_inv b' \<and> buf_bytes b' = [] \<and>
      log w' = log w @ buf_bytes b"
    using all by auto
qed

theorem write_certain_exact_witness:
  "\<exists>b' w'. write_certain (mem_connection 2) 3 (has_written 3 (fixed_buffer ''abc'' 3)) ([], ''x'') =
      Some (Inr (b', w')) \<and> snd w' = ''xabc'' \<and> buf_bytes b' = []"
proof -
  let ?b = "has_written 3 (fixed_buffer ''abc'' 3)"
  have b: "buf_inv ?b" "buf_bytes ?b = ''abc''"
    by (simp_all add: buf_inv_def buf_bytes_def has_written_def fixed_buffer_def buffer_base_new_def vector_max_size_def)
  have k: "(2 :: nat) \<le> 2147483647" by simp
  have p: "send_progress (sc_send_some (mem_connection 2)) \<and> 3 = int (length (buf_bytes ?b))"
    unfolding b(2) by (simp add: send_progress_def mem_connection_def mem_send_def)
  have "(3 :: int) \<le> 2147483647" by simp
  from mp [OF conjunct2 [OF write_certain_exact [OF mem_connection_ok(1) [OF k] b(1) this, of "([], ''x'')"]] p]
  show ?thesis unfolding b(2) by (elim exE conjE) (intro exI conjI, assumption, simp_all)
qed

text \<open>
  C29. \<open>read_certain\<close> and the functions that read a line return exactly when the bytes or the line they wait for
  are readable already, and then receive nothing; otherwise they end with an exception or not at all. The
  length is the distance converted to \<open>int\<close>, which is the length of the first line with its line feed when no
  more than \<open>2 ^ 31 - 1\<close> bytes are readable; for a line that ends in CR LF it is one less in the overload with
  a time limit.
\<close>

theorem read_line_result:
  assumes "buf_inv b"
  shows "(read_certain sock nbytes b w = Some (Inr (b', w')) \<longleftrightarrow> of_int nbytes \<le> readable b \<and> b' = b \<and> w' = w) \<and>
    (read_line sock b w = Some (Inr (n, b', w')) \<longleftrightarrow>
      (\<exists>p. find_eol b = Inr (Some p) \<and> n = to_int32 (int p - int (unat (b_index_read b)) + 1)) \<and> b' = b \<and> w' = w) \<and>
    (read_crlf_line sock b w = Some (Inr (n, b', w')) \<longleftrightarrow>
      (\<exists>p. find_crlf b = Inr (Some p) \<and> n = to_int32 (int p - int (unat (b_index_read b)) + 2)) \<and> b' = b \<and> w' = w) \<and>
    (read_crlf_line_for sock dur b w = Some (Inr (n, b', w')) \<longleftrightarrow>
      (\<exists>p. find_crlf b = Inr (Some p) \<and> n = to_int32 (int p - int (unat (b_index_read b)) + 1)) \<and> b' = b \<and> w' = w) \<and>
    (length (buf_bytes b) \<le> 2147483647 \<and> read_line sock b w = Some (Inr (n, b', w')) \<longrightarrow>
      (\<exists>i. n = int i + 1 \<and> i < length (buf_bytes b) \<and> buf_bytes b ! i = CHR 0x0A \<and>
        CHR 0x0A \<notin> set (take i (buf_bytes b))))"
  unfolding read_certain_def read_line_def read_crlf_line_def read_crlf_line_for_def
    read_certain_loop_result [OF assms] read_line_with_result [OF assms sees_readable_finders(1)]
    read_line_with_result [OF assms sees_readable_finders(2)]
  using find_eol_line [OF assms] by blast

theorem read_line_result_witness:
  "read_line (mem_connection 9) (has_written 4 (fixed_buffer (''ab'' @ [CHR 0x0A, CHR ''c'']) 4)) (''line'', []) =
      Some (Inr (3, has_written 4 (fixed_buffer (''ab'' @ [CHR 0x0A, CHR ''c'']) 4), (''line'', []))) \<and>
    \<not> (\<exists>n b' w'. read_line (mem_connection 9) (fixed_buffer ''abc'' 3) (''line'', []) = Some (Inr (n, b', w')))"
proof -
  let ?b = "has_written 4 (fixed_buffer (''ab'' @ [CHR 0x0A, CHR ''c'']) 4)"
  have b: "buf_inv ?b" "find_eol ?b = Inr (Some 2)" "b_index_read ?b = 0"
    by (simp_all add: buf_inv_def has_written_def fixed_buffer_def buffer_base_new_def vector_max_size_def find_eol_def
        readable_def mem_read_def)
  have e: "buf_inv (fixed_buffer ''abc'' 3)" "find_eol (fixed_buffer ''abc'' 3) = Inr None"
    by (simp_all add: buf_inv_def fixed_buffer_def buffer_base_new_def vector_max_size_def find_eol_def readable_def
        mem_read_def)
  have "to_int32 3 = 3" by (rule to_int32_id) simp_all
  then have "read_line (mem_connection 9) ?b (''line'', []) = Some (Inr (3, ?b, (''line'', [])))"
    using read_line_result [OF b(1), of "mem_connection 9" 1 "(''line'', [])" ?b "(''line'', [])" 3] b(2,3) by simp
  moreover have "read_line (mem_connection 9) (fixed_buffer ''abc'' 3) (''line'', []) \<noteq> Some (Inr (n, b', w'))" for n b' w'
    using read_line_result [OF e(1), of "mem_connection 9" 1 "(''line'', [])" b' w' n] e(2) by simp
  ultimately show ?thesis by blast
qed

text \<open>
  C30. Printing and parsing addresses: the text of \<open>address_str\<close> gives back the address, with any port, exactly
  when its last octet is below 128.
\<close>

theorem address_str_roundtrip:
  "(\<exists>s. address_str e = Inr s \<and> endpoint_new Little s p =
      Inr \<lparr>sin_family = AF_INET, sin_port = host_to_network Little p, sin_addr = sin_addr e\<rparr>) \<longleftrightarrow>
    octet (sin_addr e) 3 < 128"
  using address_str_parses [of e p] address_str_rejected [of e _ Little p] by (metis Inl_Inr_False not_le)

text \<open>
  C31. The time buffer: rewriting only what has changed since the last line gives the same buffer as formatting the
  whole time stamp, no assertion fails, and the buffer is again one that the next line can start from.
\<close>

theorem update_datetime_incremental:
  assumes "time_inv a" and "log_time_ok t"
  shows "update_datetime (timestamp_new t) a = update_datetime_all (a\<lparr>al_last_time := timestamp_new t\<rparr>) \<and>
    (\<exists>a'. update_datetime (timestamp_new t) a = Inr a' \<and> time_inv a' \<and>
      take time_string_len (al_time_buffer a') = date_text (timestamp_new t) @ base_time_text (timestamp_new t) @ micro_text (timestamp_new t))"
proof -
  let ?a = "a\<lparr>al_last_time := timestamp_new t, al_time_buffer := time_text (timestamp_new t) @ [CHR 0x00]\<rparr>"
  note ok = log_time_ts_ok [OF assms(2)]
  have u: "update_datetime (timestamp_new t) a = Inr ?a" by (rule update_datetime_time_text [OF assms])
  have "length (al_time_buffer a) = 29" using assms(1) by (simp add: time_inv_def time_lens)
  then have "update_datetime_all (a\<lparr>al_last_time := timestamp_new t\<rparr>) = Inr ?a"
    using format_all [OF _ ok] by (simp add: update_datetime_all_def time_end_def time_lens)
  moreover have "take time_string_len (al_time_buffer ?a) = time_text (timestamp_new t)"
    using text_lengths [OF ok] by (simp add: time_text_def time_lens)
  ultimately show ?thesis
    using u time_inv_written [OF assms(2), of a] by (intro conjI exI [of _ ?a]) (simp_all add: time_text_def)
qed

theorem update_datetime_incremental_witness:
  "\<exists>a a'. update_datetime (timestamp_new 86400000000000) a = Inr a' \<and>
    take time_string_len (al_time_buffer a') =
      date_text (timestamp_new 86400000000000) @ base_time_text (timestamp_new 86400000000000) @ micro_text (timestamp_new 86400000000000)"
proof -
  have t: "log_time_ok 0" "log_time_ok 86400000000000"
    by (simp_all add: log_time_ok_def in_long_def LONG_MIN_def LONG_MAX_def)
  obtain a where "time_inv a" using time_inv_written [OF t(1)] by blast
  from update_datetime_incremental [OF this t(2)] show ?thesis by blast
qed

text \<open>
  C32. Messages from other threads: with fewer than \<open>EV_STOP_MSG\<close> messages since the last read, whose sum the
  read returns, the coroutine of the event descriptor stops the loop and ends exactly when one of them
  was a stop message; otherwise the loop goes on and the next read has been requested.
\<close>

theorem stop_message_recognised:
  assumes "liburing_ok L" and "room_after_submit L" and "\<not> stopped c"
    and "set msgs \<subseteq> {EV_WAKEUP_MSG, EV_STOP_MSG}" and "length msgs < unat EV_STOP_MSG"
    and "unat (le_msg E (uc_ring c)) = sum_list (map unat msgs)"
  shows "if EV_STOP_MSG \<in> set msgs then eventfd_resume L E c = Some (Inr (False, c\<lparr>stopped := True\<rparr>))
    else \<exists>i c'. eventfd_resume L E c = Some (Inr (True, c')) \<and> \<not> stopped c' \<and>
      sqe_call (uc_sqes c' i) = Prep_read (internal_event_fd c) (le_event_msg E) 8 0 \<and>
      sqe_user_data (uc_sqes c' i) = le_event_tk E"
  using stop_in_sum [OF assms(4-6)] eventfd_resume_rearms [OF assms(1-3), of E]
  by (auto simp: eventfd_resume_def eventfd_loop_def)

theorem stop_message_recognised_witness:
  "\<exists>E (c :: (nat \<times> nat \<times> cqe list) io_context).
    \<not> stopped c \<and> eventfd_resume (mem_ring 4) E c = Some (Inr (False, c\<lparr>stopped := True\<rparr>))"
proof -
  let ?c = "\<lparr>uc_ring = (0, 0, []), uc_sqes = \<lambda>_. \<lparr>sqe_call = Prep_nop, sqe_flags = 0, sqe_user_data = 0,
      sqe_buf_group = 0, sqe_sync_range_flags = 0\<rparr>, cqe_count = 0, uc_tokens = Map.empty,
    internal_event_fd = 5, internal_signal_fd = - 1, stopped = False, todo_list = [],
    my_scope = async_scope_new, ic_timer = timer_new 1 2, timer_event = ar_waiter 30, signal_func = None,
    signal_calls = [], timeout_tmp = \<lparr>tv_sec = 0, tv_nsec = 0\<rparr>\<rparr> :: (nat \<times> nat \<times> cqe list) io_context"
  let ?E = "\<lparr>le_event = 10, le_event_tk = 11, le_event_msg = 12, le_signal = 20, le_signal_tk = 21,
    le_signal_info = 22, le_signal_func = None, le_timeout = 30, le_timeout_tk = 31, le_timeout_ts = 32, le_msg = \<lambda>_. EV_STOP_MSG + 2,
    le_signo = \<lambda>_. 0, le_now = \<lambda>_. 100\<rparr> :: (nat \<times> nat \<times> cqe list) loop_env"
  have m: "length [EV_WAKEUP_MSG, EV_STOP_MSG, EV_WAKEUP_MSG] < unat EV_STOP_MSG"
    "unat (le_msg ?E (uc_ring ?c)) = sum_list (map unat [EV_WAKEUP_MSG, EV_STOP_MSG, EV_WAKEUP_MSG])"
    by (simp_all add: EV_STOP_MSG_def EV_WAKEUP_MSG_def)
  have "eventfd_resume (mem_ring 4) ?E ?c = Some (Inr (False, ?c\<lparr>stopped := True\<rparr>))"
    using stop_message_recognised [OF mem_ring_ok mem_ring_room _ _ m] by simp
  then show ?thesis by (intro exI [of _ ?E] exI [of _ ?c]) simp
qed

text \<open>
  C33. \<open>single_consumer_event\<close>, with any number of calls of \<open>set\<close> and \<open>reset\<close> interleaved with the awaiting
  coroutine: a suspended consumer is registered in the event or is about to be resumed by exactly one
  caller of \<open>set\<close>, so a wake-up is never lost; and no caller is about to resume a coroutine that is
  not suspended.
\<close>

theorem event_no_lost_wakeup:
  assumes "(sce_step h)\<^sup>*\<^sup>* (sce_init initiallySet) s"
  shows "(pc s = Suspended \<longleftrightarrow> wakers s = 1 \<or> m_state (ev s) = not_set_consumer_waiting) \<and>
    \<not> sce_bad_resume h s"
  using sce_reach_inv [OF assms] by (auto simp: sce_inv_def sce_bad_resume_def resume_awaiter_def)

theorem event_no_lost_wakeup_witness:
  "\<exists>s. (sce_step 7)\<^sup>*\<^sup>* (sce_init False) s \<and> pc s = Suspended \<and> wakers s = 1 \<and> \<not> sce_bad_resume 7 s"
proof -
  let ?s1 = "(sce_init False)\<lparr>pc := Checked\<rparr>"
  let ?s2 = "?s1\<lparr>pc := Stored, ev := store_awaiter 7 (ev ?s1)\<rparr>"
  let ?s3 = "?s2\<lparr>pc := Suspended, ev := (ev ?s2)\<lparr>m_state := not_set_consumer_waiting\<rparr>\<rparr>"
  let ?s4 = "?s3\<lparr>ev := (ev ?s3)\<lparr>m_state := is_set_state\<rparr>, wakers := 1\<rparr>"
  have "sce_step 7 (sce_init False) ?s1"
    by (rule not_ready) (simp_all add: sce_init_def sce_await_ready_def is_set_def single_consumer_event_new_def)
  moreover have "sce_step 7 ?s1 ?s2" by (rule sce_step.store) simp
  moreover have "sce_step 7 ?s2 ?s3"
    using cas [of ?s2 True "(ev ?s2)\<lparr>m_state := not_set_consumer_waiting\<rparr>" 7]
    by (simp add: cas_waiting_def store_awaiter_def sce_init_def single_consumer_event_new_def)
  moreover have "sce_step 7 ?s3 ?s4"
    using exchange [of ?s3 not_set_consumer_waiting "(ev ?s3)\<lparr>m_state := is_set_state\<rparr>" 7]
    by (simp add: set_exchange_def sce_init_def)
  ultimately have reach: "(sce_step 7)\<^sup>*\<^sup>* (sce_init False) ?s4"
    by (meson rtranclp.rtrancl_refl rtranclp.rtrancl_into_rtrancl)
  then show ?thesis
    using event_no_lost_wakeup [OF reach] by (intro exI [of _ ?s4]) simp
qed

text \<open>
  C34. For every legal use of an \<open>async_scope\<close> the operations do not fault, and the joining coroutine goes on
  exactly once, when the scope is joined and all that was spawned has finished, and not before.
\<close>

theorem async_scope_joins:
  assumes "scope_ok 0 False ops" and "length ops < 18446744073709551615"
  shows "\<exists>s. scope_run on_work_started scope_await_suspend on_work_finished ops async_scope_new =
    Inr (woken (scope_end 0 None ops), s)"
  using scope.scope_wakes [of async_scope_new 0 None ops] assms async_scope_new_count by simp

theorem async_scope_joins_witness:
  "\<exists>s. scope_run on_work_started scope_await_suspend on_work_finished
    [Spawn, Spawn, Finished, Join 9, Finished] async_scope_new = Inr ([9], s)"
  using async_scope_joins [of "[Spawn, Spawn, Finished, Join 9, Finished]"] by (simp add: woken_def)

text \<open>
  C35. Scope guards: a guard that is moved any number of times, whose objects are destroyed in any order \<open>del\<close>,
  runs its function exactly once; after \<open>cancel\<close> not at all; after \<open>call_now\<close> no second time. A conditional
  guard runs it when and only when the scope is left in the way it is for.
\<close>

theorem scope_guard_runs_once:
  assumes "mset del = mset (move_guard n (on_scope_exit f))"
    and "mset del_cancelled = mset (move_guard n (sl_cancel (on_scope_exit f)))"
    and "sl_call_now (on_scope_exit f) w = (g, w')" and "mset del_called = mset (move_guard n g)"
    and "mset del_conditional = mset (move_conditional n (conditional_new f before))"
  shows "fold scoped_lambda_delete del w = f w \<and> fold scoped_lambda_delete del_cancelled w = w \<and>
    fold scoped_lambda_delete del_called w' = f w \<and>
    fold (conditional_delete on_failure now) del_conditional w = (if (before < now) = on_failure then f w else w)"
proof -
  have run: "fold scoped_lambda_delete xs v = (if sl_cancelled h then v else sl_func h v)"
    if xs: "mset xs = mset (move_guard n h)" for xs and h :: "'a scoped_lambda" and v
  proof -
    obtain others where others: "move_guard n h = \<lparr>sl_func = sl_func h, sl_cancelled = sl_cancelled h\<rparr> # others"
        "\<forall>x \<in> set others. sl_cancelled x"
      using move_guard_shape [of n h] by blast
    have "fold scoped_lambda_delete xs v =
        scoped_lambda_delete \<lparr>sl_func = sl_func h, sl_cancelled = sl_cancelled h\<rparr> v"
      by (rule fold_one_acts [OF xs [unfolded others(1)]]) (use others(2) in \<open>simp add: scoped_lambda_delete_def\<close>)
    then show ?thesis by (simp add: scoped_lambda_delete_def)
  qed
  obtain others where others: "move_conditional n (conditional_new f before) = conditional_new f before # others"
      "\<forall>x \<in> set others. cl_cancelled x"
    using move_conditional_shape [of n "conditional_new f before"] by (auto simp: conditional_new_def)
  have "fold (conditional_delete on_failure now) del_conditional w =
      conditional_delete on_failure now (conditional_new f before) w"
    by (rule fold_one_acts [OF assms(5) [unfolded others(1)]]) (use others(2) in \<open>simp add: conditional_delete_def\<close>)
  then show ?thesis
    using run [OF assms(1), of w] run [OF assms(2), of w] run [OF assms(4), of w'] assms(3)
    by (auto simp: on_scope_exit_def scoped_lambda_new_def sl_cancel_def sl_call_now_def Let_def conditional_delete_def
        conditional_new_def is_unwinding_due_to_exception_def)
qed

theorem scope_guard_runs_once_witness:
  "fold scoped_lambda_delete (rev (move_guard 2 (on_scope_exit Suc))) 0 = 1"
proof -
  have "mset (rev (move_guard 2 (on_scope_exit Suc))) = mset (move_guard 2 (on_scope_exit Suc))" by simp
  from scope_guard_runs_once [OF this refl _ refl refl, of 0] show ?thesis by (metis One_nat_def surj_pair)
qed

text \<open>
  C36. \<open>io_uring_get_sqe_safe\<close> returns whenever submitting makes room, and changes neither the next
  completion to look at nor any completion from there on; when it had to submit, the completions
  counted so far have been given back and the counter is zero.
\<close>

theorem get_sqe_safe_returns:
  assumes "liburing_ok L" and "room_after_submit L"
  shows "\<exists>i c'. io_uring_get_sqe_safe L c = Some (Inr (i, c')) \<and> cq_pos L c' = cq_pos L c \<and>
    cq_kept L (cq_pos L c) (uc_ring c) (uc_ring c') \<and> uc_sqes c' = uc_sqes c \<and> uc_tokens c' = uc_tokens c \<and>
    (lib_get_sqe L (uc_ring c) = None \<longrightarrow> cqe_count c' = 0)"
  using get_sqe_safe_ok [OF assms] unfolding cq_evolves_def by blast

theorem get_sqe_safe_returns_witness:
  "\<exists>i c'. io_uring_get_sqe_safe (mem_ring 2)
      \<lparr>uc_ring = (2, 0, [\<lparr>cqe_user_data = 0, cqe_res = 0, cqe_flags = 0\<rparr>]), uc_sqes = \<lambda>_. \<lparr>sqe_call = Prep_nop,
        sqe_flags = 0, sqe_user_data = 0, sqe_buf_group = 0, sqe_sync_range_flags = 0\<rparr>, cqe_count = 1,
       uc_tokens = Map.empty\<rparr> = Some (Inr (i, c')) \<and> cq_pos (mem_ring 2) c' = 1 \<and> cqe_count c' = 0"
  using get_sqe_safe_returns [OF mem_ring_ok [of 2] mem_ring_room [of 2], of
    "\<lparr>uc_ring = (2, 0, [\<lparr>cqe_user_data = 0, cqe_res = 0, cqe_flags = 0\<rparr>]), uc_sqes = \<lambda>_. \<lparr>sqe_call = Prep_nop,
        sqe_flags = 0, sqe_user_data = 0, sqe_buf_group = 0, sqe_sync_range_flags = 0\<rparr>, cqe_count = 1,
       uc_tokens = Map.empty\<rparr>"]
  by (auto simp: cq_pos_def mem_ring_def)

text \<open>
  C37. Eager tasks: when the task finishes before it is awaited, nothing is resumed and the awaiting
  coroutine goes on at once; when it is awaited first, the awaiting coroutine is suspended and the end
  of the task resumes exactly it. The result or exception is the same either way.
\<close>

theorem async_task_either_order:
  assumes "F t = Some f" and "f_point f \<noteq> At_final" and "who_await_me (f_promise f) = 0" and "t \<noteq> 0"
    and "F h = Some g" and "f_point g \<noteq> At_final" and "h \<noteq> 0" and "h \<noteq> t"
  shows "(\<exists>F'. async_finish t r F = Inr (0, F') \<and> async_co_await t h F' = Inr (False, F') \<and>
      async_await_resume F' t = Inr r) \<and>
    (\<exists>F1 F2. async_co_await t h F = Inr (True, F1) \<and> async_finish t r F1 = Inr (h, F2) \<and>
      async_await_resume F2 t = Inr r)"
  using async_finish_then_await [of F t f r h, OF assms(1,3,4)]
    async_await_then_finish [of F t f h g r, OF assms(1,2,5,6,4,7,8)] by blast

theorem async_task_either_order_witness:
  "let F = [1 \<mapsto> \<lparr>f_promise = task_promise_new, f_point = At_wait Co_return\<rparr>,
            2 \<mapsto> \<lparr>f_promise = task_promise_new, f_point = At_body (Co_return (0 :: nat))\<rparr>]
   in \<exists>F1 F2. async_co_await 1 2 F = Inr (True, F1) \<and> async_finish 1 (Inr 7) F1 = Inr (2, F2) \<and>
      async_await_resume F2 1 = Inr (Inr 7)"
  using async_task_either_order [of "[1 \<mapsto> \<lparr>f_promise = task_promise_new, f_point = At_wait Co_return\<rparr>,
      2 \<mapsto> \<lparr>f_promise = task_promise_new, f_point = At_body (Co_return (0 :: nat))\<rparr>]" 1 _ 2 _ "Inr 7"]
  by (simp add: Let_def task_promise_new_def)

text \<open>
  C38. \<open>sync_wait\<close> under any interleaving of its thread with the operation that completes with \<open>r\<close>: when the
  thread is back from \<open>wait\<close>, the promise holds \<open>r\<close>; and once \<open>set\<close> is over, the thread's next step
  takes it back from \<open>wait\<close>.
\<close>

theorem sync_wait_returns_result:
  assumes "(sync_step r)\<^sup>*\<^sup>* sync_wait s"
  shows "(w_pc (sy_event s) = Returned \<longrightarrow> sw_promise_result (sy_promise s) = Inr r) \<and>
    (s_pc (sy_event s) = Done \<longrightarrow> w_pc (lw_waiter (sy_event s)) = Returned)"
  using sync_wait_result [OF assms] sync_wait_wakes [OF assms] by blast

theorem sync_wait_returns_result_witness:
  "\<exists>s. (sync_step (Inr (3 :: nat)))\<^sup>*\<^sup>* sync_wait s \<and> w_pc (sy_event s) = Returned \<and>
    sw_promise_result (sy_promise s) = Inr (Inr 3)"
proof -
  let ?s1 = "sync_wait\<lparr>sy_promise := make_sync_wait_task (Inr 3) (sy_promise (sync_wait :: nat sync_system)),
    sy_event := (sy_event (sync_wait :: nat sync_system))\<lparr>s_pc := Storing\<rparr>\<rparr> :: nat sync_system"
  let ?e2 = "(sy_event ?s1)\<lparr>s_pc := Waking, m_value := 1\<rparr>"
  let ?e3 = "?e2\<lparr>w_pc := Returned\<rparr>"
  have "sync_step (Inr 3) sync_wait ?s1"
    by (rule sync_step.completes) (simp_all add: sync_wait_def lw_new_def sw_start_def)
  moreover have "sync_step (Inr 3) ?s1 (?s1\<lparr>sy_event := ?e2\<rparr>)"
    using lw_step.store [of "sy_event ?s1"] by (intro sync_step.event) simp_all
  moreover have "sync_step (Inr 3) (?s1\<lparr>sy_event := ?e2\<rparr>) (?s1\<lparr>sy_event := ?e2\<rparr>\<lparr>sy_event := ?e3\<rparr>)"
    using lw_step.load [of ?e2] by (intro sync_step.event) (auto simp: sync_wait_def lw_new_def)
  ultimately have reach: "(sync_step (Inr 3))\<^sup>*\<^sup>* sync_wait (?s1\<lparr>sy_event := ?e2\<rparr>\<lparr>sy_event := ?e3\<rparr>)"
    by (meson rtranclp.rtrancl_refl rtranclp.rtrancl_into_rtrancl)
  from sync_wait_returns_result [OF this] reach show ?thesis by (intro exI [of _ "?s1\<lparr>sy_event := ?e2\<rparr>\<lparr>sy_event := ?e3\<rparr>"]) simp
qed

text \<open>
  C39. \<open>when_all\<close> over a tuple of operations that end with \<open>rs\<close>, some without a value (\<open>voids\<close>), some at once and the
  others later in any order: the awaiting coroutine \<open>h\<close> is suspended only when some are pending, is
  resumed exactly once, and in whatever order \<open>order\<close> the results are asked for it gets the values in the order of the
  operations, or the exception of the failed operation that is asked first.
\<close>

theorem when_all_tuple_results:
  assumes "length rs < 18446744073709551615" and "length voids = length rs"
    and "\<forall>i < length rs. outcome_fits (voids ! i) (rs ! i)"
    and "set others = {i. i < length rs \<and> \<not> at_once i}" and "distinct others"
    and "set order = {..<length rs}"
  shows "\<exists>w1 w2. wt_co_await (sync_results at_once rs) h (when_all_ready_tuple voids) = Inr ([], others \<noteq> [], w1) \<and>
    tuple_complete_all (late_results others rs) w1 = Inr (if others = [] then [] else [h], w2) \<and>
    when_all_tuple_resume order w2 = Inr (case List.find (\<lambda>i. \<exists>e. rs ! i = Inl e) order of
      Some i \<Rightarrow> Inl (projl (rs ! i)) | None \<Rightarrow> Inr (map projr rs))"
  by (rule when_all_tuple_completes [OF assms])

theorem when_all_tuple_results_witness:
  "\<exists>w1 w2. wt_co_await (sync_results (\<lambda>i. i = 1) [Inr (Tuple_value 5), Inr Void_value, Inr (Tuple_value (7 :: nat))]) 4
      (when_all_ready_tuple [False, True, False]) = Inr ([], True, w1) \<and>
    tuple_complete_all (late_results [2, 0] [Inr (Tuple_value 5), Inr Void_value, Inr (Tuple_value 7)]) w1 = Inr ([4], w2) \<and>
    when_all_tuple_resume [2, 1, 0] w2 = Inr (Inr [Tuple_value 5, Void_value, Tuple_value 7])"
proof -
  let ?rs = "[Inr (Tuple_value 5), Inr Void_value, Inr (Tuple_value (7 :: nat))] :: nat tuple_value res list"
  have fits: "\<forall>i < length ?rs. outcome_fits ([False, True, False] ! i) (?rs ! i)"
    by (simp add: outcome_fits_def less_Suc_eq)
  have late: "set [2, 0 :: nat] = {i. i < length ?rs \<and> \<not> i = 1}" and order: "set [2, 1, 0 :: nat] = {..<length ?rs}" by auto
  from when_all_tuple_results [OF _ _ fits late _ order, of 4] show ?thesis by simp
qed

text \<open>
  C40. \<open>single_consumer_async_auto_reset_event\<close> under any interleaving: the assertion of \<open>await_suspend\<close>
  holds, a suspended consumer is registered or about to be resumed by exactly one caller of \<open>set\<close>, and
  a caller that is to resume finds it suspended.
\<close>

theorem auto_reset_event_safe:
  assumes "(ar_step h)\<^sup>*\<^sup>* (ar_init initiallySet) s"
  shows "(apc s = ARunning \<longrightarrow> (\<exists>r. ar_cas h (ast s) = Inr r)) \<and>
    (apc s = ASuspended \<longleftrightarrow> ast s = ar_waiter h \<or> resetting s + resuming s = 1) \<and>
    resetting s + resuming s \<le> 1"
  using ar_reach_inv [OF assms]
  by (cases "ast s") (auto simp: ar_inv_def ar_cas_def)

theorem auto_reset_event_safe_witness:
  "\<exists>s. (ar_step 7)\<^sup>*\<^sup>* (ar_init False) s \<and> apc s = ASuspended \<and> resetting s + resuming s = 1"
proof -
  let ?s1 = "(ar_init False)\<lparr>apc := ASuspended, ast := ar_waiter 7\<rparr>"
  let ?s2 = "?s1\<lparr>ast := ar_this, resetting := 1\<rparr>"
  have "ar_step 7 (ar_init False) ?s1"
    using await [of "ar_init False" 7 True "ar_waiter 7"]
    by (simp add: ar_init_def auto_reset_event_new_def ar_cas_def)
  moreover have "ar_step 7 ?s1 ?s2"
    using set1 [of ?s1 "Some 7" ar_this 7] by (simp add: ar_set_exchange_def ar_init_def)
  ultimately have reach: "(ar_step 7)\<^sup>*\<^sup>* (ar_init False) ?s2"
    by (meson rtranclp.rtrancl_refl rtranclp.rtrancl_into_rtrancl)
  show ?thesis using auto_reset_event_safe [OF reach] reach
    by (intro exI [of _ ?s2]) (simp add: ar_init_def)
qed

section \<open>Further facts\<close>

text \<open>
  \<open>add_event\<close> schedules the coroutine for \<open>now + timeout\<close>: when that is a value of \<open>long\<close> the event is
  added, and \<open>handle_events\<close> at any time from then on resumes the coroutine, for less than \<open>2 ^ 31\<close> events.
\<close>

theorem timer_add_event_wakes:
  assumes "timer_rep t es" and "place \<noteq> 0" and "s_heap t place = None" and "in_long (now + timeout)"
    and "length es < 2147483647" and "now + timeout \<le> at" and "at < LONG_MAX"
  shows "\<exists>t' n hs t''. add_event place draws now cont timeout t = Some (Inr t') \<and>
    handle_events at (\<lambda>h (rs, t). Some (Inr (rs @ [h], t))) ([], t') = Some (Inr (n, hs, t'')) \<and>
    cont \<in> set hs \<and> n = int (length hs)"
proof -
  obtain t' where t': "add_event place draws now cont timeout t = Some (Inr t')"
    "timer_rep t' (ins_entry (now + timeout) cont es)"
    using add_event_rep [OF assms(1-4)] by blast
  have "(now + timeout, cont) \<in> set (ins_entry (now + timeout) cont es)" by (simp add: ins_entry_def)
  then have "cont \<in> set (map snd (filter (is_due at) (ins_entry (now + timeout) cont es)))"
    using assms(6) by (force simp: is_due_def)
  moreover have "length (filter (is_due at) (ins_entry (now + timeout) cont es)) \<le> 2147483647"
    using length_filter_le [of "is_due at" "ins_entry (now + timeout) cont es"] assms(5) by (simp add: length_ins_entry)
  ultimately show ?thesis
    using t' handle_events_passive [OF t'(2) _ assms(7), of "[]"] assms(5)
    by (fastforce simp: length_ins_entry)
qed

theorem timer_add_event_wakes_witness:
  "\<exists>t' n hs t''. add_event 3 (\<lambda>_. False) 100 7 50 (timer_new 1 2) = Some (Inr t') \<and>
    handle_events 150 (\<lambda>h (rs, t). Some (Inr (rs @ [h], t))) ([], t') = Some (Inr (n, hs, t'')) \<and>
    7 \<in> set hs \<and> n = int (length hs)"
  by (rule timer_add_event_wakes [OF timer_new_rep])
     (simp_all add: timer_new_def skiplist_new_def in_long_def LONG_MIN_def LONG_MAX_def)

text \<open>
  \<open>get_next_expiration\<close> is the time to the earliest event, zero when that is past, as a timespec
  whose nanoseconds are in range.
\<close>

theorem timer_next_expiration:
  assumes "timer_rep t ((k, c) # es)" and "in_long (k - now)" and "in_long ((k - now) * 1000)"
  shows "\<exists>ts. get_next_expiration now t = Inr ts \<and> 0 \<le> tv_nsec ts \<and> tv_nsec ts < 1000000000 \<and>
    tv_sec ts * 1000000000 + tv_nsec ts = max 0 (k - now) * 1000"
  using assms by (rule get_next_expiration_first)

theorem timer_next_expiration_witness:
  "\<exists>t ts. timer_rep t [(1500010, 1)] \<and> get_next_expiration 10 t = Inr ts \<and> 0 \<le> tv_nsec ts \<and>
    tv_nsec ts < 1000000000 \<and> tv_sec ts * 1000000000 + tv_nsec ts = 1500000000"
proof -
  obtain t where t: "timer_rep t [(1500010, 1)]"
    using map_rep_exists [of "[(1500010, 1 :: nat)]" LONG_MAX] by (auto simp: timer_rep_def LONG_MAX_def)
  then show ?thesis
    using timer_next_expiration [OF t, of 10] by (auto simp: in_long_def LONG_MIN_def LONG_MAX_def)
qed

text \<open>
  \<open>push_back\<close> on a \<open>fixed_buffer\<close> whose unread bytes start at the front: it appends when the bytes fit
  and otherwise throws, and it never writes outside the array.
\<close>

theorem fixed_push_back_or_throw:
  assumes "buf_inv b" and "buf_compact b" and "length src = unat len"
  shows "if length (buf_bytes b) + length src \<le> length (b_container b)
    then \<exists>b'. fixed_push_back src len b = Inr b' \<and> buf_inv b' \<and> buf_bytes b' = buf_bytes b @ src \<and>
      length (b_container b') = length (b_container b)
    else fixed_push_back src len b = Inl (Runtime_error ''cannot make room for fixed buffer'')"
proof (cases "length (buf_bytes b) + length src \<le> length (b_container b)")
  case True
  then show ?thesis
    using fixed_push_back_exact [OF assms(1,3)] take_bytes_compact [OF assms(2,1)] by auto
next
  case False
  then show ?thesis using fixed_push_back_throws [OF assms(1), of len src] assms(3) by simp
qed

theorem fixed_push_back_or_throw_witness:
  "fixed_push_back ''abc'' 3 (fixed_buffer ''xy'' 2) = Inl (Runtime_error ''cannot make room for fixed buffer'')"
  using fixed_push_back_or_throw [of "fixed_buffer ''xy'' 2" "''abc''" 3]
  by (simp add: fixed_buffer_def buffer_base_new_def buf_inv_def buf_compact_def buf_bytes_def vector_max_size_def)

text \<open>
  What \<open>flex_buffer::push_back\<close> does in every state of the indices: the readable bytes afterwards are
  the first \<open>readable ()\<close> bytes of the container, not the unread ones, followed by the new bytes.
\<close>

theorem make_room_stale_bytes:
  assumes "buf_inv b" and "length src = unat len"
    and "length (buf_bytes b) + length src \<le> vector_max_size"
  shows "\<exists>b'. flex_push_back src len b = Inr b' \<and> buf_inv b' \<and>
    buf_bytes b' = take (length (buf_bytes b)) (b_container b) @ src"
  using flex_push_back_exact [OF assms] by blast

theorem make_room_stale_bytes_witness:
  "\<exists>b'. flex_push_back ''!'' 1 \<lparr>b_container = ''abcd'', b_index_read = 2, b_index_write = 4\<rparr> = Inr b' \<and>
    buf_bytes b' = ''ab!'' \<and>
    buf_bytes \<lparr>b_container = ''abcd'', b_index_read = 2, b_index_write = 4\<rparr> = ''cd''"
  using make_room_stale_bytes [of "\<lparr>b_container = ''abcd'', b_index_read = 2, b_index_write = 4\<rparr>" "''!''" 1]
  by (auto simp: buf_inv_def buf_bytes_def vector_max_size_def)

text \<open>
  An integer stored in network byte order at the front of the buffer is what \<open>pop_int\<close> returns, on
  hosts of either byte order, and exactly its bytes are consumed.
\<close>

theorem pop_int_network_order:
  fixes x :: "'a::len word"
  assumes "buf_inv b" and "8 dvd LENGTH('a)" and "LENGTH('a) \<le> 64"
    and "buf_bytes b = store_word order (host_to_network order x) @ rest"
  shows "\<exists>b'. pop_int order b = Inr (x, b') \<and> buf_inv b' \<and> buf_bytes b' = rest"
  using assms by (rule pop_int_takes)

theorem pop_int_network_order_witness:
  "\<exists>b'. pop_int Little \<lparr>b_container = [CHR 0x12, CHR 0x34, CHR ''z''], b_index_read = 0, b_index_write = 3\<rparr> =
    Inr (0x1234 :: u16, b') \<and> buf_inv b' \<and> buf_bytes b' = ''z''"
proof -
  have "store_word Little (host_to_network Little (0x1234 :: u16)) = store_word Big (0x1234 :: u16)"
    by (rule store_host_to_network) simp
  moreover have "le_bytes 2 0x1234 = [CHR 0x34, CHR 0x12]" by code_simp
  ultimately have "store_word Little (host_to_network Little (0x1234 :: u16)) = [CHR 0x12, CHR 0x34]"
    by (simp add: store_word_def)
  then show ?thesis
    by (intro pop_int_network_order) (simp_all add: buf_inv_def buf_bytes_def vector_max_size_def)
qed

text \<open>
  \<open>find_crlf\<close>: a null pointer means that no position of the readable bytes starts a CRLF; a pointer is
  to the first CRLF, which lies inside the readable bytes.
\<close>

theorem find_crlf_first_match:
  assumes "buf_inv b"
  shows "\<exists>r. find_crlf b = Inr r \<and> (case r of
      None \<Rightarrow> list_all (\<lambda>j. \<not> is_prefix (take 2 kCRLF) (drop j (buf_bytes b))) [0..<length (buf_bytes b)]
    | Some p \<Rightarrow> \<exists>i. p = unat (b_index_read b) + i \<and> i + 2 \<le> length (buf_bytes b) \<and>
        is_prefix (take 2 kCRLF) (drop i (buf_bytes b)) \<and>
        list_all (\<lambda>j. \<not> is_prefix (take 2 kCRLF) (drop j (buf_bytes b))) [0..<i])"
proof -
  obtain r where r: "find_crlf b = Inr r"
    using search_from_front [OF assms, of "take 2 kCRLF"] by (simp add: find_crlf_def)
  then show ?thesis
    using find_crlf_first [OF assms] by (cases r) (auto simp: list_all_iff)
qed

theorem find_crlf_first_match_witness:
  "\<exists>r. find_crlf \<lparr>b_container = ''ab'' @ kCRLF, b_index_read = 1, b_index_write = 6\<rparr> = Inr r \<and> r = Some 2"
  using find_crlf_first_match [of "\<lparr>b_container = ''ab'' @ kCRLF, b_index_read = 1, b_index_write = 6\<rparr>"]
  by (simp add: buf_inv_def vector_max_size_def kCRLF_def find_crlf_def search_from_def
      range_to_back_def mem_read_def)

text \<open>
  \<open>when_all_counter\<close> for \<open>i + j\<close> tasks: whenever the awaiting coroutine registers among the
  completions, it continues exactly once, after the last of them; while one completion is missing
  nothing is resumed.
\<close>

theorem when_all_counter_joins:
  assumes "i + j < 18446744073709551614"
  shows "(\<exists>c. join_run try_await notify_awaitable_completed
        (replicate i Finish @ Register h # replicate j Finish)
        (when_all_counter_new (of_nat (i + j))) = Inr ([h], c)) \<and>
    (\<exists>c. join_run try_await notify_awaitable_completed
        (replicate i Finish @ Register h # replicate j Finish)
        (when_all_counter_new (of_nat (Suc (i + j)))) = Inr ([], c))"
proof -
  have u: "unat (of_nat (i + j) :: u64) = i + j" "unat (of_nat (Suc (i + j)) :: u64) = Suc (i + j)"
    using assms by (intro of_nat_less_u64; simp)+
  have "unat (wc_count (when_all_counter_new (of_nat (i + j)))) = Suc (i + j)"
    using when_all_counter_new_count [of "of_nat (i + j)"] u(1) assms by simp
  moreover have "unat (wc_count (when_all_counter_new (of_nat (Suc (i + j))))) = Suc (Suc (i + j))"
    using when_all_counter_new_count [of "of_nat (Suc (i + j))"] u(2) assms by simp
  ultimately show ?thesis
    using all_counter.join_once [of _ i j h] all_counter.join_not_before [of i j _ h] by (metis lessI)
qed

theorem when_all_counter_joins_witness:
  "\<exists>c. join_run try_await notify_awaitable_completed [Finish, Register 4, Finish] (when_all_counter_new 2) = Inr ([4], c)"
  using when_all_counter_joins [of 1 1 4] by simp

text \<open>
  \<open>lightweight_manual_reset_event\<close>: in every reachable state a thread that has returned from \<open>wait\<close>
  found the event set, and once a call of \<open>set\<close> is done the waiting thread is not asleep and its next
  step makes it return.
\<close>

theorem manual_reset_wait_returns:
  assumes "lw_step\<^sup>*\<^sup>* (lw_new initiallySet) s"
  shows "(w_pc s = Returned \<longrightarrow> m_value s = 1) \<and>
    (s_pc s = Done \<longrightarrow> w_pc s \<noteq> Asleep \<and> w_pc (lw_waiter s) = Returned)"
  using lw_reach_inv [OF assms] lw_done_returns [OF assms] by (auto simp: lw_inv_def)

theorem manual_reset_wait_returns_witness:
  "\<exists>s. lw_step\<^sup>*\<^sup>* (lw_new False) s \<and> s_pc s = Done \<and> w_pc (lw_waiter s) = Returned"
proof -
  let ?s1 = "(lw_new False)\<lparr>s_pc := Storing\<rparr>"
  let ?s2 = "?s1\<lparr>s_pc := Waking, m_value := 1\<rparr>"
  let ?s3 = "?s2\<lparr>s_pc := Done\<rparr>"
  have "lw_step (lw_new False) ?s1" by (rule call_set) (simp add: lw_new_def)
  moreover have "lw_step ?s1 ?s2" by (rule lw_step.store) simp
  moreover have "lw_step ?s2 ?s3" using wake [of ?s2] by (simp add: lw_new_def)
  ultimately have reach: "lw_step\<^sup>*\<^sup>* (lw_new False) ?s3"
    by (meson rtranclp.rtrancl_refl rtranclp.rtrancl_into_rtrancl)
  then show ?thesis using manual_reset_wait_returns [OF reach] by (intro exI [of _ ?s3]) simp
qed

text \<open>
  \<open>erase_one\<close> tells whether the key is there, and then removes the first entry with it and nothing
  else; the list stays well formed.
\<close>

theorem skiplist_erase_one:
  assumes "map_rep maxKey s es" and "k < maxKey"
  shows "\<exists>s'. erase_one k s = Some (Inr (k \<in> fst ` set es, s')) \<and>
    map_rep maxKey s' (if k \<in> fst ` set es then del_entry k es else es)"
  using assms by (rule map_erase_rep)

theorem skiplist_erase_one_witness:
  "\<exists>s s'. map_rep (100 :: int) s [(5, ''a''), (7, ''b''), (7, ''c'')] \<and>
    erase_one 7 s = Some (Inr (True, s')) \<and> map_rep 100 s' [(5, ''a''), (7, ''c'')]"
proof -
  obtain s where s: "map_rep (100 :: int) s [(5, ''a''), (7, ''b''), (7, ''c'')]"
    using map_rep_exists [of "[(5, ''a''), (7, ''b''), (7, ''c'')]" "100 :: int"] by auto
  then show ?thesis using skiplist_erase_one [OF s, of 7] by (auto simp: del_entry_def)
qed

text \<open>
  \<open>contains\<close> ends, and is true exactly when the list has an entry with the key.
\<close>

theorem skiplist_contains:
  assumes "map_rep maxKey s es" and "k < maxKey"
  shows "contains k s = Some (Inr (k \<in> fst ` set es))"
  using assms by (rule map_contains_rep)

theorem skiplist_contains_witness:
  "\<exists>s. map_rep (100 :: int) s [(5, ''a'')] \<and> contains 5 s = Some (Inr True)"
proof -
  obtain s where s: "map_rep (100 :: int) s [(5, ''a'')]"
    using map_rep_exists [of "[(5, ''a'')]" "100 :: int"] by auto
  then show ?thesis using skiplist_contains [OF s, of 5] by auto
qed

text \<open>
  The destructor ends, frees every data node and the dummy tail, and no other block.
\<close>

theorem skiplist_delete_frees_all:
  assumes "sl_shape s ns"
  shows "skiplist_delete s = Some (Inr (\<lambda>a. if a \<in> set (ns @ [s_tail s]) then None else s_heap s a))"
  using skiplist_delete_frees [OF assms] by (simp add: free_all_def)

theorem skiplist_delete_frees_all_witness:
  "\<exists>h. skiplist_delete (skiplist_new (0 :: nat) 9 ''v'' 1 2) = Some (Inr h) \<and> h 2 = None \<and> h 1 \<noteq> None"
proof -
  have "sl_shape (skiplist_new (0 :: nat) 9 ''v'' 1 2) []"
    using skiplist_new_inv(1) [of 1 2 "0 :: nat" 9 "''v''"] by (simp add: sl_inv_def)
  from skiplist_delete_frees_all [OF this] show ?thesis by (auto simp: skiplist_new_def)
qed

text \<open>
  \<open>check_correctness\<close> accepts every well-formed list with fewer than 99,998 entries.
\<close>

theorem skiplist_self_check:
  assumes "sl_inv s ns" and "length ns < 99998"
    and "\<And>a. a \<in> set (ns @ [s_tail s]) \<Longrightarrow> key (s_heap s) (s_head s) \<le> key (s_heap s) a"
  shows "check_correctness s = Inr True"
  using assms by (rule check_correctness_true)

theorem skiplist_self_check_witness:
  "check_correctness (skiplist_new (0 :: nat) 9 ''v'' 1 2) = Inr True"
  by (rule skiplist_self_check [OF skiplist_new_inv(1)])
     (simp_all add: skiplist_new_def key_def info_def new_node_def)

text \<open>
  \<open>itoad\<close> prints a number that reads back as the argument, in at most eleven characters for an \<open>int\<close> of
  32 bits.
\<close>

theorem itoad_prints_decimal:
  assumes "- 2147483648 \<le> n" and "n < 2147483648"
  shows "dec_int (itoad n) = n \<and> length (itoad n) \<le> 11"
  using itoad_dec_int [of n] itoad_length [OF assms] by simp

theorem itoad_prints_decimal_witness:
  "dec_int (itoad (- 128)) = - 128 \<and> length (itoad (- 128)) \<le> 11"
  by (rule itoad_prints_decimal) simp_all

text \<open>
  \<open>itoa2\<close> ends for every radix from two to sixteen, and its digits denote the unsigned value.
\<close>

theorem itoa2_prints_radix:
  assumes "2 \<le> rdx" and "rdx \<le> 16"
  shows "\<exists>str. itoa2 v rdx cap = Some (Inr str) \<and> radix_nat rdx 0 str = unat v"
  using assms by (rule itoa2_radix_nat)

theorem itoa2_prints_radix_witness:
  "\<exists>str. itoa2 255 16 False = Some (Inr str) \<and> radix_nat 16 0 str = 255"
  using itoa2_prints_radix [of 16 255 False] by simp

text \<open>
  \<open>host_to_network\<close> lays the bytes of an integer out most significant first on hosts of either order,
  and \<open>network_to_host\<close> undoes it.
\<close>

theorem host_to_network_bytes:
  fixes x :: "'a::len word"
  assumes "8 dvd LENGTH('a)"
  shows "store_word order (host_to_network order x) = rev (le_bytes (LENGTH('a) div 8) (unat x)) \<and>
    network_to_host order (host_to_network order x) = x"
  using store_host_to_network [OF assms, of order x] network_host_roundtrip [OF assms, of order x]
  by (simp add: store_word_def sizeof_word_def)

theorem host_to_network_bytes_witness:
  "store_word Little (host_to_network Little (0x0102 :: u16)) = rev (le_bytes 2 0x0102) \<and>
    network_to_host Little (host_to_network Little (0x0102 :: u16)) = 0x0102"
  using host_to_network_bytes [of Little "0x0102 :: u16"] by simp

text \<open>
  \<open>full\<close> answers the opposite of what its name says: it is false exactly when the ring holds as many
  elements as its capacity.
\<close>

theorem ring_full_inverted:
  assumes "ring_inv r"
  shows "full r \<longleftrightarrow> length (items r) < unat (ring_capacity r)"
  using free_entries_zero_iff [OF assms] ring_bounded [OF assms] by (auto simp: full_def ring_capacity_def)

theorem ring_full_inverted_witness:
  "\<exists>r. spsc_ring_new 8 8 = Inr (r :: int spsc_ring) \<and> items r = [] \<and> full r"
proof -
  obtain r :: "int spsc_ring" where r: "spsc_ring_new 8 (2 ^ 3) = Inr r" "ring_inv r" "items r = []"
    "unat (ring_capacity r) = 2 ^ 3 - 1"
    using spsc_ring_new_pow2 [of 3 8] by (auto simp: k_padding_def k_cache_line_size_def)
  then show ?thesis using ring_full_inverted [OF r(2)] by auto
qed

text \<open>
  The two conversions of a duration to a time specification agree on every number of nanoseconds
  that a \<open>long\<close> holds, negative ones included.
\<close>

theorem dur2ts_equals_make_timespec:
  assumes "in_long dur"
  shows "make_timespec 1 dur = Inr (dur2ts dur)"
  by (rule dur2ts_make_timespec [OF assms])

theorem dur2ts_equals_make_timespec_witness:
  "make_timespec 1 (- 1500000001) = Inr \<lparr>tv_sec = - 1, tv_nsec = - 500000001\<rparr>"
  using dur2ts_equals_make_timespec [of "- 1500000001"]
  by (simp add: in_long_def LONG_MIN_def LONG_MAX_def dur2ts_def signed_divide_int_def)

text \<open>
  \<open>do_todo_list\<close> starts every scheduled task once and in order and counts each in the scope; the tasks
  that are scheduled meanwhile, here \<open>adds t\<close> by task \<open>t\<close>, are the list of the next round.
\<close>

theorem todo_list_runs_once:
  assumes "0 < unat (sc_count (my_scope c))"
    and "unat (sc_count (my_scope c)) + length (todo_list c) < 18446744073709551616"
  shows "\<exists>c'. do_todo_list (logging_work adds) c = Some (Inr c') \<and>
    io_context.more c' = io_context.more c @ todo_list c \<and> todo_list c' = concat (map adds (todo_list c)) \<and>
    unat (sc_count (my_scope c')) = unat (sc_count (my_scope c)) + length (todo_list c)"
  using execute_all_log [of "c\<lparr>todo_list := []\<rparr>" "todo_list c" adds] assms
  by (auto simp: do_todo_list_def)

theorem todo_list_runs_once_witness:
  "\<exists>c'. do_todo_list (logging_work (\<lambda>t. [t + 10]))
     (\<lparr>uc_ring = (0, 0, []), uc_sqes = \<lambda>_. \<lparr>sqe_call = Prep_nop, sqe_flags = 0, sqe_user_data = 0,
      sqe_buf_group = 0, sqe_sync_range_flags = 0\<rparr>, cqe_count = 0, uc_tokens = Map.empty,
    internal_event_fd = 5, internal_signal_fd = - 1, stopped = False, todo_list = [3, 1, 2],
    my_scope = async_scope_new, ic_timer = timer_new 1 2, timer_event = ar_waiter 30, signal_func = None,
    signal_calls = [], timeout_tmp = \<lparr>tv_sec = 0, tv_nsec = 0\<rparr>, \<dots> = []\<rparr> :: (nat \<times> nat \<times> cqe list, handle list) io_context_scheme) = Some (Inr c') \<and>
    io_context.more c' = [3, 1, 2] \<and> todo_list c' = [13, 11, 12]"
  using todo_list_runs_once [of "\<lparr>uc_ring = (0, 0, []), uc_sqes = \<lambda>_. \<lparr>sqe_call = Prep_nop, sqe_flags = 0, sqe_user_data = 0,
      sqe_buf_group = 0, sqe_sync_range_flags = 0\<rparr>, cqe_count = 0, uc_tokens = Map.empty,
    internal_event_fd = 5, internal_signal_fd = - 1, stopped = False, todo_list = [3, 1, 2],
    my_scope = async_scope_new, ic_timer = timer_new 1 2, timer_event = ar_waiter 30, signal_func = None,
    signal_calls = [], timeout_tmp = \<lparr>tv_sec = 0, tv_nsec = 0\<rparr>, \<dots> = []\<rparr> :: (nat \<times> nat \<times> cqe list, handle list) io_context_scheme" "\<lambda>t. [t + 10]"]
  by (auto simp: async_scope_new_def)

text \<open>
  Iterating from \<open>begin\<close> to \<open>end\<close> ends and visits all entries in order, here folding \<open>f\<close> over them; from \<open>find k\<close>
  it visits those from the first entry with key \<open>k\<close> on, none if there is no such entry; and a value assigned through that
  iterator replaces the value of this entry and changes nothing else.
\<close>

theorem skiplist_iterates:
  assumes "map_rep maxKey s es" and "k < maxKey"
  shows "\<exists>b i. list_begin s = Inr b \<and> sorted (map fst es) \<and>
    for_each (iter_deref s) (iter_next s) iter_differs f (list_end s) b w = Some (Inr (fold f es w)) \<and>
    find k s = Some (Inr i) \<and>
    for_each (iter_deref s) (iter_next s) iter_differs f (list_end s) i w =
      Some (Inr (fold f (if k \<in> fst ` set es then dropWhile (\<lambda>e. fst e < k) es else []) w)) \<and>
    (k \<in> fst ` set es \<longrightarrow> iter_key s i = Inr k \<and>
      (\<exists>s'. iter_set_value s i v = Inr s' \<and> map_rep maxKey s' (set_entry k v es)))"
proof -
  obtain b where b: "list_begin s = Inr b" "iter_at s b es" using begin_at [OF assms(1)] by blast
  obtain i where i: "find k s = Some (Inr i)"
      "iter_at s i (if k \<in> fst ` set es then dropWhile (\<lambda>e. fst e < k) es else [])"
    using find_at [OF assms] by blast
  have "k \<in> fst ` set es \<Longrightarrow> iter_key s i = Inr k \<and> (\<exists>s'. iter_set_value s i v = Inr s' \<and> map_rep maxKey s' (set_entry k v es))"
    using find_set_value [OF assms, of v] i(1) by auto
  then show ?thesis
    using b(1) i(1) map_rep_sorted [OF assms(1)]
    by (intro exI [of _ b] exI [of _ i]) (simp add: skiplist_range.for_each_fold [OF b(2)] skiplist_range.for_each_fold [OF i(2)])
qed

theorem skiplist_iterates_witness:
  "\<exists>(s :: (int, char) skiplist) b i. list_begin s = Inr b \<and> find 7 s = Some (Inr i) \<and>
    for_each (iter_deref s) (iter_next s) iter_differs (\<lambda>e acc. acc @ [snd e]) (list_end s) b [] = Some (Inr ''abc'') \<and>
    for_each (iter_deref s) (iter_next s) iter_differs (\<lambda>e acc. acc @ [snd e]) (list_end s) i [] = Some (Inr ''bc'')"
proof -
  obtain s where s: "map_rep 99 s [(3 :: int, CHR ''a''), (7, CHR ''b''), (8, CHR ''c'')]"
    using map_rep_exists [of "[(3 :: int, CHR ''a''), (7, CHR ''b''), (8, CHR ''c'')]" 99] by auto
  have k: "(7 :: int) < 99" by simp
  from skiplist_iterates [OF s k, of "\<lambda>e acc. acc @ [snd e]" "[]" "CHR ''x''"] show ?thesis by auto
qed

text \<open>
  \<open>print\<close> returns and has written one line per level, the highest first, where \<open>cell\<close> is the text of a key: the head,
  every node of the list in order, as its cell or as seven dashes if it does not reach the level, and the tail.
\<close>

theorem skiplist_print_levels:
  assumes "sl_shape s ns"
  shows "skiplist_print cell s = Some (Inr ([CHR 0x0A, CHR 0x0A] @ concat (map (\<lambda>i.
    cell (key (s_heap s) (s_head s)) @
    concat (map (\<lambda>a. if i < height (s_heap s) a then cell (key (s_heap s) a) else replicate 7 (CHR ''-'')) ns) @
    cell (key (s_heap s) (s_tail s)) @ [CHR 0x0A]) (rev [0..<s_max_level s]))))"
  using skiplist_print_lines [OF assms, of cell] by (simp add: line_part_def)

theorem skiplist_print_levels_witness:
  "\<exists>s. skiplist_print (\<lambda>k. if k = (0 :: int) then ''[ 0]-->'' else ''[99]-->'') (s :: (int, nat) skiplist) =
    Some (Inr ([CHR 0x0A, CHR 0x0A] @ ''[ 0]-->[99]-->'' @ [CHR 0x0A]))"
proof -
  let ?s = "skiplist_new (0 :: int) 99 (0 :: nat) 1 2"
  have s: "sl_shape ?s []" using skiplist_new_inv(1) [of 1 2 "0 :: int" 99 "0 :: nat"] by (simp add: sl_inv_def)
  have "s_max_level ?s = 1" "key (s_heap ?s) (s_head ?s) = 0" "key (s_heap ?s) (s_tail ?s) = 99"
    by (simp_all add: skiplist_new_def key_def info_def new_node_def)
  then show ?thesis
    using skiplist_print_levels [OF s, of "\<lambda>k. if k = (0 :: int) then ''[ 0]-->'' else ''[99]-->''"]
    by (intro exI [of _ ?s]) simp
qed

text \<open>
  The example that connects with a time limit always ends. If it has stopped the context, whatever it has opened has been
  closed once; otherwise the connection was made and its descriptor closed twice.
\<close>

theorem connect_example_outcome:
  assumes "os_accounts opened closed S" and "\<And>he. lookup ''www.google.com'' = Some he \<Longrightarrow>
    h_addrtype he = AF_INET \<and> length (h_addr he) = 4 \<and> octet (load_word order (h_addr he)) 3 < 128"
  shows "\<exists>out stop w'. connect_example S order lookup what w = Some (Inr (out, stop, w')) \<and>
    (if stop then \<exists>fds. opened w' = opened w @ fds \<and> closed w' = closed w @ fds
     else \<exists>fd. opened w' = opened w @ [fd] \<and> closed w' = closed w @ [fd, fd])"
proof -
  consider "from_resolve_port order lookup ''www.google.com'' 80 = Inl (Runtime_error ''address resolve fails'')"
    | ep shown where "from_resolve_port order lookup ''www.google.com'' 80 = Inr ep" "address_str ep = Inr shown"
    using resolve_outcome [of lookup "''www.google.com''" order 80] assms(2) by blast
  then show ?thesis
  proof cases
    case 1
    then show ?thesis by (auto simp: connect_example_def catch_it_def)
  next
    case 2
    have "make_timespec 1000000000 3 = Inr \<lparr>tv_sec = 3, tv_nsec = 0\<rparr>"
      by (simp add: make_timespec_def long_res_def in_long_def LONG_MIN_def LONG_MAX_def)
    from connect_to_for_accounts [OF assms(1) this, of ep w]
    obtain r w1 where r: "connect_to_for S Empty_class ep 1000000000 3 w = Some (r, w1)"
        "case r of Inr cn \<Rightarrow> 0 \<le> fd_no cn \<and> opened w1 = opened w @ [fd_no cn] \<and> closed w1 = closed w @ [fd_no cn]
         | Inl e \<Rightarrow> is_exception e \<and> (\<exists>fds. opened w1 = opened w @ fds \<and> closed w1 = closed w @ fds)" by blast
    show ?thesis
    proof (cases r)
      case (Inl e)
      then show ?thesis using 2 r by (auto simp: connect_example_def catch_it_def)
    next
      case (Inr cn)
      then show ?thesis
        using 2 r os_accountsD(6) [OF assms(1), of "fd_no cn" w1]
        by (auto simp: connect_example_def fd_destroy_def fd_invalid_def closes_def)
    qed
  qed
qed

theorem connect_example_outcome_witness:
  "\<exists>out w'. connect_example account_os Little (\<lambda>h. None) (\<lambda>e. ''failed'') ([], []) = Some (Inr (out, True, w')) \<and>
    fst w' = snd w'"
proof -
  have "\<exists>out stop w'. connect_example account_os Little (\<lambda>h. None) (\<lambda>e. ''failed'') ([], []) = Some (Inr (out, stop, w')) \<and>
    (if stop then \<exists>fds. fst w' = fst ([] :: int list, [] :: int list) @ fds \<and> snd w' = snd ([] :: int list, [] :: int list) @ fds
     else \<exists>fd. fst w' = fst ([] :: int list, [] :: int list) @ [fd] \<and> snd w' = snd ([] :: int list, [] :: int list) @ [fd, fd])"
    by (rule connect_example_outcome [OF account_os_accounts]) simp
  moreover have "connect_example account_os Little (\<lambda>h. None) (\<lambda>e. ''failed'') ([], []) =
      Some (Inr (''inside root coroutine: failed'' @ [CHR 0x0A], True, ([], [])))"
    by (simp add: connect_example_def from_resolve_port_def endpoint_resolve_def catch_it_def)
  ultimately show ?thesis by auto
qed

end
